(* ===== verification/Prelude.thy ===== *)
theory Prelude
  imports Main "HOL-Library.Word"
begin

text \<open>
  The vocabulary every component shares: the machine integers of the Go source, the
  errors and panics its functions end in, the state-and-error threading of its methods,
  and the byte codecs of \<^verbatim>\<open>encoding/binary\<close>.
\<close>

unbundle bit_operations_syntax

section \<open>Machine integers and byte strings\<close>

type_synonym u8 = "8 word"
type_synonym u16 = "16 word"
type_synonym u32 = "32 word"
type_synonym u64 = "64 word"
type_synonym bytes = "u8 list"

named_theorems codec_simps \<open>round trips and bit facts of the byte codecs\<close>
named_theorems preserves_intros \<open>how the combinators of methods keep an invariant\<close>

section \<open>Errors, panics and methods\<close>

text \<open>
  A Go function reports a failure as an \<^verbatim>\<open>error\<close> value, or panics, or never returns. All
  three are values here, so that each is a branch of the model. \<open>Diverges\<close> stands for a loop
  that makes no progress and so runs for ever.
\<close>

datatype gopanic = SliceBounds | IndexRange | DivideByZero | NilDeref

datatype goerr =
    Unmapped u64 nat
  | VmNil
  | InvalidSize int
  | OutsideRange u64
  | NotAligned u64
  | RegisterRange u64
  | DescriptorRange u16
  | NoGuestMemory
  | ChainLoop
  | ReadableAfterWritable
  | RequestTooLarge
  | NoReadableBytes
  | ResponseTooLarge nat nat
  | IrqFailed
  | WriteFailed
  | ReadFailed
  | PayloadTruncated
  | ChainTooSmall nat nat
  | HeaderTooShort nat
  | Misaligned
  | QueueMissing u16
  | MissingPRP
  | PageTooSmall
  | NotContiguous
  | ShortWrite
  | ZeroPRP
  | ZeroPRPList
  | BackendFailed
  | ReclaimFailed
  | ParentMissing u64
  | Panic gopanic
  | Diverges

text \<open>
  A method takes the receiver's state and returns its results, or the error, together with
  the state it leaves behind: Go keeps the updates made before an early return.
\<close>

type_synonym ('s, 'a) gomethod = "'s \<Rightarrow> (goerr + 'a) \<times> 's"

definition return_ok :: "'a \<Rightarrow> ('s, 'a) gomethod" where
  "return_ok x s = (Inr x, s)"

definition return_err :: "goerr \<Rightarrow> ('s, 'a) gomethod" where
  "return_err e s = (Inl e, s)"

definition and_then :: "('s, 'a) gomethod \<Rightarrow> ('a \<Rightarrow> ('s, 'b) gomethod) \<Rightarrow> ('s, 'b) gomethod" where
  "and_then m f s = (case m s of (Inl e, s') \<Rightarrow> (Inl e, s') | (Inr x, s') \<Rightarrow> f x s')"

definition modify_state :: "('s \<Rightarrow> 's) \<Rightarrow> ('s, unit) gomethod" where
  "modify_state f s = (Inr (), f s)"

text \<open>An operation on a part of the state, given how to read and how to replace that part.\<close>

definition zoom :: "('s \<Rightarrow> 't) \<Rightarrow> ('t \<Rightarrow> 's \<Rightarrow> 's) \<Rightarrow> ('t, 'a) gomethod \<Rightarrow> ('s, 'a) gomethod" where
  "zoom get put m s = (case m (get s) of (r, t) \<Rightarrow> (r, put t s))"

lemma return_ok_simp [simp]: "return_ok x s = (Inr x, s)"
  by (simp add: return_ok_def)

lemma return_err_simp [simp]: "return_err e s = (Inl e, s)"
  by (simp add: return_err_def)

lemma modify_state_simp [simp]: "modify_state f s = (Inr (), f s)"
  by (simp add: modify_state_def)

lemma and_then_ok: "m s = (Inr x, s') \<Longrightarrow> and_then m f s = f x s'"
  by (simp add: and_then_def)

lemma and_then_err: "m s = (Inl e, s') \<Longrightarrow> and_then m f s = (Inl e, s')"
  by (simp add: and_then_def)

lemma and_then_eq_ok:
  "and_then m f s = (Inr y, t) \<longleftrightarrow> (\<exists>x s'. m s = (Inr x, s') \<and> f x s' = (Inr y, t))"
  by (auto simp: and_then_def split: prod.splits sum.splits)

text \<open>A method keeps an invariant when it does so on every branch, the failing ones included.\<close>

definition preserves :: "('s \<Rightarrow> bool) \<Rightarrow> ('s, 'a) gomethod \<Rightarrow> bool" where
  "preserves I m \<longleftrightarrow> (\<forall>s. I s \<longrightarrow> I (snd (m s)))"

lemma preservesI: "(\<And>s. I s \<Longrightarrow> I (snd (m s))) \<Longrightarrow> preserves I m"
  by (simp add: preserves_def)

lemma preservesD: "preserves I m \<Longrightarrow> I s \<Longrightarrow> I (snd (m s))"
  by (simp add: preserves_def)

lemma preserves_return_ok [preserves_intros]: "preserves I (return_ok x)"
  by (simp add: preserves_def)

lemma preserves_return_err [preserves_intros]: "preserves I (return_err e)"
  by (simp add: preserves_def)

lemma preserves_modify [preserves_intros]: "(\<And>s. I s \<Longrightarrow> I (f s)) \<Longrightarrow> preserves I (modify_state f)"
  by (simp add: preserves_def)

lemma preserves_and_then [preserves_intros]:
  "preserves I m \<Longrightarrow> (\<And>x. preserves I (f x)) \<Longrightarrow> preserves I (and_then m f)"
  by (force simp: preserves_def and_then_def split: prod.splits sum.splits)

lemma preserves_if [preserves_intros]:
  "(b \<Longrightarrow> preserves I m) \<Longrightarrow> (\<not> b \<Longrightarrow> preserves I m') \<Longrightarrow> preserves I (if b then m else m')"
  by simp

section \<open>Word arithmetic without wrap-around\<close>

lemma unat_add_of_nat:
  "unat (a :: 'a::len word) + n < 2 ^ LENGTH('a) \<Longrightarrow> unat (a + of_nat n) = unat a + n"
  by (simp add: unat_word_ariths unat_of_nat mod_add_right_eq)

lemma unat_add_lt:
  "unat (a :: 'a::len word) + unat b < 2 ^ LENGTH('a) \<Longrightarrow> unat (a + b) = unat a + unat b"
  by (simp add: unat_word_ariths)

lemma unat_minus_le: "(b :: 'a::len word) \<le> a \<Longrightarrow> unat (a - b) = unat a - unat b"
  by (rule unat_sub)

lemma unat_ucast_up:
  assumes "LENGTH('a::len) \<le> LENGTH('b::len)"
  shows "unat (ucast (w :: 'a word) :: 'b word) = unat w"
proof -
  have "unat w < 2 ^ LENGTH('a)" by (rule unsigned_less)
  also have "\<dots> \<le> (2 ^ LENGTH('b) :: nat)" using assms by simp
  finally show ?thesis by (simp add: unsigned_ucast_eq take_bit_nat_eq_self)
qed

text \<open>Membership in a range that does not wrap, read off the distance to its start.\<close>

lemma unat_diff_less_iff:
  assumes "unat (a :: 'a::len word) + n \<le> 2 ^ LENGTH('a)"
  shows "unat (x - a) < n \<longleftrightarrow> unat a \<le> unat x \<and> unat x < unat a + n"
proof (cases "a \<le> x")
  case True
  then show ?thesis by (auto simp: unat_minus_le word_le_nat_alt)
next
  case False
  then have "unat (x - a) = 2 ^ LENGTH('a) - (unat a - unat x)"
    by (simp add: unat_sub_if' word_le_nat_alt)
  then show ?thesis using assms False by (auto simp: word_le_nat_alt)
qed

text \<open>Clearing low bits rounds down to a multiple of a power of two, and after adding them it rounds up, as long as it does not wrap.\<close>

lemma unat_clear_low: "unat ((x :: u64) AND NOT (mask k)) = unat x div 2 ^ k * 2 ^ k"
proof -
  have "x AND NOT (mask k) = push_bit k (drop_bit k x)"
    by (rule bit_word_eqI) (auto simp: bit_simps)
  then have "unat (x AND NOT (mask k)) = take_bit 64 (push_bit k (unat (drop_bit k x)))"
    by (simp only: unsigned_push_bit_eq) simp
  also have "unat (drop_bit k x) = unat x div 2 ^ k"
    by (subst unat_drop_bit_eq) (rule drop_bit_eq_div)
  finally have "unat (x AND NOT (mask k)) = take_bit 64 (unat x div 2 ^ k * 2 ^ k)"
    by (simp only: push_bit_eq_mult)
  moreover have "unat x div 2 ^ k * 2 ^ k < 2 ^ 64"
    by (rule le_less_trans [of _ "unat x"])
      (simp_all add: div_times_less_eq_dividend order_less_le_trans [OF unsigned_less])
  ultimately show ?thesis by (simp add: take_bit_nat_eq_self)
qed

lemma round_up:
  assumes "k < 64" "unat (v :: u64) + 2 ^ k \<le> 2 ^ 64"
  shows "2 ^ k dvd unat ((v + mask k) AND NOT (mask k))" "unat v \<le> unat ((v + mask k) AND NOT (mask k))"
    "unat ((v + mask k) AND NOT (mask k)) < unat v + 2 ^ k"
proof -
  have "uint (mask k :: u64) = 2 ^ k - 1"
    using assms(1) by (simp only: uint_mask_eq) (simp add: mask_eq_exp_minus_1 min_def)
  then have "int (unat (mask k :: u64)) = int (2 ^ k - 1)" by (simp add: of_nat_diff)
  then have mk: "unat (mask k :: u64) = 2 ^ k - 1" by linarith
  have "unat (v + mask k) = unat v + (2 ^ k - 1)"
    using assms(2) mk by (subst unat_add_lt) auto
  then have e: "unat ((v + mask k) AND NOT (mask k)) = (unat v + (2 ^ k - 1)) div 2 ^ k * 2 ^ k"
    by (simp add: unat_clear_low)
  then show "2 ^ k dvd unat ((v + mask k) AND NOT (mask k))" by simp
  have pos: "(0 :: nat) < 2 ^ k" by simp
  define t :: nat where "t = 2 ^ k"
  have split: "(unat v + (t - 1)) div t * t + (unat v + (t - 1)) mod t = unat v + (t - 1)" by simp
  have "(unat v + (t - 1)) mod t < t" using pos by (simp add: t_def)
  then show "unat v \<le> unat ((v + mask k) AND NOT (mask k))" "unat ((v + mask k) AND NOT (mask k)) < unat v + 2 ^ k"
    using split e pos unfolding t_def by linarith+
qed

section \<open>Byte codecs of encoding/binary\<close>

text \<open>
  \<open>le_bytes n w\<close> is what \<^verbatim>\<open>binary.LittleEndian.PutUint16/32/64\<close> stores in \<open>n\<close> bytes, and
  \<open>le_word bs\<close> what \<^verbatim>\<open>Uint16/32/64\<close> reads back.
\<close>

definition le_bytes :: "nat \<Rightarrow> 'a::len word \<Rightarrow> bytes" where
  "le_bytes n w = map (\<lambda>i. ucast (drop_bit (8 * i) w)) [0..<n]"

fun le_word :: "bytes \<Rightarrow> 'a::len word" where
  "le_word [] = 0"
| "le_word (b # bs) = ucast b OR push_bit 8 (le_word bs)"

lemma length_le_bytes [simp]: "length (le_bytes n w) = n"
  by (simp add: le_bytes_def)

lemma nth_le_bytes [codec_simps]: "i < n \<Longrightarrow> le_bytes n w ! i = ucast (drop_bit (8 * i) w)"
  by (simp add: le_bytes_def)

lemma bit_le_word [codec_simps]:
  "bit (le_word bs :: 'a::len word) k \<longleftrightarrow>
     k < LENGTH('a) \<and> k div 8 < length bs \<and> bit (bs ! (k div 8)) (k mod 8)"
proof (induction bs arbitrary: k)
  case Nil
  then show ?case by simp
next
  case (Cons b bs)
  show ?case
  proof (cases "k < 8")
    case True
    then show ?thesis by (auto simp: bit_simps dest: bit_imp_le_length)
  next
    case False
    then obtain j where k: "k = 8 + j" using le_Suc_ex by (metis not_less)
    have "\<not> bit b k" using False by (auto dest: bit_imp_le_length)
    moreover have "(8 + j) div 8 = Suc (j div 8)" "(8 + j) mod 8 = j mod 8" by simp_all
    ultimately show ?thesis using Cons.IH [of j] k by (auto simp: bit_simps)
  qed
qed

lemma le_word_le_bytes [codec_simps]:
  "LENGTH('a::len) \<le> 8 * n \<Longrightarrow> le_word (le_bytes n (w :: 'a word)) = w"
  by (rule bit_word_eqI) (auto simp: bit_le_word nth_le_bytes bit_simps)

lemma le_bytes_le_word [codec_simps]:
  "8 * length bs \<le> LENGTH('a::len) \<Longrightarrow> le_bytes (length bs) (le_word bs :: 'a word) = bs"
proof (rule nth_equalityI)
  fix i assume len: "8 * length bs \<le> LENGTH('a)"
    and "i < length (le_bytes (length bs) (le_word bs :: 'a word))"
  then have i: "i < length bs" by simp
  show "le_bytes (length bs) (le_word bs :: 'a word) ! i = bs ! i"
  proof (rule bit_word_eqI)
    fix k assume k: "k < LENGTH(8)"
    have "(8 * i + k) div 8 = i" "(8 * i + k) mod 8 = k" using k by simp_all
    moreover have "8 * i + k < LENGTH('a)" using len i k by simp
    ultimately show "bit (le_bytes (length bs) (le_word bs :: 'a word) ! i) k = bit (bs ! i) k"
      using i k by (simp add: nth_le_bytes bit_le_word bit_simps)
  qed
qed simp

text \<open>The same for \<^verbatim>\<open>binary.BigEndian\<close>.\<close>

definition be_bytes :: "nat \<Rightarrow> 'a::len word \<Rightarrow> bytes" where
  "be_bytes n w = rev (le_bytes n w)"

definition be_word :: "bytes \<Rightarrow> 'a::len word" where
  "be_word bs = le_word (rev bs)"

lemma length_be_bytes [simp]: "length (be_bytes n w) = n"
  by (simp add: be_bytes_def)

lemma be_word_be_bytes [codec_simps]: "LENGTH('a::len) \<le> 8 * n \<Longrightarrow> be_word (be_bytes n (w :: 'a word)) = w"
  by (simp add: be_word_def be_bytes_def le_word_le_bytes)

lemma be_bytes_be_word [codec_simps]:
  "8 * length bs \<le> LENGTH('a::len) \<Longrightarrow> be_bytes (length bs) (be_word bs :: 'a word) = bs"
  using le_bytes_le_word [of "rev bs", where 'a = 'a] by (simp add: be_word_def be_bytes_def)

section \<open>Go slices\<close>

text \<open>The expression \<^verbatim>\<open>xs[lo:hi]\<close> on a slice whose capacity is its length.\<close>

definition go_slice :: "'a list \<Rightarrow> u64 \<Rightarrow> u64 \<Rightarrow> goerr + 'a list" where
  "go_slice xs lo hi =
     (if lo \<le> hi \<and> unat hi \<le> length xs then Inr (take (unat hi - unat lo) (drop (unat lo) xs))
      else Inl (Panic SliceBounds))"

text \<open>The slice expression \<^verbatim>\<open>raw[i:j]\<close> with constant bounds on a buffer read for that size.\<close>

definition sub_bytes :: "bytes \<Rightarrow> nat \<Rightarrow> nat \<Rightarrow> bytes" where
  "sub_bytes raw i j = take (j - i) (drop i raw)"

text \<open>The effect of \<^verbatim>\<open>copy(xs[off:], ys)\<close> where \<open>ys\<close> fits.\<close>

definition overwrite :: "'a list \<Rightarrow> nat \<Rightarrow> 'a list \<Rightarrow> 'a list" where
  "overwrite xs off ys = take off xs @ ys @ drop (off + length ys) xs"

lemma length_overwrite [simp]:
  "off + length ys \<le> length xs \<Longrightarrow> length (overwrite xs off ys) = length xs"
  by (simp add: overwrite_def)

lemma overwrite_append: "overwrite (xs @ ys) (length xs + off) zs = xs @ overwrite ys off zs"
  by (simp add: overwrite_def)

lemma nth_overwrite:
  "off + length ys \<le> length xs \<Longrightarrow> i < length xs \<Longrightarrow>
     overwrite xs off ys ! i = (if off \<le> i \<and> i < off + length ys then ys ! (i - off) else xs ! i)"
  by (auto simp: overwrite_def nth_append min_def)

text \<open>A range of a list.\<close>

definition region :: "'a list \<Rightarrow> nat \<Rightarrow> nat \<Rightarrow> 'a list" where
  "region memory off n = take n (drop off memory)"

lemma region_overwrite:
  assumes "off + length data \<le> length memory"
  shows "region (overwrite memory off data) off (length data) = data"
    "a + n \<le> off \<or> off + length data \<le> a \<Longrightarrow> region (overwrite memory off data) a n = region memory a n"
proof -
  have l: "length (take off memory) = off" using assms by simp
  show "region (overwrite memory off data) off (length data) = data" using l by (simp add: region_def overwrite_def)
  assume "a + n \<le> off \<or> off + length data \<le> a"
  then show "region (overwrite memory off data) a n = region memory a n"
  proof
    assume a: "a + n \<le> off"
    have "take n (drop a (overwrite memory off data)) = take n (drop a (take off (overwrite memory off data)))"
      using a by (simp add: drop_take min_def)
    also have "take off (overwrite memory off data) = take off memory" using l by (simp add: overwrite_def)
    also have "take n (drop a (take off memory)) = take n (drop a memory)" using a by (simp add: drop_take min_def)
    finally show ?thesis by (simp add: region_def)
  next
    assume a: "off + length data \<le> a"
    then have "drop a (overwrite memory off data) = drop a memory" using assms by (simp add: overwrite_def min_def)
    then show ?thesis by (simp add: region_def)
  qed
qed

text \<open>The length of a slice expression whose bounds are \<open>lo\<close> and \<open>lo + n\<close>.\<close>

lemma go_slice_span:
  assumes "go_slice xs lo (lo + of_nat n) = Inr ys" "n < 2 ^ 63"
  shows "unat lo + n \<le> length xs" "ys = take n (drop (unat lo) xs)" "length ys = n"
proof -
  have le: "lo \<le> lo + of_nat n" and y: "ys = take (unat (lo + of_nat n) - unat lo) (drop (unat lo) xs)"
    and h: "unat (lo + of_nat n) \<le> length xs"
    using assms by (auto simp: go_slice_def split: if_splits)
  have "unat (lo + of_nat n) - unat lo = unat (lo + of_nat n - lo)"
    by (rule unat_minus_le [OF le, symmetric])
  also have "\<dots> = n" using assms(2) by (simp add: unat_of_nat)
  finally have d: "unat (lo + of_nat n) - unat lo = n" .
  then have "unat (lo + of_nat n) = unat lo + n" using le by (simp add: word_le_nat_alt)
  with h d y show "unat lo + n \<le> length xs" "ys = take n (drop (unat lo) xs)" "length ys = n"
    by auto
qed

text \<open>A call whose error is passed on succeeds when both steps do.\<close>

lemma sum_case_Inr: "(case x of Inl e \<Rightarrow> Inl e | Inr y \<Rightarrow> f y) = Inr z \<longleftrightarrow> (\<exists>y. x = Inr y \<and> f y = Inr z)"
  by (cases x) auto

section \<open>Text\<close>

text \<open>The bytes of an ASCII string literal.\<close>

definition ascii :: "string \<Rightarrow> bytes" where
  "ascii s = map of_char s"

lemma of_char_inject: "(of_char c :: u8) = of_char d \<longleftrightarrow> c = d"
proof
  assume "(of_char c :: u8) = of_char d"
  then have "unat (of_nat (of_char c) :: u8) = unat (of_nat (of_char d) :: u8)" by (simp only: of_nat_of_char)
  moreover have "unat (of_nat n :: u8) = n" if "n < 256" for n using that by (simp add: unat_of_nat take_bit_nat_eq_self)
  ultimately have "(of_char c :: nat) = of_char d" using nat_of_char_less_256 by metis
  then show "c = d" by (simp only: of_char_eq_iff)
qed simp

lemma of_char_zero: "(of_char c :: u8) = 0 \<longleftrightarrow> c = CHR 0x00"
  using of_char_inject [of c "CHR 0x00"] by simp

lemmas of_char_u8 = of_char_inject of_char_zero

lemma ascii_inject [simp]: "ascii s = ascii t \<longleftrightarrow> s = t"
  by (auto simp: ascii_def inj_map_eq_map inj_def of_char_u8)

text \<open>The verbs \<open>%x\<close> and \<open>%d\<close> of \<^verbatim>\<open>fmt.Sprintf\<close>.\<close>

definition digit :: "nat \<Rightarrow> u8" where
  "digit d = (if d < 10 then of_nat (48 + d) else of_nat (87 + d))"

fun hex_digits :: "nat \<Rightarrow> bytes" where
  "hex_digits n = (if n < 16 then [digit n] else hex_digits (n div 16) @ [digit (n mod 16)])"

fun dec_digits :: "nat \<Rightarrow> bytes" where
  "dec_digits n = (if n < 10 then [digit n] else dec_digits (n div 10) @ [digit (n mod 10)])"

declare hex_digits.simps [simp del] dec_digits.simps [simp del]

lemma digit_ok: "d < 16 \<Longrightarrow> digit d \<noteq> 0"
proof -
  have "list_all (\<lambda>d. digit d \<noteq> 0) [0..<16]" by code_simp
  then show "d < 16 \<Longrightarrow> digit d \<noteq> 0" by (simp add: list_all_iff)
qed

section \<open>Fields of fixed width\<close>

lemma nth_chunk:
  assumes "\<forall>x \<in> set xs. length (f x) = w" "i < length xs"
  shows "take w (drop (w * i) (concat (map f xs) @ rest)) = f (xs ! i)"
  using assms
proof (induction xs arbitrary: i)
  case (Cons x xs)
  show ?case
  proof (cases i)
    case 0
    then show ?thesis using Cons.prems by simp
  next
    case (Suc j)
    have "drop (w * i) (concat (map f (x # xs)) @ rest) = drop (w * j) (concat (map f xs) @ rest)"
      using Cons.prems by (simp add: Suc)
    then show ?thesis using Cons Suc by simp
  qed
qed simp

lemma length_chunks: "\<forall>x \<in> set xs. length (f x) = w \<Longrightarrow> length (concat (map f xs)) = w * length xs"
  by (induction xs) simp_all

end
