(* ===== verification/UART.thy ===== *)
theory UART
  imports Prelude
begin

text \<open>
  The 8250 serial port (\<^verbatim>\<open>internal/core/serial/uart8250.go\<close>). The output writer and the interrupt
  controller are outside the component and their errors are dropped by it, so the state records
  whether they are attached and what was sent to them: \<open>out_log\<close> and \<open>irq_log\<close>.
\<close>

section \<open>State\<close>

record uart =
  base :: u64
  sizeU :: u64
  stride :: u64
  out :: bool
  irqU :: bool
  irqLine :: u32
  dll :: u8
  dlm :: u8
  ier :: u8
  fcr :: u8
  lcr :: u8
  mcr :: u8
  lsr :: u8
  msrStatus :: u8
  msrDelta :: u8
  scr :: u8
  rbr :: u8
  pendingIIR :: u8
  fifoEnabled :: bool
  skipLF :: bool
  out_log :: bytes
  irq_log :: "(u32 \<times> bool) list"

abbreviation (input) UART8250Size :: u64 where "UART8250Size \<equiv> 0x1000"
abbreviation (input) uartRegisterCount :: u64 where "uartRegisterCount \<equiv> 8"
abbreviation (input) uartLCRDLAB :: u8 where "uartLCRDLAB \<equiv> 0x80"
abbreviation (input) uartMCRLoop :: u8 where "uartMCRLoop \<equiv> 0x10"
abbreviation (input) uartLSRDataReady :: u8 where "uartLSRDataReady \<equiv> 0x01"
abbreviation (input) uartLSRTHRE :: u8 where "uartLSRTHRE \<equiv> 0x20"
abbreviation (input) uartLSRTEMT :: u8 where "uartLSRTEMT \<equiv> 0x40"
abbreviation (input) CR :: u8 where "CR \<equiv> 0x0d"
abbreviation (input) LF :: u8 where "LF \<equiv> 0x0a"

section \<open>Operations\<close>

text \<open>The interrupt identification the enabled and pending conditions select, by priority.\<close>

definition interrupt_id :: "uart \<Rightarrow> u8" where
  "interrupt_id u =
     (if ier u AND 0x04 \<noteq> 0 \<and> lsr u AND 0x1e \<noteq> 0 then 0x06
      else if ier u AND 0x01 \<noteq> 0 \<and> lsr u AND uartLSRDataReady \<noteq> 0 then 0x04
      else if ier u AND 0x02 \<noteq> 0 \<and> lsr u AND uartLSRTHRE \<noteq> 0 then 0x02
      else if ier u AND 0x08 \<noteq> 0 \<and> msrDelta u \<noteq> 0 then 0x00
      else 0x01)"

definition updateInterrupts :: "uart \<Rightarrow> uart" where
  "updateInterrupts u =
     (let interrupt = interrupt_id u; u' = u\<lparr>pendingIIR := interrupt\<rparr> in
      if irqU u \<and> irqLine u \<noteq> 0
      then u'\<lparr>irq_log := irq_log u @ [(irqLine u, interrupt \<noteq> 0x01)]\<rparr>
      else u')"

definition updateModemStatus :: "uart \<Rightarrow> uart" where
  "updateModemStatus u =
     (let st = 0x10 OR 0x20 OR 0x80 in
      u\<lparr>msrStatus := (if mcr u AND 0x04 \<noteq> 0 then st OR 0x40 else st)\<rparr>)"

definition NewUART8250 :: "u64 \<Rightarrow> u32 \<Rightarrow> bool \<Rightarrow> uart" where
  "NewUART8250 b regShift w =
     (let s = push_bit (unat regShift) 1; s' = (if s = 0 then 1 else s) in
      updateInterrupts (updateModemStatus
        \<lparr>base = b, sizeU = UART8250Size, stride = s', out = w, irqU = False, irqLine = 0,
         dll = 0, dlm = 0, ier = 0, fcr = 0, lcr = 0, mcr = 0, lsr = uartLSRTHRE OR uartLSRTEMT,
         msrStatus = 0, msrDelta = 0, scr = 0, rbr = 0, pendingIIR = 0x01,
         fifoEnabled = False, skipLF = False, out_log = [], irq_log = []\<rparr>))"

definition AttachIRQ :: "bool \<Rightarrow> u32 \<Rightarrow> uart \<Rightarrow> uart" where
  "AttachIRQ present line u = updateInterrupts (u\<lparr>irqU := present, irqLine := line\<rparr>)"

definition uart_Contains :: "uart \<Rightarrow> u64 \<Rightarrow> int \<Rightarrow> bool" where
  "uart_Contains u addr sz =
     (if sz \<le> 0 then False
      else let e = addr + of_int sz in base u \<le> addr \<and> addr < e \<and> e \<le> base u + sizeU u)"

definition registerAt :: "uart \<Rightarrow> u64 \<Rightarrow> goerr + u16" where
  "registerAt u addr =
     (if addr < base u \<or> base u + sizeU u \<le> addr then Inl (OutsideRange addr)
      else let offset = addr - base u in
        if stride u = 0 then Inl (Panic DivideByZero)
        else if offset mod stride u \<noteq> 0 then Inl (NotAligned addr)
        else let reg = offset div stride u in
          if uartRegisterCount \<le> reg then Inl (RegisterRange reg) else Inr (ucast reg))"

definition write_out :: "bytes \<Rightarrow> uart \<Rightarrow> uart" where
  "write_out bs u = u\<lparr>out_log := out_log u @ bs\<rparr>"

definition transmit :: "u8 \<Rightarrow> uart \<Rightarrow> uart" where
  "transmit v u =
     (if mcr u AND uartMCRLoop \<noteq> 0
      then updateInterrupts (u\<lparr>rbr := v, lsr := lsr u OR uartLSRDataReady\<rparr>)
      else
        let u1 =
          (if out u then
             if v = CR then (write_out [LF] u)\<lparr>skipLF := True\<rparr>
             else if v = LF then
               (if skipLF u then u\<lparr>skipLF := False\<rparr> else write_out [LF] u)
             else write_out [v] (u\<lparr>skipLF := False\<rparr>)
           else u)
        in updateInterrupts (u1\<lparr>lsr := lsr u1 OR (uartLSRTHRE OR uartLSRTEMT)\<rparr>))"

definition clearRX :: "uart \<Rightarrow> uart" where
  "clearRX u = updateInterrupts (u\<lparr>rbr := 0, lsr := lsr u AND NOT uartLSRDataReady\<rparr>)"

definition setIER :: "u8 \<Rightarrow> uart \<Rightarrow> uart" where
  "setIER v u = updateInterrupts (u\<lparr>ier := v AND 0x0f\<rparr>)"

definition setFCR :: "u8 \<Rightarrow> uart \<Rightarrow> uart" where
  "setFCR v u =
     (let u1 = (if v AND 0x02 \<noteq> 0 then clearRX u else u)
      in u1\<lparr>fcr := v, fifoEnabled := (v AND 0x01 \<noteq> 0)\<rparr>)"

definition setMCR :: "u8 \<Rightarrow> uart \<Rightarrow> uart" where
  "setMCR v u =
     (let prev = mcr u; u1 = u\<lparr>mcr := v AND 0x1f\<rparr>;
          u2 = (if prev AND uartMCRLoop \<noteq> 0 \<and> mcr u1 AND uartMCRLoop = 0 then clearRX u1 else u1)
      in updateInterrupts (updateModemStatus u2))"

definition modemStatus :: "uart \<Rightarrow> u8 \<times> uart" where
  "modemStatus u = (msrStatus u OR msrDelta u, u\<lparr>msrDelta := 0\<rparr>)"

definition writeRegister :: "u16 \<Rightarrow> u8 \<Rightarrow> uart \<Rightarrow> uart" where
  "writeRegister reg v u =
     (if reg = 0 then
        if lcr u AND uartLCRDLAB \<noteq> 0 then u\<lparr>dll := v\<rparr>
        else transmit v (updateInterrupts (u\<lparr>lsr := lsr u AND NOT uartLSRTHRE\<rparr>))
      else if reg = 1 then
        if lcr u AND uartLCRDLAB \<noteq> 0 then u\<lparr>dlm := v\<rparr> else setIER v u
      else if reg = 2 then setFCR v u
      else if reg = 3 then u\<lparr>lcr := v\<rparr>
      else if reg = 4 then setMCR v u
      else if reg = 7 then u\<lparr>scr := v\<rparr>
      else u)"

definition readRegister :: "u16 \<Rightarrow> uart \<Rightarrow> u8 \<times> uart" where
  "readRegister reg u =
     (if reg = 0 then
        if lcr u AND uartLCRDLAB \<noteq> 0 then (dll u, u)
        else (rbr u, updateInterrupts (u\<lparr>rbr := 0, lsr := lsr u AND NOT uartLSRDataReady\<rparr>))
      else if reg = 1 then
        if lcr u AND uartLCRDLAB \<noteq> 0 then (dlm u, u) else (ier u, u)
      else if reg = 2 then (pendingIIR u, u)
      else if reg = 3 then (lcr u, u)
      else if reg = 4 then (mcr u, u)
      else if reg = 5 then (lsr u, u)
      else if reg = 6 then modemStatus u
      else if reg = 7 then (scr u, u)
      else (0, u))"

definition writeByte :: "u64 \<Rightarrow> u8 \<Rightarrow> (uart, unit) gomethod" where
  "writeByte addr v u =
     (case registerAt u addr of Inl e \<Rightarrow> (Inl e, u)
      | Inr reg \<Rightarrow> (Inr (), writeRegister reg v u))"

definition readByte :: "u64 \<Rightarrow> (uart, u8) gomethod" where
  "readByte addr u =
     (case registerAt u addr of Inl e \<Rightarrow> (Inl e, u)
      | Inr reg \<Rightarrow> (case readRegister reg u of (v, u') \<Rightarrow> (Inr v, u')))"

fun uart_Write :: "u64 \<Rightarrow> bytes \<Rightarrow> (uart, unit) gomethod" where
  "uart_Write addr [] = return_ok ()"
| "uart_Write addr (v # vs) = and_then (writeByte addr v) (\<lambda>_. uart_Write (addr + 1) vs)"

fun uart_Read :: "u64 \<Rightarrow> nat \<Rightarrow> (uart, bytes) gomethod" where
  "uart_Read addr 0 = return_ok []"
| "uart_Read addr (Suc n) =
     and_then (readByte addr) (\<lambda>v. and_then (uart_Read (addr + 1) n) (\<lambda>vs. return_ok (v # vs)))"

definition WriteValue :: "u64 \<Rightarrow> int \<Rightarrow> u64 \<Rightarrow> (uart, unit) gomethod" where
  "WriteValue addr sz v =
     (if sz \<le> 0 \<or> 8 < sz then return_err (InvalidSize sz)
      else uart_Write addr (take (nat sz) (le_bytes 8 v)))"

definition ReadValue :: "u64 \<Rightarrow> int \<Rightarrow> (uart, u64) gomethod" where
  "ReadValue addr sz =
     (if sz \<le> 0 \<or> 8 < sz then return_err (InvalidSize sz)
      else and_then (uart_Read addr (nat sz))
             (\<lambda>bs. return_ok (le_word (bs @ replicate (8 - nat sz) 0))))"

definition InjectRXByte :: "u8 \<Rightarrow> uart \<Rightarrow> uart" where
  "InjectRXByte v u = updateInterrupts (u\<lparr>rbr := v, lsr := lsr u OR uartLSRDataReady\<rparr>)"

text \<open>
  One attempt of \<^verbatim>\<open>InjectRXBytes\<close> to hand over the next byte: \<open>None\<close> means the previous one has
  not been read yet and the sender sleeps and tries again.
\<close>

definition InjectRXBytes_attempt :: "u8 \<Rightarrow> uart \<Rightarrow> uart option" where
  "InjectRXBytes_attempt v u =
     (if lsr u AND uartLSRDataReady = 0
      then Some (updateInterrupts (u\<lparr>rbr := v, lsr := lsr u OR uartLSRDataReady\<rparr>))
      else None)"

section \<open>Every reachable state\<close>

text \<open>
  The states the port goes through: it is created, attached to an interrupt line, and then used
  by the guest (reads, writes, of any size and at any address) and by the host (received bytes).
\<close>

inductive uart_reachable :: "uart \<Rightarrow> bool" where
  create: "uart_reachable (NewUART8250 b sh w)"
| attach: "uart_reachable u \<Longrightarrow> uart_reachable (AttachIRQ p l u)"
| guest_write: "uart_reachable u \<Longrightarrow> uart_reachable (snd (WriteValue a n v u))"
| guest_read: "uart_reachable u \<Longrightarrow> uart_reachable (snd (ReadValue a n u))"
| inject: "uart_reachable u \<Longrightarrow> uart_reachable (InjectRXByte v u)"
| inject_next: "uart_reachable u \<Longrightarrow> InjectRXBytes_attempt v u = Some u' \<Longrightarrow> uart_reachable u'"

text \<open>
  What always holds: the register masks, no modem delta, the identification register shows the
  highest pending enabled condition, and the interrupt line, when there is one, was last driven
  to the level that register stands for.
\<close>

definition uart_regs_ok :: "uart \<Rightarrow> bool" where
  "uart_regs_ok u \<longleftrightarrow> msrDelta u = 0 \<and> ier u AND 0xf0 = 0 \<and> mcr u AND 0xe0 = 0
     \<and> lsr u AND 0x9e = 0 \<and> stride u \<noteq> 0"

definition uart_line_ok :: "uart \<Rightarrow> bool" where
  "uart_line_ok u \<longleftrightarrow> pendingIIR u = interrupt_id u
     \<and> (irqU u \<and> irqLine u \<noteq> 0 \<longrightarrow>
          irq_log u \<noteq> [] \<and> last (irq_log u) = (irqLine u, pendingIIR u \<noteq> 0x01))"

definition uart_inv :: "uart \<Rightarrow> bool" where
  "uart_inv u \<longleftrightarrow> uart_regs_ok u \<and> uart_line_ok u"

lemmas uart_unfold = updateInterrupts_def Let_def write_out_def updateModemStatus_def

lemma interrupt_id_frame [simp]:
  "interrupt_id (u\<lparr>pendingIIR := a\<rparr>) = interrupt_id u"
  "interrupt_id (u\<lparr>irq_log := l\<rparr>) = interrupt_id u"
  "interrupt_id (u\<lparr>dll := a\<rparr>) = interrupt_id u" "interrupt_id (u\<lparr>dlm := a\<rparr>) = interrupt_id u"
  "interrupt_id (u\<lparr>lcr := a\<rparr>) = interrupt_id u" "interrupt_id (u\<lparr>scr := a\<rparr>) = interrupt_id u"
  "interrupt_id (u\<lparr>fcr := a, fifoEnabled := b\<rparr>) = interrupt_id u"
  by (simp_all add: interrupt_id_def)

lemma updateInterrupts_sel [simp]:
  "ier (updateInterrupts u) = ier u" "lsr (updateInterrupts u) = lsr u"
  "msrDelta (updateInterrupts u) = msrDelta u" "mcr (updateInterrupts u) = mcr u"
  "lcr (updateInterrupts u) = lcr u" "stride (updateInterrupts u) = stride u"
  "rbr (updateInterrupts u) = rbr u" "out (updateInterrupts u) = out u"
  "out_log (updateInterrupts u) = out_log u" "skipLF (updateInterrupts u) = skipLF u"
  "pendingIIR (updateInterrupts u) = interrupt_id u"
  by (simp_all add: uart_unfold)

lemma updateInterrupts_line_ok: "uart_line_ok (updateInterrupts u)"
  by (auto simp: uart_line_ok_def uart_unfold)

lemma updateInterrupts_inv: "uart_regs_ok u \<Longrightarrow> uart_inv (updateInterrupts u)"
  by (simp add: uart_inv_def updateInterrupts_line_ok uart_regs_ok_def)

lemma and_masks [simp]:
  "(x OR 1) AND 0x9e = (x AND 0x9e :: u8)" "(x OR 0x60) AND 0x9e = (x AND 0x9e :: u8)"
  "(x AND 0x0f) AND 0xf0 = (0 :: u8)" "(x AND 0x1f) AND 0xe0 = (0 :: u8)"
  by (simp_all add: and.assoc bit.conj_disj_distrib2)

lemma and_zero_mono [simp]: "x AND m = 0 \<Longrightarrow> (x AND y) AND m = (0 :: u8)"
  by (metis and.assoc and.commute and_zero_eq)

lemma modem_regs_ok [simp]: "uart_regs_ok (updateModemStatus u) = uart_regs_ok u"
  by (simp add: uart_regs_ok_def uart_unfold)

lemma clearRX_regs_ok: "uart_regs_ok u \<Longrightarrow> uart_regs_ok (clearRX u)"
  by (simp add: clearRX_def uart_regs_ok_def)

lemma transmit_inv: "uart_regs_ok u \<Longrightarrow> uart_inv (transmit v u)"
  by (auto simp: transmit_def Let_def write_out_def uart_regs_ok_def intro!: updateInterrupts_inv)

lemma setMCR_inv: "uart_regs_ok u \<Longrightarrow> uart_inv (setMCR v u)"
  by (auto simp: setMCR_def Let_def intro!: updateInterrupts_inv clearRX_regs_ok)
    (auto simp: uart_regs_ok_def)

lemma setFCR_inv: "uart_inv u \<Longrightarrow> uart_inv (setFCR v u)"
proof -
  assume inv: "uart_inv u"
  have "uart_inv (clearRX u)"
    using inv by (auto simp: uart_inv_def clearRX_def uart_regs_ok_def updateInterrupts_line_ok)
  moreover have "uart_inv (w\<lparr>fcr := v, fifoEnabled := b\<rparr>)" if "uart_inv w" for w b
    using that by (simp add: uart_inv_def uart_regs_ok_def uart_line_ok_def)
  ultimately show ?thesis using inv by (simp add: setFCR_def Let_def)
qed

lemma writeRegister_inv: "uart_inv u \<Longrightarrow> uart_inv (writeRegister reg v u)"
proof -
  assume inv: "uart_inv u"
  then have regs: "uart_regs_ok u" by (simp add: uart_inv_def)
  have "uart_regs_ok (updateInterrupts (u\<lparr>lsr := lsr u AND NOT uartLSRTHRE\<rparr>))"
    using regs by (simp add: uart_regs_ok_def)
  then have "uart_inv (transmit v (updateInterrupts (u\<lparr>lsr := lsr u AND NOT uartLSRTHRE\<rparr>)))"
    by (rule transmit_inv)
  moreover have "uart_inv (setIER v u)"
    using regs unfolding setIER_def by (intro updateInterrupts_inv) (simp add: uart_regs_ok_def)
  moreover have "uart_inv (u\<lparr>dll := v\<rparr>)" "uart_inv (u\<lparr>dlm := v\<rparr>)" "uart_inv (u\<lparr>lcr := v\<rparr>)"
    "uart_inv (u\<lparr>scr := v\<rparr>)"
    using inv by (simp_all add: uart_inv_def uart_regs_ok_def uart_line_ok_def)
  ultimately show ?thesis
    using inv setFCR_inv [OF inv] setMCR_inv [OF regs] by (simp add: writeRegister_def)
qed

lemma readRegister_inv: "uart_inv u \<Longrightarrow> uart_inv (snd (readRegister reg u))"
proof -
  assume inv: "uart_inv u"
  then have regs: "uart_regs_ok u" by (simp add: uart_inv_def)
  have "uart_inv (updateInterrupts (u\<lparr>rbr := 0, lsr := lsr u AND NOT uartLSRDataReady\<rparr>))"
    using regs by (intro updateInterrupts_inv) (simp add: uart_regs_ok_def)
  moreover have "u\<lparr>msrDelta := 0\<rparr> = u" using regs by (simp add: uart_regs_ok_def)
  ultimately show ?thesis using inv by (simp add: readRegister_def modemStatus_def)
qed

lemma uart_Write_preserves: "preserves uart_inv (uart_Write a bs)"
  by (induction bs arbitrary: a)
    (auto intro!: preserves_intros simp: preserves_def [of uart_inv "writeByte _ _"] writeByte_def
      writeRegister_inv split: sum.splits)

lemma uart_Read_preserves: "preserves uart_inv (uart_Read a n)"
  by (induction n arbitrary: a)
    (auto intro!: preserves_intros simp: preserves_def [of uart_inv "readByte _"] readByte_def
      split: sum.splits prod.splits dest: readRegister_inv, metis readRegister_inv snd_conv)

lemma uart_reachable_inv: "uart_reachable u \<Longrightarrow> uart_inv u"
proof (induction rule: uart_reachable.induct)
  case (create b sh w)
  show ?case
    unfolding NewUART8250_def Let_def
    by (intro updateInterrupts_inv) (simp add: uart_regs_ok_def updateModemStatus_def Let_def)
next
  case (attach u p l)
  then show ?case unfolding AttachIRQ_def
    by (intro updateInterrupts_inv) (simp add: uart_inv_def uart_regs_ok_def)
next
  case (guest_write u a n v)
  then show ?case
    using preservesD [OF uart_Write_preserves] by (auto simp: WriteValue_def)
next
  case (guest_read u a n)
  have "preserves uart_inv (ReadValue a n)"
    unfolding ReadValue_def by (auto intro!: preserves_intros uart_Read_preserves)
  then show ?case using guest_read.IH by (rule preservesD)
next
  case (inject u v)
  then show ?case unfolding InjectRXByte_def
    by (intro updateInterrupts_inv) (simp add: uart_inv_def uart_regs_ok_def)
next
  case (inject_next u v u')
  then have "u' = updateInterrupts (u\<lparr>rbr := v, lsr := lsr u OR uartLSRDataReady\<rparr>)"
    by (simp add: InjectRXBytes_attempt_def split: if_splits)
  moreover have "uart_regs_ok (u\<lparr>rbr := v, lsr := lsr u OR uartLSRDataReady\<rparr>)"
    using inject_next.IH by (simp add: uart_inv_def uart_regs_ok_def)
  ultimately show ?case by (simp add: updateInterrupts_inv)
qed

section \<open>Console text\<close>

text \<open>The reference: a carriage return, alone or followed by a line feed, is one line feed.\<close>

fun norm_newlines :: "bytes \<Rightarrow> bytes" where
  "norm_newlines [] = []"
| "norm_newlines [c] = (if c = CR then [LF] else [c])"
| "norm_newlines (c # d # cs) =
     (if c = CR then if d = LF then LF # norm_newlines cs else LF # norm_newlines (d # cs)
      else c # norm_newlines (d # cs))"

text \<open>The guest polling the port: one byte after the other to the transmit register.\<close>

definition transmit_all :: "bytes \<Rightarrow> uart \<Rightarrow> uart" where
  "transmit_all bs u = fold (writeRegister 0) bs u"

definition sends_text :: "uart \<Rightarrow> bool" where
  "sends_text u \<longleftrightarrow> out u \<and> lcr u AND uartLCRDLAB = 0 \<and> mcr u AND uartMCRLoop = 0"

lemma writeRegister_text:
  assumes "sends_text u"
  shows "sends_text (writeRegister 0 c u)"
    "out_log (writeRegister 0 c u) = out_log u @
       (if c = CR then [LF] else if c = LF then (if skipLF u then [] else [LF]) else [c])"
    "skipLF (writeRegister 0 c u) \<longleftrightarrow> c = CR"
    "lsr (writeRegister 0 c u) AND uartLSRTHRE \<noteq> 0"
  using assms
  by (auto simp: sends_text_def writeRegister_def transmit_def write_out_def Let_def
      bit.conj_disj_distrib2 or.assoc dest: arg_cong [where f = "\<lambda>x. bit x 5"])

lemma transmit_all_text:
  "sends_text u \<Longrightarrow> out_log (transmit_all bs u) = out_log u @
     (if skipLF u \<and> bs \<noteq> [] \<and> hd bs = LF then norm_newlines (tl bs) else norm_newlines bs)"
proof (induction bs arbitrary: u)
  case Nil
  then show ?case by (simp add: transmit_all_def)
next
  case (Cons c cs)
  have "out_log (transmit_all (c # cs) u) = out_log (transmit_all cs (writeRegister 0 c u))"
    by (simp add: transmit_all_def)
  also have "\<dots> = out_log (writeRegister 0 c u) @
      (if c = CR \<and> cs \<noteq> [] \<and> hd cs = LF then norm_newlines (tl cs) else norm_newlines cs)"
    using Cons.IH writeRegister_text [OF Cons.prems, of c] by simp
  finally show ?case
    using writeRegister_text(2) [OF Cons.prems, of c] by (cases cs) auto
qed

lemma norm_newlines_no_CR: "CR \<notin> set (norm_newlines bs)"
  by (induction bs rule: norm_newlines.induct) auto

section \<open>Properties\<close>



text \<open>
  Text sent to the transmit register, with the divisor latch and loopback off, reaches the
  output with every newline convention turned into a line feed: the bytes written are the
  reference normalisation of the bytes sent, so no carriage return is ever emitted.
\<close>

theorem uart_text_normalised:
  assumes "sends_text u" "\<not> skipLF u"
  shows "out_log (transmit_all bs u) = out_log u @ norm_newlines bs \<and> CR \<notin> set (norm_newlines bs)"
  using transmit_all_text [OF assms(1), of bs] assms(2) norm_newlines_no_CR by simp

theorem uart_text_normalised_witness:
  "out_log (transmit_all [0x61, CR, LF, CR, 0x62, LF] (NewUART8250 0x1000 0 True))
     = [0x61, LF, LF, 0x62, LF]"
proof -
  have "sends_text (NewUART8250 0x1000 0 True)" "\<not> skipLF (NewUART8250 0x1000 0 True)"
    by code_simp+
  from uart_text_normalised [OF this, of "[0x61, CR, LF, CR, 0x62, LF]"]
  show ?thesis by (simp add: NewUART8250_def Let_def updateModemStatus_def)
qed

text \<open>
  In loopback a byte written to the transmit register is not sent out but received: it is
  the next byte read, and the port reports data ready. The write also clears the
  transmitter-holding-register-empty bit, and nothing in the loopback branch sets it again,
  although the transmitter-empty bit still says the transmitter is idle.
\<close>

theorem uart_loopback_receives:
  assumes "lcr u AND uartLCRDLAB = 0" "mcr u AND uartMCRLoop \<noteq> 0"
  shows "let u' = writeRegister 0 v u in
    fst (readRegister 0 u') = v \<and> out_log u' = out_log u
    \<and> lsr u' AND uartLSRDataReady \<noteq> 0 \<and> lsr u' AND uartLSRTHRE = 0
    \<and> lsr u' AND uartLSRTEMT = lsr u AND uartLSRTEMT"
  using assms
  by (auto simp: writeRegister_def transmit_def readRegister_def Let_def bit.conj_disj_distrib2
      and.assoc dest: arg_cong [where f = "\<lambda>x. bit x 0"])

theorem uart_loopback_receives_witness:
  "let u = snd (WriteValue 0x1004 1 0x10 (NewUART8250 0x1000 0 True)); u' = writeRegister 0 0x5a u in
     fst (readRegister 0 u') = 0x5a \<and> lsr u' AND uartLSRTHRE = 0 \<and> lsr u' AND uartLSRTEMT \<noteq> 0"
proof -
  let ?u = "snd (WriteValue 0x1004 1 0x10 (NewUART8250 0x1000 0 True))"
  have "lcr ?u AND uartLCRDLAB = 0" "mcr ?u AND uartMCRLoop \<noteq> 0" by code_simp+
  from uart_loopback_receives [OF this, of "0x5a"] have
    "fst (readRegister 0 (writeRegister 0 0x5a ?u)) = 0x5a
     \<and> lsr (writeRegister 0 0x5a ?u) AND uartLSRTHRE = 0
     \<and> lsr (writeRegister 0 0x5a ?u) AND uartLSRTEMT = lsr ?u AND uartLSRTEMT"
    by (simp add: Let_def)
  moreover have "lsr ?u AND uartLSRTEMT \<noteq> 0" by code_simp
  ultimately show ?thesis by (simp add: Let_def)
qed

end
