(* ===== verification/GuestMem.thy ===== *)
theory GuestMem
  imports Prelude
begin

text \<open>
  Guest physical memory. \<open>guest_memory\<close> is the Go interface \<^verbatim>\<open>virtio.GuestMemory\<close> as a record of
  its methods, \<open>guest_mem\<close> the contract devices rely on, and the two KVM implementations
  (\<^verbatim>\<open>hv/kvm/vm_linux_arm64.go\<close>, \<^verbatim>\<open>hv/kvm/vm_linux_amd64.go\<close>) are modelled and shown to meet it.
\<close>

section \<open>The interface and its contract\<close>

record 'm guest_memory =
  ReadIPA :: "'m \<Rightarrow> u64 \<Rightarrow> int \<Rightarrow> goerr + bytes"
  WriteIPA :: "'m \<Rightarrow> u64 \<Rightarrow> bytes \<Rightarrow> (goerr + unit) \<times> 'm"

text \<open>Byte \<open>x\<close> after \<open>d\<close> was stored at \<open>a\<close>, where \<open>old\<close> was there before.\<close>

definition stored_byte :: "u64 \<Rightarrow> bytes \<Rightarrow> u8 \<Rightarrow> u64 \<Rightarrow> u8" where
  "stored_byte a d old x = (if unat (x - a) < length d then d ! unat (x - a) else old)"

text \<open>The bytes of an address range.\<close>

definition range_bytes :: "(u64 \<Rightarrow> u8) \<Rightarrow> u64 \<Rightarrow> nat \<Rightarrow> bytes" where
  "range_bytes f a n = map (\<lambda>i. f (a + of_nat i)) [0..<n]"

definition ranges_disjoint :: "u64 \<Rightarrow> nat \<Rightarrow> u64 \<Rightarrow> nat \<Rightarrow> bool" where
  "ranges_disjoint a n b k \<longleftrightarrow> (\<forall>i<n. \<forall>j<k. a + of_nat i \<noteq> b + of_nat j)"

lemma length_range_bytes [simp]: "length (range_bytes f a n) = n"
  by (simp add: range_bytes_def)

lemma range_bytes_0 [simp]: "range_bytes f a 0 = []"
  by (simp add: range_bytes_def)

lemma nth_range_bytes [simp]: "i < n \<Longrightarrow> range_bytes f a n ! i = f (a + of_nat i)"
  by (simp add: range_bytes_def)

lemma range_bytes_cong:
  "(\<And>i. i < n \<Longrightarrow> f (a + of_nat i) = g (a + of_nat i)) \<Longrightarrow> range_bytes f a n = range_bytes g a n"
  by (simp add: range_bytes_def)

lemma range_bytes_append:
  "range_bytes f a (n + k) = range_bytes f a n @ range_bytes f (a + of_nat n) k"
  by (rule nth_equalityI) (auto simp: nth_append add.assoc simp flip: of_nat_add)

lemma range_bytes_stored:
  assumes "length d < 2 ^ 64"
  shows "range_bytes (\<lambda>x. stored_byte a d (f x) x) a (length d) = d"
proof (rule nth_equalityI)
  fix i assume "i < length (range_bytes (\<lambda>x. stored_byte a d (f x) x) a (length d))"
  then have i: "i < length d" by simp
  have "unat (a + of_nat i - a) = i"
    using i assms by (simp add: unat_of_nat)
  then show "range_bytes (\<lambda>x. stored_byte a d (f x) x) a (length d) ! i = d ! i"
    using i by (simp add: stored_byte_def)
qed simp

lemma range_bytes_stored_disjoint:
  assumes "ranges_disjoint a (length d) b n"
  shows "range_bytes (\<lambda>x. stored_byte a d (f x) x) b n = range_bytes f b n"
proof (rule range_bytes_cong)
  fix i assume i: "i < n"
  have "\<not> unat (b + of_nat i - a) < length d"
  proof
    assume lt: "unat (b + of_nat i - a) < length d"
    have "a + of_nat (unat (b + of_nat i - a)) = b + of_nat i" by simp
    with lt i assms show False unfolding ranges_disjoint_def by blast
  qed
  then show "stored_byte a d (f (b + of_nat i)) (b + of_nat i) = f (b + of_nat i)"
    by (simp add: stored_byte_def)
qed

lemma ranges_disjoint_sym: "ranges_disjoint a n b k \<longleftrightarrow> ranges_disjoint b k a n"
  unfolding ranges_disjoint_def by metis

lemma ranges_disjoint_before:
  assumes "unat a + n \<le> unat b" "unat b + k \<le> 2 ^ 64"
  shows "ranges_disjoint a n b k"
proof -
  have "a + of_nat i \<noteq> b + of_nat j" if "i < n" "j < k" for i j
  proof -
    have "unat (a + of_nat i) = unat a + i" "unat (b + of_nat j) = unat b + j"
      using assms that by (intro unat_add_of_nat; simp)+
    then show ?thesis using assms that by auto
  qed
  then show ?thesis by (simp add: ranges_disjoint_def)
qed

lemma ranges_disjoint_after:
  "unat b + k \<le> unat a \<Longrightarrow> unat a + n \<le> 2 ^ 64 \<Longrightarrow> ranges_disjoint a n b k"
  by (subst ranges_disjoint_sym) (rule ranges_disjoint_before)

locale guest_mem =
  fixes M :: "'m guest_memory"
    and invar :: "'m \<Rightarrow> bool"
    and mapped :: "'m \<Rightarrow> u64 \<Rightarrow> nat \<Rightarrow> bool"
    and byte_at :: "'m \<Rightarrow> u64 \<Rightarrow> u8"
  assumes read_mapped:
      "invar m \<Longrightarrow> mapped m a n \<Longrightarrow> n < 2 ^ 63 \<Longrightarrow>
         ReadIPA M m a (int n) = Inr (range_bytes (byte_at m) a n)"
    and read_length: "invar m \<Longrightarrow> ReadIPA M m a (int n) = Inr bs \<Longrightarrow> n < 2 ^ 63 \<Longrightarrow> length bs = n"
    and write_mapped:
      "invar m \<Longrightarrow> mapped m a (length d) \<Longrightarrow> length d < 2 ^ 63 \<Longrightarrow> fst (WriteIPA M m a d) = Inr ()"
    and write_byte_at:
      "invar m \<Longrightarrow> mapped m a (length d) \<Longrightarrow> length d < 2 ^ 63 \<Longrightarrow>
         byte_at (snd (WriteIPA M m a d)) x = stored_byte a d (byte_at m x) x"
    and write_frame: "invar m \<Longrightarrow> length d < 2 ^ 63 \<Longrightarrow> invar (snd (WriteIPA M m a d))"
    and write_layout: "invar m \<Longrightarrow> mapped (snd (WriteIPA M m a d)) = mapped m"
begin

lemma read_after_write:
  assumes "invar m" "mapped m a (length d)" "length d < 2 ^ 63"
  shows "ReadIPA M (snd (WriteIPA M m a d)) a (int (length d)) = Inr d"
proof -
  let ?m = "snd (WriteIPA M m a d)"
  have "ReadIPA M ?m a (int (length d)) = Inr (range_bytes (byte_at ?m) a (length d))"
    using assms write_frame write_layout by (intro read_mapped) auto
  moreover have "range_bytes (byte_at ?m) a (length d) =
      range_bytes (\<lambda>x. stored_byte a d (byte_at m x) x) a (length d)"
    using assms by (intro range_bytes_cong) (simp add: write_byte_at)
  ultimately show ?thesis using assms range_bytes_stored [of d a "byte_at m"] by simp
qed

lemma write_disjoint:
  assumes "invar m" "mapped m a (length d)" "length d < 2 ^ 63" "mapped m b n" "n < 2 ^ 63"
    "ranges_disjoint a (length d) b n"
  shows "ReadIPA M (snd (WriteIPA M m a d)) b (int n) = ReadIPA M m b (int n)"
proof -
  let ?m = "snd (WriteIPA M m a d)"
  have "range_bytes (byte_at ?m) b n = range_bytes (\<lambda>x. stored_byte a d (byte_at m x) x) b n"
    using assms by (intro range_bytes_cong) (simp add: write_byte_at)
  then have "range_bytes (byte_at ?m) b n = range_bytes (byte_at m) b n"
    using assms range_bytes_stored_disjoint by simp
  then show ?thesis
    using assms read_mapped [of ?m b n] read_mapped [of m b n] write_frame write_layout by simp
qed

end

text \<open>An implementation is strict when it refuses every range that is not mapped.\<close>

locale strict_guest_mem = guest_mem +
  assumes read_unmapped:
    "invar m \<Longrightarrow> \<not> mapped m a n \<Longrightarrow> n < 2 ^ 63 \<Longrightarrow> \<exists>e. ReadIPA M m a (int n) = Inl e"
begin

lemma read_iff_mapped:
  "invar m \<Longrightarrow> n < 2 ^ 63 \<Longrightarrow>
     ReadIPA M m a (int n) = Inr bs \<longleftrightarrow> mapped m a n \<and> bs = range_bytes (byte_at m) a n"
  by (cases "mapped m a n") (auto simp: read_mapped dest: read_unmapped)

end

section \<open>The arm64 virtual machine: one region\<close>

record arm_vm =
  GuestPhysAddr :: u64
  MemorySize :: u64
  vm_mem :: bytes

text \<open>A method on a nil \<^verbatim>\<open>*VM\<close> is the value \<open>None\<close>. The size of a buffer is the length of \<open>dst\<close>.\<close>

definition arm_ReadIPAInto :: "arm_vm option \<Rightarrow> u64 \<Rightarrow> nat \<Rightarrow> goerr + bytes" where
  "arm_ReadIPAInto vm addr n =
     (case vm of None \<Rightarrow> Inl VmNil
      | Some v \<Rightarrow>
          if n = 0 then Inr []
          else let start = GuestPhysAddr v; end = start + MemorySize v in
            if addr < start \<or> end < addr + of_nat n then Inl (Unmapped addr n)
            else let off = addr - start in go_slice (vm_mem v) off (off + of_nat n))"

definition arm_ReadIPA :: "arm_vm option \<Rightarrow> u64 \<Rightarrow> int \<Rightarrow> goerr + bytes" where
  "arm_ReadIPA vm addr sz =
     (case vm of None \<Rightarrow> Inl VmNil
      | Some v \<Rightarrow>
          if sz < 0 then Inl (InvalidSize sz)
          else if sz = 0 then Inr []
          else arm_ReadIPAInto vm addr (nat sz))"

definition arm_WriteIPA :: "arm_vm option \<Rightarrow> u64 \<Rightarrow> bytes \<Rightarrow> (goerr + unit) \<times> arm_vm option" where
  "arm_WriteIPA vm addr data =
     (case vm of None \<Rightarrow> (Inl VmNil, vm)
      | Some v \<Rightarrow>
          if data = [] then (Inr (), vm)
          else let start = GuestPhysAddr v; end = start + MemorySize v; n = of_nat (length data) in
            if addr < start \<or> end < addr + n then (Inl (Unmapped addr (length data)), vm)
            else let off = addr - start in
              case go_slice (vm_mem v) off (off + n) of
                Inl e \<Rightarrow> (Inl e, vm)
              | Inr _ \<Rightarrow> (Inr (), Some (v\<lparr>vm_mem := overwrite (vm_mem v) (unat off) data\<rparr>)))"

definition arm_memory :: "arm_vm option guest_memory" where
  "arm_memory = \<lparr>ReadIPA = arm_ReadIPA, WriteIPA = arm_WriteIPA\<rparr>"

text \<open>
  What \<^verbatim>\<open>MapAnonymousMemory\<close> sets up: the region does not wrap and the mapping has the size
  of the region.
\<close>

definition arm_wf :: "arm_vm option \<Rightarrow> bool" where
  "arm_wf vm = (case vm of None \<Rightarrow> True
     | Some v \<Rightarrow> unat (GuestPhysAddr v) + unat (MemorySize v) < 2 ^ 64
         \<and> length (vm_mem v) = unat (MemorySize v))"

definition arm_mapped :: "arm_vm option \<Rightarrow> u64 \<Rightarrow> nat \<Rightarrow> bool" where
  "arm_mapped vm a n = (case vm of None \<Rightarrow> False
     | Some v \<Rightarrow> n = 0 \<or> unat (GuestPhysAddr v) \<le> unat a
         \<and> unat a + n \<le> unat (GuestPhysAddr v) + unat (MemorySize v))"

definition arm_byte_at :: "arm_vm option \<Rightarrow> u64 \<Rightarrow> u8" where
  "arm_byte_at vm x = (case vm of None \<Rightarrow> 0
     | Some v \<Rightarrow> if arm_mapped vm x 1 then vm_mem v ! unat (x - GuestPhysAddr v) else 0)"

lemma arm_range:
  assumes "arm_wf (Some v)" "arm_mapped (Some v) a n" "0 < n"
  shows "GuestPhysAddr v \<le> a" "\<not> GuestPhysAddr v + MemorySize v < a + of_nat n"
    "a - GuestPhysAddr v \<le> a - GuestPhysAddr v + of_nat n"
    "unat (a - GuestPhysAddr v) = unat a - unat (GuestPhysAddr v)"
    "unat (a - GuestPhysAddr v + of_nat n) = unat a - unat (GuestPhysAddr v) + n"
    "unat a - unat (GuestPhysAddr v) + n \<le> length (vm_mem v)"
proof -
  show le: "GuestPhysAddr v \<le> a"
    using assms by (simp add: arm_mapped_def word_le_nat_alt)
  show off: "unat (a - GuestPhysAddr v) = unat a - unat (GuestPhysAddr v)"
    using le by (rule unat_minus_le)
  have "unat (a + of_nat n) = unat a + n"
    using assms by (intro unat_add_of_nat) (simp add: arm_mapped_def arm_wf_def)
  moreover have "unat (GuestPhysAddr v + MemorySize v) = unat (GuestPhysAddr v) + unat (MemorySize v)"
    using assms by (intro unat_add_lt) (simp add: arm_wf_def)
  ultimately show "\<not> GuestPhysAddr v + MemorySize v < a + of_nat n"
    using assms by (simp add: word_less_nat_alt arm_mapped_def)
  show offn: "unat (a - GuestPhysAddr v + of_nat n) = unat a - unat (GuestPhysAddr v) + n"
    using assms off by (subst unat_add_of_nat) (auto simp: arm_mapped_def arm_wf_def)
  then show "a - GuestPhysAddr v \<le> a - GuestPhysAddr v + of_nat n"
    using off by (simp add: word_le_nat_alt)
  show "unat a - unat (GuestPhysAddr v) + n \<le> length (vm_mem v)"
    using assms by (auto simp: arm_wf_def arm_mapped_def)
qed

lemma arm_byte_at_range:
  assumes "arm_wf (Some v)" "arm_mapped (Some v) a n" "i < n"
  shows "arm_byte_at (Some v) (a + of_nat i) = vm_mem v ! (unat a - unat (GuestPhysAddr v) + i)"
proof -
  have a: "unat (a + of_nat i) = unat a + i"
    using assms by (intro unat_add_of_nat) (simp add: arm_mapped_def arm_wf_def)
  then have m: "arm_mapped (Some v) (a + of_nat i) 1"
    using assms by (simp add: arm_mapped_def)
  then have "unat (a + of_nat i - GuestPhysAddr v) = unat a + i - unat (GuestPhysAddr v)"
    using a by (subst unat_minus_le) (simp_all add: arm_mapped_def word_le_nat_alt)
  moreover have "unat (GuestPhysAddr v) \<le> unat a"
    using assms by (auto simp: arm_mapped_def)
  ultimately show ?thesis using m by (simp add: arm_byte_at_def)
qed

lemma arm_read_mapped:
  assumes "arm_wf vm" "arm_mapped vm a n"
  shows "arm_ReadIPA vm a (int n) = Inr (range_bytes (arm_byte_at vm) a n)"
proof (cases "n = 0")
  case True
  with assms show ?thesis by (auto simp: arm_ReadIPA_def arm_mapped_def split: option.splits)
next
  case False
  obtain v where v: "vm = Some v" using assms by (auto simp: arm_mapped_def split: option.splits)
  note r = arm_range [OF assms [unfolded v]]
  have "take n (drop (unat a - unat (GuestPhysAddr v)) (vm_mem v)) = range_bytes (arm_byte_at vm) a n"
    using False r assms v by (intro nth_equalityI) (auto simp: arm_byte_at_range)
  then show ?thesis
    using False r v by (simp add: arm_ReadIPA_def arm_ReadIPAInto_def go_slice_def Let_def)
qed

lemma arm_read_length: "arm_ReadIPA vm a (int n) = Inr bs \<Longrightarrow> n < 2 ^ 63 \<Longrightarrow> length bs = n"
  by (auto simp: arm_ReadIPA_def arm_ReadIPAInto_def Let_def dest: go_slice_span
      split: option.splits if_splits)

lemma arm_WriteIPA_mapped:
  assumes "arm_wf (Some v)" "arm_mapped (Some v) a (length d)" "d \<noteq> []"
  shows "arm_WriteIPA (Some v) a d =
    (Inr (), Some (v\<lparr>vm_mem := overwrite (vm_mem v) (unat a - unat (GuestPhysAddr v)) d\<rparr>))"
  using arm_range [OF assms(1,2)] assms(3)
  by (simp add: arm_WriteIPA_def go_slice_def Let_def)

lemma arm_write_byte_at:
  assumes wf: "arm_wf vm" and m: "arm_mapped vm a (length d)"
  shows "arm_byte_at (snd (arm_WriteIPA vm a d)) x = stored_byte a d (arm_byte_at vm x) x"
proof (cases "d = []")
  case True
  then show ?thesis by (auto simp: arm_WriteIPA_def stored_byte_def split: option.splits)
next
  case False
  obtain v where v: "vm = Some v" using m by (auto simp: arm_mapped_def split: option.splits)
  let ?g = "unat (GuestPhysAddr v)"
  have w: "snd (arm_WriteIPA vm a d) = Some (v\<lparr>vm_mem := overwrite (vm_mem v) (unat a - ?g) d\<rparr>)"
    using arm_WriteIPA_mapped False wf m v by simp
  have len: "length (vm_mem v) = unat (MemorySize v)" using wf v by (simp add: arm_wf_def)
  have a: "?g \<le> unat a" "unat a + length d \<le> ?g + unat (MemorySize v)" "unat a + length d < 2 ^ 64"
    using m wf v False by (auto simp: arm_mapped_def arm_wf_def)
  have xa: "unat (x - a) < length d \<longleftrightarrow> unat a \<le> unat x \<and> unat x < unat a + length d"
    using a by (intro unat_diff_less_iff) simp
  have xa': "unat (x - a) = unat x - unat a" if "unat a \<le> unat x"
    using that by (intro unat_minus_le) (simp add: word_le_nat_alt)
  have xg: "unat (x - GuestPhysAddr v) = unat x - ?g" if "?g \<le> unat x"
    using that by (intro unat_minus_le) (simp add: word_le_nat_alt)
  show ?thesis
  proof (cases "?g \<le> unat x \<and> unat x < ?g + unat (MemorySize v)")
    case True
    have "overwrite (vm_mem v) (unat a - ?g) d ! (unat x - ?g) =
      (if unat (x - a) < length d then d ! (unat x - unat a) else vm_mem v ! (unat x - ?g))"
      using True a xa len by (subst nth_overwrite) auto
    then show ?thesis
      unfolding w using True xa xa' xg v
      by (auto simp: arm_byte_at_def arm_mapped_def stored_byte_def)
  next
    case False
    with xa a have "\<not> unat (x - a) < length d" by auto
    with False v show ?thesis
      unfolding w by (auto simp: arm_byte_at_def arm_mapped_def stored_byte_def)
  qed
qed

lemma arm_write_wf: "arm_wf vm \<Longrightarrow> length d < 2 ^ 63 \<Longrightarrow> arm_wf (snd (arm_WriteIPA vm a d))"
  by (auto simp: arm_wf_def arm_WriteIPA_def Let_def dest: go_slice_span
      split: option.splits if_splits sum.splits)

lemma arm_write_layout: "arm_mapped (snd (arm_WriteIPA vm a d)) = arm_mapped vm"
  by (auto simp: arm_mapped_def arm_WriteIPA_def Let_def fun_eq_iff
      split: option.splits if_splits sum.splits)

lemma arm_read_unmapped:
  assumes wf: "arm_wf vm" and nm: "\<not> arm_mapped vm a n" and n: "n < 2 ^ 63"
  shows "\<exists>e. arm_ReadIPA vm a (int n) = Inl e"
proof (rule ccontr)
  assume "\<nexists>e. arm_ReadIPA vm a (int n) = Inl e"
  then obtain bs where r: "arm_ReadIPA vm a (int n) = Inr bs"
    by (cases "arm_ReadIPA vm a (int n)") auto
  then obtain v where v: "vm = Some v" by (auto simp: arm_ReadIPA_def split: option.splits)
  let ?g = "GuestPhysAddr v"
  have "n \<noteq> 0" using nm v by (auto simp: arm_mapped_def)
  then have "?g \<le> a" "go_slice (vm_mem v) (a - ?g) (a - ?g + of_nat n) = Inr bs"
    using r v by (auto simp: arm_ReadIPA_def arm_ReadIPAInto_def Let_def split: if_splits)
  with go_slice_span(1) [OF this(2) n] wf v have "arm_mapped vm a n"
    by (auto simp: arm_mapped_def arm_wf_def unat_minus_le word_le_nat_alt)
  with nm show False by blast
qed

lemma arm_write_ok: "arm_wf vm \<Longrightarrow> arm_mapped vm a (length d) \<Longrightarrow> fst (arm_WriteIPA vm a d) = Inr ()"
proof (cases vm)
  case (Some v)
  assume "arm_wf vm" "arm_mapped vm a (length d)"
  with Some show ?thesis by (cases "d = []") (simp_all add: arm_WriteIPA_mapped, simp add: arm_WriteIPA_def)
qed (simp add: arm_mapped_def)

interpretation arm: strict_guest_mem arm_memory arm_wf arm_mapped arm_byte_at
  by unfold_locales
    (auto simp: arm_memory_def arm_read_mapped arm_write_ok arm_write_byte_at arm_write_wf
      arm_write_layout arm_read_unmapped dest: arm_read_length)

section \<open>The amd64 virtual machine: low memory and further regions\<close>

text \<open>
  All guest RAM of an amd64 machine is one host mapping: \<^verbatim>\<open>v.mem\<close> is the whole of it, the low
  guest addresses index it from its start, and the high region is the slice of the same bytes
  after the low part. Host memory is therefore an explicit store, and a region is a window of it.
\<close>

record mapping =
  guestPhysAddr :: u64
  host_off :: nat
  host_len :: nat

record amd_vm =
  host :: bytes
  mem_len :: nat
  lowMemLimit :: u64
  regions :: "mapping list"

fun findRegion :: "mapping list \<Rightarrow> u64 \<Rightarrow> (nat \<times> nat \<times> u64) option" where
  "findRegion [] addr = None"
| "findRegion (r # rs) addr =
     (let start = guestPhysAddr r; end = start + of_nat (host_len r) in
      if start \<le> addr \<and> addr < end then Some (host_off r, host_len r, addr - start)
      else findRegion rs addr)"

definition findMemoryRegion :: "amd_vm \<Rightarrow> u64 \<Rightarrow> (nat \<times> nat \<times> u64) option" where
  "findMemoryRegion v addr =
     (if addr < lowMemLimit v then Some (0, mem_len v, addr) else findRegion (regions v) addr)"

function copyFromGuest :: "amd_vm \<Rightarrow> u64 \<Rightarrow> nat \<Rightarrow> goerr + bytes" where
  "copyFromGuest v addr n =
     (if n = 0 then Inr []
      else case findMemoryRegion v addr of
        None \<Rightarrow> Inl (Unmapped addr n)
      | Some (base, len, off) \<Rightarrow>
          if len < unat off then Inl (Panic SliceBounds)
          else let k = min n (len - unat off) in
            if k = 0 then Inl Diverges
            else case copyFromGuest v (addr + of_nat k) (n - k) of
              Inl e \<Rightarrow> Inl e
            | Inr bs \<Rightarrow> Inr (take k (drop (base + unat off) (host v)) @ bs))"
  by pat_completeness auto
termination
  by (relation "measure (\<lambda>(v, addr, n). n)") auto

function copyToGuest :: "amd_vm \<Rightarrow> u64 \<Rightarrow> bytes \<Rightarrow> (goerr + unit) \<times> amd_vm" where
  "copyToGuest v addr data =
     (if data = [] then (Inr (), v)
      else case findMemoryRegion v addr of
        None \<Rightarrow> (Inl (Unmapped addr (length data)), v)
      | Some (base, len, off) \<Rightarrow>
          if len < unat off then (Inl (Panic SliceBounds), v)
          else let k = min (length data) (len - unat off) in
            if k = 0 then (Inl Diverges, v)
            else copyToGuest (v\<lparr>host := overwrite (host v) (base + unat off) (take k data)\<rparr>)
                   (addr + of_nat k) (drop k data))"
  by pat_completeness auto
termination
  by (relation "measure (\<lambda>(v, addr, data). length data)") auto

declare copyFromGuest.simps [simp del] copyToGuest.simps [simp del]

text \<open>The callers replace an error by their own message; a panic or a hang is not an error.\<close>

definition unmapped_as :: "u64 \<Rightarrow> nat \<Rightarrow> goerr \<Rightarrow> goerr" where
  "unmapped_as addr n e = (case e of Unmapped _ _ \<Rightarrow> Unmapped addr n | _ \<Rightarrow> e)"

definition amd_ReadIPAInto :: "amd_vm option \<Rightarrow> u64 \<Rightarrow> nat \<Rightarrow> goerr + bytes" where
  "amd_ReadIPAInto vm addr n =
     (case vm of None \<Rightarrow> Inl VmNil
      | Some v \<Rightarrow>
          if n = 0 then Inr []
          else case copyFromGuest v addr n of
            Inl e \<Rightarrow> Inl (unmapped_as addr n e) | Inr bs \<Rightarrow> Inr bs)"

definition amd_ReadIPA :: "amd_vm option \<Rightarrow> u64 \<Rightarrow> int \<Rightarrow> goerr + bytes" where
  "amd_ReadIPA vm addr sz =
     (case vm of None \<Rightarrow> Inl VmNil
      | Some v \<Rightarrow>
          if sz < 0 then Inl (InvalidSize sz)
          else if sz = 0 then Inr []
          else amd_ReadIPAInto vm addr (nat sz))"

definition amd_WriteIPA :: "amd_vm option \<Rightarrow> u64 \<Rightarrow> bytes \<Rightarrow> (goerr + unit) \<times> amd_vm option" where
  "amd_WriteIPA vm addr data =
     (case vm of None \<Rightarrow> (Inl VmNil, vm)
      | Some v \<Rightarrow>
          if data = [] then (Inr (), vm)
          else case copyToGuest v addr data of
            (Inl e, v') \<Rightarrow> (Inl (unmapped_as addr (length data) e), Some v')
          | (Inr _, v') \<Rightarrow> (Inr (), Some v'))"

definition amd_memory :: "amd_vm option guest_memory" where
  "amd_memory = \<lparr>ReadIPA = amd_ReadIPA, WriteIPA = amd_WriteIPA\<rparr>"

text \<open>
  What \<^verbatim>\<open>mapAMD64GuestMemoryBytes\<close>, \<^verbatim>\<open>MapAnonymousMemorySlot\<close> and \<^verbatim>\<open>MapSharedMemory\<close> establish:
  regions lie above low memory, do not wrap, and are disjoint, in guest and in host addresses. The
  length of a Go slice is less than \<open>2 ^ 63\<close>.
\<close>

definition regions_apart :: "mapping \<Rightarrow> mapping \<Rightarrow> bool" where
  "regions_apart r s \<longleftrightarrow>
     (unat (guestPhysAddr r) + host_len r \<le> unat (guestPhysAddr s)
       \<or> unat (guestPhysAddr s) + host_len s \<le> unat (guestPhysAddr r))
     \<and> (host_off r + host_len r \<le> host_off s \<or> host_off s + host_len s \<le> host_off r)"

definition amd_wf :: "amd_vm option \<Rightarrow> bool" where
  "amd_wf vm = (case vm of None \<Rightarrow> True
     | Some v \<Rightarrow> unat (lowMemLimit v) \<le> mem_len v \<and> mem_len v \<le> length (host v) \<and> length (host v) < 2 ^ 63
         \<and> sorted_wrt regions_apart (regions v)
         \<and> (\<forall>r \<in> set (regions v). host_off r + host_len r \<le> length (host v)
              \<and> unat (lowMemLimit v) \<le> host_off r
              \<and> lowMemLimit v \<le> guestPhysAddr r
              \<and> unat (guestPhysAddr r) + host_len r < 2 ^ 64))"

definition amd_mapped :: "amd_vm option \<Rightarrow> u64 \<Rightarrow> nat \<Rightarrow> bool" where
  "amd_mapped vm a n = (case vm of None \<Rightarrow> False
     | Some v \<Rightarrow> n = 0 \<or> unat a + n \<le> unat (lowMemLimit v)
         \<or> (\<exists>r \<in> set (regions v). unat (guestPhysAddr r) \<le> unat a
              \<and> unat a + n \<le> unat (guestPhysAddr r) + host_len r))"

definition host_index :: "amd_vm \<Rightarrow> u64 \<Rightarrow> nat option" where
  "host_index v x = map_option (\<lambda>(base, len, off). base + unat off) (findMemoryRegion v x)"

definition amd_byte_at :: "amd_vm option \<Rightarrow> u64 \<Rightarrow> u8" where
  "amd_byte_at vm x = (case vm of None \<Rightarrow> 0
     | Some v \<Rightarrow> (case host_index v x of None \<Rightarrow> 0 | Some h \<Rightarrow> host v ! h))"

definition in_region :: "mapping \<Rightarrow> u64 \<Rightarrow> bool" where
  "in_region r x \<longleftrightarrow> unat (guestPhysAddr r) \<le> unat x \<and> unat x < unat (guestPhysAddr r) + host_len r"

lemma in_region_iff:
  assumes "unat (guestPhysAddr r) + host_len r < 2 ^ 64"
  shows "guestPhysAddr r \<le> x \<and> x < guestPhysAddr r + of_nat (host_len r) \<longleftrightarrow> in_region r x"
  using unat_add_of_nat [of "guestPhysAddr r" "host_len r"] assms
  by (simp add: in_region_def word_le_nat_alt word_less_nat_alt)

lemma findRegion_Some:
  assumes "\<forall>r \<in> set rs. unat (guestPhysAddr r) + host_len r < 2 ^ 64"
    and "findRegion rs x = Some (b, l, off)"
  shows "\<exists>r \<in> set rs. in_region r x \<and> b = host_off r \<and> l = host_len r
    \<and> unat off = unat x - unat (guestPhysAddr r)"
  using assms
proof (induction rs)
  case (Cons r rs)
  show ?case
  proof (cases "in_region r x")
    case True
    then show ?thesis
      using Cons.prems in_region_iff [of r x]
      by (auto simp: Let_def unat_minus_le)
  next
    case False
    then show ?thesis using Cons in_region_iff [of r x] by (auto simp: Let_def split: if_splits)
  qed
qed simp

lemma findRegion_hit:
  assumes "sorted_wrt regions_apart rs" "\<forall>r \<in> set rs. unat (guestPhysAddr r) + host_len r < 2 ^ 64"
    and "r \<in> set rs" "in_region r x"
  shows "findRegion rs x = Some (host_off r, host_len r, x - guestPhysAddr r)"
  using assms
proof (induction rs)
  case (Cons s rs)
  show ?case
  proof (cases "r = s")
    case True
    then show ?thesis using Cons.prems in_region_iff [of s x] by (simp add: Let_def)
  next
    case False
    then have r: "r \<in> set rs" and "regions_apart s r" using Cons.prems by auto
    then have "\<not> in_region s x"
      using Cons.prems(4) by (auto simp: in_region_def regions_apart_def)
    then show ?thesis using Cons r in_region_iff [of s x] by (auto simp: Let_def)
  qed
qed simp

lemma host_index_cases:
  assumes "amd_wf (Some v)" "host_index v x = Some h"
  obtains (low) "unat x < unat (lowMemLimit v)" "h = unat x"
  | (region) r where "r \<in> set (regions v)" "in_region r x"
      "h = host_off r + (unat x - unat (guestPhysAddr r))" "\<not> unat x < unat (lowMemLimit v)"
proof (cases "x < lowMemLimit v")
  case True
  then have "unat x < unat (lowMemLimit v)" "h = unat x"
    using assms(2) by (simp_all add: host_index_def findMemoryRegion_def word_less_nat_alt)
  then show ?thesis by (rule low)
next
  case False
  with assms obtain b l off where f: "findRegion (regions v) x = Some (b, l, off)" "h = b + unat off"
    by (auto simp: host_index_def findMemoryRegion_def)
  moreover have "\<forall>r \<in> set (regions v). unat (guestPhysAddr r) + host_len r < 2 ^ 64"
    using assms by (simp add: amd_wf_def)
  ultimately obtain r where "r \<in> set (regions v)" "in_region r x" "b = host_off r"
    "unat off = unat x - unat (guestPhysAddr r)"
    using findRegion_Some by blast
  with f False have "h = host_off r + (unat x - unat (guestPhysAddr r))"
    "\<not> unat x < unat (lowMemLimit v)" by (simp_all add: word_less_nat_alt)
  with \<open>r \<in> set (regions v)\<close> \<open>in_region r x\<close> show ?thesis by (rule region)
qed

lemma host_index_inj:
  assumes wf: "amd_wf (Some v)" and x: "host_index v x = Some h" and y: "host_index v y = Some h"
  shows "x = y"
proof -
  have apart: "regions_apart r s \<or> regions_apart s r" if "r \<in> set (regions v)" "s \<in> set (regions v)" "r \<noteq> s" for r s
    using wf that by (auto simp: amd_wf_def sorted_wrt_iff_nth_less in_set_conv_nth) (metis nat_neq_iff)
  from wf x have "unat x = unat y"
  proof (cases rule: host_index_cases)
    case low
    from wf y show ?thesis
      by (cases rule: host_index_cases) (use low wf in \<open>auto simp: amd_wf_def\<close>)
  next
    case (region r)
    from wf y show ?thesis
    proof (cases rule: host_index_cases)
      case low
      then show ?thesis using region wf by (auto simp: amd_wf_def)
    next
      case (region s)
      then show ?thesis
        using \<open>r \<in> set (regions v)\<close> \<open>in_region r x\<close> apart [of r s]
          \<open>h = host_off r + (unat x - unat (guestPhysAddr r))\<close>
        by (cases "r = s") (auto simp: in_region_def regions_apart_def)
    qed
  qed
  then show ?thesis by (simp add: word_unat_eq_iff)
qed

text \<open>A mapped range is a window of host memory.\<close>

lemma amd_window:
  assumes wf: "amd_wf (Some v)" and m: "amd_mapped (Some v) a n" and n: "0 < n"
  obtains base len off where "findMemoryRegion v a = Some (base, len, off)" "unat off + n \<le> len"
    "base + unat off + n \<le> length (host v)"
    "\<And>i. i < n \<Longrightarrow> host_index v (a + of_nat i) = Some (base + unat off + i)"
proof (cases "unat a + n \<le> unat (lowMemLimit v)")
  case True
  have lim: "unat (lowMemLimit v) < 2 ^ 64" using unsigned_less [of "lowMemLimit v"] by simp
  have i: "host_index v (a + of_nat i) = Some (unat a + i)" if "i < n" for i
  proof -
    have "unat (a + of_nat i) = unat a + i"
      using that True lim by (intro unat_add_of_nat) simp
    then show ?thesis using that True
      by (simp add: host_index_def findMemoryRegion_def word_less_nat_alt)
  qed
  then show ?thesis
    using True wf n by (intro that [of 0 "mem_len v" a])
      (auto simp: findMemoryRegion_def word_less_nat_alt amd_wf_def)
next
  case False
  then obtain r where r: "r \<in> set (regions v)" "unat (guestPhysAddr r) \<le> unat a"
    "unat a + n \<le> unat (guestPhysAddr r) + host_len r"
    using m n by (auto simp: amd_mapped_def)
  have w: "unat (guestPhysAddr r) + host_len r < 2 ^ 64" "lowMemLimit v \<le> guestPhysAddr r"
    "host_off r + host_len r \<le> length (host v)"
    using wf r(1) by (auto simp: amd_wf_def)
  have f: "findMemoryRegion v (a + of_nat i) =
      Some (host_off r, host_len r, a + of_nat i - guestPhysAddr r)"
    "unat (a + of_nat i - guestPhysAddr r) = unat a - unat (guestPhysAddr r) + i" if "i < n" for i
  proof -
    have ai: "unat (a + of_nat i) = unat a + i"
      using that r w by (intro unat_add_of_nat) simp
    then have "in_region r (a + of_nat i)" using that r by (simp add: in_region_def)
    moreover have "\<not> a + of_nat i < lowMemLimit v"
      using ai r w by (simp add: word_less_nat_alt word_le_nat_alt)
    ultimately show "findMemoryRegion v (a + of_nat i) =
        Some (host_off r, host_len r, a + of_nat i - guestPhysAddr r)"
      using wf r(1) by (auto simp: findMemoryRegion_def amd_wf_def intro: findRegion_hit)
    show "unat (a + of_nat i - guestPhysAddr r) = unat a - unat (guestPhysAddr r) + i"
      using ai r by (subst unat_minus_le) (auto simp: word_le_nat_alt)
  qed
  show ?thesis
    using f(1) [of 0] f(2) [of 0] f n r w
    by (intro that [of "host_off r" "host_len r" "a - guestPhysAddr r"])
      (auto simp: host_index_def)
qed

lemma amd_read_mapped:
  assumes wf: "amd_wf vm" and m: "amd_mapped vm a n"
  shows "amd_ReadIPA vm a (int n) = Inr (range_bytes (amd_byte_at vm) a n)"
proof (cases "n = 0")
  case True
  with m show ?thesis by (auto simp: amd_ReadIPA_def amd_mapped_def split: option.splits)
next
  case False
  obtain v where v: "vm = Some v" using m by (auto simp: amd_mapped_def split: option.splits)
  obtain base len off where w: "findMemoryRegion v a = Some (base, len, off)" "unat off + n \<le> len"
    "base + unat off + n \<le> length (host v)"
    "\<And>i. i < n \<Longrightarrow> host_index v (a + of_nat i) = Some (base + unat off + i)"
    using amd_window wf m False v by (metis gr0I)
  have "min n (len - unat off) = n" using w(2) by simp
  then have "copyFromGuest v a n = Inr (take n (drop (base + unat off) (host v)))"
    using w False by (subst copyFromGuest.simps) (simp add: copyFromGuest.simps [of v _ 0])
  moreover have "take n (drop (base + unat off) (host v)) = range_bytes (amd_byte_at vm) a n"
    using w v by (intro nth_equalityI) (auto simp: amd_byte_at_def)
  ultimately show ?thesis
    using False v by (simp add: amd_ReadIPA_def amd_ReadIPAInto_def)
qed

lemma findMemoryRegion_bounds:
  assumes "amd_wf (Some v)" "findMemoryRegion v a = Some (base, len, off)"
  shows "base + len \<le> length (host v)"
proof (cases "a < lowMemLimit v")
  case True
  then show ?thesis using assms by (auto simp: findMemoryRegion_def amd_wf_def)
next
  case False
  then have "findRegion (regions v) a = Some (base, len, off)"
    using assms by (simp add: findMemoryRegion_def)
  moreover have "\<forall>r \<in> set (regions v). unat (guestPhysAddr r) + host_len r < 2 ^ 64"
    using assms by (simp add: amd_wf_def)
  ultimately obtain r where "r \<in> set (regions v)" "base = host_off r" "len = host_len r"
    using findRegion_Some by blast
  then show ?thesis using assms by (auto simp: amd_wf_def)
qed

lemma copyFromGuest_length:
  assumes "amd_wf (Some v)" "copyFromGuest v a n = Inr bs"
  shows "length bs = n"
  using assms
proof (induction v a n arbitrary: bs rule: copyFromGuest.induct)
  case (1 v a n)
  show ?case
  proof (cases "n = 0")
    case True
    then show ?thesis using "1.prems" by (simp add: copyFromGuest.simps)
  next
    case False
    then obtain base len off where f: "findMemoryRegion v a = Some (base, len, off)"
      "unat off < len"
      using "1.prems" by (auto simp: copyFromGuest.simps [of v a n] Let_def split: option.splits if_splits)
    let ?k = "min n (len - unat off)"
    obtain cs where cs: "copyFromGuest v (a + of_nat ?k) (n - ?k) = Inr cs"
      "bs = take ?k (drop (base + unat off) (host v)) @ cs"
      using "1.prems" False f
      by (auto simp: copyFromGuest.simps [of v a n] Let_def split: sum.splits if_splits)
    have "length cs = n - ?k"
      using "1.IH" [of "(base, len, off)" base "(len, off)" len off ?k] f cs "1.prems" False by simp
    with findMemoryRegion_bounds [OF "1.prems"(1) f(1)] show ?thesis using cs f by simp
  qed
qed

text \<open>Writing changes bytes of the host mapping only.\<close>

definition same_layout :: "amd_vm \<Rightarrow> amd_vm \<Rightarrow> bool" where
  "same_layout v w \<longleftrightarrow> mem_len w = mem_len v \<and> lowMemLimit w = lowMemLimit v
     \<and> regions w = regions v \<and> length (host w) = length (host v)"

lemma same_layout_facts:
  assumes "same_layout v w"
  shows "findMemoryRegion w = findMemoryRegion v" "host_index w = host_index v"
    "amd_wf (Some w) = amd_wf (Some v)" "amd_mapped (Some w) = amd_mapped (Some v)"
  using assms
  by (auto simp: same_layout_def findMemoryRegion_def host_index_def amd_wf_def amd_mapped_def fun_eq_iff)

lemma copyToGuest_layout:
  "amd_wf (Some v) \<Longrightarrow> same_layout v (snd (copyToGuest v a d))"
proof (induction v a d rule: copyToGuest.induct)
  case (1 v a d)
  show ?case
  proof (cases "d = []")
    case True
    then show ?thesis by (simp add: copyToGuest.simps same_layout_def)
  next
    case False
    show ?thesis
    proof (cases "findMemoryRegion v a")
      case None
      then show ?thesis using False by (simp add: copyToGuest.simps same_layout_def)
    next
      case (Some z)
      then obtain base len off where f: "findMemoryRegion v a = Some (base, len, off)"
        by (cases z) auto
      let ?k = "min (length d) (len - unat off)"
      let ?v = "v\<lparr>host := overwrite (host v) (base + unat off) (take ?k d)\<rparr>"
      show ?thesis
      proof (cases "unat off < len")
        case True
        have "same_layout v ?v"
          using findMemoryRegion_bounds [OF "1.prems" f] True by (simp add: same_layout_def)
        moreover have "same_layout ?v (snd (copyToGuest ?v (a + of_nat ?k) (drop ?k d)))"
          using "1.IH" [of "(base, len, off)" base "(len, off)" len off ?k] f True "1.prems" False
            same_layout_facts(3) [OF calculation] by simp
        ultimately have "same_layout v (snd (copyToGuest ?v (a + of_nat ?k) (drop ?k d)))"
          by (simp add: same_layout_def)
        moreover have "copyToGuest v a d = copyToGuest ?v (a + of_nat ?k) (drop ?k d)"
          using f True False
          by (auto simp: copyToGuest.simps [of v a d] Let_def min_def split: if_splits)
        ultimately show ?thesis by simp
      qed (use f False in \<open>simp add: copyToGuest.simps [of v a d] same_layout_def\<close>)
    qed
  qed
qed

lemma amd_WriteIPA_layout:
  "amd_wf (Some v) \<Longrightarrow> \<exists>w. snd (amd_WriteIPA (Some v) a d) = Some w \<and> same_layout v w"
  using copyToGuest_layout [of v a d]
  by (auto simp: amd_WriteIPA_def same_layout_def split: prod.splits sum.splits)

lemma amd_write_wf: "amd_wf vm \<Longrightarrow> amd_wf (snd (amd_WriteIPA vm a d))"
proof (cases vm)
  case (Some v)
  assume "amd_wf vm"
  with Some obtain w where "snd (amd_WriteIPA vm a d) = Some w" "same_layout v w"
    using amd_WriteIPA_layout by metis
  with \<open>amd_wf vm\<close> Some show ?thesis by (simp add: same_layout_facts)
qed (simp add: amd_WriteIPA_def)

lemma amd_write_layout: "amd_wf vm \<Longrightarrow> amd_mapped (snd (amd_WriteIPA vm a d)) = amd_mapped vm"
proof (cases vm)
  case (Some v)
  assume "amd_wf vm"
  with Some obtain w where "snd (amd_WriteIPA vm a d) = Some w" "same_layout v w"
    using amd_WriteIPA_layout by metis
  with Some show ?thesis by (simp add: same_layout_facts)
qed (simp add: amd_WriteIPA_def)

lemma amd_WriteIPA_mapped:
  assumes wf: "amd_wf (Some v)" and m: "amd_mapped (Some v) a (length d)" and "d \<noteq> []"
  obtains h where "amd_WriteIPA (Some v) a d = (Inr (), Some (v\<lparr>host := overwrite (host v) h d\<rparr>))"
    "h + length d \<le> length (host v)"
    "\<And>i. i < length d \<Longrightarrow> host_index v (a + of_nat i) = Some (h + i)"
proof -
  obtain base len off where w: "findMemoryRegion v a = Some (base, len, off)"
    "unat off + length d \<le> len" "base + unat off + length d \<le> length (host v)"
    "\<And>i. i < length d \<Longrightarrow> host_index v (a + of_nat i) = Some (base + unat off + i)"
    using amd_window wf m assms(3) by (metis length_greater_0_conv)
  have "min (length d) (len - unat off) = length d" using w(2) by simp
  then have "copyToGuest v a d = (Inr (), v\<lparr>host := overwrite (host v) (base + unat off) d\<rparr>)"
    using w assms(3) by (subst copyToGuest.simps) (simp add: copyToGuest.simps [of _ _ "[]"])
  then have "amd_WriteIPA (Some v) a d = (Inr (), Some (v\<lparr>host := overwrite (host v) (base + unat off) d\<rparr>))"
    using assms(3) by (simp add: amd_WriteIPA_def)
  then show ?thesis using w(3,4) by (rule that)
qed

lemma amd_write_byte_at:
  assumes wf: "amd_wf vm" and m: "amd_mapped vm a (length d)" and len: "length d < 2 ^ 63"
  shows "amd_byte_at (snd (amd_WriteIPA vm a d)) x = stored_byte a d (amd_byte_at vm x) x"
proof (cases "d = []")
  case True
  then show ?thesis by (auto simp: amd_WriteIPA_def stored_byte_def split: option.splits)
next
  case False
  obtain v where v: "vm = Some v" using m by (auto simp: amd_mapped_def split: option.splits)
  obtain h where w: "amd_WriteIPA vm a d = (Inr (), Some (v\<lparr>host := overwrite (host v) h d\<rparr>))"
    "h + length d \<le> length (host v)"
    "\<And>i. i < length d \<Longrightarrow> host_index v (a + of_nat i) = Some (h + i)"
    using amd_WriteIPA_mapped wf m False v by blast
  let ?v = "v\<lparr>host := overwrite (host v) h d\<rparr>"
  have hi: "host_index ?v = host_index v"
    using w(2) by (intro same_layout_facts) (simp add: same_layout_def)
  show ?thesis
  proof (cases "unat (x - a) < length d")
    case True
    then have "host_index v x = Some (h + unat (x - a))" using w(3) [of "unat (x - a)"] by simp
    then show ?thesis using True w v hi by (simp add: amd_byte_at_def stored_byte_def nth_overwrite)
  next
    case False
    have "host ?v ! k = host v ! k" if k: "host_index v x = Some k" for k
    proof -
      have kl: "k < length (host v)"
        using wf [unfolded v] k by (cases rule: host_index_cases) (use wf v in \<open>auto simp: amd_wf_def in_region_def\<close>)
      have "\<not> (h \<le> k \<and> k < h + length d)"
      proof
        assume hk: "h \<le> k \<and> k < h + length d"
        then obtain i where i: "k = h + i" "i < length d" by (auto simp: le_iff_add)
        then have "host_index v (a + of_nat i) = Some k" using w(3) by simp
        then have "x = a + of_nat i" using host_index_inj wf v k by blast
        then have "unat (x - a) = i" using i len by (simp add: unat_of_nat)
        with i False show "False" by simp
      qed
      then show ?thesis using w(2) kl by (auto simp: nth_overwrite)
    qed
    then show ?thesis using False w v hi
      by (auto simp: amd_byte_at_def stored_byte_def split: option.splits)
  qed
qed

lemma amd_write_ok:
  "amd_wf vm \<Longrightarrow> amd_mapped vm a (length d) \<Longrightarrow> fst (amd_WriteIPA vm a d) = Inr ()"
proof (cases vm)
  case (Some v)
  assume "amd_wf vm" "amd_mapped vm a (length d)"
  with Some show ?thesis
    by (cases "d = []") (auto simp: amd_WriteIPA_def [of _ _ "[]"] elim!: amd_WriteIPA_mapped)
qed (simp add: amd_mapped_def)

lemma amd_read_length: "amd_wf vm \<Longrightarrow> amd_ReadIPA vm a (int n) = Inr bs \<Longrightarrow> length bs = n"
  by (auto simp: amd_ReadIPA_def amd_ReadIPAInto_def dest: copyFromGuest_length
      split: option.splits if_splits sum.splits)

interpretation amd: guest_mem amd_memory amd_wf amd_mapped amd_byte_at
  by unfold_locales
    (auto simp: amd_memory_def amd_read_mapped amd_write_ok amd_write_byte_at amd_write_wf
      amd_write_layout dest: amd_read_length)

section \<open>Properties\<close>

text \<open>Two small machines on which the properties are evaluated.\<close>

definition tiny_arm :: "arm_vm option" where
  "tiny_arm = Some \<lparr>GuestPhysAddr = 0x1000, MemorySize = 16, vm_mem = replicate 16 0\<rparr>"

definition tiny_amd :: "amd_vm option" where
  "tiny_amd = Some \<lparr>host = [0, 1, 2, 3, 4, 5, 6, 7], mem_len = 8, lowMemLimit = 4,
     regions = [\<lparr>guestPhysAddr = 0x100, host_off = 4, host_len = 4\<rparr>]\<rparr>"

text \<open>
  C9. Guest memory behaves as a store, on both machines: what is written to a mapped range is read
  back from it, and a read of a mapped range that does not overlap the written one is unaffected.
\<close>

theorem guest_memory_is_a_store:
  assumes "length d < 2 ^ 63" "n < 2 ^ 63"
  shows "(arm_wf vm \<and> arm_mapped vm a (length d) \<longrightarrow>
      arm_ReadIPA (snd (arm_WriteIPA vm a d)) a (int (length d)) = Inr d
      \<and> (arm_mapped vm b n \<and> ranges_disjoint a (length d) b n \<longrightarrow>
          arm_ReadIPA (snd (arm_WriteIPA vm a d)) b (int n) = arm_ReadIPA vm b (int n)))
    \<and> (amd_wf vm' \<and> amd_mapped vm' a (length d) \<longrightarrow>
      amd_ReadIPA (snd (amd_WriteIPA vm' a d)) a (int (length d)) = Inr d
      \<and> (amd_mapped vm' b n \<and> ranges_disjoint a (length d) b n \<longrightarrow>
          amd_ReadIPA (snd (amd_WriteIPA vm' a d)) b (int n) = amd_ReadIPA vm' b (int n)))"
  using assms arm.read_after_write [of vm a d] arm.write_disjoint [of vm a d b n]
    amd.read_after_write [of vm' a d] amd.write_disjoint [of vm' a d b n]
  by (simp add: arm_memory_def amd_memory_def)

theorem guest_memory_is_a_store_witness:
  "arm_ReadIPA (snd (arm_WriteIPA tiny_arm 0x1004 [7, 9])) 0x1004 2 = Inr [7, 9]
   \<and> arm_ReadIPA (snd (arm_WriteIPA tiny_arm 0x1004 [7, 9])) 0x1008 1 = arm_ReadIPA tiny_arm 0x1008 1
   \<and> amd_ReadIPA (snd (amd_WriteIPA tiny_amd 0x101 [7, 9])) 0x101 2 = Inr [7, 9]"
  using guest_memory_is_a_store [of "[7, 9]" 1 tiny_arm "0x1004" "0x1008"]
    guest_memory_is_a_store [of "[7, 9]" 0 None "0x101" 0 tiny_amd]
  by (simp add: tiny_arm_def tiny_amd_def arm_wf_def arm_mapped_def amd_wf_def amd_mapped_def
      ranges_disjoint_before word_le_nat_alt)

text \<open>
  The arm64 machine answers a read exactly when the whole range is mapped, and then with the
  bytes of the range; every other read ends in an error or a panic, never in foreign bytes.
\<close>

theorem arm_read_exact:
  assumes "arm_wf vm" "n < 2 ^ 63"
  shows "arm_ReadIPA vm a (int n) = Inr bs \<longleftrightarrow>
    arm_mapped vm a n \<and> bs = range_bytes (arm_byte_at vm) a n"
  using arm.read_iff_mapped [OF assms, of a bs] by (simp add: arm_memory_def)

theorem arm_read_exact_witness: "arm_ReadIPA tiny_arm 0x100f 2 \<noteq> Inr [0, 0]"
  using arm_read_exact [of tiny_arm 2 "0x100f" "[0, 0]"]
  by (simp add: tiny_arm_def arm_wf_def arm_mapped_def)

text \<open>
  The bound check of the arm64 machine wraps: a range whose end passes \<open>2 ^ 64\<close> by no more
  than the end of memory is accepted by the comparison, and the slice expression then panics
  instead of reporting the range as unmapped.
\<close>

theorem arm_ReadIPA_wrap_panics:
  assumes "arm_wf (Some v)" "n < 2 ^ 63" "GuestPhysAddr v \<le> a" "2 ^ 64 \<le> unat a + n"
    "unat a + n - 2 ^ 64 \<le> unat (GuestPhysAddr v) + unat (MemorySize v)"
  shows "arm_ReadIPA (Some v) a (int n) = Inl (Panic SliceBounds)"
proof -
  let ?g = "GuestPhysAddr v"
  have "unat a < 2 ^ 64" using unsigned_less [of a] by simp
  then have n0: "n \<noteq> 0" using assms by auto
  have "unat (a + of_nat n) = (unat a + n) mod 2 ^ 64"
    using assms by (simp add: unat_word_ariths unat_of_nat)
  also have "\<dots> = unat a + n - 2 ^ 64"
    using assms \<open>unat a < 2 ^ 64\<close> by (simp add: mod_if)
  finally have e: "unat (a + of_nat n) = unat a + n - 2 ^ 64" .
  have "unat (?g + MemorySize v) = unat ?g + unat (MemorySize v)"
    using assms by (intro unat_add_lt) (simp add: arm_wf_def)
  then have pass: "\<not> (a < ?g \<or> ?g + MemorySize v < a + of_nat n)"
    using assms e by (auto simp: word_less_nat_alt word_le_nat_alt)
  have "\<not> arm_mapped (Some v) a n"
    using assms n0 by (auto simp: arm_mapped_def arm_wf_def)
  then obtain err where "arm_ReadIPA (Some v) a (int n) = Inl err"
    using arm_read_unmapped assms by blast
  then show ?thesis
    using pass n0 by (auto simp: arm_ReadIPA_def arm_ReadIPAInto_def Let_def go_slice_def split: if_splits)
qed

theorem arm_ReadIPA_wrap_panics_witness:
  "arm_ReadIPA tiny_arm 0xfffffffffffffff8 16 = Inl (Panic SliceBounds)"
  using arm_ReadIPA_wrap_panics
    [of "\<lparr>GuestPhysAddr = 0x1000, MemorySize = 16, vm_mem = replicate 16 0\<rparr>" 16 "0xfffffffffffffff8"]
  by (simp add: tiny_arm_def arm_wf_def word_le_nat_alt)

text \<open>
  The amd64 machine does not stop at the end of low memory: a read that starts below
  \<^verbatim>\<open>lowMemLimit\<close> and runs past it succeeds as long as the host mapping lasts, and what it
  returns past the limit are the host bytes that back other guest addresses.
\<close>

theorem amd_read_past_low_memory:
  assumes "amd_wf (Some v)" "0 < n" "a < lowMemLimit v" "unat a + n \<le> mem_len v"
  shows "amd_ReadIPA (Some v) a (int n) = Inr (take n (drop (unat a) (host v)))"
  using assms
  by (simp add: amd_ReadIPA_def amd_ReadIPAInto_def copyFromGuest.simps findMemoryRegion_def Let_def min_def)

theorem amd_read_past_low_memory_witness:
  "\<not> amd_mapped tiny_amd 2 4 \<and> amd_ReadIPA tiny_amd 2 4 = Inr [2, 3, 4, 5]"
  using amd_read_past_low_memory [of "the tiny_amd" 4 2]
  by (simp add: tiny_amd_def amd_wf_def amd_mapped_def word_le_nat_alt word_less_nat_alt)

end
