(* ===== verification/Virtqueue.thy ===== *)
theory Virtqueue
  imports GuestMem
begin

text \<open>
  Split virtqueues: the device's view of a queue (\<^verbatim>\<open>queue\<close> and \<^verbatim>\<open>descriptor\<close> in
  \<^verbatim>\<open>virtio/console.go\<close>) and the helpers of \<^verbatim>\<open>virtio/queue_io.go\<close> that walk descriptor chains,
  gather requests, scatter responses and publish used elements. A pointer to a queue is never
  nil in the callers, so it is the queue itself here.
\<close>

section \<open>Data\<close>

record queue =
  qsize :: u16
  qready :: bool
  descAddr :: u64
  availAddr :: u64
  usedAddr :: u64
  lastAvailIdx :: u16
  usedIdx :: u16
  noNotify :: bool
  descMem :: "bytes option"
  availMem :: "bytes option"
  usedMem :: "bytes option"

definition zero_queue :: queue where
  "zero_queue = \<lparr>qsize = 0, qready = False, descAddr = 0, availAddr = 0, usedAddr = 0,
     lastAvailIdx = 0, usedIdx = 0, noNotify = False, descMem = None, availMem = None,
     usedMem = None\<rparr>"

definition clearCache :: "queue \<Rightarrow> queue" where
  "clearCache q = q\<lparr>descMem := None, availMem := None, usedMem := None\<rparr>"

record descriptor =
  daddr :: u64
  dlength :: u32
  dflags :: u16
  dnext :: u16

record queueBuffer =
  baddr :: u64
  blength :: u32
  bwrite :: bool

abbreviation (input) descFNext :: u16 where "descFNext \<equiv> 1"
abbreviation (input) descFWrite :: u16 where "descFWrite \<equiv> 2"
abbreviation (input) maxQueueRequestBytes :: u64 where "maxQueueRequestBytes \<equiv> 0x100000"

definition alignVirtio :: "u64 \<Rightarrow> u64 \<Rightarrow> u64" where
  "alignVirtio v al = (if al = 0 then v else (v + al - 1) AND NOT (al - 1))"

section \<open>Descriptors and chains\<close>

definition decode_descriptor :: "bytes \<Rightarrow> descriptor" where
  "decode_descriptor raw =
     \<lparr>daddr = le_word (sub_bytes raw 0 8), dlength = le_word (sub_bytes raw 8 12),
      dflags = le_word (sub_bytes raw 12 14), dnext = le_word (sub_bytes raw 14 16)\<rparr>"

definition readQueueDescriptor :: "'m guest_memory \<Rightarrow> 'm \<Rightarrow> queue \<Rightarrow> u16 \<Rightarrow> goerr + descriptor" where
  "readQueueDescriptor M mem q index =
     (if qsize q = 0 \<or> qsize q \<le> index then Inl (DescriptorRange index)
      else case ReadIPA M mem (descAddr q + ucast index * 16) 16 of
        Inl e \<Rightarrow> Inl e
      | Inr raw \<Rightarrow> Inr (decode_descriptor raw))"

definition buffer_of :: "descriptor \<Rightarrow> queueBuffer" where
  "buffer_of desc = \<lparr>baddr = daddr desc, blength = dlength desc, bwrite = (dflags desc AND descFWrite \<noteq> 0)\<rparr>"

text \<open>The counted loop of \<^verbatim>\<open>readQueueChain\<close>: the first argument is how many rounds are left.\<close>

fun chain_loop :: "nat \<Rightarrow> 'm guest_memory \<Rightarrow> 'm \<Rightarrow> queue \<Rightarrow> u16 \<Rightarrow> queueBuffer list \<Rightarrow> goerr + queueBuffer list" where
  "chain_loop 0 M mem q index out = Inl ChainLoop"
| "chain_loop (Suc n) M mem q index out =
     (case readQueueDescriptor M mem q index of
        Inl e \<Rightarrow> Inl e
      | Inr desc \<Rightarrow>
          let out' = out @ [buffer_of desc] in
          if dflags desc AND descFNext = 0 then Inr out' else chain_loop n M mem q (dnext desc) out')"

definition readQueueChain :: "'m guest_memory \<Rightarrow> 'm option \<Rightarrow> queue \<Rightarrow> u16 \<Rightarrow> goerr + queueBuffer list" where
  "readQueueChain M mem q head =
     (case mem of None \<Rightarrow> Inl NoGuestMemory
      | Some m \<Rightarrow> chain_loop (unat (qsize q)) M m q head [])"

section \<open>Requests and responses\<close>

fun request_total :: "queueBuffer list \<Rightarrow> bool \<Rightarrow> u64 \<Rightarrow> goerr + u64" where
  "request_total [] sawWritable tot = Inr tot"
| "request_total (b # bs) sawWritable tot =
     (if bwrite b then request_total bs True tot
      else if sawWritable then Inl ReadableAfterWritable
      else let tot' = tot + ucast (blength b) in
        if 0x7fffffffffffffff < tot' then Inl RequestTooLarge
        else if maxQueueRequestBytes < tot' then Inl RequestTooLarge
        else request_total bs sawWritable tot')"

text \<open>\<^verbatim>\<open>copy(out[off:], raw)\<close>: as much of \<open>raw\<close> as fits, and a panic when the offset is past the end.\<close>

definition copy_at :: "bytes \<Rightarrow> nat \<Rightarrow> bytes \<Rightarrow> goerr + bytes" where
  "copy_at out off raw =
     (if length out < off then Inl (Panic SliceBounds)
      else Inr (take off out @ take (length out - off) raw @ drop (off + length raw) out))"

fun request_copy :: "'m guest_memory \<Rightarrow> 'm \<Rightarrow> queueBuffer list \<Rightarrow> bytes \<Rightarrow> nat \<Rightarrow> goerr + bytes" where
  "request_copy M mem [] out off = Inr out"
| "request_copy M mem (b # bs) out off =
     (if bwrite b then Inr out
      else if blength b = 0 then request_copy M mem bs out off
      else case ReadIPA M mem (baddr b) (int (unat (blength b))) of
        Inl e \<Rightarrow> Inl e
      | Inr raw \<Rightarrow>
          (case copy_at out off raw of Inl e \<Rightarrow> Inl e
           | Inr out' \<Rightarrow> request_copy M mem bs out' (off + length raw)))"

definition readQueueRequest :: "'m guest_memory \<Rightarrow> 'm \<Rightarrow> queueBuffer list \<Rightarrow> goerr + bytes" where
  "readQueueRequest M mem buffers =
     (case request_total buffers False 0 of
        Inl e \<Rightarrow> Inl e
      | Inr tot \<Rightarrow>
          if tot = 0 then Inl NoReadableBytes
          else request_copy M mem buffers (replicate (unat tot) 0) 0)"

text \<open>The scatter loop: it returns the bytes written so far, also when a write fails.\<close>

fun response_loop :: "'m guest_memory \<Rightarrow> queueBuffer list \<Rightarrow> bytes \<Rightarrow> nat \<Rightarrow> 'm \<Rightarrow> (goerr option \<times> nat) \<times> 'm" where
  "response_loop M [] data off mem = ((None, off), mem)"
| "response_loop M (b # bs) data off mem =
     (if \<not> bwrite b \<or> blength b = 0 then response_loop M bs data off mem
      else let count = length data - off in
        if count = 0 then ((None, off), mem)
        else let count' = min count (unat (blength b)) in
          case WriteIPA M mem (baddr b) (take count' (drop off data)) of
            (Inl e, mem') \<Rightarrow> ((Some e, off), mem')
          | (Inr _, mem') \<Rightarrow> response_loop M bs data (off + count') mem')"

definition writeQueueResponse :: "'m guest_memory \<Rightarrow> queueBuffer list \<Rightarrow> bytes \<Rightarrow> 'm \<Rightarrow> (goerr option \<times> u32) \<times> 'm" where
  "writeQueueResponse M buffers data mem =
     (case response_loop M buffers data 0 mem of
        ((Some e, off), mem') \<Rightarrow> ((Some e, of_nat off), mem')
      | ((None, off), mem') \<Rightarrow>
          if off \<noteq> length data then ((Some (ResponseTooLarge (length data) off), of_nat off), mem')
          else ((None, of_nat off), mem'))"

section \<open>The available and used rings\<close>

definition readAvailableIndex :: "'m guest_memory \<Rightarrow> 'm \<Rightarrow> queue \<Rightarrow> goerr + u16" where
  "readAvailableIndex M mem q =
     (case ReadIPA M mem (availAddr q + 2) 2 of Inl e \<Rightarrow> Inl e | Inr raw \<Rightarrow> Inr (le_word (take 2 raw)))"

definition readAvailableHead :: "'m guest_memory \<Rightarrow> 'm \<Rightarrow> queue \<Rightarrow> u16 \<Rightarrow> goerr + u16" where
  "readAvailableHead M mem q index =
     (if qsize q = 0 then Inl (Panic DivideByZero)
      else case ReadIPA M mem (availAddr q + 4 + ucast (index mod qsize q) * 2) 2 of
        Inl e \<Rightarrow> Inl e | Inr raw \<Rightarrow> Inr (le_word (take 2 raw)))"

text \<open>The first write may succeed and the second fail: the index is then already advanced.\<close>

definition writeQueueUsed :: "'m guest_memory \<Rightarrow> u16 \<Rightarrow> u32 \<Rightarrow> (queue \<times> 'm, unit) gomethod" where
  "writeQueueUsed M head usedLen = (\<lambda>(q, mem).
     if qsize q = 0 then (Inl (Panic DivideByZero), (q, mem))
     else let slot = usedIdx q mod qsize q in
       case WriteIPA M mem (usedAddr q + 4 + ucast slot * 8) (le_bytes 4 (ucast head :: u32) @ le_bytes 4 usedLen) of
         (Inl e, mem') \<Rightarrow> (Inl e, (q, mem'))
       | (Inr _, mem') \<Rightarrow>
           let q' = q\<lparr>usedIdx := usedIdx q + 1\<rparr> in
           case WriteIPA M mem' (usedAddr q + 2) (le_bytes 2 (usedIdx q')) of
             (Inl e, mem'') \<Rightarrow> (Inl e, (q', mem''))
           | (Inr _, mem'') \<Rightarrow> (Inr (), (q', mem'')))"

section \<open>Alignment\<close>

text \<open>For a power of two, \<open>alignVirtio\<close> rounds up to the next multiple, as long as it does not wrap.\<close>

lemma alignVirtio_rounds_up:
  assumes "k < 64" "unat v + 2 ^ k \<le> 2 ^ 64"
  shows "2 ^ k dvd unat (alignVirtio v (2 ^ k))" "unat v \<le> unat (alignVirtio v (2 ^ k))"
    "unat (alignVirtio v (2 ^ k)) < unat v + 2 ^ k"
proof -
  have "alignVirtio v (2 ^ k) = (v + mask k) AND NOT (mask k)"
    using assms(1) by (simp add: alignVirtio_def mask_eq_exp_minus_1 add_diff_eq)
  then show "2 ^ k dvd unat (alignVirtio v (2 ^ k))" "unat v \<le> unat (alignVirtio v (2 ^ k))"
    "unat (alignVirtio v (2 ^ k)) < unat v + 2 ^ k" using round_up [OF assms] by simp_all
qed

section \<open>Chains\<close>

text \<open>The chain of descriptors the guest laid out from an index on, as buffers.\<close>

inductive desc_chain :: "'m guest_memory \<Rightarrow> 'm \<Rightarrow> queue \<Rightarrow> u16 \<Rightarrow> queueBuffer list \<Rightarrow> bool"
  for M mem q where
  chain_end: "readQueueDescriptor M mem q i = Inr d \<Longrightarrow> dflags d AND descFNext = 0 \<Longrightarrow>
    desc_chain M mem q i [buffer_of d]"
| chain_next: "readQueueDescriptor M mem q i = Inr d \<Longrightarrow> dflags d AND descFNext \<noteq> 0 \<Longrightarrow>
    desc_chain M mem q (dnext d) bs \<Longrightarrow> desc_chain M mem q i (buffer_of d # bs)"

inductive_cases desc_chain_ConsE: "desc_chain M mem q i (b # bs)"
inductive_simps desc_chain_Nil [simp]: "desc_chain M mem q i []"

lemma chain_loop_sound:
  "chain_loop n M mem q i acc = Inr out \<Longrightarrow>
     \<exists>bs. out = acc @ bs \<and> desc_chain M mem q i bs \<and> length bs \<le> n"
proof (induction n arbitrary: i acc)
  case (Suc n)
  then obtain d where d: "readQueueDescriptor M mem q i = Inr d"
    by (auto split: sum.splits)
  show ?case
  proof (cases "dflags d AND descFNext = 0")
    case True
    then show ?thesis using Suc.prems d by (force intro: chain_end)
  next
    case False
    then have "chain_loop n M mem q (dnext d) (acc @ [buffer_of d]) = Inr out"
      using Suc.prems d by simp
    from Suc.IH [OF this] obtain bs where
      "out = acc @ buffer_of d # bs" "desc_chain M mem q (dnext d) bs" "length bs \<le> n" by auto
    then show ?thesis using False d by (intro exI [of _ "buffer_of d # bs"]) (auto intro: chain_next)
  qed
qed simp

lemma chain_loop_complete:
  "desc_chain M mem q i bs \<Longrightarrow> length bs \<le> n \<Longrightarrow> chain_loop n M mem q i acc = Inr (acc @ bs)"
proof (induction arbitrary: n acc rule: desc_chain.induct)
  case (chain_end i d)
  then show ?case by (cases n) auto
next
  case (chain_next i d bs)
  then show ?case by (cases n) auto
qed

section \<open>Requests\<close>

text \<open>The device-readable buffers come first; what the guest put into them, in order.\<close>

definition readable_part :: "queueBuffer list \<Rightarrow> queueBuffer list" where
  "readable_part bs = takeWhile (\<lambda>b. \<not> bwrite b) bs"

definition request_bytes :: "queueBuffer list \<Rightarrow> nat" where
  "request_bytes bs = sum_list (map (\<lambda>b. unat (blength b)) (readable_part bs))"

definition request_ok :: "queueBuffer list \<Rightarrow> bool" where
  "request_ok bs \<longleftrightarrow> list_all bwrite (dropWhile (\<lambda>b. \<not> bwrite b) bs)
     \<and> 0 < request_bytes bs \<and> request_bytes bs \<le> 2 ^ 20"

definition gathered :: "(u64 \<Rightarrow> u8) \<Rightarrow> queueBuffer list \<Rightarrow> bytes" where
  "gathered f bs = concat (map (\<lambda>b. range_bytes f (baddr b) (unat (blength b))) (readable_part bs))"

lemma readable_part_simps [simp]:
  "readable_part [] = []" "readable_part (b # bs) = (if bwrite b then [] else b # readable_part bs)"
  by (simp_all add: readable_part_def)

lemma request_bytes_simps [simp]:
  "request_bytes [] = 0"
  "request_bytes (b # bs) = (if bwrite b then 0 else unat (blength b) + request_bytes bs)"
  by (simp_all add: request_bytes_def)

lemma gathered_simps [simp]:
  "gathered f [] = []"
  "gathered f (b # bs) = (if bwrite b then [] else range_bytes f (baddr b) (unat (blength b)) @ gathered f bs)"
  by (simp_all add: gathered_def)

lemma length_gathered [simp]: "length (gathered f bs) = request_bytes bs"
  by (induction bs) auto

lemma request_total_writable:
  "request_total bs True tot = (if list_all bwrite bs then Inr tot else Inl ReadableAfterWritable)"
  by (induction bs) auto

lemma request_total_eq:
  assumes "unat tot \<le> 2 ^ 20"
  shows "case request_total bs False tot of
     Inr t \<Rightarrow> list_all bwrite (dropWhile (\<lambda>b. \<not> bwrite b) bs) \<and> unat t = unat tot + request_bytes bs
       \<and> unat t \<le> 2 ^ 20
   | Inl e \<Rightarrow> \<not> list_all bwrite (dropWhile (\<lambda>b. \<not> bwrite b) bs) \<or> 2 ^ 20 < unat tot + request_bytes bs"
  using assms
proof (induction bs arbitrary: tot)
  case (Cons b bs)
  show ?case
  proof (cases "bwrite b")
    case True
    then show ?thesis using Cons.prems by (simp add: request_total_writable)
  next
    case False
    have len: "unat (ucast (blength b) :: u64) = unat (blength b)" "unat (blength b) < 2 ^ 32"
      using unsigned_less [of "blength b"] by (simp_all add: unat_ucast_up)
    then have t: "unat (tot + ucast (blength b)) = unat tot + unat (blength b)"
      using Cons.prems by (subst unat_add_lt) auto
    show ?thesis
    proof (cases "unat tot + unat (blength b) \<le> 2 ^ 20")
      case True
      then show ?thesis
        using False Cons.IH [of "tot + ucast (blength b)"] t
        by (auto simp: Let_def word_less_nat_alt split: sum.splits)
    next
      case over: False
      then show ?thesis using False t by (simp add: Let_def word_less_nat_alt)
    qed
  qed
qed simp

lemma request_ok_iff: "(\<exists>t. request_total bs False 0 = Inr t \<and> t \<noteq> 0) \<longleftrightarrow> request_ok bs"
  using request_total_eq [of 0 bs]
  by (auto simp: request_ok_def unat_gt_0 split: sum.splits) (metis gr0I unat_0_iff)

lemma unat_blength_lt: "unat (blength b) < 2 ^ 63"
proof -
  have "unat (blength b) < 2 ^ LENGTH(32)" by (rule unsigned_less)
  also have "\<dots> < (2 ^ 63 :: nat)" by simp
  finally show ?thesis .
qed

lemma copy_at_append: "copy_at (xs @ ys) (length xs) zs =
   (if length zs \<le> length ys then Inr (xs @ zs @ drop (length zs) ys) else Inr (xs @ take (length ys) zs))"
  by (simp add: copy_at_def)

lemma take_drop_min:
  "take (min (length d - off) n) (drop off d) @ take w (drop (off + min (length d - off) n) d)
     = take (n + w) (drop off d)"
proof (cases "n \<le> length d - off")
  case True
  then have "min (length d - off) n = n" by simp
  then show ?thesis by (simp add: take_add [of n w] add.commute)
next
  case False
  then have "min (length d - off) n = length d - off" by simp
  then show ?thesis using False by simp
qed

text \<open>Where the response goes: the device-writable buffers, in order.\<close>

definition writable_bytes :: "queueBuffer list \<Rightarrow> nat" where
  "writable_bytes bs = sum_list (map (\<lambda>b. unat (blength b)) (filter bwrite bs))"

definition writable_view :: "(u64 \<Rightarrow> u8) \<Rightarrow> queueBuffer list \<Rightarrow> bytes" where
  "writable_view f bs = concat (map (\<lambda>b. range_bytes f (baddr b) (unat (blength b))) (filter bwrite bs))"

definition in_writable :: "queueBuffer list \<Rightarrow> u64 \<Rightarrow> bool" where
  "in_writable bs x \<longleftrightarrow> (\<exists>b \<in> set bs. bwrite b \<and> unat (x - baddr b) < unat (blength b))"

text \<open>
  The effect of a response: the writable buffers start with it, and every byte outside them is
  what it was.
\<close>

definition scattered :: "queueBuffer list \<Rightarrow> bytes \<Rightarrow> (u64 \<Rightarrow> u8) \<Rightarrow> (u64 \<Rightarrow> u8) \<Rightarrow> bool" where
  "scattered bs d f f' \<longleftrightarrow> take (length d) (writable_view f' bs) = d
     \<and> (\<forall>x. \<not> in_writable bs x \<longrightarrow> f' x = f x)"

definition writable_disjoint :: "queueBuffer list \<Rightarrow> bool" where
  "writable_disjoint bs \<longleftrightarrow> sorted_wrt
     (\<lambda>b c. ranges_disjoint (baddr b) (unat (blength b)) (baddr c) (unat (blength c))) (filter bwrite bs)"

lemma writable_view_simps [simp]:
  "writable_view f [] = []"
  "writable_view f (b # bs) =
     (if bwrite b then range_bytes f (baddr b) (unat (blength b)) @ writable_view f bs else writable_view f bs)"
  by (simp_all add: writable_view_def)

lemma writable_bytes_simps [simp]:
  "writable_bytes [] = 0"
  "writable_bytes (b # bs) = (if bwrite b then unat (blength b) + writable_bytes bs else writable_bytes bs)"
  by (simp_all add: writable_bytes_def)

lemma in_writable_Cons [simp]:
  "in_writable (b # bs) x \<longleftrightarrow> (bwrite b \<and> unat (x - baddr b) < unat (blength b)) \<or> in_writable bs x"
  by (auto simp: in_writable_def)

lemma writable_disjoint_head:
  assumes "writable_disjoint (b # bs)" "bwrite b" "i < unat (blength b)"
  shows "\<not> in_writable bs (baddr b + of_nat i)"
proof
  assume "in_writable bs (baddr b + of_nat i)"
  then obtain c where c: "c \<in> set bs" "bwrite c" "unat (baddr b + of_nat i - baddr c) < unat (blength c)"
    by (auto simp: in_writable_def)
  then have "ranges_disjoint (baddr b) (unat (blength b)) (baddr c) (unat (blength c))"
    using assms by (auto simp: writable_disjoint_def)
  moreover have "baddr b + of_nat i = baddr c + of_nat (unat (baddr b + of_nat i - baddr c))" by simp
  ultimately show False using assms(3) c(3) unfolding ranges_disjoint_def by blast
qed

context guest_mem
begin

lemma request_copy_mapped:
  assumes "invar m" "\<forall>b \<in> set (readable_part bs). mapped m (baddr b) (unat (blength b))"
    "length ys = request_bytes bs"
  shows "request_copy M m bs (xs @ ys) (length xs) = Inr (xs @ gathered (byte_at m) bs)"
  using assms
proof (induction bs arbitrary: xs ys)
  case (Cons b bs)
  show ?case
  proof (cases "bwrite b \<or> blength b = 0")
    case True
    then show ?thesis using Cons by auto
  next
    case False
    let ?raw = "range_bytes (byte_at m) (baddr b) (unat (blength b))"
    have "ReadIPA M m (baddr b) (int (unat (blength b))) = Inr ?raw"
      using Cons.prems False by (intro read_mapped unat_blength_lt) auto
    moreover have "copy_at (xs @ ys) (length xs) ?raw = Inr ((xs @ ?raw) @ drop (unat (blength b)) ys)"
      using Cons.prems(3) False by (simp add: copy_at_append)
    moreover have "request_copy M m bs ((xs @ ?raw) @ drop (unat (blength b)) ys) (length (xs @ ?raw))
        = Inr ((xs @ ?raw) @ gathered (byte_at m) bs)"
      using Cons.prems False by (intro Cons.IH) auto
    ultimately show ?thesis using False by simp
  qed
qed simp

lemma readQueueRequest_gathers:
  assumes "invar m" "request_ok bs" "\<forall>b \<in> set (readable_part bs). mapped m (baddr b) (unat (blength b))"
  shows "readQueueRequest M m bs = Inr (gathered (byte_at m) bs)"
proof -
  obtain t where t: "request_total bs False 0 = Inr t" "t \<noteq> 0"
    using assms(2) request_ok_iff by blast
  then have "unat t = request_bytes bs" using request_total_eq [of 0 bs] by simp
  then show ?thesis
    using t request_copy_mapped [OF assms(1,3), of "replicate (unat t) 0" "[]"]
    by (simp add: readQueueRequest_def)
qed

text \<open>
  Scattering a response: the bytes land in the writable buffers in order, bytes outside them
  stay as they were, and the count is what was left or what fitted.
\<close>

definition scatter_post :: "queueBuffer list \<Rightarrow> bytes \<Rightarrow> 'm \<Rightarrow> 'm \<Rightarrow> bool" where
  "scatter_post bs d m m' \<longleftrightarrow> invar m' \<and> mapped m' = mapped m
     \<and> scattered bs d (byte_at m) (byte_at m')"

lemma scatter_post_step:
  assumes inv: "invar m" and b: "bwrite b" and map: "mapped m (baddr b) k"
    and k: "k \<le> unat (blength b)" "k = length d1"
    and rest: "k < unat (blength b) \<Longrightarrow> d2 = []"
    and dis: "writable_disjoint (b # bs)"
    and post: "scatter_post bs d2 (snd (WriteIPA M m (baddr b) d1)) m'"
  shows "scatter_post (b # bs) (d1 @ d2) m m'"
proof -
  let ?m1 = "snd (WriteIPA M m (baddr b) d1)"
  have klt: "k < 2 ^ 63" using k unat_blength_lt [of b] by simp
  have at1: "byte_at ?m1 x = stored_byte (baddr b) d1 (byte_at m x) x" for x
    using inv map k klt by (intro write_byte_at) simp_all
  have at': "byte_at m' (baddr b + of_nat i) = byte_at ?m1 (baddr b + of_nat i)"
    if "i < unat (blength b)" for i
    using writable_disjoint_head [OF dis b that] post by (simp add: scatter_post_def scattered_def)
  have "take k (range_bytes (byte_at m') (baddr b) (unat (blength b))) = d1"
  proof (rule nth_equalityI)
    fix i assume "i < length (take k (range_bytes (byte_at m') (baddr b) (unat (blength b))))"
    then have i: "i < k" using k by simp
    have "unat (baddr b + of_nat i - baddr b) = i" using i klt by (simp add: unat_of_nat)
    then show "take k (range_bytes (byte_at m') (baddr b) (unat (blength b))) ! i = d1 ! i"
      using i k at' at1 by (simp add: stored_byte_def)
  qed (use k in simp)
  then have "take (length (d1 @ d2)) (writable_view (byte_at m') (b # bs)) = d1 @ d2"
    using b k rest post
    by (cases "k < unat (blength b)") (auto simp: scatter_post_def scattered_def)
  moreover have "byte_at m' x = byte_at m x" if "\<not> in_writable (b # bs) x" for x
    using that b post at1 [of x] k by (auto simp: scatter_post_def scattered_def stored_byte_def)
  moreover have "mapped m' = mapped m" "invar m'"
    using post inv write_layout by (simp_all add: scatter_post_def scattered_def)
  ultimately show ?thesis by (simp add: scatter_post_def scattered_def)
qed

lemma response_loop_scatters:
  assumes "invar m" "\<forall>b \<in> set bs. bwrite b \<longrightarrow> (\<forall>k \<le> unat (blength b). mapped m (baddr b) k)"
    "writable_disjoint bs" "off \<le> length data"
  shows "\<exists>m'. response_loop M bs data off m =
      ((None, off + min (length data - off) (writable_bytes bs)), m')
    \<and> scatter_post bs (take (writable_bytes bs) (drop off data)) m m'"
  using assms
proof (induction bs arbitrary: m off)
  case Nil
  then show ?case by (simp add: scatter_post_def scattered_def)
next
  case (Cons b bs)
  have dis: "writable_disjoint bs"
    using Cons.prems by (auto simp: writable_disjoint_def split: if_splits)
  show ?case
  proof (cases "bwrite b \<and> blength b \<noteq> 0 \<and> off < length data")
    case False
    then consider "\<not> bwrite b" | "bwrite b" "blength b = 0" | "bwrite b" "blength b \<noteq> 0" "off = length data"
      using Cons.prems by fastforce
    then show ?thesis
    proof cases
      case 1
      then show ?thesis using Cons.IH [of m off] Cons.prems dis
        by (auto simp: scatter_post_def scattered_def in_writable_def)
    next
      case 2
      then show ?thesis using Cons.IH [of m off] Cons.prems dis
        by (auto simp: scatter_post_def scattered_def in_writable_def)
    next
      case 3
      then show ?thesis using Cons.prems by (simp add: scatter_post_def scattered_def)
    qed
  next
    case True
    let ?k = "min (length data - off) (unat (blength b))"
    let ?d1 = "take ?k (drop off data)"
    define m1 where "m1 = snd (WriteIPA M m (baddr b) ?d1)"
    have map: "mapped m (baddr b) ?k" using True Cons.prems by simp
    have len: "length ?d1 = ?k" by simp
    have klt: "?k < 2 ^ 63" using unat_blength_lt [of b] by simp
    have w: "WriteIPA M m (baddr b) ?d1 = (Inr (), m1)"
      using write_mapped [of m "baddr b" ?d1] map klt Cons.prems by (simp add: m1_def prod_eq_iff)
    have inv1: "invar m1" "mapped m1 = mapped m"
      using Cons.prems klt write_frame [of m ?d1] write_layout [of m] by (auto simp: m1_def)
    obtain m' where m': "response_loop M bs data (off + ?k) m1 =
        ((None, off + ?k + min (length data - (off + ?k)) (writable_bytes bs)), m')"
      "scatter_post bs (take (writable_bytes bs) (drop (off + ?k) data)) m1 m'"
    proof -
      have "off + ?k \<le> length data" using True by linarith
      moreover have "\<forall>b \<in> set bs. bwrite b \<longrightarrow> (\<forall>k \<le> unat (blength b). mapped m1 (baddr b) k)"
        using inv1(2) Cons.prems(2) by simp
      ultimately show ?thesis using Cons.IH [OF inv1(1) _ dis] that by blast
    qed
    have "scatter_post (b # bs) (?d1 @ take (writable_bytes bs) (drop (off + ?k) data)) m m'"
      using Cons.prems True map len m'(2) unfolding m1_def by (intro scatter_post_step [where k = ?k]) auto
    moreover have "?d1 @ take (writable_bytes bs) (drop (off + ?k) data) =
        take (writable_bytes (b # bs)) (drop off data)"
      using True by (simp add: take_drop_min)
    moreover have "response_loop M (b # bs) data off m =
        ((None, off + min (length data - off) (writable_bytes (b # bs))), m')"
      using True w m'(1) by (simp add: Let_def)
    ultimately show ?thesis by auto
  qed
qed

lemma writeQueueResponse_scatters:
  assumes "invar m" "\<forall>b \<in> set bs. bwrite b \<longrightarrow> (\<forall>k \<le> unat (blength b). mapped m (baddr b) k)"
    "writable_disjoint bs" "length data \<le> writable_bytes bs"
  shows "\<exists>m'. writeQueueResponse M bs data m = ((None, of_nat (length data)), m')
    \<and> scatter_post bs data m m'"
  using response_loop_scatters [OF assms(1-3), of 0 data] assms(4)
  by (auto simp: writeQueueResponse_def min_def)

lemma writeQueueResponse_outcome:
  assumes "invar m" "\<forall>b \<in> set bs. bwrite b \<longrightarrow> (\<forall>k \<le> unat (blength b). mapped m (baddr b) k)"
    "writable_disjoint bs"
  shows "\<exists>m'. if length data \<le> writable_bytes bs
    then writeQueueResponse M bs data m = ((None, of_nat (length data)), m') \<and> scatter_post bs data m m'
    else writeQueueResponse M bs data m =
      ((Some (ResponseTooLarge (length data) (writable_bytes bs)), of_nat (writable_bytes bs)), m')"
proof (cases "length data \<le> writable_bytes bs")
  case True
  then show ?thesis using writeQueueResponse_scatters [OF assms] by simp
next
  case False
  then show ?thesis using response_loop_scatters [OF assms, of 0 data]
    by (auto simp: writeQueueResponse_def min_def)
qed

text \<open>Publishing a used element: the element is in its slot and the index counts it.\<close>

lemma writeQueueUsed_publishes:
  assumes inv: "invar m" and sz: "qsize q \<noteq> 0"
    and elem: "mapped m (usedAddr q + 4 + ucast (usedIdx q mod qsize q) * 8) 8"
    and idx: "mapped m (usedAddr q + 2) 2"
  shows "\<exists>m'. writeQueueUsed M head n (q, m) = (Inr (), (q\<lparr>usedIdx := usedIdx q + 1\<rparr>, m'))
    \<and> invar m' \<and> mapped m' = mapped m
    \<and> range_bytes (byte_at m') (usedAddr q + 2) 2 = le_bytes 2 (usedIdx q + 1)
    \<and> (ranges_disjoint (usedAddr q + 4 + ucast (usedIdx q mod qsize q) * 8) 8 (usedAddr q + 2) 2 \<longrightarrow>
        range_bytes (byte_at m') (usedAddr q + 4 + ucast (usedIdx q mod qsize q) * 8) 8 =
          le_bytes 4 (ucast head :: u32) @ le_bytes 4 n)"
proof -
  let ?a = "usedAddr q + 4 + ucast (usedIdx q mod qsize q) * 8"
  let ?e = "le_bytes 4 (ucast head :: u32) @ le_bytes 4 n"
  let ?i = "le_bytes 2 (usedIdx q + 1)"
  define m1 where "m1 = snd (WriteIPA M m ?a ?e)"
  define m2 where "m2 = snd (WriteIPA M m1 (usedAddr q + 2) ?i)"
  have w1: "WriteIPA M m ?a ?e = (Inr (), m1)"
    using write_mapped [of m ?a ?e] inv elem by (simp add: m1_def prod_eq_iff)
  have inv1: "invar m1" "mapped m1 = mapped m"
    using inv write_frame [of m ?e ?a] write_layout [of m ?a ?e] by (simp_all add: m1_def)
  have w2: "WriteIPA M m1 (usedAddr q + 2) ?i = (Inr (), m2)"
    using write_mapped [of m1 "usedAddr q + 2" ?i] inv1 idx by (simp add: m2_def prod_eq_iff)
  have inv2: "invar m2" "mapped m2 = mapped m"
    using inv1 write_frame [of m1 ?i] write_layout [of m1 "usedAddr q + 2" ?i] by (simp_all add: m2_def)
  have b1: "byte_at m1 = (\<lambda>x. stored_byte ?a ?e (byte_at m x) x)"
    using write_byte_at [of m ?a ?e] inv elem by (auto simp: m1_def)
  have b2: "byte_at m2 = (\<lambda>x. stored_byte (usedAddr q + 2) ?i (byte_at m1 x) x)"
    using write_byte_at [of m1 "usedAddr q + 2" ?i] inv1 idx by (auto simp: m2_def)
  have "range_bytes (byte_at m2) (usedAddr q + 2) 2 = ?i"
    using range_bytes_stored [of ?i "usedAddr q + 2" "byte_at m1"] by (simp add: b2)
  moreover have "range_bytes (byte_at m2) ?a 8 = ?e" if "ranges_disjoint ?a 8 (usedAddr q + 2) 2"
  proof -
    have "range_bytes (byte_at m2) ?a 8 = range_bytes (byte_at m1) ?a 8"
      unfolding b2 using that ranges_disjoint_sym by (intro range_bytes_stored_disjoint) auto
    then show ?thesis using range_bytes_stored [of ?e ?a "byte_at m"] by (simp add: b1)
  qed
  moreover have "writeQueueUsed M head n (q, m) = (Inr (), (q\<lparr>usedIdx := usedIdx q + 1\<rparr>, m2))"
    using sz w1 w2 by (simp add: writeQueueUsed_def Let_def)
  ultimately show ?thesis using inv2 by blast
qed

lemma writeQueueUsed_readable:
  assumes "invar m" "qsize q \<noteq> 0"
    and "mapped m (usedAddr q + 4 + ucast (usedIdx q mod qsize q) * 8) 8" "mapped m (usedAddr q + 2) 2"
    and "ranges_disjoint (usedAddr q + 4 + ucast (usedIdx q mod qsize q) * 8) 8 (usedAddr q + 2) 2"
  shows "\<exists>m'. writeQueueUsed M head n (q, m) = (Inr (), (q\<lparr>usedIdx := usedIdx q + 1\<rparr>, m'))
    \<and> ReadIPA M m' (usedAddr q + 4 + ucast (usedIdx q mod qsize q) * 8) 8 =
        Inr (le_bytes 4 (ucast head :: u32) @ le_bytes 4 n)
    \<and> ReadIPA M m' (usedAddr q + 2) 2 = Inr (le_bytes 2 (usedIdx q + 1))"
proof -
  obtain m' where m': "writeQueueUsed M head n (q, m) = (Inr (), (q\<lparr>usedIdx := usedIdx q + 1\<rparr>, m'))"
    "invar m'" "mapped m' = mapped m"
    "range_bytes (byte_at m') (usedAddr q + 2) 2 = le_bytes 2 (usedIdx q + 1)"
    "range_bytes (byte_at m') (usedAddr q + 4 + ucast (usedIdx q mod qsize q) * 8) 8 =
          le_bytes 4 (ucast head :: u32) @ le_bytes 4 n"
    using writeQueueUsed_publishes [OF assms(1-4), of head n] assms(5) by blast
  then show ?thesis
    using read_mapped [of m' _ 8] read_mapped [of m' _ 2] assms by (intro exI [of _ m']) simp
qed

end

lemma readQueueRequest_refuses: "\<not> request_ok bs \<Longrightarrow> \<exists>e. readQueueRequest M m bs = Inl e"
  using request_ok_iff [of bs]
  by (auto simp: readQueueRequest_def split: sum.splits)

section \<open>Properties\<close>

text \<open>
  C29. Walking a descriptor chain is exact and always ends: \<open>readQueueChain\<close> returns a list of
  buffers precisely when the guest's descriptors form that chain and it has at most as many
  descriptors as the queue; a longer or circular chain is refused after that many steps.
\<close>

theorem readQueueChain_exact:
  "readQueueChain M (Some m) q head = Inr bs \<longleftrightarrow>
     desc_chain M m q head bs \<and> length bs \<le> unat (qsize q)"
  using chain_loop_sound [of "unat (qsize q)" M m q head "[]" bs]
    chain_loop_complete [of M m q head bs "unat (qsize q)" "[]"]
  by (auto simp: readQueueChain_def)

text \<open>
  Gathering a request, on either KVM memory: if the readable buffers come first, hold between
  one byte and 1 MiB in all and are mapped, the request is their contents in order; a buffer list
  of any other shape is refused.
\<close>

theorem readQueueRequest_correct:
  "(arm_wf vm \<and> request_ok bs \<and> (\<forall>b \<in> set (readable_part bs). arm_mapped vm (baddr b) (unat (blength b)))
      \<longrightarrow> readQueueRequest arm_memory vm bs = Inr (gathered (arm_byte_at vm) bs))
   \<and> (amd_wf vm' \<and> request_ok bs \<and> (\<forall>b \<in> set (readable_part bs). amd_mapped vm' (baddr b) (unat (blength b)))
      \<longrightarrow> readQueueRequest amd_memory vm' bs = Inr (gathered (amd_byte_at vm') bs))
   \<and> (\<not> request_ok bs \<longrightarrow> (\<exists>e. readQueueRequest arm_memory vm bs = Inl e)
        \<and> (\<exists>e. readQueueRequest amd_memory vm' bs = Inl e))"
  by (intro conjI impI arm.readQueueRequest_gathers amd.readQueueRequest_gathers
      readQueueRequest_refuses) auto

theorem readQueueRequest_correct_witness:
  "readQueueRequest arm_memory tiny_arm
     [\<lparr>baddr = 0x1000, blength = 2, bwrite = False\<rparr>, \<lparr>baddr = 0x1008, blength = 4, bwrite = True\<rparr>]
   = Inr [0, 0]
   \<and> (\<exists>e. readQueueRequest amd_memory tiny_amd
     [\<lparr>baddr = 0, blength = 4, bwrite = True\<rparr>, \<lparr>baddr = 0x100, blength = 2, bwrite = False\<rparr>] = Inl e)"
  using readQueueRequest_correct [of tiny_arm
      "[\<lparr>baddr = 0x1000, blength = 2, bwrite = False\<rparr>, \<lparr>baddr = 0x1008, blength = 4, bwrite = True\<rparr>]" None]
    readQueueRequest_correct [of None
      "[\<lparr>baddr = 0, blength = 4, bwrite = True\<rparr>, \<lparr>baddr = 0x100, blength = 2, bwrite = False\<rparr>]" tiny_amd]
  by (simp add: tiny_arm_def arm_wf_def arm_mapped_def request_ok_def range_bytes_def upt_rec
      arm_byte_at_def)

text \<open>
  C27. Scattering a response, on either KVM memory: when the writable buffers are mapped, do not
  overlap and have room for it, the whole response is written, in order, into them and nowhere
  else, and its length is returned; with too little room it is an error.
\<close>

theorem writeQueueResponse_correct:
  "(arm_wf vm \<and> writable_disjoint bs
      \<and> (\<forall>b \<in> set bs. bwrite b \<longrightarrow> (\<forall>k \<le> unat (blength b). arm_mapped vm (baddr b) k))
    \<longrightarrow> (\<exists>vm2. if length data \<le> writable_bytes bs
        then writeQueueResponse arm_memory bs data vm = ((None, of_nat (length data)), vm2)
          \<and> scattered bs data (arm_byte_at vm) (arm_byte_at vm2)
        else writeQueueResponse arm_memory bs data vm =
          ((Some (ResponseTooLarge (length data) (writable_bytes bs)), of_nat (writable_bytes bs)), vm2)))
   \<and> (amd_wf vm' \<and> writable_disjoint bs
      \<and> (\<forall>b \<in> set bs. bwrite b \<longrightarrow> (\<forall>k \<le> unat (blength b). amd_mapped vm' (baddr b) k))
    \<longrightarrow> (\<exists>vm2. if length data \<le> writable_bytes bs
        then writeQueueResponse amd_memory bs data vm' = ((None, of_nat (length data)), vm2)
          \<and> scattered bs data (amd_byte_at vm') (amd_byte_at vm2)
        else writeQueueResponse amd_memory bs data vm' =
          ((Some (ResponseTooLarge (length data) (writable_bytes bs)), of_nat (writable_bytes bs)), vm2)))"
  using arm.writeQueueResponse_outcome [of vm bs data] amd.writeQueueResponse_outcome [of vm' bs data]
  unfolding arm.scatter_post_def amd.scatter_post_def by metis

theorem writeQueueResponse_correct_witness:
  "\<exists>vm2. writeQueueResponse arm_memory [\<lparr>baddr = 0x1000, blength = 2, bwrite = True\<rparr>] [5, 6] tiny_arm
      = ((None, 2), vm2)
    \<and> scattered [\<lparr>baddr = 0x1000, blength = 2, bwrite = True\<rparr>] [5, 6] (arm_byte_at tiny_arm) (arm_byte_at vm2)"
  using writeQueueResponse_correct
    [of tiny_arm "[\<lparr>baddr = 0x1000, blength = 2, bwrite = True\<rparr>]" "[5, 6]" None]
  by (simp add: tiny_arm_def arm_wf_def arm_mapped_def writable_disjoint_def)

text \<open>
  Returning a chain to the guest, on either KVM memory: the used element with the chain's head
  and length is in the slot of the old used index, the published index and the device's own
  are one further (wrapping at \<open>2 ^ 16\<close>), and the rest of the queue is unchanged.
\<close>

theorem writeQueueUsed_correct:
  "let slot = usedAddr q + 4 + ucast (usedIdx q mod qsize q) * 8;
       elem = le_bytes 4 (ucast head :: u32) @ le_bytes 4 n in
   qsize q \<noteq> 0 \<and> ranges_disjoint slot 8 (usedAddr q + 2) 2 \<longrightarrow>
   (arm_wf vm \<and> arm_mapped vm slot 8 \<and> arm_mapped vm (usedAddr q + 2) 2 \<longrightarrow>
     (\<exists>vm2. writeQueueUsed arm_memory head n (q, vm) = (Inr (), (q\<lparr>usedIdx := usedIdx q + 1\<rparr>, vm2))
       \<and> arm_ReadIPA vm2 slot 8 = Inr elem
       \<and> arm_ReadIPA vm2 (usedAddr q + 2) 2 = Inr (le_bytes 2 (usedIdx q + 1))))
   \<and> (amd_wf vm' \<and> amd_mapped vm' slot 8 \<and> amd_mapped vm' (usedAddr q + 2) 2 \<longrightarrow>
     (\<exists>vm2. writeQueueUsed amd_memory head n (q, vm') = (Inr (), (q\<lparr>usedIdx := usedIdx q + 1\<rparr>, vm2))
       \<and> amd_ReadIPA vm2 slot 8 = Inr elem
       \<and> amd_ReadIPA vm2 (usedAddr q + 2) 2 = Inr (le_bytes 2 (usedIdx q + 1))))"
  using arm.writeQueueUsed_readable [of vm q head n] amd.writeQueueUsed_readable [of vm' q head n]
  by (auto simp: Let_def arm_memory_def amd_memory_def)

theorem writeQueueUsed_correct_witness:
  "\<exists>vm2. writeQueueUsed arm_memory 3 9 (zero_queue\<lparr>qsize := 1, usedAddr := 0x1000\<rparr>, tiny_arm)
      = (Inr (), (zero_queue\<lparr>qsize := 1, usedAddr := 0x1000, usedIdx := 1\<rparr>, vm2))
    \<and> arm_ReadIPA vm2 0x1004 8 = Inr (le_bytes 4 (3 :: u32) @ le_bytes 4 (9 :: u32))"
  using writeQueueUsed_correct [of "zero_queue\<lparr>qsize := 1, usedAddr := 0x1000\<rparr>" 3 9 tiny_arm None]
  by (auto simp: Let_def zero_queue_def tiny_arm_def arm_wf_def arm_mapped_def
      ranges_disjoint_sym [of "0x1004"] ranges_disjoint_before)

end
