(* ===== verification/VirtioMmio.thy ===== *)
theory VirtioMmio
  imports Virtqueue
begin

text \<open>
  What the virtio-mmio devices share: the transport state every device struct repeats
  (\<^verbatim>\<open>virtio/console.go\<close> and its siblings), the register file behind \<^verbatim>\<open>Read\<close> and \<^verbatim>\<open>Write\<close>, the
  interrupt line, and the loop over the available ring. A device is a record that extends \<open>vdev\<close>.
  The mutex of a device is held for the whole of every method, so a method is one step.
\<close>

section \<open>Transport state\<close>

text \<open>
  The interrupt controller is outside the devices: its answer to a call may depend on the calls
  made before. \<open>irqLog\<close> lists the calls a device made on it.
\<close>

type_synonym irq_controller = "(u32 \<times> bool) list \<Rightarrow> u32 \<Rightarrow> bool \<Rightarrow> goerr option"

record 'm vdev =
  devBase :: u64
  devSize :: u64
  devIRQ :: u32
  gmem :: "'m option"
  irq :: "irq_controller option"
  irqLog :: "(u32 \<times> bool) list"
  deviceFeatureSel :: u32
  driverFeatureSel :: u32
  driverFeatures :: u64
  queueSel :: u32
  devStatus :: u32
  interruptStatus :: u32
  irqHigh :: bool
  configGeneration :: u32
  queues :: "queue list"

abbreviation (input) mmioMagicValue :: u64 where "mmioMagicValue \<equiv> 0x74726976"
abbreviation (input) mmioVersion :: u64 where "mmioVersion \<equiv> 2"
abbreviation (input) mmioVendorID :: u64 where "mmioVendorID \<equiv> 0x554d4551"
abbreviation (input) regMagicValue :: u64 where "regMagicValue \<equiv> 0x000"
abbreviation (input) regVersion :: u64 where "regVersion \<equiv> 0x004"
abbreviation (input) regDeviceID :: u64 where "regDeviceID \<equiv> 0x008"
abbreviation (input) regVendorID :: u64 where "regVendorID \<equiv> 0x00c"
abbreviation (input) regDeviceFeatures :: u64 where "regDeviceFeatures \<equiv> 0x010"
abbreviation (input) regDeviceFeatSel :: u64 where "regDeviceFeatSel \<equiv> 0x014"
abbreviation (input) regDriverFeatures :: u64 where "regDriverFeatures \<equiv> 0x020"
abbreviation (input) regDriverFeatSel :: u64 where "regDriverFeatSel \<equiv> 0x024"
abbreviation (input) regGuestPageSize :: u64 where "regGuestPageSize \<equiv> 0x028"
abbreviation (input) regQueueSel :: u64 where "regQueueSel \<equiv> 0x030"
abbreviation (input) regQueueNumMax :: u64 where "regQueueNumMax \<equiv> 0x034"
abbreviation (input) regQueueNum :: u64 where "regQueueNum \<equiv> 0x038"
abbreviation (input) regQueueAlign :: u64 where "regQueueAlign \<equiv> 0x03c"
abbreviation (input) regQueuePFN :: u64 where "regQueuePFN \<equiv> 0x040"
abbreviation (input) regQueueReady :: u64 where "regQueueReady \<equiv> 0x044"
abbreviation (input) regQueueNotify :: u64 where "regQueueNotify \<equiv> 0x050"
abbreviation (input) regInterruptStatus :: u64 where "regInterruptStatus \<equiv> 0x060"
abbreviation (input) regInterruptAck :: u64 where "regInterruptAck \<equiv> 0x064"
abbreviation (input) regStatus :: u64 where "regStatus \<equiv> 0x070"
abbreviation (input) regQueueDescLow :: u64 where "regQueueDescLow \<equiv> 0x080"
abbreviation (input) regQueueDescHigh :: u64 where "regQueueDescHigh \<equiv> 0x084"
abbreviation (input) regQueueAvailLow :: u64 where "regQueueAvailLow \<equiv> 0x090"
abbreviation (input) regQueueAvailHigh :: u64 where "regQueueAvailHigh \<equiv> 0x094"
abbreviation (input) regQueueUsedLow :: u64 where "regQueueUsedLow \<equiv> 0x0a0"
abbreviation (input) regQueueUsedHigh :: u64 where "regQueueUsedHigh \<equiv> 0x0a4"
abbreviation (input) regConfigGen :: u64 where "regConfigGen \<equiv> 0x0fc"
abbreviation (input) regConfig :: u64 where "regConfig \<equiv> 0x100"
abbreviation (input) intVring :: u32 where "intVring \<equiv> 1"
abbreviation (input) intConfig :: u32 where "intConfig \<equiv> 2"

definition mmioTransportVersion :: "bool \<Rightarrow> u32" where
  "mmioTransportVersion legacy = (if legacy then 1 else 2)"

definition dev_Contains :: "('m, 'z) vdev_scheme \<Rightarrow> u64 \<Rightarrow> int \<Rightarrow> bool" where
  "dev_Contains d addr sz \<longleftrightarrow> devBase d \<le> addr \<and> addr + of_int sz \<le> devBase d + devSize d"

definition dev_Attach :: "'m option \<Rightarrow> irq_controller option \<Rightarrow> ('m, 'z) vdev_scheme \<Rightarrow> ('m, 'z) vdev_scheme" where
  "dev_Attach m ctl d = d\<lparr>gmem := m, irq := ctl\<rparr>"

section \<open>Register values\<close>

definition truncateValue :: "u64 \<Rightarrow> int \<Rightarrow> u64" where
  "truncateValue v sz =
     (if sz = 1 then v AND 0xff else if sz = 2 then v AND 0xffff
      else if sz = 4 then v AND 0xffffffff else v)"

text \<open>The default branch of \<^verbatim>\<open>readConfigValue\<close>: \<open>n\<close> bytes are left, the highest first.\<close>

fun config_loop :: "nat \<Rightarrow> bytes \<Rightarrow> u64 \<Rightarrow> goerr + u64" where
  "config_loop 0 buf out = Inr out"
| "config_loop (Suc i) buf out =
     (if length buf \<le> i then Inl (Panic IndexRange)
      else config_loop i buf (push_bit 8 out OR ucast (buf ! i)))"

definition readConfigValue :: "bytes \<Rightarrow> int \<Rightarrow> goerr + u64" where
  "readConfigValue buf sz =
     (if sz = 1 then if buf = [] then Inl (Panic IndexRange) else Inr (ucast (buf ! 0))
      else if sz = 2 then
        if length buf < 2 then Inl (Panic SliceBounds) else Inr (ucast (le_word (take 2 buf) :: u16))
      else if sz = 4 then
        if length buf < 4 then Inl (Panic SliceBounds) else Inr (ucast (le_word (take 4 buf) :: u32))
      else if sz = 8 then
        if length buf < 8 then Inl (Panic SliceBounds) else Inr (le_word (take 8 buf))
      else config_loop (nat sz) buf 0)"

text \<open>The device configuration window of \<open>n\<close> bytes: \<^verbatim>\<open>cfg[offset-regConfig:]\<close> read at a width.\<close>

definition read_config :: "bytes \<Rightarrow> u64 \<Rightarrow> int \<Rightarrow> goerr + u64" where
  "read_config cfg offset sz =
     (if regConfig \<le> offset \<and> offset + of_int sz \<le> regConfig + of_nat (length cfg) then
        let off = offset - regConfig in
        if length cfg < unat off then Inl (Panic SliceBounds)
        else case readConfigValue (drop (unat off) cfg) sz of
          Inl e \<Rightarrow> Inl e | Inr v \<Rightarrow> Inr (truncateValue v sz)
      else Inr 0)"

section \<open>Queues behind the registers\<close>

definition selectedQueueLocked :: "('m, 'z) vdev_scheme \<Rightarrow> nat option" where
  "selectedQueueLocked d =
     (if of_nat (length (queues d)) \<le> queueSel d then None else Some (unat (queueSel d)))"

definition update_selected :: "(queue \<Rightarrow> queue) \<Rightarrow> ('m, 'z) vdev_scheme \<Rightarrow> ('m, 'z) vdev_scheme" where
  "update_selected f d =
     (case selectedQueueLocked d of None \<Rightarrow> d
      | Some i \<Rightarrow> d\<lparr>queues := (queues d)[i := f (queues d ! i)]\<rparr>)"

definition set_half :: "u64 \<Rightarrow> u32 \<Rightarrow> bool \<Rightarrow> u64" where
  "set_half target v low =
     (if low then (target AND NOT 0xffffffff) OR ucast v
      else (target AND 0xffffffff) OR push_bit 32 (ucast v))"

datatype queueAddrField = queueAddrDesc | queueAddrAvail | queueAddrUsed

fun setQueueAddr :: "u32 \<Rightarrow> queueAddrField \<Rightarrow> bool \<Rightarrow> queue \<Rightarrow> queue" where
  "setQueueAddr v queueAddrDesc low q = q\<lparr>descAddr := set_half (descAddr q) v low\<rparr>"
| "setQueueAddr v queueAddrAvail low q = q\<lparr>availAddr := set_half (availAddr q) v low\<rparr>"
| "setQueueAddr v queueAddrUsed low q = q\<lparr>usedAddr := set_half (usedAddr q) v low\<rparr>"

definition set_ready :: "u64 \<Rightarrow> queue \<Rightarrow> queue" where
  "set_ready v q =
     (let q' = q\<lparr>qready := (v \<noteq> 0)\<rparr> in
      if v = 0 then q'\<lparr>lastAvailIdx := 0, usedIdx := 0\<rparr> else q')"

definition set_driver_features :: "u64 \<Rightarrow> ('m, 'z) vdev_scheme \<Rightarrow> ('m, 'z) vdev_scheme" where
  "set_driver_features v d =
     (if driverFeatureSel d = 0 then
        d\<lparr>driverFeatures := (driverFeatures d AND NOT 0xffffffff) OR ucast (ucast v :: u32)\<rparr>
      else if driverFeatureSel d = 1 then
        d\<lparr>driverFeatures := (driverFeatures d AND 0xffffffff) OR push_bit 32 (ucast (ucast v :: u32))\<rparr>
      else d)"

text \<open>
  The cases of \<^verbatim>\<open>Write\<close> that only set transport registers, the same in every device;
  \<open>None\<close> for any other offset.
\<close>

definition write_registers :: "u64 \<Rightarrow> u64 \<Rightarrow> ('m, 'z) vdev_scheme \<Rightarrow> ('m, 'z) vdev_scheme option" where
  "write_registers offset v d =
     (if offset = regDeviceFeatSel then Some (d\<lparr>deviceFeatureSel := ucast v\<rparr>)
      else if offset = regDriverFeatSel then Some (d\<lparr>driverFeatureSel := ucast v\<rparr>)
      else if offset = regDriverFeatures then Some (set_driver_features v d)
      else if offset = regQueueSel then Some (d\<lparr>queueSel := ucast v\<rparr>)
      else if offset = regQueueNum then Some (update_selected (\<lambda>q. q\<lparr>qsize := ucast v\<rparr>) d)
      else if offset = regQueueReady then Some (update_selected (set_ready v) d)
      else if offset = regQueueDescLow then Some (update_selected (setQueueAddr (ucast v) queueAddrDesc True) d)
      else if offset = regQueueDescHigh then Some (update_selected (setQueueAddr (ucast v) queueAddrDesc False) d)
      else if offset = regQueueAvailLow then Some (update_selected (setQueueAddr (ucast v) queueAddrAvail True) d)
      else if offset = regQueueAvailHigh then Some (update_selected (setQueueAddr (ucast v) queueAddrAvail False) d)
      else if offset = regQueueUsedLow then Some (update_selected (setQueueAddr (ucast v) queueAddrUsed True) d)
      else if offset = regQueueUsedHigh then Some (update_selected (setQueueAddr (ucast v) queueAddrUsed False) d)
      else None)"

section \<open>Interrupts\<close>

definition SetIRQ :: "bool \<Rightarrow> (('m, 'z) vdev_scheme, unit) gomethod" where
  "SetIRQ level d =
     (case irq d of None \<Rightarrow> (Inl (Panic NilDeref), d)
      | Some ctl \<Rightarrow>
          ((case ctl (irqLog d) (devIRQ d) level of None \<Rightarrow> Inr () | Some e \<Rightarrow> Inl e),
           d\<lparr>irqLog := irqLog d @ [(devIRQ d, level)]\<rparr>))"

definition updateIRQLocked :: "(('m, 'z) vdev_scheme, unit) gomethod" where
  "updateIRQLocked d =
     (if irq d = None then (Inr (), d)
      else let level = interruptStatus d \<noteq> 0 in
        if irqHigh d = level then (Inr (), d)
        else SetIRQ level (d\<lparr>irqHigh := level\<rparr>))"

definition raise_interrupt :: "u32 \<Rightarrow> (('m, 'z) vdev_scheme, unit) gomethod" where
  "raise_interrupt bits d = updateIRQLocked (d\<lparr>interruptStatus := interruptStatus d OR bits\<rparr>)"

definition interrupt_ack :: "u64 \<Rightarrow> (('m, 'z) vdev_scheme, unit) gomethod" where
  "interrupt_ack v d = updateIRQLocked (d\<lparr>interruptStatus := interruptStatus d AND NOT (ucast v)\<rparr>)"

definition IRQAsserted :: "('m, 'z) vdev_scheme \<Rightarrow> bool" where
  "IRQAsserted d \<longleftrightarrow> interruptStatus d \<noteq> 0 \<or> irqHigh d"

section \<open>Rings\<close>

definition readDescriptorLocked :: "'m guest_memory \<Rightarrow> 'm \<Rightarrow> queue \<Rightarrow> u16 \<Rightarrow> goerr + descriptor" where
  "readDescriptorLocked M m q index =
     (if qsize q \<le> index then Inl (DescriptorRange index)
      else case ReadIPA M m (descAddr q + ucast index * 16) 16 of
        Inl e \<Rightarrow> Inl e | Inr buf \<Rightarrow> Inr (decode_descriptor buf))"

definition writeUsedLocked :: "'m guest_memory \<Rightarrow> nat \<Rightarrow> u16 \<Rightarrow> u32 \<Rightarrow> (('m, 'z) vdev_scheme, unit) gomethod" where
  "writeUsedLocked M i head usedLen d =
     (case gmem d of None \<Rightarrow> (Inl (Panic NilDeref), d)
      | Some m \<Rightarrow>
          (case writeQueueUsed M head usedLen (queues d ! i, m) of
             (r, (q', m')) \<Rightarrow> (r, d\<lparr>queues := (queues d)[i := q'], gmem := Some m'\<rparr>)))"

definition advance_avail :: "nat \<Rightarrow> ('m, 'z) vdev_scheme \<Rightarrow> ('m, 'z) vdev_scheme" where
  "advance_avail i d =
     d\<lparr>queues := (queues d)[i := (queues d ! i)\<lparr>lastAvailIdx := lastAvailIdx (queues d ! i) + 1\<rparr>]\<rparr>"

text \<open>\<^verbatim>\<open>header[2:4]\<close> of the four bytes at the start of the available ring.\<close>

definition avail_header :: "'m guest_memory \<Rightarrow> 'm \<Rightarrow> queue \<Rightarrow> goerr + u16" where
  "avail_header M m q =
     (case ReadIPA M m (availAddr q) 4 of Inl e \<Rightarrow> Inl e | Inr header \<Rightarrow> Inr (le_word (sub_bytes header 2 4)))"

text \<open>
  \<^verbatim>\<open>for q.lastAvailIdx != availIdx { body }\<close>. The distance between the two indices bounds the
  rounds of a body that advances by one; \<open>Diverges\<close> is shown never to come from the loop.
\<close>

fun avail_loop :: "nat \<Rightarrow> ('s \<Rightarrow> u16) \<Rightarrow> u16 \<Rightarrow> ('s, unit) gomethod \<Rightarrow> ('s, unit) gomethod" where
  "avail_loop n idx avail body s =
     (if idx s = avail then (Inr (), s)
      else case n of 0 \<Rightarrow> (Inl Diverges, s)
        | Suc k \<Rightarrow> (case body s of
            (Inl e, s') \<Rightarrow> (Inl e, s')
          | (Inr _, s') \<Rightarrow> avail_loop k idx avail body s'))"

definition run_avail :: "('s \<Rightarrow> u16) \<Rightarrow> u16 \<Rightarrow> ('s, unit) gomethod \<Rightarrow> ('s, unit) gomethod" where
  "run_avail idx avail body s = avail_loop (unat (avail - idx s)) idx avail body s"

declare avail_loop.simps [simp del]

section \<open>The loop over the available ring\<close>

lemma unat_distance_Suc:
  assumes "(a :: 'a::len word) \<noteq> b"
  shows "unat (b - a) = Suc (unat (b - (a + 1)))"
proof -
  have "b - a \<noteq> 0" using assms by simp
  then have "unat (b - a) = Suc (unat (b - a - 1))"
    by (metis Suc_pred' add_diff_cancel_left' unat_gt_0 unat_minus_one)
  then show ?thesis by (simp add: diff_diff_eq)
qed

inductive rounds :: "('s, unit) gomethod \<Rightarrow> nat \<Rightarrow> 's \<Rightarrow> 's \<Rightarrow> bool" for body where
  rounds_0: "rounds body 0 s s"
| rounds_Suc: "body s = (Inr (), s') \<Longrightarrow> rounds body n s' t \<Longrightarrow> rounds body (Suc n) s t"

inductive_simps rounds_0_iff [simp]: "rounds body 0 s t"
inductive_cases rounds_SucE: "rounds body (Suc n) s t"

locale avail_body =
  fixes ok :: "'s \<Rightarrow> bool" and last_idx :: "'s \<Rightarrow> u16" and body :: "('s, unit) gomethod"
  assumes body_advances: "ok s \<Longrightarrow> body s = (Inr (), s') \<Longrightarrow> last_idx s' = last_idx s + 1"
    and body_ok: "ok s \<Longrightarrow> body s = (Inr (), s') \<Longrightarrow> ok s'"
begin

lemma loop_outcome:
  "ok s \<Longrightarrow> n = unat (avail - last_idx s) \<Longrightarrow> avail_loop n last_idx avail body s = (r, t) \<Longrightarrow>
     (case r of Inr _ \<Rightarrow> rounds body n s t \<and> last_idx t = avail
      | Inl e \<Rightarrow> \<exists>k s'. k < n \<and> rounds body k s s' \<and> body s' = (Inl e, t))"
proof (induction n arbitrary: s)
  case 0
  then have "last_idx s = avail" by (metis eq_iff_diff_eq_0 unat_0_iff)
  then show ?case using 0 by (auto simp: avail_loop.simps)
next
  case (Suc n)
  then have ne: "last_idx s \<noteq> avail" by auto
  obtain b s' where b: "body s = (b, s')" by force
  show ?case
  proof (cases b)
    case (Inl e)
    then have "r = Inl e" "t = s'"
      using Suc.prems(3) ne b by (simp_all add: avail_loop.simps [of "Suc n"])
    then show ?thesis using b Inl by (auto intro!: exI [of _ 0])
  next
    case (Inr u)
    then have ok: "body s = (Inr (), s')" using b by simp
    have "n = unat (avail - last_idx s')"
      using Suc.prems(2) unat_distance_Suc [OF ne] body_advances [OF Suc.prems(1) ok] by simp
    moreover have "avail_loop n last_idx avail body s' = (r, t)"
      using Suc.prems(3) ne ok by (simp add: avail_loop.simps [of "Suc n"])
    ultimately have "case r of Inr _ \<Rightarrow> rounds body n s' t \<and> last_idx t = avail
      | Inl e \<Rightarrow> \<exists>k s1. k < n \<and> rounds body k s' s1 \<and> body s1 = (Inl e, t)"
      by (rule Suc.IH [OF body_ok [OF Suc.prems(1) ok]])
    then show ?thesis using ok by (cases r) (auto intro: rounds_Suc)
  qed
qed

lemma run_ok:
  "ok s \<Longrightarrow> run_avail last_idx avail body s = (Inr (), t) \<Longrightarrow>
     rounds body (unat (avail - last_idx s)) s t \<and> last_idx t = avail"
  using loop_outcome [OF _ refl, of s avail "Inr ()" t] by (simp add: run_avail_def)

lemma run_err:
  "ok s \<Longrightarrow> run_avail last_idx avail body s = (Inl e, t) \<Longrightarrow>
     \<exists>k s'. k < unat (avail - last_idx s) \<and> rounds body k s s' \<and> body s' = (Inl e, t)"
  using loop_outcome [OF _ refl, of s avail "Inl e" t] by (simp add: run_avail_def)

lemma run_rounds:
  "rounds body n s t \<Longrightarrow> ok s \<Longrightarrow> n < 2 ^ 16 \<Longrightarrow> run_avail last_idx (last_idx s + of_nat n) body s = (Inr (), t)"
proof (induction n arbitrary: s)
  case 0
  then show ?case by (simp add: run_avail_def avail_loop.simps)
next
  case (Suc n)
  then obtain s' where s': "body s = (Inr (), s')" "rounds body n s' t" by (auto elim: rounds_SucE)
  have n: "unat (of_nat (Suc n) :: u16) = Suc n" "unat (of_nat n :: u16) = n"
    using Suc.prems by (simp_all add: unat_of_nat del: of_nat_Suc)
  then have "(of_nat (Suc n) :: u16) \<noteq> 0" by (metis nat.distinct(1) unat_0)
  then have ne: "last_idx s \<noteq> last_idx s + of_nat (Suc n)" by (metis add_cancel_right_right)
  have "run_avail last_idx (last_idx s + of_nat (Suc n)) body s =
      avail_loop n last_idx (last_idx s + of_nat (Suc n)) body s'"
    using ne s' n by (simp add: run_avail_def avail_loop.simps [of "Suc n"] del: of_nat_Suc)
  also have "\<dots> = run_avail last_idx (last_idx s' + of_nat n) body s'"
    using body_advances [OF Suc.prems(2) s'(1)] n by (simp add: run_avail_def add.assoc)
  finally show ?case using Suc s' body_ok by simp
qed

end

lemma rounds_preserves:
  assumes "preserves I body"
  shows "rounds body n s t \<Longrightarrow> I s \<Longrightarrow> I t"
  by (induction rule: rounds.induct) (use preservesD [OF assms] in force)+

lemma preserves_run_avail [preserves_intros]:
  assumes "preserves I body"
  shows "preserves I (run_avail idx avail body)"
proof (rule preservesI)
  fix s assume "I s"
  have "I s \<Longrightarrow> I (snd (avail_loop n idx avail body s))" for n
  proof (induction n arbitrary: s)
    case (Suc n)
    obtain r s' where b: "body s = (r, s')" by force
    then have "I s'" using preservesD [OF assms Suc.prems] by simp
    then show ?case using Suc b by (cases r) (simp_all add: avail_loop.simps [of "Suc n"])
  qed (simp add: avail_loop.simps)
  then show "I (snd (run_avail idx avail body s))" using \<open>I s\<close> by (simp add: run_avail_def)
qed

section \<open>The register file\<close>

lemma readDescriptorLocked_eq: "readDescriptorLocked M m q i = readQueueDescriptor M m q i"
proof -
  have "qsize q = 0 \<Longrightarrow> qsize q \<le> i" by (metis word_zero_le)
  then show ?thesis by (auto simp: readDescriptorLocked_def readQueueDescriptor_def)
qed

text \<open>Writing the two halves of an address register, in either order, programs the address.\<close>

lemma bit_low32: "bit (0xffffffff :: u64) k \<longleftrightarrow> k < 32"
proof -
  have "bit (mask 32 :: u64) k \<longleftrightarrow> k < 32" by (auto simp: bit_mask_iff)
  moreover have "mask 32 = (0xffffffff :: u64)" by (simp add: mask_eq_exp_minus_1)
  ultimately show ?thesis by metis
qed

lemma bit_halves:
  assumes m: "\<And>k. bit (m :: u64) k \<longleftrightarrow> k < 32"
  shows "bit ((a AND NOT m) OR ucast (v :: u32)) k \<longleftrightarrow> k < 64 \<and> (if k < 32 then bit v k else bit a k)"
    and "bit ((a AND m) OR push_bit 32 (ucast (v :: u32))) k \<longleftrightarrow>
      k < 64 \<and> (if k < 32 then bit a k else bit v (k - 32))"
  using m [of k]
  by (auto simp: bit_or_iff bit_and_iff bit_not_iff bit_push_bit_iff bit_ucast_iff dest: bit_imp_le_length)

lemma bit_set_half:
  "bit (set_half a v low) k \<longleftrightarrow> k < 64 \<and>
     (if low then (if k < 32 then bit v k else bit a k) else (if k < 32 then bit a k else bit v (k - 32)))"
  unfolding set_half_def using bit_halves [OF bit_low32, where a = a and v = v and k = k]
  by (cases low) (simp_all only: if_True if_False)

lemma set_half_both:
  "set_half (set_half a lo True) hi False = ucast lo OR push_bit 32 (ucast hi)"
  "set_half (set_half a hi False) lo True = ucast lo OR push_bit 32 (ucast hi)"
  by (rule bit_word_eqI;
      auto simp: bit_set_half bit_or_iff bit_push_bit_iff bit_ucast_iff dest: bit_imp_le_length)+

lemma update_selected_frame [simp]:
  "devBase (update_selected f d) = devBase d" "devSize (update_selected f d) = devSize d"
  "gmem (update_selected f d) = gmem d" "irq (update_selected f d) = irq d"
  "irqLog (update_selected f d) = irqLog d" "irqHigh (update_selected f d) = irqHigh d"
  "interruptStatus (update_selected f d) = interruptStatus d" "devStatus (update_selected f d) = devStatus d"
  "length (queues (update_selected f d)) = length (queues d)" "queueSel (update_selected f d) = queueSel d"
  "vdev.more (update_selected f d) = vdev.more d"
  by (auto simp: update_selected_def split: option.splits)

lemma write_registers_frame:
  assumes "write_registers off v d = Some d'"
  shows "irq d' = irq d" "irqLog d' = irqLog d" "irqHigh d' = irqHigh d"
    "interruptStatus d' = interruptStatus d" "gmem d' = gmem d" "devBase d' = devBase d"
    "devStatus d' = devStatus d" "length (queues d') = length (queues d)" "vdev.more d' = vdev.more d"
  using assms by (auto simp: write_registers_def set_driver_features_def split: if_splits)

text \<open>Every width reads the configuration bytes as a little-endian number.\<close>

lemma le_word_take_Suc:
  assumes "i < length buf"
  shows "(le_word (take (Suc i) buf) :: u64) = le_word (take i buf) OR push_bit (8 * i) (ucast (buf ! i))"
proof (rule bit_word_eqI)
  fix k assume "k < LENGTH(64)"
  consider "k div 8 < i" | "k div 8 = i" | "i < k div 8" by linarith
  then show "bit (le_word (take (Suc i) buf) :: u64) k =
      bit (le_word (take i buf) OR push_bit (8 * i) (ucast (buf ! i)) :: u64) k"
  proof cases
    case 1
    then have "\<not> 8 * i \<le> k" by linarith
    then show ?thesis using 1 assms by (simp add: bit_le_word bit_simps)
  next
    case 2
    then have "8 * i \<le> k" "k - 8 * i = k mod 8" using minus_mult_div_eq_mod [of k 8] by linarith+
    moreover have "k mod 8 < 64" by (rule less_trans [OF mod_less_divisor]) simp_all
    ultimately show ?thesis using 2 assms \<open>k < LENGTH(64)\<close> by (simp add: bit_le_word bit_simps)
  next
    case 3
    then have "\<not> bit (buf ! i) (k - 8 * i)" by (auto dest!: bit_imp_le_length)
    then show ?thesis using 3 assms by (simp add: bit_le_word bit_simps)
  qed
qed

lemma config_loop_eq:
  "n \<le> length buf \<Longrightarrow> config_loop n buf out = Inr (push_bit (8 * n) out OR le_word (take n buf))"
proof (induction n arbitrary: out)
  case (Suc n)
  have "push_bit (8 * n) (push_bit 8 out OR ucast (buf ! n)) OR le_word (take n buf) =
      push_bit (8 * Suc n) out OR le_word (take (Suc n) buf)"
    using Suc.prems by (simp add: le_word_take_Suc push_bit_or ac_simps)
  then show ?case using Suc by simp
qed simp

lemma ucast_le_word:
  "8 * length bs \<le> LENGTH('a::len) \<Longrightarrow> LENGTH('a) \<le> LENGTH('b::len) \<Longrightarrow>
     ucast (le_word bs :: 'a word) = (le_word bs :: 'b word)"
  by (rule bit_word_eqI) (auto simp: bit_le_word bit_simps div_less_iff_less_mult)

lemma readConfigValue_le:
  assumes "0 < sz" "nat sz \<le> length buf"
  shows "readConfigValue buf sz = Inr (le_word (take (nat sz) buf))"
proof -
  have "sz = 1 \<Longrightarrow> take 1 buf = [buf ! 0]" using assms by (cases buf) auto
  then show ?thesis
    using assms config_loop_eq [of "nat sz" buf 0]
    by (auto simp: readConfigValue_def ucast_le_word)
qed

section \<open>The interrupt line\<close>

definition irq_line :: "(u32 \<times> bool) list \<Rightarrow> bool" where
  "irq_line log \<longleftrightarrow> log \<noteq> [] \<and> snd (last log)"

lemma irq_line_simps [simp]: "irq_line [] = False" "irq_line (log @ [(i, l)]) = l"
  by (simp_all add: irq_line_def)

text \<open>What the device believes about its line is what it last asked for.\<close>

definition irq_tracked :: "('m, 'z) vdev_scheme \<Rightarrow> bool" where
  "irq_tracked d \<longleftrightarrow> (irq d \<noteq> None \<longrightarrow> irqHigh d = irq_line (irqLog d))"

text \<open>The line is up exactly while an interrupt is pending.\<close>

definition irq_synced :: "('m, 'z) vdev_scheme \<Rightarrow> bool" where
  "irq_synced d \<longleftrightarrow> irq_tracked d \<and> (irq d \<noteq> None \<longrightarrow> irqHigh d = (interruptStatus d \<noteq> 0))"

lemma updateIRQLocked_syncs: "irq_tracked d \<Longrightarrow> irq_synced (snd (updateIRQLocked d))"
  by (auto simp: irq_synced_def irq_tracked_def updateIRQLocked_def SetIRQ_def Let_def
      split: option.splits)

lemma updateIRQLocked_frame [simp]:
  "gmem (snd (updateIRQLocked d)) = gmem d" "queues (snd (updateIRQLocked d)) = queues d"
  "interruptStatus (snd (updateIRQLocked d)) = interruptStatus d" "irq (snd (updateIRQLocked d)) = irq d"
  "devStatus (snd (updateIRQLocked d)) = devStatus d" "devBase (snd (updateIRQLocked d)) = devBase d"
  "vdev.more (snd (updateIRQLocked d)) = vdev.more d"
  by (auto simp: updateIRQLocked_def SetIRQ_def Let_def split: option.splits)

lemma irq_tracked_status [simp]:
  "irq_tracked (d\<lparr>interruptStatus := x\<rparr>) = irq_tracked d"
  by (simp add: irq_tracked_def)

lemma irq_synced_imp_tracked: "irq_synced d \<Longrightarrow> irq_tracked d"
  by (simp add: irq_synced_def)

lemma raise_interrupt_syncs: "irq_synced d \<Longrightarrow> irq_synced (snd (raise_interrupt b d))"
  by (simp add: raise_interrupt_def updateIRQLocked_syncs irq_synced_imp_tracked)

lemma interrupt_ack_syncs: "irq_synced d \<Longrightarrow> irq_synced (snd (interrupt_ack v d))"
  by (simp add: interrupt_ack_def updateIRQLocked_syncs irq_synced_imp_tracked)

lemma write_registers_syncs: "write_registers off v d = Some d' \<Longrightarrow> irq_synced d \<Longrightarrow> irq_synced d'"
  by (auto simp: irq_synced_def irq_tracked_def write_registers_frame)

lemma writeUsedLocked_frame [simp]:
  "irq (snd (writeUsedLocked M i h n d)) = irq d" "irqLog (snd (writeUsedLocked M i h n d)) = irqLog d"
  "irqHigh (snd (writeUsedLocked M i h n d)) = irqHigh d"
  "interruptStatus (snd (writeUsedLocked M i h n d)) = interruptStatus d"
  "length (queues (snd (writeUsedLocked M i h n d))) = length (queues d)"
  "vdev.more (snd (writeUsedLocked M i h n d)) = vdev.more d"
  by (auto simp: writeUsedLocked_def split: option.splits prod.splits)

lemma advance_avail_frame [simp]:
  "irq (advance_avail i d) = irq d" "irqLog (advance_avail i d) = irqLog d"
  "irqHigh (advance_avail i d) = irqHigh d" "interruptStatus (advance_avail i d) = interruptStatus d"
  "length (queues (advance_avail i d)) = length (queues d)" "gmem (advance_avail i d) = gmem d"
  "vdev.more (advance_avail i d) = vdev.more d"
  by (simp_all add: advance_avail_def)

lemma irq_synced_cong:
  "irq d = irq d' \<Longrightarrow> irqLog d = irqLog d' \<Longrightarrow> irqHigh d = irqHigh d' \<Longrightarrow>
     interruptStatus d = interruptStatus d' \<Longrightarrow> irq_synced d = irq_synced d'"
  by (simp add: irq_synced_def irq_tracked_def)

text \<open>A device at a fixed base whose line follows its pending interrupts.\<close>

definition steady :: "u64 \<Rightarrow> ('m, 'z) vdev_scheme \<Rightarrow> bool" where
  "steady b d \<longleftrightarrow> irq_synced d \<and> devBase d = b"

lemma writeUsedLocked_base [simp]: "devBase (snd (writeUsedLocked M i h n d)) = devBase d"
  by (auto simp: writeUsedLocked_def split: option.splits prod.splits)

lemma advance_avail_base [simp]: "devBase (advance_avail i d) = devBase d"
  by (simp add: advance_avail_def)

lemma steady_cong:
  "irq d = irq d' \<Longrightarrow> irqLog d = irqLog d' \<Longrightarrow> irqHigh d = irqHigh d' \<Longrightarrow>
     interruptStatus d = interruptStatus d' \<Longrightarrow> devBase d = devBase d' \<Longrightarrow> steady b d = steady b d'"
  using irq_synced_cong by (auto simp: steady_def)

lemma writeUsedLocked_steady [preserves_intros]: "preserves (steady b) (writeUsedLocked M i h n)"
  by (rule preservesI) (simp add: steady_cong [of "snd (writeUsedLocked M i h n _)"])

lemma advance_avail_steady [simp]: "steady b (advance_avail i d) = steady b d"
  by (simp add: steady_cong [of "advance_avail i d"])

lemma raise_interrupt_steady [preserves_intros]: "preserves (steady b) (raise_interrupt x)"
proof (rule preservesI)
  fix d :: "('a, 'b) vdev_scheme" assume "steady b d"
  then show "steady b (snd (raise_interrupt x d))"
    using raise_interrupt_syncs [of d x] by (simp add: steady_def raise_interrupt_def)
qed

lemma interrupt_ack_steady [preserves_intros]: "preserves (steady b) (interrupt_ack v)"
proof (rule preservesI)
  fix d :: "('a, 'b) vdev_scheme" assume "steady b d"
  then show "steady b (snd (interrupt_ack v d))"
    using interrupt_ack_syncs [of d v] by (simp add: steady_def interrupt_ack_def)
qed

lemma write_registers_steady: "write_registers off v d = Some d' \<Longrightarrow> steady b d \<Longrightarrow> steady b d'"
  by (simp add: steady_def write_registers_syncs write_registers_frame)

text \<open>A set-up sequence: select a queue, give its size and its three addresses, and start it.\<close>

definition setup_writes :: "u32 \<Rightarrow> u16 \<Rightarrow> u64 \<Rightarrow> u64 \<Rightarrow> u64 \<Rightarrow> (u64 \<times> u64) list" where
  "setup_writes i n desc avail used =
     [(regQueueSel, ucast i), (regQueueNum, ucast n),
      (regQueueDescLow, ucast (ucast desc :: u32)), (regQueueDescHigh, drop_bit 32 desc),
      (regQueueAvailLow, ucast (ucast avail :: u32)), (regQueueAvailHigh, drop_bit 32 avail),
      (regQueueUsedLow, ucast (ucast used :: u32)), (regQueueUsedHigh, drop_bit 32 used),
      (regQueueReady, 1)]"

lemma set_half_rebuild:
  "set_half (set_half a (ucast w) True) (ucast (drop_bit 32 w)) False = w"
  by (rule bit_word_eqI)
    (auto simp: bit_set_half bit_drop_bit_eq bit_ucast_iff dest: bit_imp_le_length)

lemma ucast_ucast_u32 [simp]: "(ucast (ucast (x :: u32) :: u64) :: u32) = x"
  by (rule bit_word_eqI) (auto simp: bit_ucast_iff)

lemma ucast_ucast_u16 [simp]: "(ucast (ucast (x :: u16) :: u64) :: u16) = x"
  by (rule bit_word_eqI) (auto simp: bit_ucast_iff)

lemma writeUsedLocked_idx:
  "i < length (queues d) \<Longrightarrow>
     lastAvailIdx (queues (snd (writeUsedLocked M i h n d)) ! i) = lastAvailIdx (queues d ! i)"
  by (auto simp: writeUsedLocked_def writeQueueUsed_def Let_def split: option.splits prod.splits sum.splits if_splits)

text \<open>The tail of every round: publish the chain, then count it as taken.\<close>

lemma publish_advances:
  assumes "and_then (writeUsedLocked M i h n) (\<lambda>_. modify_state (advance_avail i)) d = (Inr (), d')"
    "i < length (queues d)"
  shows "lastAvailIdx (queues d' ! i) = lastAvailIdx (queues d ! i) + 1"
    "length (queues d') = length (queues d)"
proof -
  obtain d1 where d1: "writeUsedLocked M i h n d = (Inr (), d1)" "d' = advance_avail i d1"
    using assms(1) by (auto simp: and_then_eq_ok)
  have "length (queues d1) = length (queues d)" "lastAvailIdx (queues d1 ! i) = lastAvailIdx (queues d ! i)"
    using writeUsedLocked_frame(5) [of M i h n d] writeUsedLocked_idx [OF assms(2), of M h n]
    unfolding d1(1) by simp_all
  then show "lastAvailIdx (queues d' ! i) = lastAvailIdx (queues d ! i) + 1"
    "length (queues d') = length (queues d)"
    using assms(2) by (simp_all add: d1(2) advance_avail_def)
qed

end
