(* ===== verification/DriverView.thy ===== *)
theory DriverView
  imports VirtioMmio
begin

text \<open>
  The guest driver's side of a queue: which bytes of guest memory spell the pending chains and what
  they hold. Devices write the used ring while they walk the other parts of the queue, so the parts
  they read have to lie apart from it. \<open>chain_bytes\<close> and \<open>ring_chains\<close> compute, from the bytes of
  memory alone, what \<^verbatim>\<open>readChainLocked\<close> and the loop over the available ring deliver.
\<close>

section \<open>Device-readable chains\<close>

text \<open>\<^verbatim>\<open>readChainLocked\<close> of the console and of vsock, with its counted loop.\<close>

fun gather_loop :: "nat \<Rightarrow> 'm guest_memory \<Rightarrow> 'm \<Rightarrow> queue \<Rightarrow> u16 \<Rightarrow> bytes \<Rightarrow> goerr + bytes" where
  "gather_loop 0 M m q index out = Inl ChainLoop"
| "gather_loop (Suc n) M m q index out =
     (case readDescriptorLocked M m q index of
        Inl e \<Rightarrow> Inl e
      | Inr desc \<Rightarrow>
          (case (if dflags desc AND descFWrite = 0 \<and> 0 < dlength desc
                 then ReadIPA M m (daddr desc) (int (unat (dlength desc))) else Inr []) of
             Inl e \<Rightarrow> Inl e
           | Inr chunk \<Rightarrow>
               if dflags desc AND descFNext = 0 then Inr (out @ chunk)
               else gather_loop n M m q (dnext desc) (out @ chunk)))"

definition readChainLocked :: "'m guest_memory \<Rightarrow> 'm \<Rightarrow> queue \<Rightarrow> u16 \<Rightarrow> goerr + bytes" where
  "readChainLocked M m q head = gather_loop (unat (qsize q)) M m q head []"

section \<open>What the driver laid out\<close>

definition desc_slot :: "queue \<Rightarrow> u16 \<Rightarrow> u64" where
  "desc_slot q i = descAddr q + ucast i * 16"

definition avail_slot :: "queue \<Rightarrow> u16 \<Rightarrow> u64" where
  "avail_slot q idx = availAddr q + 4 + ucast (idx mod qsize q) * 2"

definition used_slot :: "queue \<Rightarrow> u16 \<Rightarrow> u64" where
  "used_slot q idx = usedAddr q + 4 + ucast (idx mod qsize q) * 8"

definition used_span :: "queue \<Rightarrow> nat" where
  "used_span q = 2 + 8 * unat (qsize q)"

definition visible :: "(u64 \<Rightarrow> nat \<Rightarrow> bool) \<Rightarrow> queue \<Rightarrow> u64 \<Rightarrow> nat \<Rightarrow> bool" where
  "visible mp q a n \<longleftrightarrow> mp a n \<and> ranges_disjoint a n (usedAddr q + 2) (used_span q)"

definition agree_off :: "queue \<Rightarrow> (u64 \<Rightarrow> u8) \<Rightarrow> (u64 \<Rightarrow> u8) \<Rightarrow> bool" where
  "agree_off q f g \<longleftrightarrow> (\<forall>x. used_span q \<le> unat (x - (usedAddr q + 2)) \<longrightarrow> f x = g x)"

definition used_mapped :: "(u64 \<Rightarrow> nat \<Rightarrow> bool) \<Rightarrow> queue \<Rightarrow> bool" where
  "used_mapped mp q \<longleftrightarrow> mp (usedAddr q + 2) 2 \<and> (\<forall>idx. mp (used_slot q idx) 8)"

definition desc_of :: "(u64 \<Rightarrow> u8) \<Rightarrow> queue \<Rightarrow> u16 \<Rightarrow> descriptor" where
  "desc_of f q i = decode_descriptor (range_bytes f (desc_slot q i) 16)"

definition payload :: "(u64 \<Rightarrow> u8) \<Rightarrow> descriptor \<Rightarrow> bytes" where
  "payload f d =
     (if dflags d AND descFWrite = 0 then range_bytes f (daddr d) (unat (dlength d)) else [])"

definition payload_visible :: "(u64 \<Rightarrow> nat \<Rightarrow> bool) \<Rightarrow> queue \<Rightarrow> descriptor \<Rightarrow> bool" where
  "payload_visible mp q d \<longleftrightarrow>
     (dflags d AND descFWrite = 0 \<longrightarrow> visible mp q (daddr d) (unat (dlength d)))"

fun chain_bytes :: "(u64 \<Rightarrow> nat \<Rightarrow> bool) \<Rightarrow> (u64 \<Rightarrow> u8) \<Rightarrow> queue \<Rightarrow> nat \<Rightarrow> u16 \<Rightarrow> bytes option" where
  "chain_bytes mp f q 0 i = None"
| "chain_bytes mp f q (Suc n) i =
     (let d = desc_of f q i in
      if i < qsize q \<and> visible mp q (desc_slot q i) 16 \<and> payload_visible mp q d then
        if dflags d AND descFNext = 0 then Some (payload f d)
        else map_option (append (payload f d)) (chain_bytes mp f q n (dnext d))
      else None)"

fun ring_chains :: "(u64 \<Rightarrow> nat \<Rightarrow> bool) \<Rightarrow> (u64 \<Rightarrow> u8) \<Rightarrow> queue \<Rightarrow> u16 \<Rightarrow> nat \<Rightarrow> (u16 \<times> bytes) list option" where
  "ring_chains mp f q idx 0 = Some []"
| "ring_chains mp f q idx (Suc n) =
     (let a = avail_slot q idx; head = le_word (range_bytes f a 2) in
      if visible mp q a 2 then
        case chain_bytes mp f q (unat (qsize q)) head of
          None \<Rightarrow> None
        | Some bs \<Rightarrow> map_option (Cons (head, bs)) (ring_chains mp f q (idx + 1) n)
      else None)"

text \<open>A list of writes to guest memory, all of which succeed.\<close>

fun write_all :: "'m guest_memory \<Rightarrow> 'm \<Rightarrow> (u64 \<times> bytes) list \<Rightarrow> 'm option" where
  "write_all M m [] = Some m"
| "write_all M m ((a, bs) # ws) =
     (case WriteIPA M m a bs of (Inl e, m') \<Rightarrow> None | (Inr _, m') \<Rightarrow> write_all M m' ws)"

section \<open>Writing the used ring does not disturb them\<close>

lemma agree_off_refl [simp]: "agree_off q f f"
  by (simp add: agree_off_def)

lemma agree_off_trans: "agree_off q f g \<Longrightarrow> agree_off q g h \<Longrightarrow> agree_off q f h"
  by (simp add: agree_off_def)

text \<open>Only the place and the size of the used ring matter.\<close>

lemma agree_off_cong:
  "usedAddr q' = usedAddr q \<Longrightarrow> qsize q' = qsize q \<Longrightarrow> agree_off q' = agree_off q"
  by (simp add: agree_off_def used_span_def fun_eq_iff)

lemma range_bytes_agree:
  assumes "visible mp q a n" "agree_off q f g"
  shows "range_bytes f a n = range_bytes g a n"
proof (rule range_bytes_cong)
  fix i assume i: "i < n"
  have "\<not> unat (a + of_nat i - (usedAddr q + 2)) < used_span q"
  proof
    assume lt: "unat (a + of_nat i - (usedAddr q + 2)) < used_span q"
    have "a + of_nat i = usedAddr q + 2 + of_nat (unat (a + of_nat i - (usedAddr q + 2)))" by simp
    then show False using assms(1) i lt unfolding visible_def ranges_disjoint_def by blast
  qed
  then show "f (a + of_nat i) = g (a + of_nat i)" using assms(2) by (simp add: agree_off_def)
qed

lemma chain_bytes_agree:
  assumes "agree_off q f g"
  shows "chain_bytes mp f q n i = Some bs \<Longrightarrow> chain_bytes mp g q n i = Some bs"
proof (induction n arbitrary: i bs)
  case (Suc n)
  let ?d = "desc_of f q i"
  have ok: "i < qsize q" "visible mp q (desc_slot q i) 16" "payload_visible mp q ?d"
    using Suc.prems by (auto simp: Let_def split: if_splits)
  have d: "desc_of g q i = ?d"
    using range_bytes_agree [OF ok(2) assms] by (simp add: desc_of_def)
  have p: "payload g ?d = payload f ?d"
    using ok(3) range_bytes_agree [OF _ assms] by (auto simp: payload_def payload_visible_def)
  show ?case
    using Suc.prems ok Suc.IH [of "dnext ?d"] by (auto simp: Let_def d p split: if_splits)
qed simp

lemma ring_chains_agree:
  assumes "agree_off q f g"
  shows "ring_chains mp f q idx n = Some xs \<Longrightarrow> ring_chains mp g q idx n = Some xs"
proof (induction n arbitrary: idx xs)
  case (Suc n)
  have v: "visible mp q (avail_slot q idx) 2"
    using Suc.prems by (auto simp: Let_def split: if_splits)
  have h: "range_bytes g (avail_slot q idx) 2 = range_bytes f (avail_slot q idx) 2"
    using range_bytes_agree [OF v assms] by simp
  obtain bs where bs: "chain_bytes mp f q (unat (qsize q)) (le_word (range_bytes f (avail_slot q idx) 2)) = Some bs"
    using Suc.prems v by (auto simp: Let_def split: option.splits)
  show ?case
    using Suc.prems Suc.IH [of "idx + 1"] v bs chain_bytes_agree [OF assms bs] by (auto simp: Let_def h)
qed simp

lemma queue_view_cong:
  assumes "descAddr q' = descAddr q" "qsize q' = qsize q" "usedAddr q' = usedAddr q"
  shows "desc_slot q' = desc_slot q" "desc_of f q' = desc_of f q" "visible mp q' = visible mp q"
    "payload_visible mp q' = payload_visible mp q"
  using assms
  by (simp_all add: fun_eq_iff desc_of_def desc_slot_def visible_def payload_visible_def used_span_def)

lemma chain_bytes_cong:
  assumes "descAddr q' = descAddr q" "qsize q' = qsize q" "usedAddr q' = usedAddr q"
  shows "chain_bytes mp f q' n i = chain_bytes mp f q n i"
  using assms(2) by (induction n arbitrary: i) (simp_all only: chain_bytes.simps queue_view_cong [OF assms])

lemma ring_chains_cong:
  assumes "descAddr q' = descAddr q" "qsize q' = qsize q" "usedAddr q' = usedAddr q" "availAddr q' = availAddr q"
  shows "ring_chains mp f q' idx n = ring_chains mp f q idx n"
proof (induction n arbitrary: idx)
  case (Suc n)
  have "avail_slot q' idx = avail_slot q idx" using assms by (simp add: avail_slot_def)
  then show ?case
    by (simp only: ring_chains.simps Suc.IH assms(2) queue_view_cong [OF assms(1-3)]
        chain_bytes_cong [OF assms(1-3)])
qed simp

lemma stored_byte_off_used:
  assumes "off + length d \<le> used_span q" "used_span q \<le> unat (x - (usedAddr q + 2))"
  shows "stored_byte (usedAddr q + 2 + of_nat off) d old x = old"
proof -
  have "unat (qsize q) < 2 ^ LENGTH(16)" by (rule unsigned_less)
  then have span: "used_span q < 2 ^ 63" by (simp add: used_span_def)
  have "\<not> unat (x - (usedAddr q + 2 + of_nat off)) < length d"
  proof
    assume lt: "unat (x - (usedAddr q + 2 + of_nat off)) < length d"
    let ?y = "x - (usedAddr q + 2 + of_nat off)"
    have "unat (?y + of_nat off) = unat ?y + off"
      using lt assms(1) span by (intro unat_add_of_nat) simp
    moreover have "?y + of_nat off = x - (usedAddr q + 2)" by simp
    ultimately have "unat (x - (usedAddr q + 2)) = unat ?y + off" by metis
    then show False using lt assms by linarith
  qed
  then show ?thesis by (simp add: stored_byte_def)
qed

lemma used_slot_off:
  assumes "qsize q \<noteq> 0"
  shows "\<exists>off. used_slot q idx = usedAddr q + 2 + of_nat off \<and> off + 8 \<le> used_span q"
proof (intro exI conjI)
  let ?s = "idx mod qsize q"
  have "unat ?s < unat (qsize q)" using assms by (simp add: unat_mod unat_gt_0)
  then show "2 + 8 * unat ?s + 8 \<le> used_span q" by (simp add: used_span_def)
  have "(ucast ?s :: u64) = of_nat (unat ?s)" by simp
  then show "used_slot q idx = usedAddr q + 2 + of_nat (2 + 8 * unat ?s)"
    by (simp add: used_slot_def)
qed

context guest_mem
begin

lemma chain_bytes_gathers:
  assumes "invar m"
  shows "chain_bytes (mapped m) (byte_at m) q n i = Some bs \<Longrightarrow> gather_loop n M m q i out = Inr (out @ bs)"
proof (induction n arbitrary: i bs out)
  case (Suc n)
  let ?d = "desc_of (byte_at m) q i"
  have ok: "i < qsize q" "visible (mapped m) q (desc_slot q i) 16" "payload_visible (mapped m) q ?d"
    using Suc.prems by (auto simp: Let_def split: if_splits)
  have "ReadIPA M m (desc_slot q i) 16 = Inr (range_bytes (byte_at m) (desc_slot q i) 16)"
    using read_mapped [OF assms, of "desc_slot q i" 16] ok by (simp add: visible_def)
  then have desc: "readDescriptorLocked M m q i = Inr ?d"
    using ok by (simp add: readDescriptorLocked_def desc_of_def desc_slot_def not_le)
  have "unat (dlength ?d) < 2 ^ LENGTH(32)" by (rule unsigned_less)
  then have lt: "unat (dlength ?d) < 2 ^ 63" by simp
  have "(if dflags ?d AND descFWrite = 0 \<and> 0 < dlength ?d
      then ReadIPA M m (daddr ?d) (int (unat (dlength ?d))) else Inr []) = Inr (payload (byte_at m) ?d)"
    using ok(3) read_mapped [OF assms _ lt]
    by (auto simp: payload_def payload_visible_def visible_def word_gt_0)
  then show ?case using Suc.prems Suc.IH ok desc by (auto simp: Let_def split: if_splits)
qed simp

lemma chain_bytes_reads:
  "invar m \<Longrightarrow> chain_bytes (mapped m) (byte_at m) q (unat (qsize q)) i = Some bs \<Longrightarrow>
     readChainLocked M m q i = Inr bs"
  using chain_bytes_gathers [of m q "unat (qsize q)" i bs "[]"] by (simp add: readChainLocked_def)

lemma avail_slot_reads:
  "invar m \<Longrightarrow> qsize q \<noteq> 0 \<Longrightarrow> visible (mapped m) q (avail_slot q idx) 2 \<Longrightarrow>
     readAvailableHead M m q idx = Inr (le_word (range_bytes (byte_at m) (avail_slot q idx) 2))"
  using read_mapped [of m "avail_slot q idx" 2]
  by (simp add: readAvailableHead_def visible_def avail_slot_def)

lemma writeQueueUsed_agrees:
  assumes inv: "invar m" and sz: "qsize q \<noteq> 0" and mp: "used_mapped (mapped m) q"
  shows "\<exists>m'. writeQueueUsed M head n (q, m) = (Inr (), (q\<lparr>usedIdx := usedIdx q + 1\<rparr>, m'))
    \<and> invar m' \<and> mapped m' = mapped m \<and> agree_off q (byte_at m) (byte_at m')"
proof -
  let ?a = "used_slot q (usedIdx q)" and ?e = "le_bytes 4 (ucast head :: u32) @ le_bytes 4 n"
  let ?i = "le_bytes 2 (usedIdx q + 1)"
  define m1 where "m1 = snd (WriteIPA M m ?a ?e)"
  define m2 where "m2 = snd (WriteIPA M m1 (usedAddr q + 2) ?i)"
  have ma: "mapped m ?a (length ?e)" "mapped m (usedAddr q + 2) (length ?i)"
    using mp by (simp_all add: used_mapped_def)
  have w1: "WriteIPA M m ?a ?e = (Inr (), m1)"
    using write_mapped [OF inv ma(1)] by (simp add: m1_def prod_eq_iff)
  have inv1: "invar m1" "mapped m1 = mapped m"
    using inv write_frame [of m ?e ?a] write_layout [of m ?a ?e] by (simp_all add: m1_def)
  have w2: "WriteIPA M m1 (usedAddr q + 2) ?i = (Inr (), m2)"
    using write_mapped [OF inv1(1)] inv1(2) ma(2) by (simp add: m2_def prod_eq_iff)
  have inv2: "invar m2" "mapped m2 = mapped m"
    using inv1 write_frame [of m1 ?i] write_layout [of m1 "usedAddr q + 2" ?i] by (simp_all add: m2_def)
  obtain off where off: "?a = usedAddr q + 2 + of_nat off" "off + 8 \<le> used_span q"
    using used_slot_off [OF sz] by blast
  have "byte_at m2 x = byte_at m x" if x: "used_span q \<le> unat (x - (usedAddr q + 2))" for x
  proof -
    have "byte_at m2 x = stored_byte (usedAddr q + 2) ?i (byte_at m1 x) x"
      using write_byte_at [OF inv1(1), of "usedAddr q + 2" ?i] inv1(2) ma(2) by (simp add: m2_def)
    also have "\<dots> = byte_at m1 x"
      using stored_byte_off_used [of 0 ?i q x] x by (simp add: used_span_def)
    also have "\<dots> = stored_byte ?a ?e (byte_at m x) x"
      using write_byte_at [OF inv ma(1)] by (simp add: m1_def)
    also have "\<dots> = byte_at m x"
      unfolding off(1) using off(2) x by (intro stored_byte_off_used) simp_all
    finally show ?thesis .
  qed
  then have "agree_off q (byte_at m) (byte_at m2)" by (simp add: agree_off_def)
  moreover have "writeQueueUsed M head n (q, m) = (Inr (), (q\<lparr>usedIdx := usedIdx q + 1\<rparr>, m2))"
    using sz w1 w2 by (simp add: writeQueueUsed_def Let_def used_slot_def)
  ultimately show ?thesis using inv2 by blast
qed

end

end
