(* ===== verification/Console.thy ===== *)
theory Console
  imports DriverView
begin

text \<open>
  The virtio console (\<^verbatim>\<open>virtio/console.go\<close>): its registers, the transmit queue and its output.
  The writer is outside the device; \<open>conLog\<close> lists the chunks it was given.
\<close>

section \<open>State and operations\<close>

type_synonym io_writer = "bytes list \<Rightarrow> bytes \<Rightarrow> goerr option"

record 'm console = "'m vdev" +
  conOut :: "io_writer option"
  conLog :: "bytes list"

definition con_resetLocked :: "'m console \<Rightarrow> 'm console" where
  "con_resetLocked c = c\<lparr>deviceFeatureSel := 0, driverFeatureSel := 0, driverFeatures := 0, queueSel := 0,
     devStatus := 0, interruptStatus := 0, irqHigh := False,
     configGeneration := configGeneration c + 1, queues := [zero_queue, zero_queue]\<rparr>"

definition NewConsole :: "u64 \<Rightarrow> u64 \<Rightarrow> u32 \<Rightarrow> io_writer option \<Rightarrow> 'm console" where
  "NewConsole b sz line w = con_resetLocked
     \<lparr>devBase = b, devSize = sz, devIRQ = line, gmem = None, irq = None, irqLog = [],
      deviceFeatureSel = 0, driverFeatureSel = 0, driverFeatures = 0, queueSel = 0, devStatus = 0,
      interruptStatus = 0, irqHigh = False, configGeneration = 0, queues = [zero_queue, zero_queue],
      conOut = w, conLog = []\<rparr>"

definition con_configBytesLocked :: bytes where
  "con_configBytesLocked = le_bytes 2 (80 :: u16) @ le_bytes 2 (25 :: u16) @ le_bytes 4 (1 :: u32) @ le_bytes 4 (0 :: u32)"

definition con_Read :: "'m console \<Rightarrow> u64 \<Rightarrow> int \<Rightarrow> goerr + u64" where
  "con_Read c addr sz =
     (let offset = addr - devBase c; sel = selectedQueueLocked c; tv = (\<lambda>v. Inr (truncateValue v sz)) in
      if offset = regMagicValue then tv mmioMagicValue
      else if offset = regVersion then tv mmioVersion
      else if offset = regDeviceID then tv 3
      else if offset = regVendorID then tv mmioVendorID
      else if offset = regDeviceFeatures then
        if deviceFeatureSel c = 0 then tv 1
        else if deviceFeatureSel c = 1 then tv 1 else Inr 0
      else if offset = regQueueNumMax then (if sel \<noteq> None then tv 256 else Inr 0)
      else if offset = regQueueNum then
        (case sel of Some i \<Rightarrow> tv (ucast (qsize (queues c ! i))) | None \<Rightarrow> Inr 0)
      else if offset = regQueueReady then
        (case sel of Some i \<Rightarrow> if qready (queues c ! i) then tv 1 else Inr 0 | None \<Rightarrow> Inr 0)
      else if offset = regInterruptStatus then tv (ucast (interruptStatus c))
      else if offset = regStatus then tv (ucast (devStatus c))
      else if offset = regConfigGen then tv (ucast (configGeneration c))
      else read_config con_configBytesLocked offset sz)"

definition con_emit :: "bytes \<Rightarrow> ('m console, unit) gomethod" where
  "con_emit data c =
     (if data = [] then (Inr (), c)
      else case conOut c of None \<Rightarrow> (Inr (), c)
        | Some w \<Rightarrow>
            ((case w (conLog c) data of None \<Rightarrow> Inr () | Some e \<Rightarrow> Inl WriteFailed),
             c\<lparr>conLog := conLog c @ [data]\<rparr>))"

text \<open>One round of the loop of \<^verbatim>\<open>processTXLocked\<close>; queue 1 is the transmit queue.\<close>

definition con_tx_round :: "'m guest_memory \<Rightarrow> ('m console, unit) gomethod" where
  "con_tx_round M c =
     (case gmem c of None \<Rightarrow> (Inl (Panic NilDeref), c)
      | Some m \<Rightarrow>
          (let q = queues c ! 1 in
           case readAvailableHead M m q (lastAvailIdx q) of
             Inl e \<Rightarrow> (Inl e, c)
           | Inr head \<Rightarrow>
               (case readChainLocked M m q head of
                  Inl e \<Rightarrow> (Inl e, c)
                | Inr data \<Rightarrow>
                    and_then (con_emit data) (\<lambda>_.
                    and_then (writeUsedLocked M 1 head (of_nat (length data))) (\<lambda>_.
                    modify_state (advance_avail 1))) c)))"

definition con_processTXLocked :: "'m guest_memory \<Rightarrow> ('m console, unit) gomethod" where
  "con_processTXLocked M c =
     (let q = queues c ! 1 in
      if \<not> qready q \<or> qsize q = 0 \<or> gmem c = None then (Inr (), c)
      else case avail_header M (the (gmem c)) q of
        Inl e \<Rightarrow> (Inl e, c)
      | Inr availIdx \<Rightarrow>
          and_then (run_avail (\<lambda>c. lastAvailIdx (queues c ! 1)) availIdx (con_tx_round M))
            (\<lambda>_. raise_interrupt intVring) c)"

definition con_Write :: "'m guest_memory \<Rightarrow> u64 \<Rightarrow> int \<Rightarrow> u64 \<Rightarrow> ('m console, unit) gomethod" where
  "con_Write M addr sz v c =
     (let offset = addr - devBase c in
      case write_registers offset v c of
        Some c' \<Rightarrow> (Inr (), c')
      | None \<Rightarrow>
          if offset = regInterruptAck then interrupt_ack v c
          else if offset = regStatus then
            let c' = c\<lparr>devStatus := ucast v\<rparr> in
            (Inr (), if devStatus c' = 0 then con_resetLocked c' else c')
          else if offset = regQueueNotify then
            (if v = 1 then con_processTXLocked M c else (Inr (), c))
          else (Inr (), c))"

section \<open>Transmitting\<close>

lemma con_emit_frame [simp]:
  "vdev.truncate (snd (con_emit data c)) = vdev.truncate c"
  "queues (snd (con_emit data c)) = queues c" "gmem (snd (con_emit data c)) = gmem c"
  "irq (snd (con_emit data c)) = irq c" "irqLog (snd (con_emit data c)) = irqLog c"
  "irqHigh (snd (con_emit data c)) = irqHigh c" "interruptStatus (snd (con_emit data c)) = interruptStatus c"
  by (auto simp: con_emit_def vdev.defs split: option.splits)

interpretation con_tx: avail_body "\<lambda>c. length (queues c) = 2" "\<lambda>c. lastAvailIdx (queues c ! 1)" "con_tx_round M"
  for M :: "'m guest_memory"
proof
  fix s s' :: "'m console"
  assume len: "length (queues s) = 2" and r: "con_tx_round M s = (Inr (), s')"
  then obtain head data c1 where c1: "con_emit data s = (Inr (), c1)"
    and p: "and_then (writeUsedLocked M 1 head (of_nat (length data)))
      (\<lambda>_. modify_state (advance_avail 1)) c1 = (Inr (), s')"
    by (auto simp: con_tx_round_def Let_def and_then_eq_ok [of "con_emit _"] split: option.splits sum.splits)
  have "queues c1 = queues s" using con_emit_frame(2) [of data s] c1 by simp
  then show "lastAvailIdx (queues s' ! 1) = lastAvailIdx (queues s ! 1) + 1" "length (queues s') = 2"
    using publish_advances [OF p] len by simp_all
qed

text \<open>What the driver queued for transmission, and that the queue is set up.\<close>

definition tx_ready :: "(u64 \<Rightarrow> nat \<Rightarrow> bool) \<Rightarrow> (u64 \<Rightarrow> u8) \<Rightarrow> 'm console \<Rightarrow> (u16 \<times> bytes) list \<Rightarrow> bool" where
  "tx_ready mp f c xs \<longleftrightarrow>
     (let q = queues c ! 1; n = length xs in
      length (queues c) = 2 \<and> qready q \<and> qsize q \<noteq> 0 \<and> used_mapped mp q \<and> mp (availAddr q) 4 \<and> n < 2 ^ 16
      \<and> le_word (sub_bytes (range_bytes f (availAddr q) 4) 2 4) = lastAvailIdx q + of_nat n
      \<and> ring_chains mp f q (lastAvailIdx q) n = Some xs)"

definition writer_ok :: "'m console \<Rightarrow> bool" where
  "writer_ok c \<longleftrightarrow> (\<forall>w. conOut c = Some w \<longrightarrow> (\<forall>l d. w l d = None))"

text \<open>The chunks a console passes on: with a writer, the chains that are not empty.\<close>

definition emitted :: "'m console \<Rightarrow> (u16 \<times> bytes) list \<Rightarrow> bytes list" where
  "emitted c xs = (if conOut c = None then [] else filter (\<lambda>d. d \<noteq> []) (map snd xs))"

definition tx_queue_after :: "nat \<Rightarrow> queue \<Rightarrow> queue" where
  "tx_queue_after n q = q\<lparr>usedIdx := usedIdx q + of_nat n, lastAvailIdx := lastAvailIdx q + of_nat n\<rparr>"

definition tx_state_after :: "'m \<Rightarrow> (u16 \<times> bytes) list \<Rightarrow> 'm console \<Rightarrow> 'm console" where
  "tx_state_after m xs c = c\<lparr>conLog := conLog c @ emitted c xs, gmem := Some m,
     queues := (queues c)[1 := tx_queue_after (length xs) (queues c ! 1)]\<rparr>"

lemma con_emit_ok:
  "writer_ok c \<Longrightarrow> con_emit data c = (Inr (), c\<lparr>conLog := conLog c @ emitted c [(h, data)]\<rparr>)"
  by (auto simp: con_emit_def writer_ok_def emitted_def split: option.splits)

lemma tx_state_after_Nil: "gmem c = Some m \<Longrightarrow> tx_state_after m [] c = c"
  by (simp add: tx_state_after_def emitted_def tx_queue_after_def)

lemma tx_state_after_Cons:
  assumes "length (queues c) = 2"
  shows "tx_state_after m (x # xs) c = tx_state_after m xs (tx_state_after m' [x] c)"
  using assms by (simp add: tx_state_after_def emitted_def tx_queue_after_def add.assoc)

context guest_mem
begin

lemma con_tx_round_step:
  assumes m: "gmem c = Some m" "invar m" and len: "length (queues c) = 2" and w: "writer_ok c"
    and q: "queues c ! 1 = q" "qsize q \<noteq> 0" "used_mapped (mapped m) q"
    and r: "ring_chains (mapped m) (byte_at m) q (lastAvailIdx q) (Suc n) = Some (x # xs)"
  shows "\<exists>m'. con_tx_round M c = (Inr (), tx_state_after m' [x] c) \<and> invar m' \<and> mapped m' = mapped m
    \<and> agree_off q (byte_at m) (byte_at m')
    \<and> ring_chains (mapped m) (byte_at m') q (lastAvailIdx q + 1) n = Some xs"
proof -
  obtain head data where x: "x = (head, data)" by force
  have v: "visible (mapped m) q (avail_slot q (lastAvailIdx q)) 2"
    and h: "head = le_word (range_bytes (byte_at m) (avail_slot q (lastAvailIdx q)) 2)"
    and d: "chain_bytes (mapped m) (byte_at m) q (unat (qsize q)) head = Some data"
    and rest: "ring_chains (mapped m) (byte_at m) q (lastAvailIdx q + 1) n = Some xs"
    using r x by (auto simp: Let_def split: if_splits option.splits)
  obtain m' where m': "writeQueueUsed M head (of_nat (length data)) (q, m) =
      (Inr (), (q\<lparr>usedIdx := usedIdx q + 1\<rparr>, m'))"
    "invar m'" "mapped m' = mapped m" "agree_off q (byte_at m) (byte_at m')"
    using writeQueueUsed_agrees [OF m(2) q(2,3)] by blast
  let ?c1 = "c\<lparr>conLog := conLog c @ emitted c [(head, data)]\<rparr>"
  have "writeUsedLocked M 1 head (of_nat (length data)) ?c1 =
      (Inr (), ?c1\<lparr>queues := (queues c)[1 := q\<lparr>usedIdx := usedIdx q + 1\<rparr>], gmem := Some m'\<rparr>)"
    using m'(1) m q by (simp add: writeUsedLocked_def)
  then have "con_tx_round M c = (Inr (), advance_avail 1
      (?c1\<lparr>queues := (queues c)[1 := q\<lparr>usedIdx := usedIdx q + 1\<rparr>], gmem := Some m'\<rparr>))"
    using m q v h chain_bytes_reads [OF m(2) d] avail_slot_reads [OF m(2) q(2) v] con_emit_ok [OF w, of data head]
    by (simp add: con_tx_round_def Let_def and_then_def)
  also have "\<dots> = (Inr (), tx_state_after m' [x] c)"
    using len q x by (simp add: advance_avail_def tx_state_after_def tx_queue_after_def)
  finally show ?thesis using m' rest ring_chains_agree [OF m'(4)] by blast
qed

lemma con_tx_rounds:
  assumes "gmem c = Some m" "invar m" "length (queues c) = 2" "writer_ok c"
    "queues c ! 1 = q" "qsize q \<noteq> 0" "used_mapped (mapped m) q"
    "ring_chains (mapped m) (byte_at m) q (lastAvailIdx q) (length xs) = Some xs"
  shows "\<exists>m'. rounds (con_tx_round M) (length xs) c (tx_state_after m' xs c) \<and> invar m'
    \<and> mapped m' = mapped m \<and> agree_off q (byte_at m) (byte_at m')"
  using assms
proof (induction xs arbitrary: c m q)
  case Nil
  then show ?case by (intro exI [of _ m]) (simp add: tx_state_after_Nil)
next
  case (Cons x xs)
  obtain m1 where m1: "con_tx_round M c = (Inr (), tx_state_after m1 [x] c)" "invar m1"
    "mapped m1 = mapped m" "agree_off q (byte_at m) (byte_at m1)"
    "ring_chains (mapped m) (byte_at m1) q (lastAvailIdx q + 1) (length xs) = Some xs"
    using con_tx_round_step [OF Cons.prems(1-7), of "length xs" x xs] Cons.prems(8) by auto
  let ?c1 = "tx_state_after m1 [x] c" and ?q1 = "tx_queue_after 1 q"
  have q1: "usedAddr ?q1 = usedAddr q" "qsize ?q1 = qsize q" "descAddr ?q1 = descAddr q"
    "availAddr ?q1 = availAddr q" "lastAvailIdx ?q1 = lastAvailIdx q + 1"
    by (simp_all add: tx_queue_after_def)
  have "\<exists>m'. rounds (con_tx_round M) (length xs) ?c1 (tx_state_after m' xs ?c1) \<and> invar m'
    \<and> mapped m' = mapped m1 \<and> agree_off ?q1 (byte_at m1) (byte_at m')"
  proof (rule Cons.IH)
    show "used_mapped (mapped m1) ?q1"
      using Cons.prems(7) m1(3) q1 by (simp add: used_mapped_def used_slot_def)
    show "ring_chains (mapped m1) (byte_at m1) ?q1 (lastAvailIdx ?q1) (length xs) = Some xs"
      using m1(5) q1 ring_chains_cong [of ?q1 q] m1(3) by simp
  qed (use Cons.prems m1 q1 in \<open>simp_all add: tx_state_after_def writer_ok_def\<close>)
  then obtain m' where m': "rounds (con_tx_round M) (length xs) ?c1 (tx_state_after m' xs ?c1)" "invar m'"
    "mapped m' = mapped m1" "agree_off q (byte_at m1) (byte_at m')"
    using agree_off_cong [OF q1(1,2)] by auto
  then show ?case
    using m1 Cons.prems(3) agree_off_trans [OF m1(4)] tx_state_after_Cons [of c m' x xs m1]
    by (intro exI [of _ m']) (auto intro: rounds_Suc)
qed

lemma con_notify_transmits:
  assumes m: "gmem c = Some m" "invar m" and w: "writer_ok c" and r: "tx_ready (mapped m) (byte_at m) c xs"
  shows "\<exists>m'. con_Write M (devBase c + regQueueNotify) sz 1 c = raise_interrupt intVring (tx_state_after m' xs c)
    \<and> invar m' \<and> mapped m' = mapped m \<and> agree_off (queues c ! 1) (byte_at m) (byte_at m')"
proof -
  let ?q = "queues c ! 1"
  have q: "length (queues c) = 2" "qready ?q" "qsize ?q \<noteq> 0" "used_mapped (mapped m) ?q"
    "mapped m (availAddr ?q) 4" "length xs < 2 ^ 16"
    "le_word (sub_bytes (range_bytes (byte_at m) (availAddr ?q) 4) 2 4) = lastAvailIdx ?q + of_nat (length xs)"
    "ring_chains (mapped m) (byte_at m) ?q (lastAvailIdx ?q) (length xs) = Some xs"
    using r by (auto simp: tx_ready_def Let_def)
  obtain m' where m': "rounds (con_tx_round M) (length xs) c (tx_state_after m' xs c)" "invar m'"
    "mapped m' = mapped m" "agree_off ?q (byte_at m) (byte_at m')"
    using con_tx_rounds [OF m q(1) w refl q(3,4,8)] by blast
  have "avail_header M m ?q = Inr (lastAvailIdx ?q + of_nat (length xs))"
    using read_mapped [OF m(2) q(5)] q(7) by (simp add: avail_header_def)
  moreover have "run_avail (\<lambda>c. lastAvailIdx (queues c ! 1)) (lastAvailIdx ?q + of_nat (length xs)) (con_tx_round M) c
      = (Inr (), tx_state_after m' xs c)"
    using con_tx.run_rounds [OF m'(1) q(1,6)] .
  ultimately have "con_processTXLocked M c = raise_interrupt intVring (tx_state_after m' xs c)"
    using m q by (simp add: con_processTXLocked_def Let_def and_then_def)
  then have "con_Write M (devBase c + regQueueNotify) sz 1 c = raise_interrupt intVring (tx_state_after m' xs c)"
    by (simp add: con_Write_def write_registers_def)
  then show ?thesis using m' by blast
qed

end

section \<open>The interrupt line under any sequence of writes\<close>

definition con_run :: "'m guest_memory \<Rightarrow> (u64 \<times> int \<times> u64) list \<Rightarrow> 'm console \<Rightarrow> 'm console" where
  "con_run M ws c = fold (\<lambda>(addr, sz, v) c. snd (con_Write M addr sz v c)) ws c"

lemma con_run_simps [simp]:
  "con_run M [] c = c"
  "con_run M ((addr, sz, v) # ws) c = con_run M ws (snd (con_Write M addr sz v c))"
  by (simp_all add: con_run_def)

lemma con_emit_base [simp]: "devBase (snd (con_emit data c)) = devBase c"
  by (auto simp: con_emit_def split: option.splits)

lemma con_emit_steady [preserves_intros]: "preserves (steady b) (con_emit data)"
  by (rule preservesI) (simp add: steady_cong [of "snd (con_emit data _)"])

lemma con_tx_round_steady [preserves_intros]: "preserves (steady b) (con_tx_round M)"
proof (rule preservesI)
  fix c :: "'a console" assume c: "steady b c"
  have "preserves (steady b) (and_then (con_emit data) (\<lambda>_.
      and_then (writeUsedLocked M 1 head n) (\<lambda>_. modify_state (advance_avail 1))))" for head data n
    by (intro preserves_intros) simp
  then show "steady b (snd (con_tx_round M c))"
    using c by (auto simp: con_tx_round_def Let_def dest: preservesD split: option.splits sum.splits)
qed

lemma con_processTX_steady: "steady b c \<Longrightarrow> steady b (snd (con_processTXLocked M c))"
proof -
  assume c: "steady b c"
  have "preserves (steady b) (and_then (run_avail (\<lambda>c. lastAvailIdx (queues c ! 1)) a (con_tx_round M))
      (\<lambda>_. raise_interrupt intVring))" for a
    by (intro preserves_intros)
  then show ?thesis
    using c by (auto simp: con_processTXLocked_def Let_def dest: preservesD split: sum.splits)
qed

lemma con_Write_steady:
  assumes "steady b c" "\<not> (addr - b = regStatus \<and> (ucast v :: u32) = 0)"
  shows "steady b (snd (con_Write M addr sz v c))"
proof (cases "write_registers (addr - devBase c) v c")
  case None
  have "steady b (c\<lparr>devStatus := ucast v\<rparr>)"
    using assms(1) by (simp add: steady_cong [of "c\<lparr>devStatus := ucast v\<rparr>" c])
  moreover have "devBase c = b" using assms(1) by (simp add: steady_def)
  ultimately show ?thesis
    using None assms con_processTX_steady [OF assms(1)] preservesD [OF interrupt_ack_steady assms(1)]
    by (auto simp: con_Write_def Let_def)
next
  case (Some c')
  then show ?thesis using assms(1) write_registers_steady [OF Some] by (simp add: con_Write_def)
qed

lemma con_run_steady:
  "steady b c \<Longrightarrow> \<forall>(addr, sz, v) \<in> set ws. \<not> (addr - b = regStatus \<and> (ucast v :: u32) = 0) \<Longrightarrow>
     steady b (con_run M ws c)"
proof (induction ws arbitrary: c)
  case (Cons w ws)
  obtain addr sz v where w: "w = (addr, sz, v)" by (cases w)
  then have "steady b (snd (con_Write M addr sz v c))" using Cons.prems by (intro con_Write_steady) auto
  then show ?case using Cons w by simp
qed simp

lemma NewConsole_steady: "steady b (dev_Attach m ctl (NewConsole b sz line w))"
  by (simp add: steady_def irq_synced_def irq_tracked_def dev_Attach_def NewConsole_def con_resetLocked_def)

section \<open>Properties\<close>

text \<open>
  A machine whose transmit queue holds one chain, the two bytes \<^verbatim>\<open>hi\<close>: descriptor table at
  \<open>0x1000\<close>, available ring at \<open>0x1010\<close>, used ring at \<open>0x1020\<close>, buffer at \<open>0x1030\<close>.
\<close>

definition tx_vm :: "arm_vm option" where
  "tx_vm = Some \<lparr>GuestPhysAddr = 0x1000, MemorySize = 64, vm_mem =
     [0x30, 0x10, 0, 0, 0, 0, 0, 0, 2, 0, 0, 0, 0, 0, 0, 0,
      0, 0, 1, 0, 0, 0, 0, 0, 0, 0, 0, 0, 0, 0, 0, 0,
      0, 0, 0, 0, 0, 0, 0, 0, 0, 0, 0, 0, 0, 0, 0, 0,
      0x68, 0x69, 0, 0, 0, 0, 0, 0, 0, 0, 0, 0, 0, 0, 0, 0]\<rparr>"

definition tx_console :: "arm_vm option console" where
  "tx_console = (dev_Attach (Some tx_vm) (Some (\<lambda>_ _ _. None))
     (NewConsole 0x9000 0x200 5 (Some (\<lambda>_ _. None))))
     \<lparr>queues := [zero_queue, zero_queue\<lparr>qsize := 1, qready := True, descAddr := 0x1000,
        availAddr := 0x1010, usedAddr := 0x1020\<rparr>]\<rparr>"

text \<open>
  C6. Notifying the transmit queue delivers everything the driver queued, on either KVM memory:
  each pending chain's readable bytes go to the writer, in ring order and once; both indices
  advance by the number of chains; memory changes only inside the used ring; and the
  interrupt is raised.
\<close>

theorem console_transmits:
  "(writer_ok c \<and> gmem c = Some vm \<and> arm_wf vm \<and> tx_ready (arm_mapped vm) (arm_byte_at vm) c xs \<longrightarrow>
     (\<exists>vm2. con_Write arm_memory (devBase c + regQueueNotify) sz 1 c =
         raise_interrupt intVring (tx_state_after vm2 xs c)
       \<and> agree_off (queues c ! 1) (arm_byte_at vm) (arm_byte_at vm2)))
   \<and> (writer_ok c' \<and> gmem c' = Some vm' \<and> amd_wf vm' \<and> tx_ready (amd_mapped vm') (amd_byte_at vm') c' xs \<longrightarrow>
     (\<exists>vm2. con_Write amd_memory (devBase c' + regQueueNotify) sz 1 c' =
         raise_interrupt intVring (tx_state_after vm2 xs c')
       \<and> agree_off (queues c' ! 1) (amd_byte_at vm') (amd_byte_at vm2)))"
  using arm.con_notify_transmits [of c vm xs sz] amd.con_notify_transmits [of c' vm' xs sz] by blast

lemma tx_vm_wf: "arm_wf tx_vm"
  by (simp add: tx_vm_def arm_wf_def)

lemma tx_console_facts:
  "writer_ok tx_console" "gmem tx_console = Some tx_vm" "devBase tx_console = 0x9000"
  "conLog tx_console = []" "conOut tx_console = Some (\<lambda>_ _. None)"
  by (auto simp: writer_ok_def tx_console_def dev_Attach_def NewConsole_def con_resetLocked_def)

lemma tx_console_ready: "tx_ready (arm_mapped tx_vm) (arm_byte_at tx_vm) tx_console [(0, [0x68, 0x69])]"
  by (simp add: tx_ready_def Let_def tx_console_def zero_queue_def used_mapped_def used_slot_def visible_def
      used_span_def avail_slot_def range_bytes_def upt_rec tx_vm_def arm_mapped_def arm_byte_at_def
      sub_bytes_def desc_of_def desc_slot_def decode_descriptor_def payload_def payload_visible_def
      ranges_disjoint_before ranges_disjoint_after)

theorem console_transmits_witness:
  "\<exists>vm2. con_Write arm_memory 0x9050 4 1 tx_console =
      raise_interrupt intVring (tx_state_after vm2 [(0, [0x68, 0x69])] tx_console)
    \<and> conLog (tx_state_after vm2 [(0, [0x68, 0x69])] tx_console) = [[0x68, 0x69]]"
  using console_transmits [of tx_console tx_vm "[(0, [0x68, 0x69])]" 4 "NewConsole 0 0 0 None" None] tx_vm_wf tx_console_ready
  by (auto simp: tx_console_facts tx_state_after_def emitted_def)

text \<open>
  The interrupt line is right under any traffic: after any sequence of register writes by the
  guest that does not reset the device, whatever they make it do and whether or not they fail,
  the level last requested from the interrupt controller is high exactly when the interrupt status
  register is not zero.
\<close>

theorem console_irq_line:
  assumes "\<forall>(addr, sz, v) \<in> set ws. \<not> (addr - b = regStatus \<and> (ucast v :: u32) = 0)"
    and "c = con_run M ws (dev_Attach m (Some ctl) (NewConsole b s line w))"
    and "irq c \<noteq> None"
  shows "irq_line (irqLog c) \<longleftrightarrow> interruptStatus c \<noteq> 0"
  using con_run_steady [OF NewConsole_steady assms(1), of M m "Some ctl" s line w] assms(2,3)
  by (auto simp: steady_def irq_synced_def irq_tracked_def)

theorem console_irq_line_witness:
  "irq_line (irqLog (con_run arm_memory [(0x9070, 4, 1), (0x9064, 4, 1)]
     (dev_Attach (Some tx_vm) (Some (\<lambda>_ _ _. None)) (NewConsole 0x9000 0x200 5 None)))) = False"
  using console_irq_line [of "[(0x9070, 4, 1), (0x9064, 4, 1)]" "0x9000" _ arm_memory "Some tx_vm" "\<lambda>_ _ _. None"
      "0x200" 5 None, OF _ refl]
  by (simp add: con_Write_def write_registers_def interrupt_ack_def updateIRQLocked_def dev_Attach_def
      NewConsole_def con_resetLocked_def)

text \<open>
  Resetting the console while its line is up loses the line: the device forgets that it raised
  it, makes no call that lowers it, and acknowledging interrupts afterwards does not lower it
  either, although nothing is pending.
\<close>

theorem console_reset_strands_line:
  assumes "irq_line (irqLog c)"
  shows "let c' = snd (con_Write M (devBase c + regStatus) 4 0 c) in
    interruptStatus c' = 0 \<and> \<not> irqHigh c' \<and> irq_line (irqLog c')
    \<and> irq_line (irqLog (snd (con_Write M (devBase c + regInterruptAck) 4 v c')))"
  using assms
  by (simp add: con_Write_def write_registers_def con_resetLocked_def interrupt_ack_def updateIRQLocked_def)

theorem console_reset_strands_line_witness:
  "irq_line (irqLog (snd (con_Write arm_memory 0x9070 4 0
     (snd (raise_interrupt intVring tx_console)))))"
  using console_reset_strands_line [of "snd (raise_interrupt intVring tx_console)" arm_memory 0]
  by (simp add: tx_console_def dev_Attach_def NewConsole_def con_resetLocked_def raise_interrupt_def
      updateIRQLocked_def SetIRQ_def Let_def irq_line_def)

text \<open>
  The driver's set-up sequence, as separate 32-bit register writes, programs exactly the
  selected queue with its size and its three 64-bit addresses, starts it, and leaves every other
  queue alone.
\<close>

theorem console_setup_queue:
  assumes "length (queues c) = 2" "i < 2"
  shows "queues (con_run M (map (\<lambda>(off, v). (devBase c + off, 4, v)) (setup_writes (of_nat i) n desc avail used)) c) =
    (queues c)[i := (queues c ! i)\<lparr>qsize := n, descAddr := desc, availAddr := avail, usedAddr := used, qready := True\<rparr>]"
proof -
  have sel: "unat (of_nat i :: u32) = i" "\<not> (2 :: u32) \<le> of_nat i"
    using assms(2) by (auto simp: word_le_nat_alt unat_of_nat take_bit_nat_eq_self)
  show ?thesis
    using assms sel
    by (simp add: setup_writes_def con_Write_def write_registers_def update_selected_def selectedQueueLocked_def
        set_half_rebuild set_ready_def)
qed

theorem console_setup_queue_witness:
  "queues (con_run arm_memory (map (\<lambda>(off, v). (0x9000 + off, 4, v)) (setup_writes 1 8 0x100001000 0x2000 0x3000))
     (NewConsole 0x9000 0x200 5 None)) ! 1 =
   zero_queue\<lparr>qsize := 8, descAddr := 0x100001000, availAddr := 0x2000, usedAddr := 0x3000, qready := True\<rparr>"
  using console_setup_queue [of "NewConsole 0x9000 0x200 5 None" 1 arm_memory 8 "0x100001000" "0x2000" "0x3000"]
  by (simp add: NewConsole_def con_resetLocked_def)

end
