(* ===== verification/Rng.thy ===== *)
theory Rng
  imports DriverView
begin

text \<open>
  The virtio entropy device (\<^verbatim>\<open>virtio/rng.go\<close>), with its legacy transport. The single queue of the
  struct is a one-element queue list. The random source is outside the device: byte \<open>i\<close> it delivers,
  or none when it fails there; \<open>rngPos\<close> counts the bytes taken.
\<close>

section \<open>State and operations\<close>

type_synonym byte_source = "nat \<Rightarrow> u8 option"

record 'm rng = "'m vdev" +
  rngReader :: byte_source
  rngPos :: nat
  LegacyMMIO :: bool

definition rng_resetLocked :: "'m rng \<Rightarrow> 'm rng" where
  "rng_resetLocked r = r\<lparr>deviceFeatureSel := 0, driverFeatureSel := 0, driverFeatures := 0, queueSel := 0,
     devStatus := 0, interruptStatus := 0, irqHigh := False,
     configGeneration := configGeneration r + 1, queues := [zero_queue]\<rparr>"

definition NewRNG :: "u64 \<Rightarrow> u64 \<Rightarrow> u32 \<Rightarrow> byte_source \<Rightarrow> 'm rng" where
  "NewRNG b sz line src = rng_resetLocked
     \<lparr>devBase = b, devSize = sz, devIRQ = line, gmem = None, irq = None, irqLog = [],
      deviceFeatureSel = 0, driverFeatureSel = 0, driverFeatures = 0, queueSel = 0, devStatus = 0,
      interruptStatus = 0, irqHigh = False, configGeneration = 0, queues = [zero_queue],
      rngReader = src, rngPos = 0, LegacyMMIO = False\<rparr>"

definition rng_Read :: "'m rng \<Rightarrow> u64 \<Rightarrow> int \<Rightarrow> u64" where
  "rng_Read r addr sz =
     (let offset = addr - devBase r; tv = (\<lambda>v. truncateValue v sz); q = queues r ! 0 in
      if offset = regMagicValue then tv mmioMagicValue
      else if offset = regVersion then tv (ucast (mmioTransportVersion (LegacyMMIO r)))
      else if offset = regDeviceID then tv 4
      else if offset = regVendorID then tv mmioVendorID
      else if offset = regDeviceFeatures then
        if LegacyMMIO r then 0 else if deviceFeatureSel r = 1 then tv 1 else 0
      else if offset = regQueueNumMax then if queueSel r = 0 then tv 256 else 0
      else if offset = regQueueNum then if queueSel r = 0 then tv (ucast (qsize q)) else 0
      else if offset = regQueueReady then
        if LegacyMMIO r then 0 else if queueSel r = 0 \<and> qready q then tv 1 else 0
      else if offset = regQueuePFN then
        if LegacyMMIO r \<and> queueSel r = 0 \<and> qready q then tv (descAddr q div 4096) else 0
      else if offset = regInterruptStatus then tv (ucast (interruptStatus r))
      else if offset = regStatus then tv (ucast (devStatus r))
      else if offset = regConfigGen then tv (ucast (configGeneration r))
      else 0)"

text \<open>\<^verbatim>\<open>io.ReadFull\<close>: bytes delivered before a failure are taken from the source and dropped.\<close>

fun read_full :: "byte_source \<Rightarrow> nat \<Rightarrow> nat \<Rightarrow> (goerr + bytes) \<times> nat" where
  "read_full src pos 0 = (Inr [], pos)"
| "read_full src pos (Suc n) =
     (case src pos of None \<Rightarrow> (Inl ReadFailed, pos)
      | Some b \<Rightarrow> (case read_full src (pos + 1) n of
          (Inl e, p) \<Rightarrow> (Inl e, p) | (Inr bs, p) \<Rightarrow> (Inr (b # bs), p)))"

definition rng_take :: "nat \<Rightarrow> ('m rng, bytes) gomethod" where
  "rng_take n r = (case read_full (rngReader r) (rngPos r) n of (res, p) \<Rightarrow> (res, r\<lparr>rngPos := p\<rparr>))"

text \<open>The counted loop of \<^verbatim>\<open>fillChainLocked\<close>; the result is the count returned on success.\<close>

fun rng_fill_loop :: "nat \<Rightarrow> 'm guest_memory \<Rightarrow> queue \<Rightarrow> u16 \<Rightarrow> u32 \<Rightarrow> ('m rng, u32) gomethod" where
  "rng_fill_loop 0 M q index written r = (Inl ChainLoop, r)"
| "rng_fill_loop (Suc n) M q index written r =
     (case gmem r of None \<Rightarrow> (Inl (Panic NilDeref), r)
      | Some m \<Rightarrow>
      (case readDescriptorLocked M m q index of
         Inl e \<Rightarrow> (Inl e, r)
       | Inr desc \<Rightarrow>
           (let fill = dflags desc AND descFWrite \<noteq> 0 \<and> 0 < dlength desc in
            case (if fill then
                    (case rng_take (unat (dlength desc)) r of
                       (Inl e, r') \<Rightarrow> (Inl e, r')
                     | (Inr buf, r') \<Rightarrow>
                         (case WriteIPA M m (daddr desc) buf of
                            (res, m') \<Rightarrow> (res, r'\<lparr>gmem := Some m'\<rparr>)))
                  else (Inr (), r)) of
              (Inl e, r') \<Rightarrow> (Inl e, r')
            | (Inr _, r') \<Rightarrow>
                let written' = (if fill then written + dlength desc else written) in
                if dflags desc AND descFNext = 0 then (Inr written', r')
                else rng_fill_loop n M q (dnext desc) written' r')))"

definition rng_fillChainLocked :: "'m guest_memory \<Rightarrow> u16 \<Rightarrow> ('m rng, u32) gomethod" where
  "rng_fillChainLocked M head r = (let q = queues r ! 0 in rng_fill_loop (unat (qsize q)) M q head 0 r)"

definition rng_round :: "'m guest_memory \<Rightarrow> ('m rng, unit) gomethod" where
  "rng_round M r =
     (case gmem r of None \<Rightarrow> (Inl (Panic NilDeref), r)
      | Some m \<Rightarrow>
          (let q = queues r ! 0 in
           case readAvailableHead M m q (lastAvailIdx q) of
             Inl e \<Rightarrow> (Inl e, r)
           | Inr head \<Rightarrow>
               and_then (rng_fillChainLocked M head) (\<lambda>written.
               and_then (writeUsedLocked M 0 head written) (\<lambda>_.
               modify_state (advance_avail 0))) r))"

definition rng_processQueueLocked :: "'m guest_memory \<Rightarrow> ('m rng, unit) gomethod" where
  "rng_processQueueLocked M r =
     (let q = queues r ! 0 in
      if \<not> qready q \<or> qsize q = 0 \<or> gmem r = None then (Inr (), r)
      else case avail_header M (the (gmem r)) q of
        Inl e \<Rightarrow> (Inl e, r)
      | Inr availIdx \<Rightarrow>
          and_then (run_avail (\<lambda>r. lastAvailIdx (queues r ! 0)) availIdx (rng_round M))
            (\<lambda>_. raise_interrupt intVring) r)"

definition configureLegacyQueueLocked :: "u32 \<Rightarrow> queue \<Rightarrow> queue" where
  "configureLegacyQueueLocked pfn q =
     (let q1 = (if qsize q = 0 then q\<lparr>qsize := 256\<rparr> else q);
          desc = ucast pfn * 4096;
          avail = desc + 16 * ucast (qsize q1);
          used = avail + 4 + 2 * ucast (qsize q1) in
      q1\<lparr>qready := True, descAddr := desc, availAddr := avail, usedAddr := alignVirtio used 4096,
         lastAvailIdx := 0, usedIdx := 0\<rparr>)"

definition on_queue0 :: "(queue \<Rightarrow> queue) \<Rightarrow> 'm rng \<Rightarrow> 'm rng" where
  "on_queue0 f r = (if queueSel r = 0 then r\<lparr>queues := (queues r)[0 := f (queues r ! 0)]\<rparr> else r)"

definition rng_Write :: "'m guest_memory \<Rightarrow> u64 \<Rightarrow> int \<Rightarrow> u64 \<Rightarrow> ('m rng, unit) gomethod" where
  "rng_Write M addr sz v r =
     (let offset = addr - devBase r in
      if offset = regDeviceFeatSel then (Inr (), r\<lparr>deviceFeatureSel := ucast v\<rparr>)
      else if offset = regDriverFeatSel then (Inr (), r\<lparr>driverFeatureSel := ucast v\<rparr>)
      else if offset = regDriverFeatures then (Inr (), set_driver_features v r)
      else if offset = regQueueSel then (Inr (), r\<lparr>queueSel := ucast v\<rparr>)
      else if offset = regQueueNum then (Inr (), on_queue0 (\<lambda>q. q\<lparr>qsize := ucast v\<rparr>) r)
      else if offset = regQueueReady then
        if LegacyMMIO r then (Inr (), r) else (Inr (), on_queue0 (set_ready v) r)
      else if offset = regGuestPageSize \<or> offset = regQueueAlign then (Inr (), r)
      else if offset = regQueuePFN then
        if LegacyMMIO r \<and> queueSel r = 0 then
          if v = 0 then
            (Inr (), on_queue0 (\<lambda>q. q\<lparr>qready := False, descAddr := 0, availAddr := 0, usedAddr := 0\<rparr>) r)
          else (Inr (), on_queue0 (configureLegacyQueueLocked (ucast v)) r)
        else (Inr (), r)
      else if offset = regQueueDescLow then (Inr (), on_queue0 (setQueueAddr (ucast v) queueAddrDesc True) r)
      else if offset = regQueueDescHigh then (Inr (), on_queue0 (setQueueAddr (ucast v) queueAddrDesc False) r)
      else if offset = regQueueAvailLow then (Inr (), on_queue0 (setQueueAddr (ucast v) queueAddrAvail True) r)
      else if offset = regQueueAvailHigh then (Inr (), on_queue0 (setQueueAddr (ucast v) queueAddrAvail False) r)
      else if offset = regQueueUsedLow then (Inr (), on_queue0 (setQueueAddr (ucast v) queueAddrUsed True) r)
      else if offset = regQueueUsedHigh then (Inr (), on_queue0 (setQueueAddr (ucast v) queueAddrUsed False) r)
      else if offset = regInterruptAck then interrupt_ack v r
      else if offset = regStatus then
        let r' = r\<lparr>devStatus := ucast v\<rparr> in
        (Inr (), if devStatus r' = 0 then rng_resetLocked r' else r')
      else if offset = regQueueNotify then
        (if v = 0 then rng_processQueueLocked M r else (Inr (), r))
      else (Inr (), r))"

section \<open>Random bytes are delivered once and in order\<close>

text \<open>The bytes at positions \<open>i\<close> up to \<open>j\<close> of a source that delivers them all.\<close>

definition source_bytes :: "byte_source \<Rightarrow> nat \<Rightarrow> nat \<Rightarrow> bytes \<Rightarrow> bool" where
  "source_bytes src i j bs \<longleftrightarrow> i \<le> j \<and> map src [i..<j] = map Some bs"

lemma source_bytes_empty [simp]: "source_bytes src i i bs \<longleftrightarrow> bs = []"
  by (simp add: source_bytes_def)

lemma source_bytes_append:
  assumes "source_bytes src i j xs" "source_bytes src j k ys"
  shows "source_bytes src i k (xs @ ys)"
proof -
  have le: "i \<le> j" "j \<le> k" using assms by (simp_all add: source_bytes_def)
  then have "[i..<k] = [i..<j] @ [j..<k]" by (metis le_add_diff_inverse upt_add_eq_append)
  then show ?thesis using assms le by (simp add: source_bytes_def)
qed

lemma source_bytes_length: "source_bytes src i j bs \<Longrightarrow> length bs = j - i"
  by (auto simp: source_bytes_def dest: map_eq_imp_length_eq)

lemma read_full_source:
  "read_full src pos n = (Inr bs, p) \<Longrightarrow> p = pos + n \<and> source_bytes src pos p bs"
proof (induction n arbitrary: pos bs)
  case (Suc n)
  then obtain b bs' where b: "src pos = Some b" "read_full src (pos + 1) n = (Inr bs', p)" "bs = b # bs'"
    by (auto split: option.splits prod.splits sum.splits)
  then have "p = pos + 1 + n" "source_bytes src (pos + 1) p bs'" using Suc.IH [OF b(2)] by auto
  moreover have "source_bytes src pos (pos + 1) [b]" using b by (simp add: source_bytes_def)
  ultimately show ?case using source_bytes_append [of src pos "pos + 1" "[b]"] b by auto
qed simp

lemma rng_take_ok:
  assumes "rng_take n r = (Inr bs, r')"
  shows "r' = r\<lparr>rngPos := rngPos r + n\<rparr>" "source_bytes (rngReader r) (rngPos r) (rngPos r + n) bs"
  using assms read_full_source by (fastforce simp: rng_take_def split: prod.splits)+

text \<open>What one descriptor of the chain gets: nothing, or fresh bytes.\<close>

lemma rng_fill_loop_fresh:
  assumes "rng_fill_loop n M q i w r = (Inr w', r')" "gmem r = Some m"
  shows "\<exists>ws m' p. write_all M m ws = Some m' \<and> r' = r\<lparr>rngPos := p, gmem := Some m'\<rparr>
    \<and> source_bytes (rngReader r) (rngPos r) p (concat (map snd ws)) \<and> w' = w + of_nat (p - rngPos r)"
  using assms
proof (induction n arbitrary: i w r m)
  case (Suc n)
  obtain d where d: "readDescriptorLocked M m q i = Inr d"
    using Suc.prems by (auto split: sum.splits)
  show ?case
  proof (cases "dflags d AND descFWrite \<noteq> 0 \<and> 0 < dlength d")
    case False
    then have "(dflags d AND descFNext = 0 \<and> w' = w \<and> r' = r)
        \<or> rng_fill_loop n M q (dnext d) w r = (Inr w', r')"
      using Suc.prems d by (auto simp: Let_def split: if_splits)
    then show ?thesis
    proof
      assume "dflags d AND descFNext = 0 \<and> w' = w \<and> r' = r"
      then show ?thesis using Suc.prems(2)
        by (intro exI [of _ "[]"] exI [of _ m] exI [of _ "rngPos r"]) (cases r, simp)
    qed (use Suc.IH Suc.prems(2) in blast)
  next
    case True
    obtain buf r1 where t: "rng_take (unat (dlength d)) r = (Inr buf, r1)"
      using Suc.prems d True by (auto simp: Let_def split: prod.splits sum.splits)
    note taken = rng_take_ok [OF t]
    obtain m1 where m1: "WriteIPA M m (daddr d) buf = (Inr (), m1)"
      using Suc.prems d True t by (auto simp: Let_def split: prod.splits sum.splits)
    let ?r1 = "r1\<lparr>gmem := Some m1\<rparr>" and ?k = "unat (dlength d)"
    have "(dflags d AND descFNext = 0 \<and> w' = w + dlength d \<and> r' = ?r1)
        \<or> rng_fill_loop n M q (dnext d) (w + dlength d) ?r1 = (Inr w', r')"
      using Suc.prems d True t m1 by (auto simp: Let_def split: if_splits)
    then show ?thesis
    proof
      assume "dflags d AND descFNext = 0 \<and> w' = w + dlength d \<and> r' = ?r1"
      then show ?thesis using m1 taken
        by (intro exI [of _ "[(daddr d, buf)]"] exI [of _ m1] exI [of _ "rngPos r + ?k"]) simp
    next
      assume "rng_fill_loop n M q (dnext d) (w + dlength d) ?r1 = (Inr w', r')"
      from Suc.IH [OF this, of m1] obtain ws m' p where
        ih: "write_all M m1 ws = Some m'" "r' = ?r1\<lparr>rngPos := p, gmem := Some m'\<rparr>"
        "source_bytes (rngReader r) (rngPos r + ?k) p (concat (map snd ws))"
        "w' = w + dlength d + of_nat (p - (rngPos r + ?k))"
        using taken by auto
      have "rngPos r + ?k \<le> p" using ih(3) by (simp add: source_bytes_def)
      then have "p - rngPos r = ?k + (p - (rngPos r + ?k))" by linarith
      then have "w' = w + of_nat (p - rngPos r)" using ih(4) by (simp add: add.assoc)
      then show ?thesis using ih m1 taken source_bytes_append [OF taken(2) ih(3)]
        by (intro exI [of _ "(daddr d, buf) # ws"] exI [of _ m'] exI [of _ p]) simp
    qed
  qed
qed simp

lemma rng_fill_frame:
  assumes "rng_fillChainLocked M head r = (Inr w, r')" "gmem r = Some m"
  shows "queues r' = queues r"
  using rng_fill_loop_fresh [OF assms(1) [unfolded rng_fillChainLocked_def Let_def] assms(2)] by auto

interpretation rng_q: avail_body "\<lambda>r. length (queues r) = 1" "\<lambda>r. lastAvailIdx (queues r ! 0)" "rng_round M"
  for M :: "'m guest_memory"
proof
  fix s s' :: "'m rng"
  assume len: "length (queues s) = 1" and r: "rng_round M s = (Inr (), s')"
  then obtain m head w r1 where r1: "gmem s = Some m" "rng_fillChainLocked M head s = (Inr w, r1)"
    and p: "and_then (writeUsedLocked M 0 head w) (\<lambda>_. modify_state (advance_avail 0)) r1 = (Inr (), s')"
    by (auto simp: rng_round_def Let_def and_then_eq_ok [of "rng_fillChainLocked _ _"] split: option.splits sum.splits)
  then have "queues r1 = queues s" using rng_fill_frame [OF r1(2,1)] by simp
  then show "lastAvailIdx (queues s' ! 0) = lastAvailIdx (queues s ! 0) + 1" "length (queues s') = 1"
    using publish_advances [OF p] len by simp_all
qed

section \<open>Properties\<close>

text \<open>
  Entropy is handed out fresh: when a chain is filled, guest memory changes by writes whose
  bytes, in order, are exactly the next bytes of the random source, none skipped and none used
  twice, and the length reported to the driver is their number.
\<close>

theorem rng_fill_is_fresh:
  assumes "rng_fillChainLocked M head r = (Inr written, r')" "gmem r = Some m"
  shows "\<exists>ws m'. write_all M m ws = Some m' \<and> gmem r' = Some m'
    \<and> source_bytes (rngReader r) (rngPos r) (rngPos r') (concat (map snd ws))
    \<and> written = of_nat (rngPos r' - rngPos r)"
  using rng_fill_loop_fresh [OF assms(1) [unfolded rng_fillChainLocked_def Let_def] assms(2)] by auto

text \<open>
  The same machine as for the console, with a device-writable descriptor of two bytes.
\<close>

definition rng_vm :: "arm_vm option" where
  "rng_vm = Some \<lparr>GuestPhysAddr = 0x1000, MemorySize = 32, vm_mem =
     [0x10, 0x10, 0, 0, 0, 0, 0, 0, 2, 0, 0, 0, 2, 0, 0, 0,
      0, 0, 0, 0, 0, 0, 0, 0, 0, 0, 0, 0, 0, 0, 0, 0]\<rparr>"

definition rng_demo :: "arm_vm option rng" where
  "rng_demo = (NewRNG 0x9000 0x200 6 (\<lambda>i. Some (of_nat (i + 7))))
     \<lparr>gmem := Some rng_vm, queues := [zero_queue\<lparr>qsize := 1, qready := True, descAddr := 0x1000\<rparr>]\<rparr>"

lemma read_full_2:
  "src i = Some a \<Longrightarrow> src (Suc i) = Some b \<Longrightarrow> read_full src i 2 = (Inr [a, b], Suc (Suc i))"
  by (simp add: numeral_2_eq_2)

lemma rng_demo_fills:
  "rng_fillChainLocked arm_memory 0 rng_demo =
     (Inr 2, rng_demo\<lparr>rngPos := 2, gmem := Some (Some ((the rng_vm)\<lparr>vm_mem := overwrite (vm_mem (the rng_vm)) 16 [7, 8]\<rparr>))\<rparr>)"
  by (simp add: rng_fillChainLocked_def rng_demo_def rng_vm_def NewRNG_def rng_resetLocked_def zero_queue_def
      readDescriptorLocked_def arm_memory_def arm_ReadIPA_def arm_ReadIPAInto_def arm_WriteIPA_def go_slice_def
      decode_descriptor_def sub_bytes_def rng_take_def Let_def read_full_2 overwrite_def)

theorem rng_fill_is_fresh_witness:
  "\<exists>ws m'. write_all arm_memory rng_vm ws = Some m' \<and> concat (map snd ws) = [7, 8]"
  using rng_fill_is_fresh [OF rng_demo_fills, of rng_vm]
  by (auto simp: rng_demo_def NewRNG_def rng_resetLocked_def source_bytes_def upt_rec)

text \<open>
  The legacy queue layout is sound for every page frame and queue size: nothing wraps, the
  descriptor table starts the page, the available ring follows it, and the used ring starts at the
  first 4096-byte boundary after the available ring.
\<close>

theorem rng_legacy_layout:
  "let q' = configureLegacyQueueLocked pfn q; n = (if qsize q = 0 then 256 else unat (qsize q)) in
   qready q' \<and> unat (qsize q') = n \<and> lastAvailIdx q' = 0 \<and> usedIdx q' = 0
   \<and> unat (descAddr q') = 4096 * unat pfn
   \<and> unat (availAddr q') = unat (descAddr q') + 16 * n
   \<and> 4096 dvd unat (usedAddr q')
   \<and> unat (availAddr q') + 4 + 2 * n \<le> unat (usedAddr q')
   \<and> unat (usedAddr q') < unat (availAddr q') + 4 + 2 * n + 4096"
proof -
  define q1 where "q1 = (if qsize q = 0 then q\<lparr>qsize := 256\<rparr> else q)"
  define n where "n = unat (qsize q1)"
  define desc :: u64 where "desc = ucast pfn * 4096"
  define avail :: u64 where "avail = desc + 16 * ucast (qsize q1)"
  define end_avail :: u64 where "end_avail = avail + 4 + 2 * ucast (qsize q1)"
  have p: "unat pfn < 2 ^ LENGTH(32)" and n: "n < 2 ^ LENGTH(16)" unfolding n_def by (rule unsigned_less)+
  have up: "unat (ucast pfn :: u64) = unat pfn" "unat (ucast (qsize q1) :: u64) = n"
    by (simp_all add: unat_ucast_up n_def)
  have d: "unat desc = 4096 * unat pfn" using p up by (simp add: desc_def unat_word_ariths)
  have a: "unat avail = unat desc + 16 * n" using p n up d by (simp add: avail_def unat_word_ariths)
  have e: "unat end_avail = unat avail + 4 + 2 * n"
    using p n up a d by (simp add: end_avail_def unat_word_ariths)
  have "4096 dvd unat (alignVirtio end_avail 4096)" "unat end_avail \<le> unat (alignVirtio end_avail 4096)"
    "unat (alignVirtio end_avail 4096) < unat end_avail + 4096"
    using alignVirtio_rounds_up [of 12 end_avail] p n a d e by simp_all
  moreover have "configureLegacyQueueLocked pfn q = q1\<lparr>qready := True, descAddr := desc, availAddr := avail,
      usedAddr := alignVirtio end_avail 4096, lastAvailIdx := 0, usedIdx := 0\<rparr>"
    by (simp add: configureLegacyQueueLocked_def Let_def q1_def desc_def avail_def end_avail_def)
  moreover have "n = (if qsize q = 0 then 256 else unat (qsize q))" by (simp add: n_def q1_def)
  ultimately show ?thesis using d a e by (simp add: Let_def n_def)
qed

end
