(* ===== verification/Balloon.thy ===== *)
theory Balloon
  imports DriverView
begin

text \<open>
  The memory balloon (\<^verbatim>\<open>virtio/balloon.go\<close>): target and actual size, the bitmap of inflated page
  frames, and the calls that give pages back to the host. The reclaimer is outside the device;
  \<open>reclaimLog\<close> lists the calls made on it, and its answer may depend on the calls before.
\<close>

section \<open>State\<close>

datatype reclaim_call =
    ReclaimRanges "(u64 \<times> u64) list" | ReuseRanges "(u64 \<times> u64) list"
  | ReclaimPages u64 u64 | ReusePages u64 u64
  | ReclaimPage u64 | ReusePage u64

text \<open>Which of the optional interfaces of the reclaimer its dynamic type has.\<close>

datatype reclaimer_kind = PageVectorReclaimer | PageRangeReclaimer | PageReclaimer

type_synonym reclaimer = "reclaimer_kind \<times> (reclaim_call list \<Rightarrow> reclaim_call \<Rightarrow> goerr option)"

record 'm balloon = "'m vdev" +
  reclaimer :: "reclaimer option"
  reclaimLog :: "reclaim_call list"
  numPages :: u32
  actualPages :: u32
  inflated :: "u64 \<rightharpoonup> u64"

abbreviation (input) balloonDriverOK :: u32 where "balloonDriverOK \<equiv> 4"
abbreviation (input) balloonPageSize :: u64 where "balloonPageSize \<equiv> 4096"

definition bal_resetLocked :: "'m balloon \<Rightarrow> 'm balloon" where
  "bal_resetLocked b = b\<lparr>deviceFeatureSel := 0, driverFeatureSel := 0, driverFeatures := 0, queueSel := 0,
     devStatus := 0, interruptStatus := 0, irqHigh := False,
     configGeneration := configGeneration b + 1, actualPages := 0, inflated := Map.empty,
     queues := [zero_queue, zero_queue]\<rparr>"

definition NewBalloon :: "u64 \<Rightarrow> u64 \<Rightarrow> u32 \<Rightarrow> 'm balloon" where
  "NewBalloon b sz line = bal_resetLocked
     \<lparr>devBase = b, devSize = sz, devIRQ = line, gmem = None, irq = None, irqLog = [],
      deviceFeatureSel = 0, driverFeatureSel = 0, driverFeatures = 0, queueSel = 0, devStatus = 0,
      interruptStatus = 0, irqHigh = False, configGeneration = 0, queues = [zero_queue, zero_queue],
      reclaimer = None, reclaimLog = [], numPages = 0, actualPages = 0, inflated = Map.empty\<rparr>"

text \<open>\<open>r\<close> is the memory seen as a reclaimer, when it is one.\<close>

definition bal_Attach :: "'m option \<Rightarrow> reclaimer option \<Rightarrow> irq_controller option \<Rightarrow> 'm balloon \<Rightarrow> 'm balloon" where
  "bal_Attach m r ctl b =
     (let b1 = b\<lparr>gmem := m\<rparr>; b2 = (if r \<noteq> None then b1\<lparr>reclaimer := r\<rparr> else b1) in b2\<lparr>irq := ctl\<rparr>)"

section \<open>Target and configuration\<close>

definition SetTargetPages :: "u32 \<Rightarrow> ('m balloon, unit) gomethod" where
  "SetTargetPages pages b =
     (if numPages b = pages then (Inr (), b)
      else let b1 = b\<lparr>numPages := pages, configGeneration := configGeneration b + 1\<rparr> in
        if devStatus b1 AND balloonDriverOK = 0 then (Inr (), b1)
        else raise_interrupt intConfig b1)"

definition AtTarget :: "'m balloon \<Rightarrow> bool" where
  "AtTarget b \<longleftrightarrow> actualPages b = numPages b"

definition bal_State :: "'m balloon \<Rightarrow> u32 \<times> u32 \<times> bool" where
  "bal_State b = (numPages b, actualPages b, devStatus b AND balloonDriverOK \<noteq> 0)"

definition bal_configBytesLocked :: "'m balloon \<Rightarrow> bytes" where
  "bal_configBytesLocked b = le_bytes 4 (numPages b) @ le_bytes 4 (actualPages b)"

definition bal_Read :: "'m balloon \<Rightarrow> u64 \<Rightarrow> int \<Rightarrow> goerr + u64" where
  "bal_Read b addr sz =
     (let offset = addr - devBase b; sel = selectedQueueLocked b; tv = (\<lambda>v. Inr (truncateValue v sz)) in
      if offset = regMagicValue then tv mmioMagicValue
      else if offset = regVersion then tv mmioVersion
      else if offset = regDeviceID then tv 5
      else if offset = regVendorID then tv mmioVendorID
      else if offset = regDeviceFeatures then (if deviceFeatureSel b = 1 then tv 1 else Inr 0)
      else if offset = regQueueNumMax then (if sel \<noteq> None then tv 256 else Inr 0)
      else if offset = regQueueNum then
        (case sel of Some i \<Rightarrow> tv (ucast (qsize (queues b ! i))) | None \<Rightarrow> Inr 0)
      else if offset = regQueueReady then
        (case sel of Some i \<Rightarrow> if qready (queues b ! i) then tv 1 else Inr 0 | None \<Rightarrow> Inr 0)
      else if offset = regInterruptStatus then tv (ucast (interruptStatus b))
      else if offset = regStatus then tv (ucast (devStatus b))
      else if offset = regConfigGen then tv (ucast (configGeneration b))
      else read_config (bal_configBytesLocked b) offset sz)"

text \<open>The byte loop of \<^verbatim>\<open>writeActualLocked\<close>: byte \<open>i\<close> of the value goes to \<^verbatim>\<open>cfg[offset+i]\<close>.\<close>

fun put_bytes :: "nat list \<Rightarrow> u64 \<Rightarrow> u64 \<Rightarrow> bytes \<Rightarrow> goerr + bytes" where
  "put_bytes [] off v cfg = Inr cfg"
| "put_bytes (i # is) off v cfg =
     (let k = unat (off + of_nat i) in
      if length cfg \<le> k then Inl (Panic IndexRange)
      else put_bytes is off v (cfg[k := ucast (drop_bit (8 * i) v)]))"

definition writeActualLocked :: "u64 \<Rightarrow> int \<Rightarrow> u64 \<Rightarrow> ('m balloon, unit) gomethod" where
  "writeActualLocked off sz v b =
     (case put_bytes [0..<nat sz] off v (replicate 4 0 @ le_bytes 4 (actualPages b)) of
        Inl e \<Rightarrow> (Inl e, b)
      | Inr cfg \<Rightarrow> (Inr (), b\<lparr>actualPages := le_word (sub_bytes cfg 4 8)\<rparr>))"

section \<open>The bitmap of inflated frames\<close>

definition map_word :: "(u64 \<rightharpoonup> u64) \<Rightarrow> u64 \<Rightarrow> u64" where
  "map_word m w = (case m w of None \<Rightarrow> 0 | Some bits \<Rightarrow> bits)"

definition markInflatedLocked :: "u64 \<Rightarrow> (u64 \<rightharpoonup> u64) \<Rightarrow> (u64 \<rightharpoonup> u64)" where
  "markInflatedLocked pfn m =
     (let w = pfn div 64 in m(w \<mapsto> map_word m w OR push_bit (unat (pfn mod 64)) 1))"

definition markDeflatedLocked :: "u64 \<Rightarrow> (u64 \<rightharpoonup> u64) \<Rightarrow> (u64 \<rightharpoonup> u64)" where
  "markDeflatedLocked pfn m =
     (let w = pfn div 64; bits = map_word m w AND NOT (push_bit (unat (pfn mod 64)) 1) in
      if bits = 0 then m(w := None) else m(w \<mapsto> bits))"

definition inflatedPageWordsLocked :: "'m balloon \<Rightarrow> (u64 \<times> u64) list" where
  "inflatedPageWordsLocked b =
     map (\<lambda>i. (i, map_word (inflated b) i)) (sorted_list_of_set (dom (inflated b)))"

section \<open>Giving pages back\<close>

definition call_reclaimer :: "reclaim_call \<Rightarrow> ('m balloon, unit) gomethod" where
  "call_reclaimer c b =
     (case reclaimer b of None \<Rightarrow> (Inl (Panic NilDeref), b)
      | Some (k, f) \<Rightarrow>
          ((case f (reclaimLog b) c of None \<Rightarrow> Inr () | Some e \<Rightarrow> Inl e),
           b\<lparr>reclaimLog := reclaimLog b @ [c]\<rparr>))"

fun call_each :: "reclaim_call list \<Rightarrow> ('m balloon, unit) gomethod" where
  "call_each [] b = (Inr (), b)"
| "call_each (c # cs) b = and_then (call_reclaimer c) (\<lambda>_. call_each cs) b"

text \<open>Runs of consecutive frames, as address and length in bytes.\<close>

fun frame_runs :: "u64 \<Rightarrow> u64 \<Rightarrow> u64 list \<Rightarrow> (u64 \<times> u64) list" where
  "frame_runs start previous [] = [(start * balloonPageSize, (previous - start + 1) * balloonPageSize)]"
| "frame_runs start previous (pfn # pfns) =
     (if pfn = previous + 1 then frame_runs start pfn pfns
      else (start * balloonPageSize, (previous - start + 1) * balloonPageSize) # frame_runs pfn pfn pfns)"

definition reclaim_calls :: "reclaimer_kind \<Rightarrow> bool \<Rightarrow> u64 list \<Rightarrow> reclaim_call list" where
  "reclaim_calls k inflate pfns =
     (let ranges = frame_runs (hd pfns) (hd pfns) (tl pfns) in
      case k of
        PageVectorReclaimer \<Rightarrow> [if inflate then ReclaimRanges ranges else ReuseRanges ranges]
      | PageRangeReclaimer \<Rightarrow> map (\<lambda>(a, n). if inflate then ReclaimPages a n else ReusePages a n) ranges
      | PageReclaimer \<Rightarrow>
          map (\<lambda>pfn. if inflate then ReclaimPage (pfn * balloonPageSize) else ReusePage (pfn * balloonPageSize)) pfns)"

definition reclaimPFNsLocked :: "nat \<Rightarrow> u64 list \<Rightarrow> ('m balloon, unit) gomethod" where
  "reclaimPFNsLocked qidx pfns b =
     (case reclaimer b of None \<Rightarrow> (Inr (), b)
      | Some (k, _) \<Rightarrow> if pfns = [] then (Inr (), b) else call_each (reclaim_calls k (qidx = 0) pfns) b)"

section \<open>Queues\<close>

fun pfns_of :: "bytes \<Rightarrow> u64 list" where
  "pfns_of (b0 # b1 # b2 # b3 # bs) = ucast (le_word [b0, b1, b2, b3] :: u32) # pfns_of bs"
| "pfns_of _ = []"

definition mark_all :: "nat \<Rightarrow> u64 list \<Rightarrow> (u64 \<rightharpoonup> u64) \<Rightarrow> (u64 \<rightharpoonup> u64)" where
  "mark_all qidx pfns m =
     fold (if qidx = 0 then markInflatedLocked else if qidx = 1 then markDeflatedLocked else (\<lambda>_ m. m)) pfns m"

definition processPFNsLocked :: "'m guest_memory \<Rightarrow> nat \<Rightarrow> u64 \<Rightarrow> u32 \<Rightarrow> ('m balloon, unit) gomethod" where
  "processPFNsLocked M qidx addr len b =
     (if len mod 4 \<noteq> 0 then (Inl Misaligned, b)
      else case gmem b of None \<Rightarrow> (Inl (Panic NilDeref), b)
      | Some m \<Rightarrow>
          (case ReadIPA M m addr (int (unat len)) of
             Inl e \<Rightarrow> (Inl e, b)
           | Inr buf \<Rightarrow>
               let pfns = pfns_of buf in
               reclaimPFNsLocked qidx pfns (b\<lparr>inflated := mark_all qidx pfns (inflated b)\<rparr>)))"

fun bal_chain_loop :: "nat \<Rightarrow> 'm guest_memory \<Rightarrow> queue \<Rightarrow> nat \<Rightarrow> u16 \<Rightarrow> ('m balloon, unit) gomethod" where
  "bal_chain_loop 0 M q qidx index b = (Inl ChainLoop, b)"
| "bal_chain_loop (Suc n) M q qidx index b =
     (case gmem b of None \<Rightarrow> (Inl (Panic NilDeref), b)
      | Some m \<Rightarrow>
      (case readDescriptorLocked M m q index of
         Inl e \<Rightarrow> (Inl e, b)
       | Inr desc \<Rightarrow>
           (case (if dflags desc AND descFWrite = 0 \<and> 0 < dlength desc
                  then processPFNsLocked M qidx (daddr desc) (dlength desc) b else (Inr (), b)) of
              (Inl e, b') \<Rightarrow> (Inl e, b')
            | (Inr _, b') \<Rightarrow>
                if dflags desc AND descFNext = 0 then (Inr (), b')
                else bal_chain_loop n M q qidx (dnext desc) b')))"

definition processChainLocked :: "'m guest_memory \<Rightarrow> nat \<Rightarrow> u16 \<Rightarrow> ('m balloon, unit) gomethod" where
  "processChainLocked M qidx head b =
     (let q = queues b ! qidx in bal_chain_loop (unat (qsize q)) M q qidx head b)"

definition bal_round :: "'m guest_memory \<Rightarrow> nat \<Rightarrow> ('m balloon, unit) gomethod" where
  "bal_round M qidx b =
     (case gmem b of None \<Rightarrow> (Inl (Panic NilDeref), b)
      | Some m \<Rightarrow>
          (let q = queues b ! qidx in
           case readAvailableHead M m q (lastAvailIdx q) of
             Inl e \<Rightarrow> (Inl e, b)
           | Inr head \<Rightarrow>
               and_then (processChainLocked M qidx head) (\<lambda>_.
               and_then (writeUsedLocked M qidx head 0) (\<lambda>_.
               modify_state (advance_avail qidx))) b))"

text \<open>\<^verbatim>\<open>processed\<close> is set when the loop runs at all, that is when the indices differ at its start.\<close>

definition bal_processQueueLocked :: "'m guest_memory \<Rightarrow> nat \<Rightarrow> ('m balloon, unit) gomethod" where
  "bal_processQueueLocked M qidx b =
     (let q = queues b ! qidx in
      if \<not> qready q \<or> qsize q = 0 \<or> gmem b = None then (Inr (), b)
      else case avail_header M (the (gmem b)) q of
        Inl e \<Rightarrow> (Inl e, b)
      | Inr availIdx \<Rightarrow>
          and_then (run_avail (\<lambda>b. lastAvailIdx (queues b ! qidx)) availIdx (bal_round M qidx))
            (\<lambda>_. if lastAvailIdx q = availIdx then return_ok () else raise_interrupt intVring) b)"

definition bal_Write :: "'m guest_memory \<Rightarrow> u64 \<Rightarrow> int \<Rightarrow> u64 \<Rightarrow> ('m balloon, unit) gomethod" where
  "bal_Write M addr sz v b =
     (let offset = addr - devBase b in
      case write_registers offset v b of
        Some b' \<Rightarrow> (Inr (), b')
      | None \<Rightarrow>
          if offset = regGuestPageSize \<or> offset = regQueueAlign then (Inr (), b)
          else if offset = regInterruptAck then interrupt_ack v b
          else if offset = regStatus then
            let wasReady = devStatus b AND balloonDriverOK \<noteq> 0; b' = b\<lparr>devStatus := ucast v\<rparr> in
            if devStatus b' = 0 then (Inr (), bal_resetLocked b')
            else if \<not> wasReady \<and> devStatus b' AND balloonDriverOK \<noteq> 0 \<and> actualPages b' \<noteq> numPages b'
            then raise_interrupt intConfig b'
            else (Inr (), b')
          else if offset = regQueueNotify then
            (if v = 0 \<or> v = 1 then bal_processQueueLocked M (unat v) b else (Inr (), b))
          else if regConfig + 4 \<le> offset \<and> offset + of_int sz \<le> regConfig + 8
          then writeActualLocked (offset - regConfig) sz v b
          else (Inr (), b))"

section \<open>The bitmap is a set of frames\<close>

definition inflated_set :: "(u64 \<rightharpoonup> u64) \<Rightarrow> u64 set" where
  "inflated_set m = {pfn. bit (map_word m (pfn div 64)) (unat (pfn mod 64))}"

lemma frame_position: "x div 64 = y div 64 \<and> unat (x mod 64) = unat (y mod 64) \<longleftrightarrow> x = (y :: u64)"
proof
  assume a: "x div 64 = y div 64 \<and> unat (x mod 64) = unat (y mod 64)"
  have "unat (x div 64) = unat x div 64" "unat (y div 64) = unat y div 64"
    "unat (x mod 64) = unat x mod 64" "unat (y mod 64) = unat y mod 64"
    by (simp_all add: unat_div unat_mod)
  then have "unat x div 64 = unat y div 64" "unat x mod 64 = unat y mod 64" using a by metis+
  then have "unat x = unat y" by (metis mult_div_mod_eq)
  then show "x = y" by (simp add: word_unat_eq_iff)
qed simp

lemma unat_mod64: "unat ((x :: u64) mod 64) < 64"
proof -
  have "unat (x mod 64) = unat x mod unat (64 :: u64)" by (rule unat_mod)
  then show ?thesis by simp
qed

lemma frame_bit: "bit (2 ^ unat ((y :: u64) mod 64) :: u64) (unat ((x :: u64) mod 64)) \<longleftrightarrow>
    unat (x mod 64) = unat (y mod 64)"
  using unat_mod64 [of x] by (auto simp: bit_exp_iff possible_bit_def)

lemma markInflated_set [simp]: "inflated_set (markInflatedLocked pfn m) = insert pfn (inflated_set m)"
proof (rule set_eqI)
  fix x :: u64
  show "x \<in> inflated_set (markInflatedLocked pfn m) \<longleftrightarrow> x \<in> insert pfn (inflated_set m)"
    using frame_position [of x pfn]
    by (cases "x div 64 = pfn div 64")
      (auto simp: inflated_set_def markInflatedLocked_def Let_def map_word_def bit_or_iff frame_bit)
qed

lemma markDeflated_set [simp]: "inflated_set (markDeflatedLocked pfn m) = inflated_set m - {pfn}"
proof (rule set_eqI)
  fix x :: u64
  let ?bits = "map_word m (pfn div 64) AND NOT (push_bit (unat (pfn mod 64)) 1)"
  have w: "map_word (markDeflatedLocked pfn m) v = (if v = pfn div 64 then ?bits else map_word m v)" for v
    by (simp add: markDeflatedLocked_def Let_def map_word_def)
  have lt: "unat (x mod 64) < 64" by (rule unat_mod64)
  show "x \<in> inflated_set (markDeflatedLocked pfn m) \<longleftrightarrow> x \<in> inflated_set m - {pfn}"
    using frame_position [of x pfn] lt
    by (cases "x div 64 = pfn div 64")
      (auto simp: inflated_set_def w bit_and_iff bit_not_iff frame_bit)
qed

lemma mark_all_set:
  "inflated_set (mark_all 0 pfns m) = inflated_set m \<union> set pfns"
  "inflated_set (mark_all 1 pfns m) = inflated_set m - set pfns"
  unfolding mark_all_def by (induction pfns arbitrary: m) auto

text \<open>No word of the map is zero, so the map has an entry only where a frame is inflated.\<close>

definition no_empty_word :: "(u64 \<rightharpoonup> u64) \<Rightarrow> bool" where
  "no_empty_word m \<longleftrightarrow> (\<forall>w. m w \<noteq> Some 0)"

lemma mark_no_empty_word:
  "no_empty_word m \<Longrightarrow> no_empty_word (markInflatedLocked pfn m)"
  "no_empty_word m \<Longrightarrow> no_empty_word (markDeflatedLocked pfn m)"
proof -
  have "bit (map_word m (pfn div 64) OR push_bit (unat (pfn mod 64)) 1) (unat (pfn mod 64))"
    using frame_bit [of pfn pfn] by (simp add: bit_or_iff)
  then have "map_word m (pfn div 64) OR push_bit (unat (pfn mod 64)) 1 \<noteq> 0" by (metis bit_0_eq bot_apply bot_bool_def)
  then show "no_empty_word m \<Longrightarrow> no_empty_word (markInflatedLocked pfn m)"
    by (simp add: no_empty_word_def markInflatedLocked_def Let_def)
  show "no_empty_word m \<Longrightarrow> no_empty_word (markDeflatedLocked pfn m)"
    by (simp add: no_empty_word_def markDeflatedLocked_def Let_def)
qed

lemma mark_all_no_empty_word: "no_empty_word m \<Longrightarrow> no_empty_word (mark_all q pfns m)"
  unfolding mark_all_def by (induction pfns arbitrary: m) (simp_all add: mark_no_empty_word)

section \<open>Runs cover the frames exactly\<close>

definition range_pages :: "u64 \<times> u64 \<Rightarrow> u64 list" where
  "range_pages = (\<lambda>(a, n). map (\<lambda>i. a + of_nat i * balloonPageSize) [0..<unat n div 4096])"

fun pages_of_call :: "reclaim_call \<Rightarrow> u64 list" where
  "pages_of_call (ReclaimRanges rs) = concat (map range_pages rs)"
| "pages_of_call (ReuseRanges rs) = concat (map range_pages rs)"
| "pages_of_call (ReclaimPages a n) = range_pages (a, n)"
| "pages_of_call (ReusePages a n) = range_pages (a, n)"
| "pages_of_call (ReclaimPage a) = [a]"
| "pages_of_call (ReusePage a) = [a]"

fun gives_back :: "reclaim_call \<Rightarrow> bool" where
  "gives_back (ReclaimRanges rs) = True"
| "gives_back (ReclaimPages a n) = True"
| "gives_back (ReclaimPage a) = True"
| "gives_back _ = False"

definition run_pages :: "u64 \<Rightarrow> u64 \<Rightarrow> u64 list" where
  "run_pages start previous = map (\<lambda>i. (start + of_nat i) * balloonPageSize) [0..<Suc (unat (previous - start))]"

lemma run_pages_one [simp]: "run_pages p p = [p * balloonPageSize]"
  by (simp add: run_pages_def)

lemma unat_run:
  assumes "unat d < 2 ^ 32"
  shows "unat (d + 1 :: u64) = unat d + 1" "unat ((d + 1) * 4096 :: u64) = (unat d + 1) * 4096"
proof -
  show e: "unat (d + 1) = unat d + 1" using assms by (subst unat_add_lt) auto
  have "unat ((d + 1) * 4096) = unat (d + 1) * 4096 mod 2 ^ 64"
    by (simp only: unat_word_ariths) simp
  then show "unat ((d + 1) * 4096) = (unat d + 1) * 4096" using assms e by simp
qed

lemma run_distance:
  "start \<le> previous \<Longrightarrow> unat previous < 2 ^ 32 \<Longrightarrow> unat (previous - start :: u64) < 2 ^ 32"
  by (simp add: unat_minus_le)

lemma range_pages_run:
  assumes "start \<le> previous" "unat previous < 2 ^ 32"
  shows "range_pages (start * balloonPageSize, (previous - start + 1) * balloonPageSize) = run_pages start previous"
  unfolding range_pages_def run_pages_def using unat_run(2) [OF run_distance [OF assms]]
  by (simp only: prod.case) (simp add: distrib_right del: mult_Suc)

lemma run_pages_extend:
  assumes "start \<le> previous" "unat previous < 2 ^ 32"
  shows "run_pages start (previous + 1) = run_pages start previous @ [(previous + 1) * balloonPageSize]"
proof -
  have "unat (previous + 1 - start) = Suc (unat (previous - start))"
    using unat_run(1) [OF run_distance [OF assms]] by (simp add: add_diff_eq [symmetric] add.commute)
  moreover have "start + of_nat (Suc (unat (previous - start))) = previous + 1" by simp
  ultimately show ?thesis
    by (simp only: run_pages_def upt_Suc_append [of 0] le0 map_append list.map)
qed

lemma frame_runs_pages:
  assumes "start \<le> previous" "\<forall>p \<in> set (previous # pfns). unat p < 2 ^ 32"
  shows "concat (map range_pages (frame_runs start previous pfns)) =
    run_pages start previous @ map (\<lambda>p. p * balloonPageSize) pfns"
  using assms
proof (induction pfns arbitrary: start previous)
  case Nil
  then show ?case using range_pages_run [of start previous] by simp
next
  case (Cons p pfns)
  show ?case
  proof (cases "p = previous + 1")
    case True
    have "unat (previous + 1) = unat previous + 1" using Cons.prems by (subst unat_add_lt) auto
    then have "start \<le> previous + 1" using Cons.prems by (simp add: word_le_nat_alt)
    then show ?thesis
      using Cons.IH [of start p] Cons.prems True run_pages_extend [of start previous] by simp
  next
    case False
    then show ?thesis
      using Cons.IH [of p p] Cons.prems range_pages_run [of start previous] by simp
  qed
qed

lemma reclaim_calls_pages:
  assumes "pfns \<noteq> []" "\<forall>p \<in> set pfns. unat p < 2 ^ 32"
  shows "concat (map pages_of_call (reclaim_calls k inflate pfns)) = map (\<lambda>p. p * balloonPageSize) pfns"
    "list_all (\<lambda>c. gives_back c = inflate) (reclaim_calls k inflate pfns)"
proof -
  obtain p ps where ps: "pfns = p # ps" using assms(1) by (cases pfns) auto
  have "concat (map range_pages (frame_runs p p ps)) = map (\<lambda>p. p * balloonPageSize) pfns"
    using frame_runs_pages [of p p ps] assms(2) ps by simp
  moreover have "pages_of_call \<circ> (\<lambda>(a, n). if inflate then ReclaimPages a n else ReusePages a n) = range_pages"
    by (auto simp: fun_eq_iff)
  ultimately show "concat (map pages_of_call (reclaim_calls k inflate pfns)) = map (\<lambda>p. p * balloonPageSize) pfns"
    using ps by (cases k; cases inflate) (auto simp: reclaim_calls_def Let_def o_def concat_map_singleton)
  show "list_all (\<lambda>c. gives_back c = inflate) (reclaim_calls k inflate pfns)"
    by (cases k; cases inflate) (auto simp: reclaim_calls_def Let_def list_all_iff)
qed

lemma call_each_ok:
  "reclaimer b = Some (k, f) \<Longrightarrow> \<forall>h c. f h c = None \<Longrightarrow>
     call_each cs b = (Inr (), b\<lparr>reclaimLog := reclaimLog b @ cs\<rparr>)"
  by (induction cs arbitrary: b) (simp_all add: call_reclaimer_def and_then_def)

lemma pfns_of_bound: "p \<in> set (pfns_of bs) \<Longrightarrow> unat p < 2 ^ 32"
proof (induction bs rule: pfns_of.induct)
  case (1 b0 b1 b2 b3 bs)
  have "unat (le_word [b0, b1, b2, b3] :: u32) < 2 ^ LENGTH(32)" by (rule unsigned_less)
  then show ?case using 1 by (auto simp: unat_ucast_up)
qed auto

section \<open>The actual size\<close>

lemma put_bytes_append:
  "put_bytes (xs @ ys) off v cfg = (case put_bytes xs off v cfg of Inl e \<Rightarrow> Inl e | Inr c \<Rightarrow> put_bytes ys off v c)"
  by (induction xs arbitrary: cfg) (simp_all add: Let_def)

lemma put_bytes_overwrite:
  assumes "unat off + n \<le> length cfg" "length cfg < 2 ^ 64"
  shows "put_bytes [0..<n] off v cfg = Inr (overwrite cfg (unat off) (le_bytes n v))"
  using assms(1)
proof (induction n)
  case 0
  then show ?case by (simp add: overwrite_def le_bytes_def)
next
  case (Suc n)
  have k: "unat (off + of_nat n) = unat off + n"
    using Suc.prems assms(2) by (intro unat_add_of_nat) simp
  have len: "length (overwrite cfg (unat off) (le_bytes n v)) = length cfg"
    using Suc.prems by simp
  have "(overwrite cfg (unat off) (le_bytes n v))[unat off + n := ucast (drop_bit (8 * n) v)] =
      overwrite cfg (unat off) (le_bytes (Suc n) v)"
    using Suc.prems by (intro nth_equalityI) (auto simp: nth_overwrite nth_list_update le_bytes_def nth_append less_Suc_eq)
  then show ?case using Suc k len by (simp add: put_bytes_append Let_def)
qed

lemma config_window:
  fixes off :: nat and sz :: int
  assumes "0 < sz" "4 + off + nat sz \<le> 8"
  shows "write_registers (regConfig + 4 + of_nat off) v d = None"
    "regConfig + 4 \<le> (regConfig + 4 + of_nat off :: u64)"
    "regConfig + 4 + of_nat off + of_int sz \<le> (regConfig + 8 :: u64)"
    "unat (4 + of_nat off :: u64) = 4 + off"
    "(regConfig + 4 + of_nat off :: u64) \<notin> {regGuestPageSize, regQueueAlign, regInterruptAck, regStatus, regQueueNotify}"
proof -
  have "off = 0 \<or> off = 1 \<or> off = 2 \<or> off = 3" "sz = 1 \<or> sz = 2 \<or> sz = 3 \<or> sz = 4" using assms by arith+
  then show "write_registers (regConfig + 4 + of_nat off) v d = None"
    "regConfig + 4 \<le> (regConfig + 4 + of_nat off :: u64)"
    "regConfig + 4 + of_nat off + of_int sz \<le> (regConfig + 8 :: u64)"
    "unat (4 + of_nat off :: u64) = 4 + off"
    "(regConfig + 4 + of_nat off :: u64) \<notin> {regGuestPageSize, regQueueAlign, regInterruptAck, regStatus, regQueueNotify}"
    using assms by (auto simp: write_registers_def)
qed

section \<open>Properties\<close>

text \<open>
  C30. A buffer of page frame numbers is processed exactly: inflating adds its frames to the set
  the bitmap stands for and deflating removes them; and whichever reclaimer interface is available,
  the calls made cover exactly the pages of the buffer, in its order and each once, all as
  reclaims on inflation and all as reuses on deflation.
\<close>

theorem balloon_processes_frames:
  assumes "gmem b = Some vm" "arm_wf vm" "arm_mapped vm addr (unat len)" "len mod 4 = 0"
    "qidx = 0 \<or> qidx = 1" "reclaimer b = Some (k, f)" "\<forall>h c. f h c = None"
    "pfns = pfns_of (range_bytes (arm_byte_at vm) addr (unat len))"
  shows "\<exists>b' calls. processPFNsLocked arm_memory qidx addr len b = (Inr (), b')
    \<and> inflated_set (inflated b') =
        (if qidx = 0 then inflated_set (inflated b) \<union> set pfns else inflated_set (inflated b) - set pfns)
    \<and> reclaimLog b' = reclaimLog b @ calls
    \<and> concat (map pages_of_call calls) = map (\<lambda>p. p * 4096) pfns
    \<and> list_all (\<lambda>c. gives_back c = (qidx = 0)) calls"
proof -
  let ?b = "b\<lparr>inflated := mark_all qidx pfns (inflated b)\<rparr>"
  have "unat len < 2 ^ LENGTH(32)" by (rule unsigned_less)
  then have "ReadIPA arm_memory vm addr (int (unat len)) = Inr (range_bytes (arm_byte_at vm) addr (unat len))"
    using assms by (intro arm.read_mapped) simp_all
  then have p: "processPFNsLocked arm_memory qidx addr len b = reclaimPFNsLocked qidx pfns ?b"
    using assms by (simp add: processPFNsLocked_def Let_def)
  have set': "inflated_set (inflated ?b) =
      (if qidx = 0 then inflated_set (inflated b) \<union> set pfns else inflated_set (inflated b) - set pfns)"
    using assms(5) by (auto simp: mark_all_set [unfolded One_nat_def])
  show ?thesis
  proof (cases "pfns = []")
    case True
    then show ?thesis using p set' assms(6)
      by (intro exI [of _ ?b] exI [of _ "[]"]) (simp add: reclaimPFNsLocked_def)
  next
    case False
    let ?cs = "reclaim_calls k (qidx = 0) pfns"
    have "reclaimPFNsLocked qidx pfns ?b = (Inr (), ?b\<lparr>reclaimLog := reclaimLog b @ ?cs\<rparr>)"
      using False assms(6,7) call_each_ok [of ?b k f ?cs] by (simp add: reclaimPFNsLocked_def)
    moreover have "\<forall>p \<in> set pfns. unat p < 2 ^ 32" using assms(8) pfns_of_bound by blast
    ultimately show ?thesis using p set' reclaim_calls_pages [OF False]
      by (intro exI [of _ "?b\<lparr>reclaimLog := reclaimLog b @ ?cs\<rparr>"] exI [of _ ?cs]) simp
  qed
qed

definition balloon_vm :: "arm_vm option" where
  "balloon_vm = Some \<lparr>GuestPhysAddr = 0x1000, MemorySize = 12, vm_mem = [7, 0, 0, 0, 8, 0, 0, 0, 5, 0, 0, 0]\<rparr>"

theorem balloon_processes_frames_witness:
  "\<exists>b' calls. processPFNsLocked arm_memory 0 0x1000 12
      ((NewBalloon 0x9000 0x200 7)\<lparr>gmem := Some balloon_vm, reclaimer := Some (PageRangeReclaimer, \<lambda>_ _. None)\<rparr>)
      = (Inr (), b')
    \<and> inflated_set (inflated b') = {5, 7, 8}
    \<and> concat (map pages_of_call calls) = [0x7000, 0x8000, 0x5000] \<and> reclaimLog b' = calls"
  using balloon_processes_frames [of "(NewBalloon 0x9000 0x200 7)\<lparr>gmem := Some balloon_vm,
      reclaimer := Some (PageRangeReclaimer, \<lambda>_ _. None)\<rparr>" balloon_vm "0x1000" 12 0 PageRangeReclaimer "\<lambda>_ _. None"
      "[7, 8, 5]"]
  by (auto simp: NewBalloon_def bal_resetLocked_def balloon_vm_def arm_wf_def arm_mapped_def range_bytes_def
      upt_rec arm_byte_at_def inflated_set_def map_word_def)

text \<open>
  The driver reports the balloon's size through the writable half of the configuration space:
  a write of any width that stays inside it replaces exactly the addressed bytes of the actual size,
  never panics, and changes nothing else.
\<close>

theorem balloon_actual_size_write:
  assumes "0 < sz" "4 + off + nat sz \<le> 8"
  shows "\<exists>a. bal_Write M (devBase b + (regConfig + 4 + of_nat off)) sz v b = (Inr (), b\<lparr>actualPages := a\<rparr>)
    \<and> le_bytes 4 a = overwrite (le_bytes 4 (actualPages b)) off (le_bytes (nat sz) v)"
proof -
  let ?cfg = "replicate 4 0 @ le_bytes 4 (actualPages b)"
  let ?new = "overwrite (le_bytes 4 (actualPages b)) off (le_bytes (nat sz) v)"
  note w = config_window [OF assms]
  have len: "length ?new = 4" using assms by simp
  have "put_bytes [0..<nat sz] (4 + of_nat off) v ?cfg = Inr (overwrite ?cfg (4 + off) (le_bytes (nat sz) v))"
    using assms w(4) put_bytes_overwrite [of "4 + of_nat off" "nat sz" ?cfg v] by simp
  also have "overwrite ?cfg (4 + off) (le_bytes (nat sz) v) = replicate 4 0 @ ?new"
    using overwrite_append [of "replicate 4 0"] by simp
  finally have "writeActualLocked (4 + of_nat off) sz v b = (Inr (), b\<lparr>actualPages := le_word ?new\<rparr>)"
    using len by (simp add: writeActualLocked_def sub_bytes_def)
  moreover have "regConfig + 4 + of_nat off - regConfig = (4 + of_nat off :: u64)" by simp
  ultimately have "bal_Write M (devBase b + (regConfig + 4 + of_nat off)) sz v b = (Inr (), b\<lparr>actualPages := le_word ?new\<rparr>)"
    using w(2-) config_window(1) [OF assms, of v b] by (simp add: bal_Write_def Let_def)
  moreover have "le_bytes 4 (le_word ?new :: u32) = ?new" using le_bytes_le_word [of ?new, where 'a = 32] len by simp
  ultimately show ?thesis by blast
qed

theorem balloon_actual_size_write_witness:
  "\<exists>a. bal_Write arm_memory 0x9104 4 3 (NewBalloon 0x9000 0x200 7)
      = (Inr (), (NewBalloon 0x9000 0x200 7)\<lparr>actualPages := a\<rparr>)
    \<and> le_bytes 4 a = [3, 0, 0, 0]"
  using balloon_actual_size_write [of 4 0 arm_memory "NewBalloon 0x9000 0x200 7" 3]
  by (simp add: NewBalloon_def bal_resetLocked_def overwrite_def le_bytes_def upt_rec)

end
