(* ===== verification/VsockProtocol.thy ===== *)
theory VsockProtocol
  imports Virtqueue
begin

text \<open>The packet header of virtio-vsock and its codec (\<^verbatim>\<open>virtio/vsock_protocol.go\<close>).\<close>

record vsockHeader =
  SrcCID :: u64
  DstCID :: u64
  SrcPort :: u32
  DstPort :: u32
  hLen :: u32
  hType :: u16
  hOp :: u16
  hFlags :: u32
  BufAlloc :: u32
  FwdCnt :: u32

abbreviation (input) vsockHeaderSize :: nat where "vsockHeaderSize \<equiv> 44"
abbreviation (input) vsockTypeStream :: u16 where "vsockTypeStream \<equiv> 1"
abbreviation (input) vsockOpRequest :: u16 where "vsockOpRequest \<equiv> 1"
abbreviation (input) vsockOpResponse :: u16 where "vsockOpResponse \<equiv> 2"
abbreviation (input) vsockOpRST :: u16 where "vsockOpRST \<equiv> 3"
abbreviation (input) vsockOpShutdown :: u16 where "vsockOpShutdown \<equiv> 4"
abbreviation (input) vsockOpRW :: u16 where "vsockOpRW \<equiv> 5"
abbreviation (input) vsockOpCreditUpdate :: u16 where "vsockOpCreditUpdate \<equiv> 6"
abbreviation (input) vsockOpCreditRequest :: u16 where "vsockOpCreditRequest \<equiv> 7"
abbreviation (input) VSockCIDHost :: u64 where "VSockCIDHost \<equiv> 2"

definition parseVsockHeader :: "bytes \<Rightarrow> goerr + vsockHeader" where
  "parseVsockHeader data =
     (if length data < vsockHeaderSize then Inl (HeaderTooShort (length data))
      else Inr \<lparr>SrcCID = le_word (sub_bytes data 0 8), DstCID = le_word (sub_bytes data 8 16),
        SrcPort = le_word (sub_bytes data 16 20), DstPort = le_word (sub_bytes data 20 24),
        hLen = le_word (sub_bytes data 24 28), hType = le_word (sub_bytes data 28 30),
        hOp = le_word (sub_bytes data 30 32), hFlags = le_word (sub_bytes data 32 36),
        BufAlloc = le_word (sub_bytes data 36 40), FwdCnt = le_word (sub_bytes data 40 44)\<rparr>)"

definition encodeVsockHeader :: "vsockHeader \<Rightarrow> bytes" where
  "encodeVsockHeader h =
     le_bytes 8 (SrcCID h) @ le_bytes 8 (DstCID h) @ le_bytes 4 (SrcPort h) @ le_bytes 4 (DstPort h)
     @ le_bytes 4 (hLen h) @ le_bytes 2 (hType h) @ le_bytes 2 (hOp h) @ le_bytes 4 (hFlags h)
     @ le_bytes 4 (BufAlloc h) @ le_bytes 4 (FwdCnt h)"

lemma length_encodeVsockHeader [simp]: "length (encodeVsockHeader h) = vsockHeaderSize"
  by (simp add: encodeVsockHeader_def)

lemma sub_bytes_sub:
  "i \<le> j \<Longrightarrow> j \<le> k \<Longrightarrow> sub_bytes xs i j @ sub_bytes xs j k = sub_bytes xs i k"
  by (auto simp: sub_bytes_def le_iff_add take_add add.commute)

lemma le_bytes_sub:
  assumes "j \<le> length data" "i \<le> j" "8 * (j - i) \<le> LENGTH('a::len)" "n = j - i"
  shows "le_bytes n (le_word (sub_bytes data i j) :: 'a word) = sub_bytes data i j"
proof -
  have "length (sub_bytes data i j) = n" using assms by (simp add: sub_bytes_def)
  then show ?thesis using le_bytes_le_word [of "sub_bytes data i j", where 'a = 'a] assms by simp
qed

text \<open>
  The header codec is exact in both directions: parsing an encoded header, whatever payload
  follows it, gives the header back; and every 44 bytes are the encoding of what they parse to.
\<close>

theorem vsock_header_round_trip:
  "parseVsockHeader (encodeVsockHeader h @ rest) = Inr h
   \<and> (case parseVsockHeader data of
        Inr g \<Rightarrow> encodeVsockHeader g = take vsockHeaderSize data
      | Inl e \<Rightarrow> length data < vsockHeaderSize)"
proof
  show "parseVsockHeader (encodeVsockHeader h @ rest) = Inr h"
    by (simp add: parseVsockHeader_def encodeVsockHeader_def sub_bytes_def le_word_le_bytes)
  show "case parseVsockHeader data of
        Inr g \<Rightarrow> encodeVsockHeader g = take vsockHeaderSize data
      | Inl e \<Rightarrow> length data < vsockHeaderSize"
    by (auto simp: parseVsockHeader_def encodeVsockHeader_def le_bytes_sub sub_bytes_sub)
      (simp add: sub_bytes_def)
qed

end
