(* ===== verification/Vsock.thy ===== *)
theory Vsock
  imports DriverView VsockProtocol
begin

text \<open>
  The vsock device (\<^verbatim>\<open>virtio/vsock.go\<close>): the connection table, the packets of the transmit queue,
  the packets waiting for receive buffers, credit, and the goroutine that reads from a backend
  connection. Every handler runs under the device's mutex, so each locked section is one step; the
  reader goroutine is the sequence of its locked sections (\<open>reader_error\<close>, \<open>reader_chunk\<close>).

  The backend is outside the device. A connection of it is a handle, \<open>hostLog\<close> lists the calls made
  on the backend and its connections (with the answer to a connect), and the answers may depend on
  the calls before. A loop that
  closes every connection of the table does so in the order of a Go map, which is unspecified, and is
  logged as one event with the set of handles.
\<close>

section \<open>State\<close>

type_synonym handle = nat

datatype host_call = HConnect u32 "handle option" | HWrite handle bytes | HClose handle | HCloseAll "handle set"

record vsock_backend =
  Connect :: "host_call list \<Rightarrow> u32 \<Rightarrow> handle option"
  connWrite :: "host_call list \<Rightarrow> handle \<Rightarrow> bytes \<Rightarrow> bool"

type_synonym conn_key = "u32 \<times> u32"

datatype conn_state = vsockConnStateIdle | vsockConnStateConnecting | vsockConnStateConnected | vsockConnStateClosing

record vsockConnection =
  ckey :: conn_key
  cstate :: conn_state
  peerAlloc :: u32
  peerCnt :: u32
  txCnt :: u32
  rxCnt :: u32
  creditRequestPending :: bool
  cbackend :: "handle option"

record 'm vsock = "'m vdev" +
  GuestCID :: u64
  backend :: "vsock_backend option"
  hostLog :: "host_call list"
  connections :: "conn_key \<rightharpoonup> vsockConnection"
  pendingRx :: "bytes list"
  vclosed :: bool
  mmioReads :: u64
  mmioWrites :: u64
  txNotifies :: u64
  rxNotifies :: u64
  connectRequests :: u64
  queuedRxPackets :: u64
  irqTransitions :: u64

abbreviation (input) vsockDefaultBufSize :: u32 where "vsockDefaultBufSize \<equiv> 0x10000"

definition open_handles :: "(conn_key \<rightharpoonup> vsockConnection) \<Rightarrow> handle set" where
  "open_handles m = {h. \<exists>c \<in> ran m. cbackend c = Some h}"

definition vs_resetLocked :: "'m vsock \<Rightarrow> 'm vsock" where
  "vs_resetLocked v =
     v\<lparr>hostLog := hostLog v @ [HCloseAll (open_handles (connections v))],
       deviceFeatureSel := 0, driverFeatureSel := 0, driverFeatures := 0, queueSel := 0,
       devStatus := 0, interruptStatus := 0, irqHigh := False,
       configGeneration := configGeneration v + 1, queues := [zero_queue, zero_queue, zero_queue],
       connections := Map.empty, pendingRx := []\<rparr>"

definition NewVsock :: "u64 \<Rightarrow> u64 \<Rightarrow> u32 \<Rightarrow> u64 \<Rightarrow> vsock_backend option \<Rightarrow> 'm vsock" where
  "NewVsock b sz line cid be = vs_resetLocked
     \<lparr>devBase = b, devSize = sz, devIRQ = line, gmem = None, irq = None, irqLog = [],
      deviceFeatureSel = 0, driverFeatureSel = 0, driverFeatures = 0, queueSel = 0, devStatus = 0,
      interruptStatus = 0, irqHigh = False, configGeneration = 0,
      queues = [zero_queue, zero_queue, zero_queue],
      GuestCID = cid, backend = be, hostLog = [], connections = Map.empty, pendingRx = [], vclosed = False,
      mmioReads = 0, mmioWrites = 0, txNotifies = 0, rxNotifies = 0, connectRequests = 0,
      queuedRxPackets = 0, irqTransitions = 0\<rparr>"

definition vs_Detach :: "'m vsock \<Rightarrow> 'm vsock" where
  "vs_Detach v = v\<lparr>gmem := None, irq := None, pendingRx := []\<rparr>"

definition vs_configBytesLocked :: "'m vsock \<Rightarrow> bytes" where
  "vs_configBytesLocked v = le_bytes 8 (GuestCID v)"

definition vs_Read :: "u64 \<Rightarrow> int \<Rightarrow> ('m vsock, u64) gomethod" where
  "vs_Read addr sz v0 =
     (let v = v0\<lparr>mmioReads := mmioReads v0 + 1\<rparr>;
          offset = addr - devBase v; sel = selectedQueueLocked v; tv = (\<lambda>x. Inr (truncateValue x sz)) in
      (if offset = regMagicValue then tv mmioMagicValue
       else if offset = regVersion then tv mmioVersion
       else if offset = regDeviceID then tv 19
       else if offset = regVendorID then tv mmioVendorID
       else if offset = regDeviceFeatures then (if deviceFeatureSel v = 1 then tv 1 else Inr 0)
       else if offset = regQueueNumMax then (if sel \<noteq> None then tv 128 else Inr 0)
       else if offset = regQueueNum then
         (case sel of Some i \<Rightarrow> tv (ucast (qsize (queues v ! i))) | None \<Rightarrow> Inr 0)
       else if offset = regQueueReady then
         (case sel of Some i \<Rightarrow> if qready (queues v ! i) then tv 1 else Inr 0 | None \<Rightarrow> Inr 0)
       else if offset = regInterruptStatus then tv (ucast (interruptStatus v))
       else if offset = regStatus then tv (ucast (devStatus v))
       else if offset = regConfigGen then tv (ucast (configGeneration v))
       else read_config (vs_configBytesLocked v) offset sz, v))"

section \<open>Interrupts\<close>

definition vs_updateIRQLocked :: "('m vsock, unit) gomethod" where
  "vs_updateIRQLocked v =
     (if irq v = None then (Inr (), v)
      else let level = interruptStatus v \<noteq> 0 in
        if irqHigh v = level then (if level then SetIRQ True v else (Inr (), v))
        else SetIRQ level (v\<lparr>irqHigh := level, irqTransitions := irqTransitions v + 1\<rparr>))"

definition vs_raise :: "('m vsock, unit) gomethod" where
  "vs_raise v = vs_updateIRQLocked (v\<lparr>interruptStatus := interruptStatus v OR intVring\<rparr>)"

definition vs_Kick :: "('m vsock, unit) gomethod" where
  "vs_Kick = vs_raise"

section \<open>Packets to the guest\<close>

definition queueRxPacketLocked :: "bytes \<Rightarrow> 'm vsock \<Rightarrow> 'm vsock" where
  "queueRxPacketLocked packet v =
     v\<lparr>pendingRx := pendingRx v @ [packet], queuedRxPackets := queuedRxPackets v + 1\<rparr>"

definition base_header :: "'m vsock \<Rightarrow> u32 \<Rightarrow> u32 \<Rightarrow> u16 \<Rightarrow> vsockHeader" where
  "base_header v src dst op =
     \<lparr>SrcCID = VSockCIDHost, DstCID = GuestCID v, SrcPort = src, DstPort = dst, hLen = 0,
      hType = vsockTypeStream, hOp = op, hFlags = 0, BufAlloc = 0, FwdCnt = 0\<rparr>"

definition sendResponseLocked :: "vsockHeader \<Rightarrow> 'm vsock \<Rightarrow> 'm vsock" where
  "sendResponseLocked hdr v = queueRxPacketLocked (encodeVsockHeader
     ((base_header v (DstPort hdr) (SrcPort hdr) vsockOpResponse)\<lparr>BufAlloc := vsockDefaultBufSize\<rparr>)) v"

definition sendResetLocked :: "vsockHeader \<Rightarrow> 'm vsock \<Rightarrow> 'm vsock" where
  "sendResetLocked hdr v = queueRxPacketLocked (encodeVsockHeader
     (base_header v (DstPort hdr) (SrcPort hdr) vsockOpRST)) v"

definition sendCreditUpdateLocked :: "vsockConnection \<Rightarrow> 'm vsock \<Rightarrow> 'm vsock" where
  "sendCreditUpdateLocked c v = queueRxPacketLocked (encodeVsockHeader
     ((base_header v (fst (ckey c)) (snd (ckey c)) vsockOpCreditUpdate)
       \<lparr>BufAlloc := vsockDefaultBufSize, FwdCnt := rxCnt c\<rparr>)) v"

text \<open>The functions that also change the connection return it; the caller stores it back.\<close>

definition sendCreditRequestLocked :: "vsockConnection \<Rightarrow> 'm vsock \<Rightarrow> vsockConnection \<times> 'm vsock" where
  "sendCreditRequestLocked c v =
     (if creditRequestPending c then (c, v)
      else (c\<lparr>creditRequestPending := True\<rparr>,
        queueRxPacketLocked (encodeVsockHeader
          ((base_header v (fst (ckey c)) (snd (ckey c)) vsockOpCreditRequest)
            \<lparr>BufAlloc := vsockDefaultBufSize, FwdCnt := rxCnt c\<rparr>)) v))"

definition data_packet :: "vsockConnection \<Rightarrow> bytes \<Rightarrow> 'm vsock \<Rightarrow> bytes" where
  "data_packet c data v = encodeVsockHeader
     ((base_header v (fst (ckey c)) (snd (ckey c)) vsockOpRW)
       \<lparr>hLen := of_nat (length data), BufAlloc := vsockDefaultBufSize, FwdCnt := rxCnt c\<rparr>) @ data"

definition sendDataLocked :: "vsockConnection \<Rightarrow> bytes \<Rightarrow> 'm vsock \<Rightarrow> vsockConnection \<times> 'm vsock" where
  "sendDataLocked c data v =
     (c\<lparr>txCnt := txCnt c + of_nat (length data)\<rparr>, queueRxPacketLocked (data_packet c data v) v)"

text \<open>The counted loop of \<^verbatim>\<open>fillChainLocked\<close>; it returns the count and, last, the memory.\<close>

fun fill_loop :: "nat \<Rightarrow> 'm guest_memory \<Rightarrow> queue \<Rightarrow> u16 \<Rightarrow> bytes \<Rightarrow> nat \<Rightarrow> 'm \<Rightarrow> (goerr + u32) \<times> 'm" where
  "fill_loop 0 M q index packet offset m = (Inl ChainLoop, m)"
| "fill_loop (Suc n) M q index packet offset m =
     (case readDescriptorLocked M m q index of
        Inl e \<Rightarrow> (Inl e, m)
      | Inr desc \<Rightarrow>
          (let chunk = take (unat (dlength desc)) (drop offset packet) in
           case (if dflags desc AND descFWrite \<noteq> 0 \<and> 0 < dlength desc \<and> offset < length packet
                 then (case WriteIPA M m (daddr desc) chunk of (r, m') \<Rightarrow> (r, m', offset + length chunk))
                 else (Inr (), m, offset)) of
             (Inl e, m', _) \<Rightarrow> (Inl e, m')
           | (Inr _, m', offset') \<Rightarrow>
               if dflags desc AND descFNext = 0 then
                 if offset' < length packet then (Inl (ChainTooSmall offset' (length packet)), m')
                 else (Inr (of_nat offset'), m')
               else fill_loop n M q (dnext desc) packet offset' m'))"

definition vs_fillChainLocked :: "'m guest_memory \<Rightarrow> u16 \<Rightarrow> bytes \<Rightarrow> ('m vsock, u32) gomethod" where
  "vs_fillChainLocked M head packet v =
     (case gmem v of None \<Rightarrow> (Inl (Panic NilDeref), v)
      | Some m \<Rightarrow>
          (let q = queues v ! 0 in
           case fill_loop (unat (qsize q)) M q head packet 0 m of (r, m') \<Rightarrow> (r, v\<lparr>gmem := Some m'\<rparr>)))"

definition rx_round :: "'m guest_memory \<Rightarrow> bytes \<Rightarrow> ('m vsock, unit) gomethod" where
  "rx_round M packet v =
     (case gmem v of None \<Rightarrow> (Inl (Panic NilDeref), v)
      | Some m \<Rightarrow>
          (let q = queues v ! 0 in
           case readAvailableHead M m q (lastAvailIdx q) of
             Inl e \<Rightarrow> (Inl e, v)
           | Inr head \<Rightarrow>
               and_then (vs_fillChainLocked M head packet) (\<lambda>written.
               and_then (writeUsedLocked M 0 head written) (\<lambda>_.
               modify_state (\<lambda>v. advance_avail 0 (v\<lparr>pendingRx := tl (pendingRx v)\<rparr>)))) v))"

text \<open>
  \<^verbatim>\<open>for q.lastAvailIdx != availIdx && len(v.pendingRx) > 0\<close>: a round removes the first packet, so the
  list of waiting packets bounds the rounds. The boolean is \<^verbatim>\<open>processed\<close>.
\<close>

fun rx_loop :: "'m guest_memory \<Rightarrow> u16 \<Rightarrow> bytes list \<Rightarrow> bool \<Rightarrow> ('m vsock, bool) gomethod" where
  "rx_loop M availIdx [] processed v = (Inr processed, v)"
| "rx_loop M availIdx (p # ps) processed v =
     (if lastAvailIdx (queues v ! 0) = availIdx then (Inr processed, v)
      else case rx_round M p v of
        (Inl e, v') \<Rightarrow> (Inl e, v')
      | (Inr _, v') \<Rightarrow> rx_loop M availIdx ps True v')"

definition processRXLocked :: "'m guest_memory \<Rightarrow> ('m vsock, unit) gomethod" where
  "processRXLocked M v =
     (let q = queues v ! 0 in
      if \<not> qready q \<or> qsize q = 0 \<or> gmem v = None \<or> pendingRx v = [] then (Inr (), v)
      else case avail_header M (the (gmem v)) q of
        Inl e \<Rightarrow> (Inl e, v)
      | Inr availIdx \<Rightarrow>
          and_then (rx_loop M availIdx (pendingRx v) False)
            (\<lambda>processed. if processed then vs_raise else return_ok ()) v)"

section \<open>Packets from the guest\<close>

definition hdr_key :: "vsockHeader \<Rightarrow> conn_key" where
  "hdr_key hdr = (DstPort hdr, SrcPort hdr)"

definition put_conn :: "conn_key \<Rightarrow> vsockConnection \<Rightarrow> 'm vsock \<Rightarrow> 'm vsock" where
  "put_conn key c v = v\<lparr>connections := (connections v)(key \<mapsto> c)\<rparr>"

definition delete_conn :: "conn_key \<Rightarrow> 'm vsock \<Rightarrow> 'm vsock" where
  "delete_conn key v = v\<lparr>connections := (connections v)(key := None)\<rparr>"

definition close_backend :: "vsockConnection \<Rightarrow> 'm vsock \<Rightarrow> 'm vsock" where
  "close_backend c v = (case cbackend c of None \<Rightarrow> v | Some h \<Rightarrow> v\<lparr>hostLog := hostLog v @ [HClose h]\<rparr>)"

definition handleConnectLocked :: "vsockHeader \<Rightarrow> 'm vsock \<Rightarrow> 'm vsock" where
  "handleConnectLocked hdr v0 =
     (let v = v0\<lparr>connectRequests := connectRequests v0 + 1\<rparr>; key = hdr_key hdr in
      case backend v of None \<Rightarrow> sendResetLocked hdr v
      | Some be \<Rightarrow>
          (let answer = Connect be (hostLog v) (DstPort hdr);
               v1 = v\<lparr>hostLog := hostLog v @ [HConnect (DstPort hdr) answer]\<rparr> in
           case answer of
             None \<Rightarrow> sendResetLocked hdr v1
           | Some h \<Rightarrow> sendResponseLocked hdr (put_conn key
               \<lparr>ckey = key, cstate = vsockConnStateConnected, peerAlloc = BufAlloc hdr, peerCnt = FwdCnt hdr,
                txCnt = 0, rxCnt = 0, creditRequestPending = False, cbackend = Some h\<rparr> v1)))"

definition handleResponseLocked :: "vsockHeader \<Rightarrow> 'm vsock \<Rightarrow> 'm vsock" where
  "handleResponseLocked hdr v =
     (case connections v (hdr_key hdr) of
        None \<Rightarrow> sendResetLocked hdr v
      | Some c \<Rightarrow>
          if cstate c \<noteq> vsockConnStateConnecting then sendResetLocked hdr v
          else put_conn (hdr_key hdr)
            (c\<lparr>cstate := vsockConnStateConnected, peerAlloc := BufAlloc hdr, peerCnt := FwdCnt hdr\<rparr>) v)"

definition handleResetLocked :: "vsockHeader \<Rightarrow> 'm vsock \<Rightarrow> 'm vsock" where
  "handleResetLocked hdr v =
     (case connections v (hdr_key hdr) of None \<Rightarrow> v
      | Some c \<Rightarrow> delete_conn (hdr_key hdr) (close_backend c v))"

definition handleShutdownLocked :: "vsockHeader \<Rightarrow> 'm vsock \<Rightarrow> 'm vsock" where
  "handleShutdownLocked hdr v =
     (case connections v (hdr_key hdr) of None \<Rightarrow> v
      | Some c \<Rightarrow> delete_conn (hdr_key hdr) (sendResetLocked hdr (close_backend c v)))"

text \<open>A write on the backend of a connection that has none is a nil dereference.\<close>

definition handleDataLocked :: "vsockHeader \<Rightarrow> bytes \<Rightarrow> ('m vsock, unit) gomethod" where
  "handleDataLocked hdr data v =
     (case connections v (hdr_key hdr) of
        None \<Rightarrow> (Inr (), sendResetLocked hdr v)
      | Some c0 \<Rightarrow>
          if cstate c0 \<noteq> vsockConnStateConnected then (Inr (), sendResetLocked hdr v)
          else
            let c = c0\<lparr>peerAlloc := BufAlloc hdr, peerCnt := FwdCnt hdr\<rparr> in
            if data = [] then (Inr (), sendCreditUpdateLocked c (put_conn (hdr_key hdr) c v))
            else
              let c' = c\<lparr>rxCnt := rxCnt c + of_nat (length data)\<rparr>; v' = put_conn (hdr_key hdr) c' v in
              case (cbackend c', backend v) of
                (Some h, Some be) \<Rightarrow>
                  (let v'' = v'\<lparr>hostLog := hostLog v @ [HWrite h data]\<rparr> in
                   if connWrite be (hostLog v) h data then (Inr (), sendCreditUpdateLocked c' v'')
                   else (Inr (), delete_conn (hdr_key hdr) (close_backend c' (sendResetLocked hdr v''))))
              | _ \<Rightarrow> (Inl (Panic NilDeref), v'))"

definition handleCreditUpdateLocked :: "vsockHeader \<Rightarrow> 'm vsock \<Rightarrow> 'm vsock" where
  "handleCreditUpdateLocked hdr v =
     (case connections v (hdr_key hdr) of None \<Rightarrow> v
      | Some c \<Rightarrow> put_conn (hdr_key hdr)
          (c\<lparr>peerAlloc := BufAlloc hdr, peerCnt := FwdCnt hdr, creditRequestPending := False\<rparr>) v)"

definition handleCreditRequestLocked :: "vsockHeader \<Rightarrow> 'm vsock \<Rightarrow> 'm vsock" where
  "handleCreditRequestLocked hdr v =
     (case connections v (hdr_key hdr) of None \<Rightarrow> v | Some c \<Rightarrow> sendCreditUpdateLocked c v)"

definition dispatch_packet :: "vsockHeader \<Rightarrow> bytes \<Rightarrow> ('m vsock, unit) gomethod" where
  "dispatch_packet hdr data v =
     (if hOp hdr = vsockOpRequest then (Inr (), handleConnectLocked hdr v)
      else if hOp hdr = vsockOpResponse then (Inr (), handleResponseLocked hdr v)
      else if hOp hdr = vsockOpRST then (Inr (), handleResetLocked hdr v)
      else if hOp hdr = vsockOpShutdown then (Inr (), handleShutdownLocked hdr v)
      else if hOp hdr = vsockOpRW then handleDataLocked hdr data v
      else if hOp hdr = vsockOpCreditUpdate then (Inr (), handleCreditUpdateLocked hdr v)
      else if hOp hdr = vsockOpCreditRequest then (Inr (), handleCreditRequestLocked hdr v)
      else (Inr (), v))"

definition handleTXPacketLocked :: "'m guest_memory \<Rightarrow> u16 \<Rightarrow> ('m vsock, u32) gomethod" where
  "handleTXPacketLocked M head v =
     (case gmem v of None \<Rightarrow> (Inl (Panic NilDeref), v)
      | Some m \<Rightarrow>
      (case readChainLocked M m (queues v ! 1) head of
         Inl e \<Rightarrow> (Inl e, v)
       | Inr data \<Rightarrow>
           if length data < vsockHeaderSize then (Inr (of_nat (length data)), v)
           else case parseVsockHeader data of
             Inl e \<Rightarrow> (Inl e, v)
           | Inr hdr \<Rightarrow>
               let pay = drop vsockHeaderSize data in
               if (of_nat (length pay) :: u32) < hLen hdr then (Inl PayloadTruncated, v)
               else and_then (dispatch_packet hdr (take (unat (hLen hdr)) pay))
                 (\<lambda>_. return_ok (of_nat (length data))) v))"

definition vs_tx_round :: "'m guest_memory \<Rightarrow> ('m vsock, unit) gomethod" where
  "vs_tx_round M v =
     (case gmem v of None \<Rightarrow> (Inl (Panic NilDeref), v)
      | Some m \<Rightarrow>
          (let q = queues v ! 1 in
           case readAvailableHead M m q (lastAvailIdx q) of
             Inl e \<Rightarrow> (Inl e, v)
           | Inr head \<Rightarrow>
               and_then (handleTXPacketLocked M head) (\<lambda>usedLen.
               and_then (writeUsedLocked M 1 head usedLen) (\<lambda>_.
               modify_state (advance_avail 1))) v))"

definition vs_processTXLocked :: "'m guest_memory \<Rightarrow> ('m vsock, unit) gomethod" where
  "vs_processTXLocked M v =
     (let q = queues v ! 1 in
      if \<not> qready q \<or> qsize q = 0 \<or> gmem v = None then (Inr (), v)
      else case avail_header M (the (gmem v)) q of
        Inl e \<Rightarrow> (Inl e, v)
      | Inr availIdx \<Rightarrow>
          and_then (run_avail (\<lambda>v. lastAvailIdx (queues v ! 1)) availIdx (vs_tx_round M))
            (\<lambda>_. and_then (processRXLocked M) (\<lambda>_. vs_raise)) v)"

definition vs_Write :: "'m guest_memory \<Rightarrow> u64 \<Rightarrow> int \<Rightarrow> u64 \<Rightarrow> ('m vsock, unit) gomethod" where
  "vs_Write M addr sz x v0 =
     (let v = v0\<lparr>mmioWrites := mmioWrites v0 + 1\<rparr>; offset = addr - devBase v in
      case write_registers offset x v of
        Some v' \<Rightarrow> (Inr (), v')
      | None \<Rightarrow>
          if offset = regInterruptAck then
            vs_updateIRQLocked (v\<lparr>interruptStatus := interruptStatus v AND NOT (ucast x)\<rparr>)
          else if offset = regStatus then
            let v' = v\<lparr>devStatus := ucast x\<rparr> in
            (Inr (), if devStatus v' = 0 then vs_resetLocked v' else v')
          else if offset = regQueueNotify then
            (if x = 1 then vs_processTXLocked M (v\<lparr>txNotifies := txNotifies v + 1\<rparr>)
             else if x = 0 then processRXLocked M (v\<lparr>rxNotifies := rxNotifies v + 1\<rparr>)
             else (Inr (), v))
          else (Inr (), v))"

section \<open>Host side\<close>

definition vsockPeerCredit :: "vsockConnection \<Rightarrow> u32" where
  "vsockPeerCredit c =
     (if peerAlloc c = 0 then 0
      else let used = txCnt c - peerCnt c in
        if peerAlloc c \<le> used then 0 else peerAlloc c - used)"

text \<open>The locked section of \<^verbatim>\<open>readFromBackend\<close> after a failed read; the reader then returns.\<close>

definition reader_error :: "'m guest_memory \<Rightarrow> conn_key \<Rightarrow> 'm vsock \<Rightarrow> 'm vsock" where
  "reader_error M key v =
     (if vclosed v then v
      else case connections v key of
        None \<Rightarrow> v
      | Some c \<Rightarrow>
          if cstate c \<noteq> vsockConnStateConnected then v
          else
            let v1 = queueRxPacketLocked (encodeVsockHeader
                  ((base_header v (fst key) (snd key) vsockOpShutdown)\<lparr>hFlags := 3\<rparr>)) v in
            snd (processRXLocked M (put_conn key (c\<lparr>cstate := vsockConnStateClosing\<rparr>) v1)))"

text \<open>
  One turn of the inner loop of \<^verbatim>\<open>readFromBackend\<close> with the bytes that are still to be sent: the reader
  returns, or waits for credit, or sent some bytes.
\<close>

datatype reader_result = ReaderStops | ReaderWaits | ReaderSent nat

definition reader_chunk :: "'m guest_memory \<Rightarrow> conn_key \<Rightarrow> bytes \<Rightarrow> 'm vsock \<Rightarrow> reader_result \<times> 'm vsock" where
  "reader_chunk M key data v =
     (case connections v key of
        None \<Rightarrow> (ReaderStops, v)
      | Some c \<Rightarrow>
          if cstate c \<noteq> vsockConnStateConnected then (ReaderStops, v)
          else
            let credit = vsockPeerCredit c in
            if credit = 0 then
              (case sendCreditRequestLocked c v of
                 (c', v') \<Rightarrow> (ReaderWaits, snd (processRXLocked M (put_conn key c' v'))))
            else
              let chunk = (if credit < of_nat (length data) then unat credit else length data) in
              (case sendDataLocked c (take chunk data) v of
                 (c', v') \<Rightarrow> (ReaderSent chunk, snd (processRXLocked M (put_conn key c' v')))))"

definition vs_Poke :: "'m guest_memory \<Rightarrow> ('m vsock, unit) gomethod" where
  "vs_Poke M v =
     (case processRXLocked M v of
        (Inl e, v') \<Rightarrow> (Inl e, v')
      | (Inr _, v1) \<Rightarrow>
          if irq v1 = None then (Inr (), v1)
          else
            let v2 = v1\<lparr>interruptStatus := interruptStatus v1 OR intVring\<rparr> in
            if irqHigh v2 then
              (case SetIRQ False v2 of
                 (Inl e, v3) \<Rightarrow> (Inl e, v3)
               | (Inr _, v3) \<Rightarrow>
                   vs_updateIRQLocked (v3\<lparr>irqHigh := False, irqTransitions := irqTransitions v3 + 1\<rparr>))
            else vs_updateIRQLocked v2)"

definition vs_Close :: "'m vsock \<Rightarrow> 'm vsock" where
  "vs_Close v =
     (if vclosed v then v
      else v\<lparr>vclosed := True, hostLog := hostLog v @ [HCloseAll (open_handles (connections v))],
             connections := Map.empty\<rparr>)"

section \<open>Delivery to the guest\<close>

lemma fill_loop_complete:
  "fill_loop n M q i packet off m = (Inr w, m') \<Longrightarrow> off \<le> length packet \<Longrightarrow>
     w = of_nat (length packet) \<and>
     (\<exists>ws. write_all M m ws = Some m' \<and> concat (map snd ws) = drop off packet)"
proof (induction n arbitrary: i off m)
  case (Suc n)
  obtain d where d: "readDescriptorLocked M m q i = Inr d"
    using Suc.prems by (auto split: sum.splits)
  show ?case
  proof (cases "dflags d AND descFWrite \<noteq> 0 \<and> 0 < dlength d \<and> off < length packet")
    case False
    then have "(off = length packet \<and> w = of_nat off \<and> m' = m) \<or> fill_loop n M q (dnext d) packet off m = (Inr w, m')"
      using Suc.prems d by (auto simp: Let_def split: if_splits)
    then show ?thesis
    proof
      assume "off = length packet \<and> w = of_nat off \<and> m' = m"
      then show ?thesis by (intro conjI exI [of _ "[]"]) simp_all
    qed (use Suc.IH Suc.prems(2) in blast)
  next
    case True
    let ?c = "take (unat (dlength d)) (drop off packet)"
    obtain m1 where m1: "WriteIPA M m (daddr d) ?c = (Inr (), m1)"
      using Suc.prems d True by (auto simp: Let_def split: prod.splits sum.splits)
    have le: "off + length ?c \<le> length packet" using Suc.prems(2) by simp
    have "(off + length ?c = length packet \<and> w = of_nat (off + length ?c) \<and> m' = m1)
        \<or> fill_loop n M q (dnext d) packet (off + length ?c) m1 = (Inr w, m')"
      using Suc.prems d True m1 le by (auto simp: Let_def split: if_splits)
    then show ?thesis
    proof
      assume a: "off + length ?c = length packet \<and> w = of_nat (off + length ?c) \<and> m' = m1"
      then have "length packet - off \<le> unat (dlength d)" by (auto simp: min_def split: if_splits)
      then have "?c = drop off packet" by simp
      then show ?thesis using a m1 by (intro conjI exI [of _ "[(daddr d, ?c)]"]) simp_all
    next
      assume "fill_loop n M q (dnext d) packet (off + length ?c) m1 = (Inr w, m')"
      from Suc.IH [OF this le] obtain ws where
        ws: "w = of_nat (length packet)" "write_all M m1 ws = Some m'" "concat (map snd ws) = drop (off + length ?c) packet"
        by blast
      have "take k ys @ drop (length (take k ys)) ys = ys" for k and ys :: bytes
        by (cases "k \<le> length ys") simp_all
      from this [of "unat (dlength d)" "drop off packet"]
      have "?c @ drop (off + length ?c) packet = drop off packet" by (simp add: add.commute)
      then show ?thesis using ws m1 by (intro conjI exI [of _ "(daddr d, ?c) # ws"]) simp_all
    qed
  qed
qed simp

text \<open>What a step of the receive side leaves alone.\<close>

definition same_conns :: "'m vsock \<Rightarrow> 'm vsock \<Rightarrow> bool" where
  "same_conns v v' \<longleftrightarrow> connections v' = connections v \<and> hostLog v' = hostLog v \<and> backend v' = backend v
     \<and> GuestCID v' = GuestCID v \<and> length (queues v') = length (queues v)"

lemma same_conns_refl [simp]: "same_conns v v"
  by (simp add: same_conns_def)

lemma same_conns_trans: "same_conns u v \<Longrightarrow> same_conns v w \<Longrightarrow> same_conns u w"
  by (simp add: same_conns_def)

lemma vs_used_same:
  "same_conns v (snd (writeUsedLocked M i h n v)) \<and> pendingRx (snd (writeUsedLocked M i h n v)) = pendingRx v"
  by (auto simp: same_conns_def writeUsedLocked_def split: option.splits prod.splits)

lemma vs_advance_same: "same_conns v (advance_avail i v) \<and> pendingRx (advance_avail i v) = pendingRx v"
  by (simp add: same_conns_def advance_avail_def)

lemma vs_fill_same:
  "same_conns v (snd (vs_fillChainLocked M h p v)) \<and> pendingRx (snd (vs_fillChainLocked M h p v)) = pendingRx v
   \<and> queues (snd (vs_fillChainLocked M h p v)) = queues v"
  by (auto simp: same_conns_def vs_fillChainLocked_def Let_def split: option.splits prod.splits)

lemma SetIRQ_same: "same_conns v (snd (SetIRQ l v)) \<and> pendingRx (snd (SetIRQ l v)) = pendingRx v
    \<and> queues (snd (SetIRQ l v)) = queues v"
  by (auto simp: same_conns_def SetIRQ_def split: option.splits)

lemma vs_updateIRQ_same:
  "same_conns v (snd (vs_updateIRQLocked v)) \<and> pendingRx (snd (vs_updateIRQLocked v)) = pendingRx v
   \<and> queues (snd (vs_updateIRQLocked v)) = queues v"
  using SetIRQ_same [of v True]
    SetIRQ_same [of "v\<lparr>irqHigh := interruptStatus v \<noteq> 0, irqTransitions := irqTransitions v + 1\<rparr>"]
  by (auto simp: vs_updateIRQLocked_def Let_def same_conns_def)

lemma vs_raise_same:
  "same_conns v (snd (vs_raise v)) \<and> pendingRx (snd (vs_raise v)) = pendingRx v \<and> queues (snd (vs_raise v)) = queues v"
  using vs_updateIRQ_same [of "v\<lparr>interruptStatus := interruptStatus v OR intVring\<rparr>"]
  by (simp add: vs_raise_def same_conns_def)

text \<open>A round either fails and keeps the packet, or succeeds and drops exactly that packet.\<close>

lemma rx_round_outcome:
  assumes "rx_round M p v = (r, v')" "0 < length (queues v)"
  shows "same_conns v v' \<and> (case r of
      Inl _ \<Rightarrow> pendingRx v' = pendingRx v \<and> lastAvailIdx (queues v' ! 0) = lastAvailIdx (queues v ! 0)
    | Inr _ \<Rightarrow> pendingRx v' = tl (pendingRx v) \<and> lastAvailIdx (queues v' ! 0) = lastAvailIdx (queues v ! 0) + 1)"
proof -
  consider "v' = v" "\<exists>e. r = Inl e"
    | head where "and_then (vs_fillChainLocked M head p) (\<lambda>written.
               and_then (writeUsedLocked M 0 head written) (\<lambda>_.
               modify_state (\<lambda>v. advance_avail 0 (v\<lparr>pendingRx := tl (pendingRx v)\<rparr>)))) v = (r, v')"
    using assms(1) by (auto simp: rx_round_def Let_def split: option.splits sum.splits)
  then show ?thesis
  proof cases
    case 1
    then show ?thesis by auto
  next
    case 2
    obtain r1 v1 where f: "vs_fillChainLocked M head p v = (r1, v1)" by force
    have s1: "same_conns v v1" "pendingRx v1 = pendingRx v" "queues v1 = queues v"
      using vs_fill_same [of v M head p] f by simp_all
    show ?thesis
    proof (cases r1)
      case (Inl e)
      then show ?thesis using 2 f s1 by (auto simp: and_then_def)
    next
      case (Inr w)
      obtain r2 v2 where u: "writeUsedLocked M 0 head w v1 = (r2, v2)" by force
      have s2: "same_conns v1 v2" "pendingRx v2 = pendingRx v1"
        "lastAvailIdx (queues v2 ! 0) = lastAvailIdx (queues v1 ! 0)"
        using vs_used_same [of v1 M 0 head w] writeUsedLocked_idx [of 0 v1 M head w] u s1 assms(2) by simp_all
      have len: "0 < length (queues v2)" using s1 s2 assms(2) by (simp add: same_conns_def)
      show ?thesis
        using 2 f Inr u s1 s2 len
        by (cases r2) (auto simp: and_then_def same_conns_def advance_avail_def)
    qed
  qed
qed

lemma rx_loop_outcome:
  "rx_loop M a ps b v = (r, v') \<Longrightarrow> pendingRx v = ps \<Longrightarrow> 0 < length (queues v) \<Longrightarrow>
     same_conns v v' \<and> (\<exists>ds. ps = ds @ pendingRx v'
       \<and> lastAvailIdx (queues v' ! 0) = lastAvailIdx (queues v ! 0) + of_nat (length ds)
       \<and> (\<forall>pr. r = Inr pr \<longrightarrow> pr = (b \<or> ds \<noteq> [])
            \<and> (pendingRx v' = [] \<or> lastAvailIdx (queues v' ! 0) = a)))"
proof (induction ps arbitrary: b v)
  case Nil
  then show ?case by auto
next
  case (Cons p ps)
  show ?case
  proof (cases "lastAvailIdx (queues v ! 0) = a")
    case True
    then show ?thesis using Cons.prems by (auto intro: exI [of _ "[]"])
  next
    case False
    obtain r1 v1 where r1: "rx_round M p v = (r1, v1)" by force
    note o = rx_round_outcome [OF r1 Cons.prems(3)]
    show ?thesis
    proof (cases r1)
      case (Inl e)
      then show ?thesis using Cons.prems False r1 o by (auto intro!: exI [of _ "[]"])
    next
      case (Inr u)
      have "rx_loop M a ps True v1 = (r, v')" "pendingRx v1 = ps" "0 < length (queues v1)"
        using Cons.prems False r1 Inr o by (simp_all add: same_conns_def)
      from Cons.IH [OF this] obtain ds where ih: "same_conns v1 v'" "ps = ds @ pendingRx v'"
        "lastAvailIdx (queues v' ! 0) = lastAvailIdx (queues v1 ! 0) + of_nat (length ds)"
        "\<forall>pr. r = Inr pr \<longrightarrow> pr = (True \<or> ds \<noteq> []) \<and> (pendingRx v' = [] \<or> lastAvailIdx (queues v' ! 0) = a)"
        by blast
      have v1: "same_conns v v1" "lastAvailIdx (queues v1 ! 0) = lastAvailIdx (queues v ! 0) + 1"
        using o Inr by simp_all
      have "same_conns v v'" using v1(1) ih(1) by (rule same_conns_trans)
      moreover have "p # ps = (p # ds) @ pendingRx v'" using ih(2) by simp
      moreover have "lastAvailIdx (queues v' ! 0) = lastAvailIdx (queues v ! 0) + of_nat (length (p # ds))"
        using ih(3) v1(2) by simp
      ultimately show ?thesis using ih(4) by (intro conjI exI [of _ "p # ds"]) (simp_all, blast?)
    qed
  qed
qed

lemma processRX_outcome:
  assumes "processRXLocked M v = (r, v')" "0 < length (queues v)"
  shows "same_conns v v' \<and> (\<exists>ds. pendingRx v = ds @ pendingRx v'
    \<and> lastAvailIdx (queues v' ! 0) = lastAvailIdx (queues v ! 0) + of_nat (length ds))"
proof -
  consider "v' = v"
    | a where "and_then (rx_loop M a (pendingRx v) False)
            (\<lambda>processed. if processed then vs_raise else return_ok ()) v = (r, v')"
    using assms(1) by (auto simp: processRXLocked_def Let_def split: if_splits sum.splits)
  then show ?thesis
  proof cases
    case 1
    then show ?thesis by (auto intro: exI [of _ "[]"])
  next
    case 2
    obtain r1 v1 where l: "rx_loop M a (pendingRx v) False v = (r1, v1)" by force
    note o = rx_loop_outcome [OF l refl assms(2)]
    have "same_conns v1 v' \<and> pendingRx v' = pendingRx v1 \<and> queues v' = queues v1"
    proof (cases r1)
      case (Inr pr)
      then have "(if pr then vs_raise v1 else (Inr (), v1)) = (r, v')"
        using 2 l by (cases pr) (simp_all add: and_then_def)
      then show ?thesis using vs_raise_same [of v1] by (cases pr) auto
    qed (use 2 l in \<open>simp add: and_then_def\<close>)
    then show ?thesis using o same_conns_trans [of v v1 v'] by auto
  qed
qed

section \<open>Accounting of what the host received\<close>

text \<open>The handles the backend gave out, and the bytes written to one of them.\<close>

definition used_handles :: "host_call list \<Rightarrow> handle set" where
  "used_handles log = {h. \<exists>port. HConnect port (Some h) \<in> set log}"

fun written :: "handle \<Rightarrow> host_call list \<Rightarrow> bytes" where
  "written h [] = []"
| "written h (HWrite k d # log) = (if k = h then d @ written h log else written h log)"
| "written h (_ # log) = written h log"

lemma written_append [simp]: "written h (xs @ ys) = written h xs @ written h ys"
  by (induction xs rule: written.induct [of _ h]) auto

lemma written_single [simp]:
  "written h [HConnect p a] = []" "written h [HClose k] = []" "written h [HCloseAll S] = []"
  "written h [HWrite k d] = (if k = h then d else [])"
  by simp_all

lemma used_handles_append [simp]: "used_handles (xs @ ys) = used_handles xs \<union> used_handles ys"
  by (auto simp: used_handles_def)

lemma used_handles_single [simp]:
  "used_handles [HConnect p (Some h)] = {h}" "used_handles [HConnect p None] = {}"
  "used_handles [HClose k] = {}" "used_handles [HCloseAll S] = {}" "used_handles [HWrite k d] = {}"
  by (auto simp: used_handles_def)

text \<open>What the model needs of a backend: it never gives out a handle twice.\<close>

definition fresh_handles :: "vsock_backend \<Rightarrow> bool" where
  "fresh_handles be \<longleftrightarrow> (\<forall>log port h. Connect be log port = Some h \<longrightarrow> h \<notin> used_handles log)"

text \<open>
  The invariant: a connection is filed under its key, its handle was given out and belongs to no
  other connection, and its receive counter is the number of bytes written to that handle.
\<close>

definition filed :: "(conn_key \<rightharpoonup> vsockConnection) \<Rightarrow> bool" where
  "filed m \<longleftrightarrow> (\<forall>key c. m key = Some c \<longrightarrow> ckey c = key)"

definition accounted :: "('k \<rightharpoonup> vsockConnection) \<Rightarrow> host_call list \<Rightarrow> bool" where
  "accounted m log \<longleftrightarrow>
     (\<forall>key c. m key = Some c \<longrightarrow> (\<exists>h. cbackend c = Some h \<and> h \<in> used_handles log
        \<and> rxCnt c = of_nat (length (written h log))))
     \<and> (\<forall>k1 k2 c1 c2. m k1 = Some c1 \<longrightarrow> m k2 = Some c2 \<longrightarrow> cbackend c1 = cbackend c2 \<longrightarrow> k1 = k2)
     \<and> (\<forall>h. h \<notin> used_handles log \<longrightarrow> written h log = [])"

definition vs_inv :: "vsock_backend \<Rightarrow> 'm vsock \<Rightarrow> bool" where
  "vs_inv be v \<longleftrightarrow> backend v = Some be \<and> length (queues v) = 3 \<and> filed (connections v)
     \<and> accounted (connections v) (hostLog v)"

lemma vs_inv_same: "same_conns v v' \<Longrightarrow> vs_inv be v \<Longrightarrow> vs_inv be v'"
  by (simp add: vs_inv_def same_conns_def)

lemma filed_delete: "filed m \<Longrightarrow> filed (m(k := None))"
  by (simp add: filed_def del: split_paired_All)

lemma filed_put: "filed m \<Longrightarrow> ckey c = k \<Longrightarrow> filed (m(k \<mapsto> c))"
  by (simp add: filed_def del: split_paired_All)

lemma filedD: "filed m \<Longrightarrow> m k = Some c \<Longrightarrow> ckey c = k"
  by (simp add: filed_def del: split_paired_All)

lemma accounted_delete: "accounted m log \<Longrightarrow> accounted (m(k := None)) log"
  unfolding accounted_def by (auto split: if_splits)

lemma accounted_log:
  assumes "accounted m log" "\<And>h. written h [e] = []" "used_handles [e] = {}"
  shows "accounted m (log @ [e])"
  using assms unfolding accounted_def by auto

lemma accounted_put:
  assumes "accounted m log" "m k = Some c" "cbackend c' = cbackend c" "rxCnt c' = rxCnt c"
  shows "accounted (m(k \<mapsto> c')) log"
  using assms unfolding accounted_def by (auto split: if_splits)

text \<open>Storing a connection with a handle of its own, while the log grows.\<close>

lemma accounted_store:
  assumes acc: "accounted m log"
    and c: "cbackend c = Some h" "h \<in> used_handles log'" "rxCnt c = of_nat (length (written h log'))"
    and own: "\<And>k2 c2. m k2 = Some c2 \<Longrightarrow> k2 \<noteq> k \<Longrightarrow> cbackend c2 \<noteq> Some h"
    and used: "used_handles log \<subseteq> used_handles log'"
    and rest: "\<And>h'. h' \<noteq> h \<Longrightarrow> written h' log' = written h' log"
  shows "accounted (m(k \<mapsto> c)) log'"
  unfolding accounted_def
proof (intro conjI allI impI)
  fix key c' assume a: "(m(k \<mapsto> c)) key = Some c'"
  show "\<exists>h. cbackend c' = Some h \<and> h \<in> used_handles log' \<and> rxCnt c' = of_nat (length (written h log'))"
  proof (cases "key = k")
    case False
    then have m: "m key = Some c'" using a by simp
    then obtain h' where h': "cbackend c' = Some h'" "h' \<in> used_handles log" "rxCnt c' = of_nat (length (written h' log))"
      using acc unfolding accounted_def by blast
    moreover have "h' \<noteq> h" using own [OF m False] h' by blast
    ultimately show ?thesis using used rest by auto
  qed (use a c in auto)
next
  fix k1 k2 c1 c2
  assume "(m(k \<mapsto> c)) k1 = Some c1" "(m(k \<mapsto> c)) k2 = Some c2" "cbackend c1 = cbackend c2"
  then show "k1 = k2" using acc c own unfolding accounted_def by (metis fun_upd_apply option.inject)
next
  fix h' assume h': "h' \<notin> used_handles log'"
  then have "h' \<noteq> h" "h' \<notin> used_handles log" using c used by auto
  then show "written h' log' = []" using rest acc unfolding accounted_def by simp
qed

lemma accounted_connect:
  assumes acc: "accounted m log" and c: "h \<notin> used_handles log" "cbackend c = Some h" "rxCnt c = 0"
  shows "accounted (m(k \<mapsto> c)) (log @ [HConnect p (Some h)])"
proof (rule accounted_store [OF acc c(2)])
  have "written h log = []" using acc c unfolding accounted_def by blast
  then show "rxCnt c = of_nat (length (written h (log @ [HConnect p (Some h)])))" using c by simp
  show "cbackend c2 \<noteq> Some h" if "m k2 = Some c2" "k2 \<noteq> k" for k2 c2
    using acc c that unfolding accounted_def by (metis option.inject)
qed auto

lemma accounted_write:
  assumes acc: "accounted m log" and c: "m k = Some c" "cbackend c = Some h"
    and c': "cbackend c' = Some h" "rxCnt c' = rxCnt c + of_nat (length d)"
  shows "accounted (m(k \<mapsto> c')) (log @ [HWrite h d])"
proof (rule accounted_store [OF acc c'(1)])
  have "\<exists>h'. cbackend c = Some h' \<and> h' \<in> used_handles log \<and> rxCnt c = of_nat (length (written h' log))"
    using acc c(1) unfolding accounted_def by blast
  then show "h \<in> used_handles (log @ [HWrite h d])" "rxCnt c' = of_nat (length (written h (log @ [HWrite h d])))"
    using c c' by auto
  show "cbackend c2 \<noteq> Some h" if "m k2 = Some c2" "k2 \<noteq> k" for k2 c2
    using acc c that unfolding accounted_def by metis
qed simp_all

lemma accounted_empty: "accounted m log \<Longrightarrow> accounted Map.empty log"
  by (simp add: accounted_def)

lemma queueRx_same: "same_conns v (queueRxPacketLocked p v)"
  by (simp add: queueRxPacketLocked_def same_conns_def)

lemma send_same [simp]:
  "same_conns v (sendResponseLocked hdr v)" "same_conns v (sendResetLocked hdr v)"
  "same_conns v (sendCreditUpdateLocked c v)"
  by (simp_all add: sendResponseLocked_def sendResetLocked_def sendCreditUpdateLocked_def queueRx_same)

lemma close_backend_inv: "vs_inv be v \<Longrightarrow> vs_inv be (close_backend c v)"
  by (auto simp: close_backend_def vs_inv_def intro: accounted_log split: option.splits)

lemma delete_conn_inv: "vs_inv be v \<Longrightarrow> vs_inv be (delete_conn k v)"
  by (simp add: delete_conn_def vs_inv_def accounted_delete filed_delete)

lemma put_conn_inv:
  "vs_inv be v \<Longrightarrow> connections v k = Some c \<Longrightarrow> ckey c' = ckey c \<Longrightarrow> cbackend c' = cbackend c \<Longrightarrow>
     rxCnt c' = rxCnt c \<Longrightarrow> vs_inv be (put_conn k c' v)"
  using filedD [of "connections v" k c] by (simp add: put_conn_def vs_inv_def accounted_put filed_put)

lemmas vs_inv_intros = vs_inv_same [OF send_same(1)] vs_inv_same [OF send_same(2)] vs_inv_same [OF send_same(3)]
  close_backend_inv delete_conn_inv

lemma handleConnect_inv:
  assumes "vs_inv be v" "fresh_handles be"
  shows "vs_inv be (handleConnectLocked hdr v)"
proof -
  let ?v = "v\<lparr>connectRequests := connectRequests v + 1\<rparr>"
  have v: "vs_inv be ?v" using assms(1) by (simp add: vs_inv_def)
  have be: "backend v = Some be" using assms(1) by (simp add: vs_inv_def)
  show ?thesis
  proof (cases "Connect be (hostLog v) (DstPort hdr)")
    case None
    have "vs_inv be (?v\<lparr>hostLog := hostLog v @ [HConnect (DstPort hdr) None]\<rparr>)"
      using v by (auto simp: vs_inv_def intro: accounted_log)
    then show ?thesis using None be by (simp add: handleConnectLocked_def Let_def vs_inv_intros)
  next
    case (Some h)
    let ?c = "\<lparr>ckey = hdr_key hdr, cstate = vsockConnStateConnected, peerAlloc = BufAlloc hdr, peerCnt = FwdCnt hdr,
                txCnt = 0, rxCnt = 0, creditRequestPending = False, cbackend = Some h\<rparr>"
    have "h \<notin> used_handles (hostLog v)" using assms(2) Some by (simp add: fresh_handles_def)
    then have "accounted ((connections v)(hdr_key hdr \<mapsto> ?c)) (hostLog v @ [HConnect (DstPort hdr) (Some h)])"
      using assms(1) by (intro accounted_connect) (simp_all add: vs_inv_def)
    then have "vs_inv be (put_conn (hdr_key hdr) ?c (?v\<lparr>hostLog := hostLog v @ [HConnect (DstPort hdr) (Some h)]\<rparr>))"
      using v by (simp add: vs_inv_def put_conn_def filed_put)
    then show ?thesis using Some be by (simp add: handleConnectLocked_def Let_def vs_inv_intros)
  qed
qed

lemma handleData_inv:
  assumes "vs_inv be v"
  shows "vs_inv be (snd (handleDataLocked hdr data v))"
proof (cases "connections v (hdr_key hdr)")
  case None
  then show ?thesis using assms by (simp add: handleDataLocked_def vs_inv_intros)
next
  case (Some c0)
  let ?c = "c0\<lparr>peerAlloc := BufAlloc hdr, peerCnt := FwdCnt hdr\<rparr>"
  let ?c' = "?c\<lparr>rxCnt := rxCnt c0 + of_nat (length data)\<rparr>"
  have put: "vs_inv be (put_conn (hdr_key hdr) ?c v)" using assms Some by (intro put_conn_inv) auto
  have acc: "accounted (connections v) (hostLog v)" using assms by (simp add: vs_inv_def)
  obtain h where h: "cbackend c0 = Some h" "backend v = Some be"
    using assms Some acc unfolding accounted_def vs_inv_def by blast
  have "accounted ((connections v)(hdr_key hdr \<mapsto> ?c')) (hostLog v @ [HWrite h data])"
    using assms Some h by (intro accounted_write [of _ _ _ c0]) (simp_all add: vs_inv_def)
  then have "vs_inv be ((put_conn (hdr_key hdr) ?c' v)\<lparr>hostLog := hostLog v @ [HWrite h data]\<rparr>)"
    using assms filedD [of "connections v"] Some by (simp add: vs_inv_def put_conn_def filed_put)
  then show ?thesis
    using Some h put assms by (simp add: handleDataLocked_def Let_def vs_inv_intros)
qed

lemma dispatch_inv:
  assumes "vs_inv be v" "fresh_handles be"
  shows "vs_inv be (snd (dispatch_packet hdr data v))"
proof -
  have "vs_inv be (handleResponseLocked hdr v)"
    using assms(1) by (auto simp: handleResponseLocked_def intro: vs_inv_intros put_conn_inv split: option.splits)
  moreover have "vs_inv be (handleResetLocked hdr v)" "vs_inv be (handleShutdownLocked hdr v)"
    "vs_inv be (handleCreditRequestLocked hdr v)"
    using assms(1) by (auto simp: handleResetLocked_def handleShutdownLocked_def handleCreditRequestLocked_def
        intro!: vs_inv_intros split: option.splits)
  moreover have "vs_inv be (handleCreditUpdateLocked hdr v)"
    using assms(1) by (auto simp: handleCreditUpdateLocked_def intro: put_conn_inv split: option.splits)
  ultimately show ?thesis
    using assms handleConnect_inv [OF assms] handleData_inv [OF assms(1)] by (simp add: dispatch_packet_def)
qed

lemma vs_inv_queues: "vs_inv be v \<Longrightarrow> 0 < length (queues v)"
  by (simp add: vs_inv_def)

lemma processRX_inv: "vs_inv be v \<Longrightarrow> vs_inv be (snd (processRXLocked M v))"
  using processRX_outcome [of M v] vs_inv_same vs_inv_queues by (metis prod.collapse)

lemma vs_raise_inv: "vs_inv be v \<Longrightarrow> vs_inv be (snd (vs_raise v))"
  using vs_raise_same vs_inv_same by blast

lemma handleTX_inv:
  assumes "vs_inv be v" "fresh_handles be"
  shows "vs_inv be (snd (handleTXPacketLocked M head v))"
proof -
  have "preserves (vs_inv be) (and_then (dispatch_packet hdr data) (\<lambda>_. return_ok n))" for hdr data and n :: u32
    by (intro preserves_intros preservesI) (simp add: dispatch_inv assms(2))
  then show ?thesis
    using assms(1) by (auto simp: handleTXPacketLocked_def Let_def dest: preservesD split: option.splits sum.splits)
qed

lemma vs_tx_round_inv:
  assumes "fresh_handles be"
  shows "preserves (vs_inv be) (vs_tx_round M)"
proof (rule preservesI)
  fix v :: "'a vsock" assume v: "vs_inv be v"
  have "preserves (vs_inv be) (and_then (handleTXPacketLocked M head) (\<lambda>n.
      and_then (writeUsedLocked M 1 head n) (\<lambda>_. modify_state (advance_avail 1))))" for head
    by (intro preserves_intros preservesI)
      (use assms handleTX_inv vs_used_same vs_advance_same vs_inv_same in blast)+
  then show "vs_inv be (snd (vs_tx_round M v))"
    using v by (auto simp: vs_tx_round_def Let_def dest: preservesD split: option.splits sum.splits)
qed

lemma vs_processTX_inv:
  assumes "vs_inv be v" "fresh_handles be"
  shows "vs_inv be (snd (vs_processTXLocked M v))"
proof -
  have "preserves (vs_inv be) (and_then (run_avail (\<lambda>v. lastAvailIdx (queues v ! 1)) a (vs_tx_round M))
      (\<lambda>_. and_then (processRXLocked M) (\<lambda>_. vs_raise)))" for a
    by (intro preserves_intros vs_tx_round_inv assms(2) preservesI) (auto intro: processRX_inv vs_raise_inv)
  then show ?thesis
    using assms(1) by (auto simp: vs_processTXLocked_def Let_def dest: preservesD split: sum.splits)
qed

lemma vs_reset_inv: "vs_inv be v \<Longrightarrow> vs_inv be (vs_resetLocked v)"
  by (auto simp: vs_inv_def vs_resetLocked_def filed_def intro!: accounted_empty accounted_log)

lemma vs_registers_inv: "write_registers off x v = Some v' \<Longrightarrow> vs_inv be v \<Longrightarrow> vs_inv be v'"
  by (auto simp: vs_inv_def write_registers_def set_driver_features_def update_selected_def
      split: if_splits option.splits)

lemma vs_Write_inv:
  assumes "vs_inv be v" "fresh_handles be"
  shows "vs_inv be (snd (vs_Write M addr sz x v))"
proof -
  let ?v = "v\<lparr>mmioWrites := mmioWrites v + 1\<rparr>"
  have upd: "vs_inv be (?v\<lparr>interruptStatus := i\<rparr>)" "vs_inv be (?v\<lparr>devStatus := st\<rparr>)"
    "vs_inv be (?v\<lparr>txNotifies := n\<rparr>)" "vs_inv be (?v\<lparr>rxNotifies := n\<rparr>)" "vs_inv be ?v" for i st n
    using assms(1) by (simp_all add: vs_inv_def)
  have ack: "vs_inv be (snd (vs_updateIRQLocked (?v\<lparr>interruptStatus := i\<rparr>)))" for i
    using vs_updateIRQ_same [of "?v\<lparr>interruptStatus := i\<rparr>"] vs_inv_same upd(1) by blast
  show ?thesis
  proof (cases "write_registers (addr - devBase v) x ?v")
    case (Some v')
    then show ?thesis using vs_registers_inv [OF Some upd(5)] by (simp add: vs_Write_def Let_def)
  next
    case None
    then show ?thesis
      using ack upd vs_processTX_inv [OF upd(3) assms(2)] processRX_inv [OF upd(4)] vs_reset_inv [OF upd(2)]
      by (simp add: vs_Write_def Let_def)
  qed
qed

text \<open>Everything that can happen to a device after it was created with a backend.\<close>

inductive vs_reachable :: "'m guest_memory \<Rightarrow> vsock_backend \<Rightarrow> 'm vsock \<Rightarrow> bool" for M be where
  created: "vs_reachable M be (NewVsock b sz line cid (Some be))"
| attached: "vs_reachable M be v \<Longrightarrow> vs_reachable M be (dev_Attach m ctl v)"
| detached: "vs_reachable M be v \<Longrightarrow> vs_reachable M be (vs_Detach v)"
| guest_read: "vs_reachable M be v \<Longrightarrow> vs_reachable M be (snd (vs_Read addr n v))"
| guest_write: "vs_reachable M be v \<Longrightarrow> vs_reachable M be (snd (vs_Write M addr n x v))"
| read_failed: "vs_reachable M be v \<Longrightarrow> vs_reachable M be (reader_error M key v)"
| read_data: "vs_reachable M be v \<Longrightarrow> vs_reachable M be (snd (reader_chunk M key data v))"
| poked: "vs_reachable M be v \<Longrightarrow> vs_reachable M be (snd (vs_Poke M v))"
| kicked: "vs_reachable M be v \<Longrightarrow> vs_reachable M be (snd (vs_Kick v))"
| closed: "vs_reachable M be v \<Longrightarrow> vs_reachable M be (vs_Close v)"

lemma reader_error_inv: "vs_inv be v \<Longrightarrow> vs_inv be (reader_error M key v)"
proof -
  assume v: "vs_inv be v"
  have "vs_inv be (snd (processRXLocked M (put_conn key (c\<lparr>cstate := s\<rparr>) (queueRxPacketLocked p v))))"
    if "connections v key = Some c" for c s p
    using v that vs_inv_same [OF queueRx_same v]
    by (intro processRX_inv put_conn_inv [of be _ key c]) (simp_all add: queueRxPacketLocked_def)
  then show ?thesis using v by (auto simp: reader_error_def Let_def split: option.splits)
qed

lemma reader_chunk_inv: "vs_inv be v \<Longrightarrow> vs_inv be (snd (reader_chunk M key data v))"
proof -
  assume v: "vs_inv be v"
  have q: "vs_inv be (snd (processRXLocked M (put_conn key c' (queueRxPacketLocked p v))))"
    and n: "vs_inv be (snd (processRXLocked M (put_conn key c' v)))"
    if "connections v key = Some c" "ckey c' = ckey c" "cbackend c' = cbackend c" "rxCnt c' = rxCnt c" for c c' p
    using v that vs_inv_same [OF queueRx_same v]
    by (intro processRX_inv put_conn_inv [of be _ key c]; simp add: queueRxPacketLocked_def)+
  then show ?thesis using v
    by (auto simp: reader_chunk_def Let_def sendCreditRequestLocked_def sendDataLocked_def split: option.splits)
qed

lemma vs_Poke_inv: "vs_inv be v \<Longrightarrow> vs_inv be (snd (vs_Poke M v))"
proof -
  assume "vs_inv be v"
  then have p: "vs_inv be (snd (processRXLocked M v))" by (rule processRX_inv)
  have i: "vs_inv be (v1\<lparr>interruptStatus := x\<rparr>)" "vs_inv be (snd (SetIRQ l v1))"
    "vs_inv be (v1\<lparr>irqHigh := False, irqTransitions := t\<rparr>)" "vs_inv be (snd (vs_updateIRQLocked v1))"
    if "vs_inv be v1" for v1 :: "'a vsock" and x l t
    using that vs_inv_same [OF conjunct1 [OF SetIRQ_same] that]
      vs_inv_same [OF conjunct1 [OF vs_updateIRQ_same] that] by (simp_all add: vs_inv_def)
  obtain r v1 where v1: "processRXLocked M v = (r, v1)" by force
  let ?v2 = "v1\<lparr>interruptStatus := interruptStatus v1 OR intVring\<rparr>"
  obtain r3 v3 where v3: "SetIRQ False ?v2 = (r3, v3)" by force
  have "vs_inv be v1" using p v1 by simp
  moreover have "vs_inv be ?v2" using i(1) calculation by blast
  moreover have "vs_inv be v3" using i(2) [OF calculation(2), of False] v3 by simp
  ultimately show ?thesis
    using v1 v3 i by (auto simp: vs_Poke_def Let_def split: sum.splits)
qed

lemma vs_reachable_inv: "vs_reachable M be v \<Longrightarrow> fresh_handles be \<Longrightarrow> vs_inv be v"
proof (induction rule: vs_reachable.induct)
  case (created b sz line cid)
  show ?case by (simp add: NewVsock_def vs_resetLocked_def vs_inv_def filed_def accounted_def)
next
  case (guest_read v addr n)
  then show ?case by (simp add: vs_Read_def Let_def vs_inv_def)
next
  case (closed v)
  then show ?case by (auto simp: vs_Close_def vs_inv_def filed_def intro!: accounted_empty accounted_log)
qed (auto simp: dev_Attach_def vs_Detach_def vs_Kick_def vs_raise_inv vs_Write_inv reader_error_inv
    reader_chunk_inv vs_Poke_inv, auto simp: vs_inv_def)

section \<open>Properties\<close>

text \<open>
  Packets reach the guest in order and none is lost: whatever happens while the receive queue is
  processed, the packets still waiting are a suffix of those that were waiting, and the queue's
  index advanced by exactly the number of packets taken off the front.
\<close>

theorem vsock_receive_fifo:
  assumes "0 < length (queues v)" "v' = snd (processRXLocked M v)"
  shows "\<exists>ds. pendingRx v = ds @ pendingRx v'
    \<and> lastAvailIdx (queues v' ! 0) = lastAvailIdx (queues v ! 0) + of_nat (length ds)"
  using processRX_outcome [of M v "fst (processRXLocked M v)" v'] assms by simp

text \<open>
  A machine with one receive chain of four writable bytes: descriptor table at \<open>0x1000\<close>, available
  ring at \<open>0x1010\<close>, used ring at \<open>0x1020\<close>, buffer at \<open>0x1030\<close>.
\<close>

definition rx_vm :: "arm_vm option" where
  "rx_vm = Some \<lparr>GuestPhysAddr = 0x1000, MemorySize = 64, vm_mem =
     [0x30, 0x10, 0, 0, 0, 0, 0, 0, 4, 0, 0, 0, 2, 0, 0, 0,
      0, 0, 1, 0, 0, 0, 0, 0, 0, 0, 0, 0, 0, 0, 0, 0,
      0, 0, 0, 0, 0, 0, 0, 0, 0, 0, 0, 0, 0, 0, 0, 0,
      0, 0, 0, 0, 0, 0, 0, 0, 0, 0, 0, 0, 0, 0, 0, 0]\<rparr>"

definition rx_vsock :: "arm_vm option vsock" where
  "rx_vsock = (NewVsock 0x9000 0x200 8 3 None)
     \<lparr>gmem := Some rx_vm, pendingRx := [[1, 2, 3], [4]],
      queues := [zero_queue\<lparr>qsize := 1, qready := True, descAddr := 0x1000, availAddr := 0x1010,
        usedAddr := 0x1020\<rparr>, zero_queue, zero_queue]\<rparr>"

lemmas rx_eval = rx_vsock_def rx_vm_def NewVsock_def vs_resetLocked_def zero_queue_def
  arm_memory_def arm_ReadIPA_def arm_ReadIPAInto_def arm_WriteIPA_def go_slice_def

lemma rx_vsock_fills:
  "vs_fillChainLocked arm_memory 0 [1, 2, 3] rx_vsock =
     (Inr 3, rx_vsock\<lparr>gmem := Some (Some ((the rx_vm)\<lparr>vm_mem := overwrite (vm_mem (the rx_vm)) 48 [1, 2, 3]\<rparr>))\<rparr>)"
  by (simp add: vs_fillChainLocked_def rx_eval readDescriptorLocked_def decode_descriptor_def sub_bytes_def Let_def)

lemma rx_vsock_processes: "pendingRx (snd (processRXLocked arm_memory rx_vsock)) = [[4]]"
proof -
  let ?q = "queues rx_vsock ! 0"
  have a: "avail_header arm_memory rx_vm ?q = Inr 1" "readAvailableHead arm_memory rx_vm ?q 0 = Inr 0"
    by (simp_all add: avail_header_def readAvailableHead_def rx_eval sub_bytes_def Let_def)
  have q: "qready ?q" "qsize ?q = 1" "lastAvailIdx ?q = 0" "gmem rx_vsock = Some rx_vm"
    "pendingRx rx_vsock = [[1, 2, 3], [4]]" "length (queues rx_vsock) = 3"
    by (simp_all add: rx_eval)
  let ?vm = "Some ((the rx_vm)\<lparr>vm_mem := overwrite (vm_mem (the rx_vm)) 48 [1, 2, 3]\<rparr>)"
  have "arm_wf ?vm" by (simp add: arm_wf_def rx_vm_def)
  moreover have "used_mapped (arm_mapped ?vm) ?q"
    by (simp add: used_mapped_def used_slot_def arm_mapped_def rx_vm_def rx_vsock_def)
  ultimately obtain vm2 where u: "writeQueueUsed arm_memory 0 3 (?q, ?vm) = (Inr (), (?q\<lparr>usedIdx := usedIdx ?q + 1\<rparr>, vm2))"
    using arm.writeQueueUsed_agrees [of ?vm ?q 0 3] q by auto
  have "\<exists>v1. rx_round arm_memory [1, 2, 3] rx_vsock = (Inr (), v1) \<and> lastAvailIdx (queues v1 ! 0) = 1
      \<and> pendingRx v1 = [[4]]"
    using a q u rx_vsock_fills
    by (simp add: rx_round_def Let_def and_then_def writeUsedLocked_def advance_avail_def)
  then obtain v1 where "rx_round arm_memory [1, 2, 3] rx_vsock = (Inr (), v1)" "lastAvailIdx (queues v1 ! 0) = 1"
    "pendingRx v1 = [[4]]" by blast
  then show ?thesis
    using a q vs_raise_same [of v1] by (simp add: processRXLocked_def Let_def and_then_def)
qed

theorem vsock_receive_fifo_witness:
  "\<exists>ds. [[1, 2, 3], [4]] = ds @ [[4]]
    \<and> lastAvailIdx (queues (snd (processRXLocked arm_memory rx_vsock)) ! 0) = of_nat (length ds)"
  using vsock_receive_fifo [of rx_vsock _ arm_memory, OF _ refl]
  unfolding rx_vsock_processes by (simp add: rx_vsock_def zero_queue_def)

text \<open>
  A packet is delivered whole or not counted as delivered: filling a receive chain succeeds only
  if writes whose bytes are, in order, exactly the packet all succeeded, and then the
  length reported to the driver is the packet's.
\<close>

theorem vsock_delivers_whole_packets:
  assumes "vs_fillChainLocked M head packet v = (Inr n, v')" "gmem v = Some m"
  shows "\<exists>ws m'. write_all M m ws = Some m' \<and> gmem v' = Some m' \<and> concat (map snd ws) = packet
    \<and> n = of_nat (length packet)"
proof -
  let ?q = "queues v ! 0"
  obtain m' where "fill_loop (unat (qsize ?q)) M ?q head packet 0 m = (Inr n, m')" "gmem v' = Some m'"
    using assms by (auto simp: vs_fillChainLocked_def Let_def split: prod.splits)
  then show ?thesis using fill_loop_complete [of "unat (qsize ?q)" M ?q head packet 0 m n m'] by auto
qed

theorem vsock_delivers_whole_packets_witness:
  "\<exists>ws m'. write_all arm_memory rx_vm ws = Some m' \<and> concat (map snd ws) = [1, 2, 3]"
  using vsock_delivers_whole_packets [OF rx_vsock_fills, of rx_vm] by (auto simp: rx_vsock_def)

text \<open>
  C28. The host never sends more than the guest's receive buffer can hold: when the reader sends bytes
  on a connection, they are the next bytes of the stream, as many as the guest's credit allows and
  at least one, they go out as one data packet, and the bytes sent but not yet consumed by the
  guest stay within the buffer size it announced.
\<close>

theorem vsock_credit_respected:
  assumes "reader_chunk M key data v = (ReaderSent k, v')" "data \<noteq> []" "length data < 2 ^ 32"
    "0 < length (queues v)"
  shows "\<exists>c. connections v key = Some c \<and> 0 < k \<and> k = min (length data) (unat (vsockPeerCredit c))
    \<and> connections v' key = Some (c\<lparr>txCnt := txCnt c + of_nat k\<rparr>)
    \<and> unat (txCnt c + of_nat k - peerCnt c) \<le> unat (peerAlloc c)
    \<and> (\<exists>ds. pendingRx v @ [data_packet c (take k data) v] = ds @ pendingRx v')"
proof -
  obtain c where c: "connections v key = Some c" "cstate c = vsockConnStateConnected" "vsockPeerCredit c \<noteq> 0"
    and k: "k = (if vsockPeerCredit c < of_nat (length data) then unat (vsockPeerCredit c) else length data)"
    and v': "v' = snd (processRXLocked M (put_conn key (c\<lparr>txCnt := txCnt c + of_nat (length (take k data))\<rparr>)
        (queueRxPacketLocked (data_packet c (take k data) v) v)))"
    using assms(1)
    by (auto simp: reader_chunk_def Let_def sendDataLocked_def split: option.splits if_splits prod.splits)
  have n: "unat (of_nat (length data) :: u32) = length data" using assms(3) by (simp add: unat_of_nat)
  have km: "k = min (length data) (unat (vsockPeerCredit c))"
    using k n by (auto simp: word_less_nat_alt min_def)
  have pos: "0 < k" using km assms(2) c(3) by (auto simp: unat_gt_0)
  let ?used = "txCnt c - peerCnt c"
  have credit: "?used < peerAlloc c" "vsockPeerCredit c = peerAlloc c - ?used"
    using c(3) by (auto simp: vsockPeerCredit_def Let_def split: if_splits)
  then have "unat (vsockPeerCredit c) = unat (peerAlloc c) - unat ?used" "unat ?used < unat (peerAlloc c)"
    using unat_minus_le [of ?used "peerAlloc c"] by (simp_all add: word_less_nat_alt less_imp_le)
  then have le: "unat ?used + k \<le> unat (peerAlloc c)" using km by linarith
  moreover have "unat (peerAlloc c) < 2 ^ LENGTH(32)" by (rule unsigned_less)
  ultimately have "unat (?used + of_nat k) = unat ?used + k" by (intro unat_add_of_nat) simp
  moreover have "txCnt c + of_nat k - peerCnt c = ?used + of_nat k" by simp
  ultimately have bound: "unat (txCnt c + of_nat k - peerCnt c) \<le> unat (peerAlloc c)" using le by metis
  have lk: "length (take k data) = k" using km by simp
  let ?v1 = "put_conn key (c\<lparr>txCnt := txCnt c + of_nat k\<rparr>) (queueRxPacketLocked (data_packet c (take k data) v) v)"
  have "0 < length (queues ?v1)" using assms(4) by (simp add: put_conn_def queueRxPacketLocked_def)
  then obtain ds where "same_conns ?v1 v'" "pendingRx ?v1 = ds @ pendingRx v'"
    using processRX_outcome [of M ?v1 "fst (processRXLocked M ?v1)" v'] v' lk by auto
  then have "connections v' key = Some (c\<lparr>txCnt := txCnt c + of_nat k\<rparr>)"
    "pendingRx v @ [data_packet c (take k data) v] = ds @ pendingRx v'"
    by (simp_all add: same_conns_def put_conn_def queueRxPacketLocked_def)
  then show ?thesis using c(1) pos km bound by blast
qed

definition credit_conn :: vsockConnection where
  "credit_conn = \<lparr>ckey = (5, 7), cstate = vsockConnStateConnected, peerAlloc = 10, peerCnt = 0xfffffffe,
     txCnt = 4, rxCnt = 0, creditRequestPending = False, cbackend = Some 1\<rparr>"

definition credit_vsock :: "arm_vm option vsock" where
  "credit_vsock = put_conn (5, 7) credit_conn (NewVsock 0x9000 0x200 8 3 None)"

lemma credit_vsock_sends: "\<exists>v'. reader_chunk arm_memory (5, 7) [1, 2, 3, 4, 5, 6] credit_vsock = (ReaderSent 4, v')"
  by (simp add: reader_chunk_def credit_vsock_def credit_conn_def put_conn_def vsockPeerCredit_def sendDataLocked_def Let_def)

theorem vsock_credit_respected_witness:
  "\<exists>v'. reader_chunk arm_memory (5, 7) [1, 2, 3, 4, 5, 6] credit_vsock = (ReaderSent 4, v')
    \<and> connections v' (5, 7) = Some (credit_conn\<lparr>txCnt := 8\<rparr>)"
proof -
  obtain v' where v': "reader_chunk arm_memory (5, 7) [1, 2, 3, 4, 5, 6] credit_vsock = (ReaderSent 4, v')"
    using credit_vsock_sends by blast
  have "0 < length (queues credit_vsock)" by (simp add: credit_vsock_def put_conn_def NewVsock_def vs_resetLocked_def)
  from vsock_credit_respected [OF v' _ _ this] v' show ?thesis
    by (auto simp: credit_vsock_def put_conn_def credit_conn_def)
qed

text \<open>
  A second connection request for the ports of an open connection replaces the connection in the
  table without closing the first backend connection, which then has an owner no more.
\<close>

theorem vsock_duplicate_request_orphans:
  assumes "connections v (hdr_key hdr) = Some c" "cbackend c = Some h" "backend v = Some be"
    "Connect be (hostLog v) (DstPort hdr) = Some h'" "h' \<noteq> h"
    "\<forall>k c2. connections v k = Some c2 \<longrightarrow> cbackend c2 = Some h \<longrightarrow> k = hdr_key hdr"
  shows "hostLog (handleConnectLocked hdr v) = hostLog v @ [HConnect (DstPort hdr) (Some h')]
    \<and> h \<notin> open_handles (connections (handleConnectLocked hdr v))"
proof
  let ?v' = "handleConnectLocked hdr v"
  show "hostLog ?v' = hostLog v @ [HConnect (DstPort hdr) (Some h')]"
    using assms(3,4) by (simp add: handleConnectLocked_def Let_def sendResponseLocked_def queueRxPacketLocked_def put_conn_def)
  obtain c' where c': "connections ?v' = (connections v)(hdr_key hdr \<mapsto> c')" "cbackend c' = Some h'"
    using assms(3,4) by (simp add: handleConnectLocked_def Let_def sendResponseLocked_def queueRxPacketLocked_def put_conn_def)
  show "h \<notin> open_handles (connections ?v')"
  proof
    assume "h \<in> open_handles (connections ?v')"
    then obtain k c2 where k: "connections ?v' k = Some c2" "cbackend c2 = Some h"
      unfolding open_handles_def ran_def by blast
    show False
    proof (cases "k = hdr_key hdr")
      case True
      then show False using k c' assms(5) by simp
    next
      case False
      then show False using k c'(1) assms(6) by (metis fun_upd_apply)
    qed
  qed
qed

definition counting_backend :: vsock_backend where
  "counting_backend = \<lparr>Connect = (\<lambda>log _. Some (Suc (sum_list
       (map (\<lambda>e. case e of HConnect _ (Some h) \<Rightarrow> h | _ \<Rightarrow> 0) log)))), connWrite = (\<lambda>_ _ _. True)\<rparr>"

theorem vsock_duplicate_request_orphans_witness:
  "1 \<notin> open_handles (connections (handleConnectLocked
      ((base_header credit_vsock 7 5 vsockOpRequest)) (credit_vsock\<lparr>backend := Some counting_backend,
        hostLog := [HConnect 5 (Some 1)]\<rparr>)))"
  using vsock_duplicate_request_orphans [of "credit_vsock\<lparr>backend := Some counting_backend,
      hostLog := [HConnect 5 (Some 1)]\<rparr>" "base_header credit_vsock 7 5 vsockOpRequest" credit_conn 1 counting_backend 2]
  by (auto simp: credit_vsock_def put_conn_def hdr_key_def base_header_def credit_conn_def counting_backend_def
      NewVsock_def vs_resetLocked_def split: if_splits)

text \<open>
  C3. The byte counter the guest is told about is exact: in every state the device can reach, by any
  interleaving of guest accesses, host readers, pokes, detaching and closing, with any backend that
  does not give out a connection handle twice, the receive counter of each open connection is the
  number of bytes handed to its own host connection.
\<close>

theorem vsock_receive_counter_exact:
  assumes "vs_reachable M be v" "fresh_handles be" "connections v key = Some c"
  shows "\<exists>h. cbackend c = Some h \<and> rxCnt c = of_nat (length (written h (hostLog v)))
    \<and> (\<forall>key2 c2. connections v key2 = Some c2 \<longrightarrow> cbackend c2 = Some h \<longrightarrow> key2 = key)"
proof -
  have acc: "accounted (connections v) (hostLog v)"
    using vs_reachable_inv [OF assms(1,2)] by (simp add: vs_inv_def)
  then obtain h where h: "cbackend c = Some h" "rxCnt c = of_nat (length (written h (hostLog v)))"
    using assms(3) unfolding accounted_def by blast
  moreover have "key2 = key" if "connections v key2 = Some c2" "cbackend c2 = Some h" for key2 c2
    using acc assms(3) h(1) that unfolding accounted_def by metis
  ultimately show ?thesis by blast
qed

text \<open>
  A machine whose transmit queue holds a connection request from port 7 to port 5: descriptor table at
  \<open>0x1000\<close>, available ring at \<open>0x1010\<close>, used ring at \<open>0x1020\<close>, the 44 bytes of the header at \<open>0x1030\<close>.
\<close>

definition request_vm :: "arm_vm option" where
  "request_vm = Some \<lparr>GuestPhysAddr = 0x1000, MemorySize = 92, vm_mem =
     [0x30, 0x10, 0, 0, 0, 0, 0, 0, 44, 0, 0, 0, 0, 0, 0, 0,
      0, 0, 1, 0, 0, 0, 0, 0, 0, 0, 0, 0, 0, 0, 0, 0,
      0, 0, 0, 0, 0, 0, 0, 0, 0, 0, 0, 0, 0, 0, 0, 0,
      3, 0, 0, 0, 0, 0, 0, 0, 2, 0, 0, 0, 0, 0, 0, 0,
      7, 0, 0, 0, 5, 0, 0, 0, 0, 0, 0, 0, 1, 0, 1, 0,
      0, 0, 0, 0, 0, 1, 0, 0, 0, 0, 0, 0]\<rparr>"

definition vs_setup :: "'m guest_memory \<Rightarrow> u32 \<Rightarrow> u16 \<Rightarrow> u64 \<Rightarrow> u64 \<Rightarrow> u64 \<Rightarrow> 'm vsock \<Rightarrow> 'm vsock" where
  "vs_setup M i n desc avail used v =
     fold (\<lambda>(off, x) v. snd (vs_Write M (devBase v + off) 4 x v)) (setup_writes i n desc avail used) v"

lemma write_selected:
  "write_registers regQueueNum x d = Some (update_selected (\<lambda>q. q\<lparr>qsize := ucast x\<rparr>) d)"
  "write_registers regQueueReady x d = Some (update_selected (set_ready x) d)"
  "write_registers regQueueDescLow x d = Some (update_selected (setQueueAddr (ucast x) queueAddrDesc True) d)"
  "write_registers regQueueDescHigh x d = Some (update_selected (setQueueAddr (ucast x) queueAddrDesc False) d)"
  "write_registers regQueueAvailLow x d = Some (update_selected (setQueueAddr (ucast x) queueAddrAvail True) d)"
  "write_registers regQueueAvailHigh x d = Some (update_selected (setQueueAddr (ucast x) queueAddrAvail False) d)"
  "write_registers regQueueUsedLow x d = Some (update_selected (setQueueAddr (ucast x) queueAddrUsed True) d)"
  "write_registers regQueueUsedHigh x d = Some (update_selected (setQueueAddr (ucast x) queueAddrUsed False) d)"
  by (simp_all add: write_registers_def)

lemma vs_Write_register:
  "write_registers off x (v\<lparr>mmioWrites := mmioWrites v + 1\<rparr>) = Some v' \<Longrightarrow>
    snd (vs_Write M (devBase v + off) n x v) = v'"
  by (simp add: vs_Write_def)

lemma vs_setup_state:
  fixes v :: "'m vsock"
  assumes "length (queues v) = 3"
  shows "\<exists>n. vs_setup M 1 sz desc avail used v = v\<lparr>queueSel := 1, queues := (queues v)[1 :=
      (queues v ! 1)\<lparr>qsize := sz, descAddr := desc, availAddr := avail, usedAddr := used, qready := True\<rparr>], mmioWrites := n\<rparr>"
proof -
  have three: "\<not> (3 :: u32) \<le> 1" by (simp add: word_le_nat_alt)
  define at where "at n q = v\<lparr>queueSel := 1, queues := (queues v)[1 := q], mmioWrites := n\<rparr>" for n q
  have base: "devBase (at n q) = devBase v" for n q by (simp add: at_def)
  have sel: "snd (vs_Write M (devBase v + regQueueSel) 4 1 v) = at (mmioWrites v + 1) (queues v ! 1)"
    by (intro vs_Write_register) (simp add: write_registers_def at_def)
  have step: "snd (vs_Write M (devBase v + off) 4 x (at n q)) = at (n + 1) (f q)"
    if "\<And>d :: 'm vsock. write_registers off x d = Some (update_selected f d)" for off x f n q
  proof -
    have "update_selected f ((at n q)\<lparr>mmioWrites := mmioWrites (at n q) + 1\<rparr>) = at (n + 1) (f q)"
      using assms three by (simp add: at_def update_selected_def selectedQueueLocked_def)
    then show ?thesis using vs_Write_register [of off x "at n q"] that base by metis
  qed
  note steps = write_selected [THEN step]
  have "vs_setup M 1 sz desc avail used v = at (9 + mmioWrites v)
      ((queues v ! 1)\<lparr>qsize := sz, descAddr := desc, availAddr := avail, usedAddr := used, qready := True\<rparr>)"
    by (simp add: vs_setup_def setup_writes_def base sel steps set_half_rebuild set_ready_def)
  then show ?thesis unfolding at_def by blast
qed

lemma vs_setup_reachable: "vs_reachable M be v \<Longrightarrow> vs_reachable M be (vs_setup M i n desc avail used v)"
  unfolding vs_setup_def setup_writes_def by (simp add: vs_reachable.intros)

definition request_vsock :: "arm_vm option vsock" where
  "request_vsock = vs_setup arm_memory 1 1 0x1000 0x1010 0x1020
     (dev_Attach (Some request_vm) None (NewVsock 0x9000 0x200 8 3 (Some counting_backend)))"

definition tx_queue :: queue where
  "tx_queue = zero_queue\<lparr>qsize := 1, descAddr := 0x1000, availAddr := 0x1010, usedAddr := 0x1020, qready := True\<rparr>"

lemma request_vsock_state:
  "queues request_vsock = [zero_queue, tx_queue, zero_queue]" "gmem request_vsock = Some request_vm"
  "backend request_vsock = Some counting_backend" "connections request_vsock = Map.empty"
  "hostLog request_vsock = [HCloseAll {}]" "irq request_vsock = None" "devBase request_vsock = 0x9000"
proof -
  let ?v = "dev_Attach (Some request_vm) None (NewVsock 0x9000 0x200 8 3 (Some counting_backend))"
  have "length (queues ?v) = 3" by (simp add: dev_Attach_def NewVsock_def vs_resetLocked_def)
  from vs_setup_state [OF this] obtain n where r: "request_vsock = ?v\<lparr>queueSel := 1, queues := (queues ?v)[1 :=
      (queues ?v ! 1)\<lparr>qsize := 1, descAddr := 0x1000, availAddr := 0x1010, usedAddr := 0x1020, qready := True\<rparr>],
      mmioWrites := n\<rparr>"
    unfolding request_vsock_def by blast
  show "queues request_vsock = [zero_queue, tx_queue, zero_queue]" "gmem request_vsock = Some request_vm"
    "backend request_vsock = Some counting_backend" "connections request_vsock = Map.empty"
    "hostLog request_vsock = [HCloseAll {}]" "irq request_vsock = None" "devBase request_vsock = 0x9000"
    unfolding r by (simp_all add: dev_Attach_def NewVsock_def vs_resetLocked_def tx_queue_def open_handles_def)
qed

lemma counting_backend_fresh: "fresh_handles counting_backend"
proof -
  have "h \<le> sum_list (map (\<lambda>e. case e of HConnect _ (Some h) \<Rightarrow> h | _ \<Rightarrow> 0) log)"
    if "h \<in> used_handles log" for h log
    using that by (auto simp: used_handles_def intro!: member_le_sum_list [of h]) (force simp: image_iff)
  then show ?thesis
    unfolding fresh_handles_def counting_backend_def by (auto simp: Suc_le_eq [symmetric]) (metis not_less_eq_eq order_refl)
qed

lemma request_vsock_reachable: "vs_reachable arm_memory counting_backend request_vsock"
  unfolding request_vsock_def by (intro vs_setup_reachable vs_reachable.intros)

lemma request_reads:
  "avail_header arm_memory request_vm tx_queue = Inr 1" "readAvailableHead arm_memory request_vm tx_queue 0 = Inr 0"
  "readChainLocked arm_memory request_vm tx_queue 0 = Inr (take 44 (drop 48 (vm_mem (the request_vm))))"
  by (simp_all add: avail_header_def readAvailableHead_def readChainLocked_def readDescriptorLocked_def
      decode_descriptor_def sub_bytes_def Let_def request_vm_def tx_queue_def zero_queue_def
      arm_memory_def arm_ReadIPA_def arm_ReadIPAInto_def go_slice_def)

lemma request_parses:
  "\<exists>hdr. parseVsockHeader (take 44 (drop 48 (vm_mem (the request_vm)))) = Inr hdr
     \<and> hOp hdr = vsockOpRequest \<and> hLen hdr = 0 \<and> hdr_key hdr = (5, 7)"
  by (simp add: parseVsockHeader_def sub_bytes_def request_vm_def hdr_key_def)

lemma request_handled:
  assumes "queues v = queues request_vsock" "gmem v = Some request_vm" "backend v = Some counting_backend"
    "hostLog v = [HCloseAll {}]"
  shows "\<exists>n u c. handleTXPacketLocked arm_memory 0 v = (Inr n, u) \<and> connections u (5, 7) = Some c
    \<and> length (queues u) = 3"
proof -
  obtain hdr where "parseVsockHeader (take 44 (drop 48 (vm_mem (the request_vm)))) = Inr hdr"
    "hOp hdr = vsockOpRequest" "hLen hdr = 0" "hdr_key hdr = (5, 7)"
    using request_parses by blast
  moreover have "length (take 44 (drop 48 (vm_mem (the request_vm)))) = 44" by (simp add: request_vm_def)
  ultimately show ?thesis
    using assms request_reads(3)
    by (simp add: handleTXPacketLocked_def request_vsock_state dispatch_packet_def handleConnectLocked_def
        counting_backend_def sendResponseLocked_def queueRxPacketLocked_def put_conn_def Let_def and_then_def
        del: take_drop drop_drop take_take)
qed

lemma preserves_same: "(\<And>v. same_conns v (snd (m v))) \<Longrightarrow> preserves (same_conns u) m"
  using same_conns_trans by (rule preservesI) blast

lemma preserves_same_conns:
  "preserves (same_conns u) (writeUsedLocked M i h n)" "preserves (same_conns u) (modify_state (advance_avail i))"
  "preserves (same_conns u) vs_raise"
  by (rule preserves_same, simp add: vs_used_same vs_advance_same vs_raise_same)+

lemma preserves_rx:
  assumes "0 < length (queues u)"
  shows "preserves (same_conns u) (processRXLocked M)"
proof (rule preservesI)
  fix v assume v: "same_conns u v"
  then have "0 < length (queues v)" using assms by (simp add: same_conns_def)
  then have "same_conns v (snd (processRXLocked M v))"
    using processRX_outcome [of M v "fst (processRXLocked M v)"] by simp
  then show "same_conns u (snd (processRXLocked M v))" using v same_conns_trans by blast
qed

lemma request_accepted:
  "\<exists>c. connections (snd (vs_Write arm_memory (0x9000 + regQueueNotify) 4 1 request_vsock)) (5, 7) = Some c"
proof -
  let ?v = "request_vsock\<lparr>mmioWrites := mmioWrites request_vsock + 1, txNotifies := txNotifies request_vsock + 1\<rparr>"
  obtain n u c where h: "handleTXPacketLocked arm_memory 0 ?v = (Inr n, u)" "connections u (5, 7) = Some c"
    "length (queues u) = 3"
    using request_handled [of ?v] request_vsock_state by auto
  then have lq: "0 < length (queues u)" by simp
  have q: "queues ?v ! 1 = tx_queue" "gmem ?v = Some request_vm" by (simp_all add: request_vsock_state)
  have "vs_tx_round arm_memory ?v =
      and_then (writeUsedLocked arm_memory 1 0 n) (\<lambda>_. modify_state (advance_avail 1)) u"
    using h request_reads q by (simp add: vs_tx_round_def and_then_def tx_queue_def zero_queue_def)
  then have "same_conns u (snd (vs_tx_round arm_memory ?v))"
    using preservesD [OF preserves_and_then [OF preserves_same_conns(1,2)], of u u] by simp
  moreover have "snd (run_avail (\<lambda>v. lastAvailIdx (queues v ! 1)) 1 (vs_tx_round arm_memory) ?v) =
      snd (vs_tx_round arm_memory ?v)"
    using q by (simp add: run_avail_def avail_loop.simps tx_queue_def zero_queue_def split: prod.splits sum.splits)
  ultimately obtain r w where w: "run_avail (\<lambda>v. lastAvailIdx (queues v ! 1)) 1 (vs_tx_round arm_memory) ?v = (r, w)"
    "same_conns u w" by (metis prod.collapse)
  have "vs_Write arm_memory (0x9000 + regQueueNotify) 4 1 request_vsock = vs_processTXLocked arm_memory ?v"
    by (simp add: vs_Write_def write_registers_def request_vsock_state)
  also have "\<dots> = and_then (run_avail (\<lambda>v. lastAvailIdx (queues v ! 1)) 1 (vs_tx_round arm_memory))
      (\<lambda>_. and_then (processRXLocked arm_memory) (\<lambda>_. vs_raise)) ?v"
    using q request_reads(1) by (simp add: vs_processTXLocked_def tx_queue_def)
  also have "\<dots> = (case r of Inl e \<Rightarrow> (Inl e, w) | Inr _ \<Rightarrow> and_then (processRXLocked arm_memory) (\<lambda>_. vs_raise) w)"
    using w(1) by (simp add: and_then_def split: sum.splits)
  finally have "same_conns u (snd (vs_Write arm_memory (0x9000 + regQueueNotify) 4 1 request_vsock))"
    using w(2) preservesD [OF preserves_and_then [OF preserves_rx preserves_same_conns(3)], of u w arm_memory] lq
    by (cases r) simp_all
  then show ?thesis using h(2) by (simp add: same_conns_def)
qed

theorem vsock_receive_counter_exact_witness:
  "\<exists>c h. connections (snd (vs_Write arm_memory (0x9000 + regQueueNotify) 4 1 request_vsock)) (5, 7) = Some c
    \<and> cbackend c = Some h \<and> rxCnt c = of_nat (length (written h
        (hostLog (snd (vs_Write arm_memory (0x9000 + regQueueNotify) 4 1 request_vsock)))))"
  using vsock_receive_counter_exact [OF vs_reachable.guest_write [OF request_vsock_reachable] counting_backend_fresh]
    request_accepted by blast

end
