(* ===== verification/VirtioState.thy ===== *)
theory VirtioState
  imports Console Rng Balloon Vsock
begin

text \<open>
  Saving and restoring the virtio devices (\<^verbatim>\<open>virtio/state.go\<close>): the transport registers, the queues, and
  the balloon's bitmap in its present form and in the form of older snapshots. The JSON encoding of the
  state is the standard library's.
\<close>

section \<open>State and operations\<close>

record QueueState =
  sSize :: u16
  sReady :: bool
  sDescAddr :: u64
  sAvailAddr :: u64
  sUsedAddr :: u64
  sLastAvailIdx :: u16
  sUsedIdx :: u16
  sNoNotify :: bool

record BalloonPageWord =
  wIndex :: u64
  wBits :: u64

record MMIOState =
  sDeviceFeatureSel :: u32
  sDriverFeatureSel :: u32
  sDriverFeatures :: u64
  sQueueSel :: u32
  sStatus :: u32
  sConfigGeneration :: u32
  sSharedMemorySel :: u32
  sLegacy :: bool
  sQueues :: "QueueState list"
  sBackendPaths :: "string list"
  sNumPages :: u32
  sActualPages :: u32
  sInflatedPageWords :: "BalloonPageWord list"
  sInflatedPages :: "u64 list"

definition snapshotQueue :: "queue \<Rightarrow> QueueState" where
  "snapshotQueue q = \<lparr>sSize = qsize q, sReady = qready q, sDescAddr = descAddr q, sAvailAddr = availAddr q,
     sUsedAddr = usedAddr q, sLastAvailIdx = lastAvailIdx q, sUsedIdx = usedIdx q, sNoNotify = noNotify q\<rparr>"

definition snapshotQueues :: "queue list \<Rightarrow> QueueState list" where
  "snapshotQueues qs = map snapshotQueue qs"

definition restoreQueue :: "QueueState \<Rightarrow> 'm option \<Rightarrow> (queue, unit) gomethod" where
  "restoreQueue st mem q0 =
     (let q = clearCache (q0\<lparr>qsize := sSize st, qready := sReady st, descAddr := sDescAddr st,
            availAddr := sAvailAddr st, usedAddr := sUsedAddr st, lastAvailIdx := sLastAvailIdx st,
            usedIdx := sUsedIdx st, noNotify := sNoNotify st\<rparr>) in
      if \<not> qready q \<or> qsize q = 0 \<or> mem = None
      then (Inr (), q\<lparr>lastAvailIdx := 0, usedIdx := 0\<rparr>) else (Inr (), q))"

fun restoreQueues :: "QueueState list \<Rightarrow> 'm option \<Rightarrow> (queue list, unit) gomethod" where
  "restoreQueues sts mem [] = (Inr (), [])"
| "restoreQueues [] mem (q # qs) = (case restoreQueues [] mem qs of (r, qs') \<Rightarrow> (r, zero_queue # qs'))"
| "restoreQueues (st # sts) mem (q # qs) =
     (case restoreQueue st mem q of
        (Inl e, q') \<Rightarrow> (Inl e, q' # qs)
      | (Inr _, q') \<Rightarrow> (case restoreQueues sts mem qs of (r, qs') \<Rightarrow> (r, q' # qs')))"

text \<open>The literal every \<^verbatim>\<open>SnapshotState\<close> starts from, and the assignments every \<^verbatim>\<open>RestoreState\<close> starts with.\<close>

definition snapshot_transport :: "('m, 'z) vdev_scheme \<Rightarrow> MMIOState" where
  "snapshot_transport d = \<lparr>sDeviceFeatureSel = deviceFeatureSel d, sDriverFeatureSel = driverFeatureSel d,
     sDriverFeatures = driverFeatures d, sQueueSel = queueSel d, sStatus = devStatus d,
     sConfigGeneration = configGeneration d, sSharedMemorySel = 0, sLegacy = False,
     sQueues = snapshotQueues (queues d), sBackendPaths = [], sNumPages = 0, sActualPages = 0,
     sInflatedPageWords = [], sInflatedPages = []\<rparr>"

definition restore_registers :: "MMIOState \<Rightarrow> ('m, 'z) vdev_scheme \<Rightarrow> ('m, 'z) vdev_scheme" where
  "restore_registers st d = d\<lparr>deviceFeatureSel := sDeviceFeatureSel st, driverFeatureSel := sDriverFeatureSel st,
     driverFeatures := sDriverFeatures st, queueSel := sQueueSel st, devStatus := sStatus st,
     interruptStatus := 0, irqHigh := False, configGeneration := sConfigGeneration st\<rparr>"

definition restore_queues :: "MMIOState \<Rightarrow> (('m, 'z) vdev_scheme, unit) gomethod" where
  "restore_queues st d = (case restoreQueues (sQueues st) (gmem d) (queues d) of (r, qs) \<Rightarrow> (r, d\<lparr>queues := qs\<rparr>))"

definition con_SnapshotState :: "'m console \<Rightarrow> MMIOState" where
  "con_SnapshotState c = snapshot_transport c"

definition con_RestoreState :: "MMIOState \<Rightarrow> ('m console, unit) gomethod" where
  "con_RestoreState st c = restore_queues st (restore_registers st c)"

definition rng_SnapshotState :: "'m rng \<Rightarrow> MMIOState" where
  "rng_SnapshotState r = (snapshot_transport r)\<lparr>sQueues := [snapshotQueue (queues r ! 0)]\<rparr>"

definition rng_RestoreState :: "MMIOState \<Rightarrow> ('m rng, unit) gomethod" where
  "rng_RestoreState st r0 =
     (let r = restore_registers st r0 in
      case restoreQueues (sQueues st) (gmem r) [zero_queue] of
        (Inl e, qs) \<Rightarrow> (Inl e, r)
      | (Inr _, qs) \<Rightarrow> (Inr (), r\<lparr>queues := [qs ! 0]\<rparr>))"

definition bal_SnapshotState :: "'m balloon \<Rightarrow> MMIOState" where
  "bal_SnapshotState b = (snapshot_transport b)\<lparr>sNumPages := numPages b, sActualPages := actualPages b,
     sInflatedPageWords := map (\<lambda>(i, w). \<lparr>wIndex = i, wBits = w\<rparr>) (inflatedPageWordsLocked b)\<rparr>"

text \<open>The two loops that rebuild the bitmap.\<close>

definition restore_word :: "BalloonPageWord \<Rightarrow> (u64 \<rightharpoonup> u64) \<Rightarrow> (u64 \<rightharpoonup> u64)" where
  "restore_word w m = (if wBits w \<noteq> 0 then m(wIndex w \<mapsto> wBits w) else m)"

definition restore_inflated :: "MMIOState \<Rightarrow> (u64 \<rightharpoonup> u64)" where
  "restore_inflated st =
     (let m = fold restore_word (sInflatedPageWords st) Map.empty in
      if sInflatedPageWords st = [] then fold markInflatedLocked (sInflatedPages st) m else m)"

definition bal_RestoreState :: "MMIOState \<Rightarrow> ('m balloon, unit) gomethod" where
  "bal_RestoreState st b =
     restore_queues st ((restore_registers st b)\<lparr>numPages := sNumPages st, actualPages := sActualPages st,
       inflated := restore_inflated st\<rparr>)"

definition vs_SnapshotState :: "'m vsock \<Rightarrow> MMIOState" where
  "vs_SnapshotState v = snapshot_transport v"

definition vs_RestoreState :: "MMIOState \<Rightarrow> ('m vsock, unit) gomethod" where
  "vs_RestoreState st v =
     restore_queues st ((restore_registers st v)\<lparr>connections := Map.empty, pendingRx := []\<rparr>)"

section \<open>Queues\<close>

text \<open>
  A queue is settled when a restore loses nothing of it: it caches no memory, and its indices are zero
  unless it is in use.
\<close>

definition settled :: "'m option \<Rightarrow> queue \<Rightarrow> bool" where
  "settled mem q \<longleftrightarrow> descMem q = None \<and> availMem q = None \<and> usedMem q = None
     \<and> (\<not> qready q \<or> qsize q = 0 \<or> mem = None \<longrightarrow> lastAvailIdx q = 0 \<and> usedIdx q = 0)"

lemma restoreQueue_snapshot: "settled mem q \<Longrightarrow> restoreQueue (snapshotQueue q) mem q0 = (Inr (), q)"
  by (auto simp: restoreQueue_def snapshotQueue_def clearCache_def settled_def Let_def)

lemma restoreQueues_snapshot:
  "length qs0 = length qs \<Longrightarrow> list_all (settled mem) qs \<Longrightarrow> restoreQueues (snapshotQueues qs) mem qs0 = (Inr (), qs)"
  by (induction qs arbitrary: qs0) (auto simp: snapshotQueues_def restoreQueue_snapshot length_Suc_conv)

section \<open>The bitmap\<close>

lemma restore_words:
  assumes "distinct (map wIndex ws)" "\<forall>w \<in> set ws. wBits w \<noteq> 0"
  shows "fold restore_word ws m = (\<lambda>i. case map_of (map (\<lambda>w. (wIndex w, wBits w)) ws) i of None \<Rightarrow> m i | Some b \<Rightarrow> Some b)"
  using assms
proof (induction ws arbitrary: m)
  case (Cons w ws)
  have "map_of (map (\<lambda>w. (wIndex w, wBits w)) ws) (wIndex w) = None"
    using Cons.prems(1) by (auto simp: map_of_eq_None_iff)
  then show ?case using Cons by (auto simp: restore_word_def fun_eq_iff split: option.splits)
qed simp

lemma restore_inflated_snapshot:
  assumes "no_empty_word (inflated b)"
  shows "restore_inflated (bal_SnapshotState b) = inflated b"
proof -
  let ?ks = "sorted_list_of_set (dom (inflated b))" and ?ws = "sInflatedPageWords (bal_SnapshotState b)"
  have ws: "?ws = map (\<lambda>i. \<lparr>wIndex = i, wBits = map_word (inflated b) i\<rparr>) ?ks"
    by (simp add: bal_SnapshotState_def inflatedPageWordsLocked_def)
  have ks: "set ?ks = dom (inflated b)" "distinct ?ks" by simp_all
  have "fold restore_word ?ws Map.empty = map_of (map (\<lambda>i. (i, map_word (inflated b) i)) ?ks)"
    using assms ks by (subst restore_words) (auto simp: ws comp_def fun_eq_iff no_empty_word_def map_word_def split: option.splits)
  also have "\<dots> = inflated b"
    by (auto simp: fun_eq_iff map_of_map_restrict restrict_map_def ks(1) map_word_def split: option.splits)
  finally show ?thesis
    by (auto simp: restore_inflated_def Let_def bal_SnapshotState_def snapshot_transport_def)
qed

section \<open>What every balloon state satisfies\<close>

definition uncached :: "queue \<Rightarrow> bool" where
  "uncached q \<longleftrightarrow> descMem q = None \<and> availMem q = None \<and> usedMem q = None"

definition bal_inv :: "'m balloon \<Rightarrow> bool" where
  "bal_inv b \<longleftrightarrow> no_empty_word (inflated b) \<and> length (queues b) = 2 \<and> list_all uncached (queues b)"

lemma bal_inv_cong:
  "inflated b' = inflated b \<Longrightarrow> queues b' = queues b \<Longrightarrow> bal_inv b' \<longleftrightarrow> bal_inv b"
  by (simp add: bal_inv_def)

lemma uncached_update: "list_all uncached qs \<Longrightarrow> uncached q \<Longrightarrow> list_all uncached (qs[i := q])"
  using set_update_subset_insert [of qs i q] by (auto simp: list_all_iff)

lemma bal_inv_queue:
  assumes "bal_inv b" "uncached (queues b ! i) \<Longrightarrow> uncached q"
  shows "bal_inv (b\<lparr>queues := (queues b)[i := q]\<rparr>)"
proof (cases "i < 2")
  case True
  then have "uncached q" using assms by (simp add: bal_inv_def list_all_length)
  then show ?thesis using assms(1) by (simp add: bal_inv_def uncached_update)
next
  case False
  then show ?thesis using assms(1) by (simp add: bal_inv_def list_update_beyond)
qed

lemma bal_inv_gmem: "bal_inv (b\<lparr>gmem := m\<rparr>) \<longleftrightarrow> bal_inv b"
  by (simp add: bal_inv_def)

lemma writeQueueUsed_uncached:
  "writeQueueUsed M h n (q, m) = (r, (q', m')) \<Longrightarrow> uncached q \<Longrightarrow> uncached q'"
  by (auto simp: writeQueueUsed_def uncached_def Let_def split: prod.splits sum.splits if_splits)

lemma bal_used_inv [preserves_intros]: "preserves bal_inv (writeUsedLocked M i h n)"
proof (rule preservesI)
  fix b :: "'a balloon" assume b: "bal_inv b"
  show "bal_inv (snd (writeUsedLocked M i h n b))"
  proof (cases "gmem b")
    case (Some m)
    obtain r q' m' where w: "writeQueueUsed M h n (queues b ! i, m) = (r, (q', m'))" by (metis prod.exhaust)
    have "bal_inv (b\<lparr>queues := (queues b)[i := q']\<rparr>)"
      using b writeQueueUsed_uncached [OF w] by (rule bal_inv_queue)
    then show ?thesis using Some w by (simp add: writeUsedLocked_def bal_inv_def)
  qed (use b in \<open>simp add: writeUsedLocked_def\<close>)
qed

lemma bal_advance_inv: "bal_inv b \<Longrightarrow> bal_inv (advance_avail i b)"
  unfolding advance_avail_def by (rule bal_inv_queue) (simp_all add: uncached_def)

lemma bal_update_irq_inv: "bal_inv b \<Longrightarrow> bal_inv (snd (updateIRQLocked b))"
  by (auto simp: updateIRQLocked_def SetIRQ_def Let_def bal_inv_def split: option.splits)

lemma bal_irq_inv [preserves_intros]: "preserves bal_inv (raise_interrupt x)" "preserves bal_inv (interrupt_ack v)"
  by (rule preservesI, unfold raise_interrupt_def, rule bal_update_irq_inv, simp add: bal_inv_def)
    (rule preservesI, unfold interrupt_ack_def, rule bal_update_irq_inv, simp add: bal_inv_def)

lemma call_each_inv: "preserves (bal_inv :: 'm balloon \<Rightarrow> bool) (call_each cs)"
proof (induction cs)
  case (Cons c cs)
  have "preserves (bal_inv :: 'm balloon \<Rightarrow> bool) (call_reclaimer c)"
    by (rule preservesI) (auto simp: call_reclaimer_def bal_inv_def split: option.splits)
  from preserves_and_then [OF this Cons] show ?case by (simp add: preserves_def)
qed (simp add: preserves_def)

lemma processPFNs_inv: "preserves bal_inv (processPFNsLocked M qidx addr n)"
proof (rule preservesI)
  fix b :: "'a balloon" assume b: "bal_inv b"
  have "bal_inv (b\<lparr>inflated := mark_all qidx pfns (inflated b)\<rparr>)" for pfns
    using b by (simp add: bal_inv_def mark_all_no_empty_word)
  then have "bal_inv (snd (reclaimPFNsLocked qidx pfns (b\<lparr>inflated := mark_all qidx pfns (inflated b)\<rparr>)))" for pfns
    by (auto simp: reclaimPFNsLocked_def intro: preservesD [OF call_each_inv] split: option.splits)
  then show "bal_inv (snd (processPFNsLocked M qidx addr n b))"
    using b by (simp add: processPFNsLocked_def Let_def split: option.splits sum.splits)
qed

lemma bal_chain_inv: "bal_inv b \<Longrightarrow> bal_inv (snd (bal_chain_loop n M q qidx i b))"
proof (induction n arbitrary: i b)
  case (Suc n)
  have "bal_inv b'" if "processPFNsLocked M qidx a l b = (r, b')" for a l r b'
    using preservesD [OF processPFNs_inv Suc.prems, of M qidx a l] that by simp
  then show ?case using Suc by (auto split: option.splits sum.splits prod.splits)
qed simp

lemma bal_round_inv [preserves_intros]: "preserves bal_inv (bal_round M qidx)"
proof (rule preservesI)
  fix b :: "'a balloon" assume b: "bal_inv b"
  have "preserves bal_inv (processChainLocked M qidx head)" for head
    by (rule preservesI) (simp add: processChainLocked_def Let_def bal_chain_inv)
  then have "preserves bal_inv (and_then (processChainLocked M qidx head) (\<lambda>_.
      and_then (writeUsedLocked M qidx head 0) (\<lambda>_. modify_state (advance_avail qidx))))" for head
    by (intro preserves_intros bal_advance_inv)
  then show "bal_inv (snd (bal_round M qidx b))"
    using b by (auto simp: bal_round_def Let_def dest: preservesD split: option.splits sum.splits)
qed

lemma bal_process_inv: "preserves bal_inv (bal_processQueueLocked M qidx)"
proof (rule preservesI)
  fix b :: "'a balloon" assume b: "bal_inv b"
  have "preserves bal_inv (and_then (run_avail (\<lambda>b. lastAvailIdx (queues b ! qidx)) a (bal_round M qidx))
      (\<lambda>_. raise_interrupt intVring))" for a
    by (intro preserves_intros)
  moreover have "preserves bal_inv (and_then (run_avail (\<lambda>b. lastAvailIdx (queues b ! qidx)) a (bal_round M qidx))
      (\<lambda>_. return_ok ()))" for a
    by (intro preserves_intros)
  ultimately show "bal_inv (snd (bal_processQueueLocked M qidx b))"
    using b by (auto simp: bal_processQueueLocked_def Let_def dest: preservesD split: sum.splits)
qed

lemma uncached_set:
  "uncached q \<Longrightarrow> uncached (q\<lparr>qsize := n\<rparr>)" "uncached q \<Longrightarrow> uncached (set_ready v q)"
  "uncached q \<Longrightarrow> uncached (setQueueAddr a fld low q)"
  by (simp_all add: uncached_def set_ready_def Let_def) (cases fld; simp)+

lemma bal_selected_inv:
  "bal_inv b \<Longrightarrow> (\<And>q. uncached q \<Longrightarrow> uncached (f q)) \<Longrightarrow> bal_inv (update_selected f b)"
  by (auto simp: update_selected_def intro: bal_inv_queue split: option.splits)

lemma bal_registers_inv: "write_registers off v b = Some b' \<Longrightarrow> bal_inv b \<Longrightarrow> bal_inv b'"
  by (auto simp: write_registers_def set_driver_features_def bal_inv_cong [of "b\<lparr>deviceFeatureSel := _\<rparr>" b]
      bal_inv_cong [of "b\<lparr>driverFeatureSel := _\<rparr>" b] bal_inv_cong [of "b\<lparr>driverFeatures := _\<rparr>" b]
      bal_inv_cong [of "b\<lparr>queueSel := _\<rparr>" b]
      intro: bal_selected_inv uncached_set split: if_splits)


text \<open>Everything that can happen to a balloon after it was created.\<close>

inductive bal_reachable :: "'m guest_memory \<Rightarrow> 'm balloon \<Rightarrow> bool" for M where
  created: "bal_reachable M (NewBalloon b sz line)"
| attached: "bal_reachable M b \<Longrightarrow> bal_reachable M (bal_Attach m r ctl b)"
| guest_write: "bal_reachable M b \<Longrightarrow> bal_reachable M (snd (bal_Write M addr n v b))"
| target_set: "bal_reachable M b \<Longrightarrow> bal_reachable M (snd (SetTargetPages pages b))"
| restored: "bal_reachable M b \<Longrightarrow> bal_reachable M (snd (bal_RestoreState st b))"

lemma bal_Write_inv:
  assumes "bal_inv b"
  shows "bal_inv (snd (bal_Write M addr n v b))"
proof (cases "write_registers (addr - devBase b) v b")
  case None
  have "bal_inv (snd (writeActualLocked off n w b))" for off w
    using assms by (auto simp: writeActualLocked_def bal_inv_def split: sum.splits)
  moreover have st: "bal_inv (b\<lparr>devStatus := w\<rparr>)" for w using assms by (simp add: bal_inv_def)
  moreover have "bal_inv (snd (raise_interrupt x (b\<lparr>devStatus := w\<rparr>)))" for x w
    using preservesD [OF bal_irq_inv(1) st] .
  moreover have "bal_inv (bal_resetLocked c)" for c :: "'a balloon"
    by (simp add: bal_inv_def bal_resetLocked_def no_empty_word_def uncached_def zero_queue_def)
  ultimately show ?thesis
    using None assms preservesD [OF bal_irq_inv(2) assms] preservesD [OF bal_process_inv assms]
    by (simp add: bal_Write_def Let_def)
qed (use bal_registers_inv assms in \<open>auto simp: bal_Write_def Let_def\<close>)

lemma restore_inflated_no_empty_word: "no_empty_word (restore_inflated st)"
proof -
  have "no_empty_word m \<Longrightarrow> no_empty_word (fold restore_word ws m)" for m ws
    by (induction ws arbitrary: m) (auto simp: restore_word_def no_empty_word_def)
  moreover have "no_empty_word m \<Longrightarrow> no_empty_word (fold markInflatedLocked ps m)" for m ps
    by (induction ps arbitrary: m) (simp_all add: mark_no_empty_word)
  ultimately show ?thesis by (simp add: restore_inflated_def Let_def no_empty_word_def [of Map.empty])
qed

lemma restoreQueues_uncached:
  "restoreQueues sts m qs = (r, qs') \<Longrightarrow> list_all uncached qs \<Longrightarrow> length qs' = length qs \<and> list_all uncached qs'"
proof (induction sts m qs arbitrary: r qs' rule: restoreQueues.induct)
  case (3 st sts mem q qs)
  obtain qs1 where "restoreQueues sts mem qs = (r, qs1)" "qs' = snd (restoreQueue st mem q) # qs1"
    using 3 by (auto simp: restoreQueue_def Let_def split: if_splits prod.splits)
  moreover have "uncached (snd (restoreQueue st mem q))"
    by (simp add: restoreQueue_def clearCache_def uncached_def Let_def)
  ultimately show ?case using 3 by (auto simp: restoreQueue_def Let_def split: if_splits)
qed (auto simp: uncached_def zero_queue_def split: prod.splits)

lemma bal_restore_inv:
  assumes "bal_inv b"
  shows "bal_inv (snd (bal_RestoreState st b))"
proof -
  obtain r qs where qs: "restoreQueues (sQueues st) (gmem b) (queues b) = (r, qs)" by force
  then have "length qs = 2 \<and> list_all uncached qs" using restoreQueues_uncached assms by (force simp: bal_inv_def)
  then show ?thesis
    using qs restore_inflated_no_empty_word
    by (simp add: bal_RestoreState_def restore_queues_def restore_registers_def bal_inv_def)
qed

lemma bal_reachable_inv: "bal_reachable M b \<Longrightarrow> bal_inv b"
proof (induction rule: bal_reachable.induct)
  case (created b sz line)
  then show ?case by (simp add: NewBalloon_def bal_inv_def bal_resetLocked_def no_empty_word_def uncached_def zero_queue_def)
next
  case (attached b m r ctl)
  then show ?case by (simp add: bal_Attach_def bal_inv_def Let_def)
next
  case (target_set b pages)
  then have i: "bal_inv (b\<lparr>numPages := pages, configGeneration := configGeneration b + 1\<rparr>)" by (simp add: bal_inv_def)
  from preservesD [OF bal_irq_inv(1) i] show ?case using target_set i by (simp add: SetTargetPages_def Let_def)
qed (simp_all add: bal_Write_inv bal_restore_inv)

section \<open>Properties\<close>

text \<open>
  What a device is after a restore: it keeps what the host gave it, takes over everything the guest had
  programmed into the saved one, and has no interrupt pending.
\<close>

definition adopt :: "('m, 'y) vdev_scheme \<Rightarrow> ('m, 'z) vdev_scheme \<Rightarrow> ('m, 'z) vdev_scheme" where
  "adopt d d0 = d0\<lparr>deviceFeatureSel := deviceFeatureSel d, driverFeatureSel := driverFeatureSel d,
     driverFeatures := driverFeatures d, queueSel := queueSel d, devStatus := devStatus d,
     interruptStatus := 0, irqHigh := False, configGeneration := configGeneration d, queues := queues d\<rparr>"

definition restorable :: "('m, 'y) vdev_scheme \<Rightarrow> ('m, 'z) vdev_scheme \<Rightarrow> bool" where
  "restorable d d0 \<longleftrightarrow> length (queues d0) = length (queues d) \<and> list_all (settled (gmem d0)) (queues d)"

lemma restore_queues_snapshot:
  assumes "restorable d d0"
  shows "restore_queues (snapshot_transport d) (restore_registers (snapshot_transport d) d0) = (Inr (), adopt d d0)"
  using assms restoreQueues_snapshot [of "queues d0" "queues d" "gmem d0"]
  by (simp add: restorable_def restore_queues_def restore_registers_def snapshot_transport_def adopt_def)

text \<open>
  Saving a device and restoring it into another one of the same kind gives back everything the guest
  programmed, the registers and the queues, for the console, the entropy source and the socket device,
  provided that queues not in use have zero indices. The restored device has no interrupt pending, and the
  socket device has no connections and no packets waiting.
\<close>

theorem virtio_snapshot_round_trip:
  "(restorable c c0 \<longrightarrow> con_RestoreState (con_SnapshotState c) c0 = (Inr (), adopt c c0))
   \<and> (restorable r r0 \<and> length (queues r) = 1 \<longrightarrow>
        rng_RestoreState (rng_SnapshotState r) r0 = (Inr (), adopt r r0))
   \<and> (restorable v v0 \<longrightarrow>
        vs_RestoreState (vs_SnapshotState v) v0 = (Inr (), (adopt v v0)\<lparr>connections := Map.empty, pendingRx := []\<rparr>))"
proof (intro conjI impI)
  assume "restorable c c0"
  then show "con_RestoreState (con_SnapshotState c) c0 = (Inr (), adopt c c0)"
    by (simp add: con_RestoreState_def con_SnapshotState_def restore_queues_snapshot)
next
  assume r: "restorable r r0 \<and> length (queues r) = 1"
  then obtain q where q: "queues r = [q]" by (auto simp: length_Suc_conv)
  then have "settled (gmem r0) q" using r by (simp add: restorable_def)
  then show "rng_RestoreState (rng_SnapshotState r) r0 = (Inr (), adopt r r0)"
    using q by (simp add: rng_RestoreState_def rng_SnapshotState_def restore_registers_def snapshot_transport_def
        restoreQueue_snapshot adopt_def Let_def)
next
  let ?st = "snapshot_transport v" and ?v = "v0\<lparr>connections := Map.empty, pendingRx := []\<rparr>"
  assume "restorable v v0"
  then have "restorable v ?v" by (simp add: restorable_def)
  moreover have "(restore_registers ?st v0)\<lparr>connections := Map.empty, pendingRx := []\<rparr> = restore_registers ?st ?v"
    "adopt v ?v = (adopt v v0)\<lparr>connections := Map.empty, pendingRx := []\<rparr>"
    by (simp_all add: restore_registers_def adopt_def)
  ultimately show "vs_RestoreState (vs_SnapshotState v) v0 = (Inr (), (adopt v v0)\<lparr>connections := Map.empty, pendingRx := []\<rparr>)"
    using restore_queues_snapshot [of v ?v] by (simp add: vs_RestoreState_def vs_SnapshotState_def)
qed

theorem virtio_snapshot_round_trip_witness:
  "con_RestoreState (con_SnapshotState (tx_console\<lparr>interruptStatus := 1\<rparr>)) (dev_Attach (Some tx_vm) None (NewConsole 0x9000 0x200 5 None)) =
     (Inr (), adopt tx_console (dev_Attach (Some tx_vm) None (NewConsole 0x9000 0x200 5 None)))
   \<and> rng_RestoreState (rng_SnapshotState rng_demo) rng_demo = (Inr (), adopt rng_demo rng_demo)
   \<and> vs_RestoreState (vs_SnapshotState rx_vsock) rx_vsock =
     (Inr (), (adopt rx_vsock rx_vsock)\<lparr>connections := Map.empty, pendingRx := []\<rparr>)"
  using virtio_snapshot_round_trip [of "tx_console\<lparr>interruptStatus := 1\<rparr>"
      "dev_Attach (Some tx_vm) None (NewConsole 0x9000 0x200 5 None)" rng_demo rng_demo rx_vsock rx_vsock]
  by (simp add: restorable_def settled_def tx_console_def rng_demo_def rx_eval dev_Attach_def NewConsole_def
      con_resetLocked_def adopt_def)


definition saved_state :: MMIOState where
  "saved_state = (snapshot_transport (NewBalloon 0x9000 0x200 6 :: arm_vm option balloon))
     \<lparr>sNumPages := 3, sActualPages := 2, sInflatedPageWords := [\<lparr>wIndex = 7, wBits = 0x11\<rparr>, \<lparr>wIndex = 2, wBits = 0\<rparr>]\<rparr>"

definition saved_balloon :: "arm_vm option balloon" where
  "saved_balloon = snd (bal_RestoreState saved_state (NewBalloon 0x9000 0x200 6))"

lemmas saved_eval = saved_balloon_def saved_state_def bal_RestoreState_def restore_queues_def restore_registers_def
  snapshot_transport_def snapshotQueues_def NewBalloon_def bal_resetLocked_def restoreQueue_def snapshotQueue_def
  clearCache_def zero_queue_def restore_inflated_def restore_word_def


text \<open>
  Snapshots in the older form, a list of frames instead of bitmap words, restore to exactly the set of
  those frames.
\<close>

theorem balloon_old_snapshot:
  assumes "sInflatedPageWords st = []"
  shows "inflated_set (inflated (snd (bal_RestoreState st b))) = set (sInflatedPages st)"
proof -
  have "inflated_set (fold markInflatedLocked ps m) = inflated_set m \<union> set ps" for ps m
    by (induction ps arbitrary: m) auto
  moreover have "inflated_set Map.empty = {}" by (simp add: inflated_set_def map_word_def)
  ultimately show ?thesis
    using assms by (simp add: bal_RestoreState_def restore_queues_def restore_inflated_def split: prod.splits)
qed

theorem balloon_old_snapshot_witness:
  "inflated_set (inflated (snd (bal_RestoreState ((bal_SnapshotState (NewBalloon 0x9000 0x200 6))
     \<lparr>sInflatedPages := [5, 64, 5]\<rparr>) (NewBalloon 0x9000 0x200 6 :: arm_vm option balloon)))) = {5, 64}"
  using balloon_old_snapshot [of "(bal_SnapshotState (NewBalloon 0x9000 0x200 6))\<lparr>sInflatedPages := [5, 64, 5]\<rparr>"
      "NewBalloon 0x9000 0x200 6 :: arm_vm option balloon"]
  by (auto simp: bal_SnapshotState_def inflatedPageWordsLocked_def NewBalloon_def bal_resetLocked_def)

end
