(* ===== verification/GuestSlice.thy ===== *)
theory GuestSlice
  imports GuestMem
begin

text \<open>
  Direct access to guest memory: \<^verbatim>\<open>ReadIPAInto\<close> and \<^verbatim>\<open>SliceIPA\<close>, the optional interfaces the NVMe
  controller asks its memory for (\<^verbatim>\<open>guestMemoryReaderInto\<close> and \<^verbatim>\<open>guestMemorySlicer\<close> in
  \<^verbatim>\<open>nvme/controller.go\<close>), and \<^verbatim>\<open>SliceIPA\<close> of both KVM machines. A slice aliases host memory, so it is
  modelled as the window it is: its offset in host memory and its length.
\<close>

section \<open>The interface and its contract\<close>

type_synonym slice = "nat \<times> nat"

text \<open>
  A memory with the interfaces it implements. \<open>slice_get\<close> and \<open>slice_put\<close> are what indexing and
  \<^verbatim>\<open>copy\<close> do on a slice of it.
\<close>

record 'm sliced_memory =
  ipa :: "'m guest_memory"
  ReadIPAInto :: "('m \<Rightarrow> u64 \<Rightarrow> nat \<Rightarrow> goerr + bytes) option"
  SliceIPA :: "('m \<Rightarrow> u64 \<Rightarrow> int \<Rightarrow> goerr + slice) option"
  slice_get :: "'m \<Rightarrow> slice \<Rightarrow> bytes"
  slice_put :: "nat \<Rightarrow> bytes \<Rightarrow> 'm \<Rightarrow> 'm"

definition aliases :: "'m sliced_memory \<Rightarrow> ('m \<Rightarrow> u64 \<Rightarrow> u8) \<Rightarrow> 'm \<Rightarrow> slice \<Rightarrow> u64 \<Rightarrow> nat \<Rightarrow> bool" where
  "aliases N byte_at m s a n \<longleftrightarrow> snd s = n
     \<and> (\<forall>i k. i + k \<le> n \<longrightarrow> slice_get N m (fst s + i, k) = range_bytes (byte_at m) (a + of_nat i) k)
     \<and> (\<forall>i d. i + length d \<le> n \<longrightarrow>
          slice_put N (fst s + i) d m = snd (WriteIPA (ipa N) m (a + of_nat i) d))"

locale sliced_mem = guest_mem "ipa N" invar mapped byte_at
  for N :: "'m sliced_memory" and invar :: "'m \<Rightarrow> bool" and mapped :: "'m \<Rightarrow> u64 \<Rightarrow> nat \<Rightarrow> bool"
    and byte_at :: "'m \<Rightarrow> u64 \<Rightarrow> u8" +
  fixes layout :: "'m \<Rightarrow> 'l"
  assumes into_mapped:
      "invar m \<Longrightarrow> mapped m a n \<Longrightarrow> n < 2 ^ 63 \<Longrightarrow> ReadIPAInto N = Some g \<Longrightarrow>
         g m a n = Inr (range_bytes (byte_at m) a n)"
    and slice_mapped:
      "invar m \<Longrightarrow> mapped m a n \<Longrightarrow> 0 < n \<Longrightarrow> n < 2 ^ 63 \<Longrightarrow> SliceIPA N = Some f \<Longrightarrow>
         \<exists>s. f m a (int n) = Inr s \<and> aliases N byte_at m s a n"
    and slice_layout: "SliceIPA N = Some f \<Longrightarrow> layout m' = layout m \<Longrightarrow> f m' = f m"
    and mapped_layout: "layout m' = layout m \<Longrightarrow> mapped m' = mapped m"
    and mapped_sub: "invar m \<Longrightarrow> mapped m a n \<Longrightarrow> i + k \<le> n \<Longrightarrow> mapped m (a + of_nat i) k"
    and write_keeps_layout: "invar m \<Longrightarrow> length d < 2 ^ 63 \<Longrightarrow> layout (snd (WriteIPA (ipa N) m a d)) = layout m"
begin

text \<open>A slice taken once goes on aliasing its range while memory changes.\<close>

lemma slice_persists:
  assumes "invar m" "mapped m a n" "0 < n" "n < 2 ^ 63" "SliceIPA N = Some f" "f m a (int n) = Inr s"
    and "invar m'" "layout m' = layout m"
  shows "aliases N byte_at m' s a n"
proof -
  have "f m' a (int n) = Inr s" "mapped m' a n"
    using assms slice_layout [OF assms(5,8)] mapped_layout [OF assms(8)] by simp_all
  then show ?thesis using slice_mapped [OF assms(7) _ assms(3,4,5), of a] by auto
qed

end

section \<open>The arm64 machine\<close>

definition arm_SliceIPA :: "arm_vm option \<Rightarrow> u64 \<Rightarrow> int \<Rightarrow> goerr + slice" where
  "arm_SliceIPA vm addr sz =
     (case vm of None \<Rightarrow> Inl VmNil
      | Some v \<Rightarrow>
          if sz < 0 then Inl (InvalidSize sz)
          else if sz = 0 then Inr (0, 0)
          else let start = GuestPhysAddr v; end = start + MemorySize v in
            if addr < start \<or> end < addr + of_int sz then Inl (Unmapped addr (nat sz))
            else let off = addr - start in
              case go_slice (vm_mem v) off (off + of_int sz) of
                Inl e \<Rightarrow> Inl e | Inr bs \<Rightarrow> Inr (unat off, length bs))"

definition arm_get :: "arm_vm option \<Rightarrow> slice \<Rightarrow> bytes" where
  "arm_get vm s = (case vm of None \<Rightarrow> [] | Some v \<Rightarrow> take (snd s) (drop (fst s) (vm_mem v)))"

definition arm_put :: "nat \<Rightarrow> bytes \<Rightarrow> arm_vm option \<Rightarrow> arm_vm option" where
  "arm_put off d vm = map_option (\<lambda>v. v\<lparr>vm_mem := overwrite (vm_mem v) off d\<rparr>) vm"

definition arm_sliced :: "arm_vm option sliced_memory" where
  "arm_sliced = \<lparr>ipa = arm_memory, ReadIPAInto = Some arm_ReadIPAInto, SliceIPA = Some arm_SliceIPA,
     slice_get = arm_get, slice_put = arm_put\<rparr>"

definition arm_layout :: "arm_vm option \<Rightarrow> (u64 \<times> u64 \<times> nat) option" where
  "arm_layout vm = map_option (\<lambda>v. (GuestPhysAddr v, MemorySize v, length (vm_mem v))) vm"

lemma arm_into_mapped:
  assumes "arm_wf vm" "arm_mapped vm a n"
  shows "arm_ReadIPAInto vm a n = Inr (range_bytes (arm_byte_at vm) a n)"
proof -
  obtain v where v: "vm = Some v" using assms(2) by (auto simp: arm_mapped_def split: option.splits)
  show ?thesis
  proof (cases "n = 0")
    case False
    then show ?thesis using arm_read_mapped [OF assms] v by (simp add: arm_ReadIPA_def)
  qed (simp add: v arm_ReadIPAInto_def)
qed

lemma arm_mapped_sub:
  assumes "arm_wf vm" "arm_mapped vm a n" "i + k \<le> n"
  shows "arm_mapped vm (a + of_nat i) k"
proof (cases "k = 0")
  case False
  obtain v where v: "vm = Some v" using assms(2) by (auto simp: arm_mapped_def split: option.splits)
  have "unat (a + of_nat i) = unat a + i"
    using assms v False by (intro unat_add_of_nat) (auto simp: arm_mapped_def arm_wf_def)
  then show ?thesis using assms v False by (auto simp: arm_mapped_def)
qed (use assms in \<open>auto simp: arm_mapped_def split: option.splits\<close>)

lemma arm_slice_mapped:
  assumes wf: "arm_wf vm" and m: "arm_mapped vm a n" and n: "0 < n" "n < 2 ^ 63"
  shows "\<exists>s. arm_SliceIPA vm a (int n) = Inr s \<and> aliases arm_sliced arm_byte_at vm s a n"
proof -
  obtain v where v: "vm = Some v" using m by (auto simp: arm_mapped_def split: option.splits)
  let ?o = "unat a - unat (GuestPhysAddr v)"
  note r = arm_range [OF wf [unfolded v] m [unfolded v] n(1)]
  have s: "arm_SliceIPA vm a (int n) = Inr (?o, n)"
    using r n v by (simp add: arm_SliceIPA_def go_slice_def Let_def)
  have get: "arm_get vm (?o + i, k) = range_bytes (arm_byte_at vm) (a + of_nat i) k" if "i + k \<le> n" for i k
    using that r(6) arm_byte_at_range [OF wf [unfolded v] m [unfolded v]] v
    by (intro nth_equalityI) (simp_all add: arm_get_def add.assoc flip: of_nat_add)
  have put: "arm_put (?o + i) d vm = snd (arm_WriteIPA vm (a + of_nat i) d)" if "i + length d \<le> n" for i d
  proof (cases "d = []")
    case False
    have mi: "arm_mapped (Some v) (a + of_nat i) (length d)" using arm_mapped_sub [OF wf m that] v by simp
    have "unat (a + of_nat i) = unat a + i"
      using wf m v that False by (intro unat_add_of_nat) (auto simp: arm_mapped_def arm_wf_def)
    moreover have "unat (GuestPhysAddr v) \<le> unat a" using r(1) by (simp add: word_le_nat_alt)
    ultimately show ?thesis
      using arm_WriteIPA_mapped [OF wf [unfolded v] mi False] v by (simp add: arm_put_def add.commute)
  next
    case True
    have "overwrite xs j [] = xs" for xs :: bytes and j by (simp add: overwrite_def)
    then show ?thesis using True v by (simp add: arm_put_def arm_WriteIPA_def)
  qed
  show ?thesis using s get put by (auto simp: aliases_def arm_sliced_def arm_memory_def)
qed

lemma arm_sliced_simps [simp]:
  "ipa arm_sliced = arm_memory" "ReadIPAInto arm_sliced = Some arm_ReadIPAInto" "SliceIPA arm_sliced = Some arm_SliceIPA"
  "slice_get arm_sliced = arm_get" "slice_put arm_sliced = arm_put"
  by (simp_all add: arm_sliced_def)

lemma arm_layout_facts:
  assumes "arm_layout m' = arm_layout m"
  shows "arm_SliceIPA m' = arm_SliceIPA m" "arm_mapped m' = arm_mapped m"
  using assms
  by (cases m; cases m'; simp add: arm_layout_def arm_SliceIPA_def arm_mapped_def go_slice_def fun_eq_iff Let_def)+

lemma arm_write_keeps_layout: "length d < 2 ^ 63 \<Longrightarrow> arm_layout (snd (arm_WriteIPA m a d)) = arm_layout m"
  by (auto simp: arm_layout_def arm_WriteIPA_def Let_def dest: go_slice_span(1) split: option.splits sum.splits)

interpretation arm_window: sliced_mem arm_sliced arm_wf arm_mapped arm_byte_at arm_layout
proof (intro_locales)
  show "guest_mem (ipa arm_sliced) arm_wf arm_mapped arm_byte_at"
    using arm.guest_mem_axioms by simp
  show "sliced_mem_axioms arm_sliced arm_wf arm_mapped arm_byte_at arm_layout"
  proof (rule sliced_mem_axioms.intro)
    show "arm_layout m' = arm_layout m \<Longrightarrow> arm_mapped m' = arm_mapped m" for m m'
      by (rule arm_layout_facts)
    show "SliceIPA arm_sliced = Some f \<Longrightarrow> arm_layout m' = arm_layout m \<Longrightarrow> f m' = f m" for f m m'
      using arm_layout_facts(1) [of m' m] by simp
    show "arm_layout (snd (WriteIPA (ipa arm_sliced) m a d)) = arm_layout m" if "length d < 2 ^ 63" for m a d
      using arm_write_keeps_layout [OF that] by (simp add: arm_memory_def)
    show "\<exists>s. f m a (int n) = Inr s \<and> aliases arm_sliced arm_byte_at m s a n"
      if "arm_wf m" "arm_mapped m a n" "0 < n" "n < 2 ^ 63" "SliceIPA arm_sliced = Some f" for m a n f
      using arm_slice_mapped [OF that(1-4)] that(5) by simp
  qed (simp_all add: arm_into_mapped arm_mapped_sub)
qed

section \<open>The amd64 machine\<close>

definition amd_SliceIPA :: "amd_vm option \<Rightarrow> u64 \<Rightarrow> int \<Rightarrow> goerr + slice" where
  "amd_SliceIPA vm addr sz =
     (case vm of None \<Rightarrow> Inl VmNil
      | Some v \<Rightarrow>
          if sz < 0 then Inl (InvalidSize sz)
          else if sz = 0 then Inr (0, 0)
          else case findMemoryRegion v addr of
            None \<Rightarrow> Inl (Unmapped addr (nat sz))
          | Some (base, len, off) \<Rightarrow>
              if of_nat len - off < of_int sz then Inl (Unmapped addr (nat sz))
              else if off \<le> off + of_int sz \<and> unat (off + of_int sz) \<le> len
              then Inr (base + unat off, nat sz) else Inl (Panic SliceBounds))"

definition amd_get :: "amd_vm option \<Rightarrow> slice \<Rightarrow> bytes" where
  "amd_get vm s = (case vm of None \<Rightarrow> [] | Some v \<Rightarrow> take (snd s) (drop (fst s) (host v)))"

definition amd_put :: "nat \<Rightarrow> bytes \<Rightarrow> amd_vm option \<Rightarrow> amd_vm option" where
  "amd_put off d vm = map_option (\<lambda>v. v\<lparr>host := overwrite (host v) off d\<rparr>) vm"

definition amd_sliced :: "amd_vm option sliced_memory" where
  "amd_sliced = \<lparr>ipa = amd_memory, ReadIPAInto = Some amd_ReadIPAInto, SliceIPA = Some amd_SliceIPA,
     slice_get = amd_get, slice_put = amd_put\<rparr>"

lemma amd_sliced_simps [simp]:
  "ipa amd_sliced = amd_memory" "ReadIPAInto amd_sliced = Some amd_ReadIPAInto" "SliceIPA amd_sliced = Some amd_SliceIPA"
  "slice_get amd_sliced = amd_get" "slice_put amd_sliced = amd_put"
  by (simp_all add: amd_sliced_def)

definition amd_layout :: "amd_vm option \<Rightarrow> (nat \<times> u64 \<times> mapping list \<times> nat) option" where
  "amd_layout vm = map_option (\<lambda>v. (mem_len v, lowMemLimit v, regions v, length (host v))) vm"

lemma amd_layout_facts:
  assumes "amd_layout m' = amd_layout m"
  shows "amd_SliceIPA m' = amd_SliceIPA m" "amd_mapped m' = amd_mapped m"
  using assms
  by (cases m; cases m'; simp add: amd_layout_def amd_SliceIPA_def amd_mapped_def findMemoryRegion_def fun_eq_iff)+

lemma amd_write_keeps_layout: "amd_wf m \<Longrightarrow> amd_layout (snd (amd_WriteIPA m a d)) = amd_layout m"
proof (cases m)
  case (Some v)
  assume "amd_wf m"
  with Some obtain w where "snd (amd_WriteIPA m a d) = Some w" "same_layout v w"
    using amd_WriteIPA_layout by metis
  with Some show ?thesis by (simp add: amd_layout_def same_layout_def)
qed (simp add: amd_WriteIPA_def)

lemma amd_into_mapped:
  assumes "amd_wf vm" "amd_mapped vm a n"
  shows "amd_ReadIPAInto vm a n = Inr (range_bytes (amd_byte_at vm) a n)"
proof -
  obtain v where v: "vm = Some v" using assms(2) by (auto simp: amd_mapped_def split: option.splits)
  show ?thesis
  proof (cases "n = 0")
    case False
    then show ?thesis using amd_read_mapped [OF assms] v by (simp add: amd_ReadIPA_def)
  qed (simp add: v amd_ReadIPAInto_def)
qed

lemma amd_mapped_sub:
  assumes "amd_wf vm" "amd_mapped vm a n" "i + k \<le> n"
  shows "amd_mapped vm (a + of_nat i) k"
proof (cases "k = 0")
  case False
  obtain v where v: "vm = Some v" using assms(2) by (auto simp: amd_mapped_def split: option.splits)
  have "unat a + n < 2 ^ 64"
    using assms v False unsigned_less [of "lowMemLimit v"] by (fastforce simp: amd_mapped_def amd_wf_def)
  then have "unat (a + of_nat i) = unat a + i" using assms(3) by (intro unat_add_of_nat) simp
  then show ?thesis using assms v False by (fastforce simp: amd_mapped_def)
qed (use assms in \<open>auto simp: amd_mapped_def split: option.splits\<close>)

lemma amd_slice_mapped:
  assumes wf: "amd_wf vm" and m: "amd_mapped vm a n" and n: "0 < n" "n < 2 ^ 63"
  shows "\<exists>s. amd_SliceIPA vm a (int n) = Inr s \<and> aliases amd_sliced amd_byte_at vm s a n"
proof -
  obtain v where v: "vm = Some v" using m by (auto simp: amd_mapped_def split: option.splits)
  obtain base len off where w: "findMemoryRegion v a = Some (base, len, off)" "unat off + n \<le> len"
    "base + unat off + n \<le> length (host v)"
    "\<And>i. i < n \<Longrightarrow> host_index v (a + of_nat i) = Some (base + unat off + i)"
    using amd_window wf m n(1) v by metis
  have len: "len < 2 ^ 63" using findMemoryRegion_bounds [OF wf [unfolded v] w(1)] wf v by (auto simp: amd_wf_def)
  then have ul: "unat (of_nat len :: u64) = len" by (simp add: unat_of_nat)
  have on: "unat (off + of_nat n) = unat off + n" using w(2) len by (intro unat_add_of_nat) simp
  have "unat (of_nat len - off) = len - unat off"
    using w(2) ul by (subst unat_minus_le) (simp_all add: word_le_nat_alt)
  then have "\<not> of_nat len - off < of_nat n" "off \<le> off + of_nat n" "unat (off + of_nat n) \<le> len"
    using w(2) on n by (simp_all add: word_less_nat_alt word_le_nat_alt unat_of_nat)
  then have s: "amd_SliceIPA vm a (int n) = Inr (base + unat off, n)"
    using w(1) n v by (simp add: amd_SliceIPA_def)
  have get: "amd_get vm (base + unat off + i, k) = range_bytes (amd_byte_at vm) (a + of_nat i) k" if "i + k \<le> n" for i k
    using that w(3,4) v by (intro nth_equalityI) (simp_all add: amd_get_def amd_byte_at_def add.assoc flip: of_nat_add)
  have put: "amd_put (base + unat off + i) d vm = snd (amd_WriteIPA vm (a + of_nat i) d)" if "i + length d \<le> n" for i d
  proof (cases "d = []")
    case False
    then have "i < n" using that by (cases d) auto
    then have i: "host_index v (a + of_nat i) = Some (base + unat off + i)" using w(4) by simp
    have mi: "amd_mapped (Some v) (a + of_nat i) (length d)" using amd_mapped_sub [OF wf m that] v by simp
    obtain h where "amd_WriteIPA (Some v) (a + of_nat i) d = (Inr (), Some (v\<lparr>host := overwrite (host v) h d\<rparr>))"
      "\<And>j. j < length d \<Longrightarrow> host_index v (a + of_nat i + of_nat j) = Some (h + j)"
      using amd_WriteIPA_mapped [OF wf [unfolded v] mi False] by blast
    then show ?thesis using i False v by (fastforce simp: amd_put_def)
  next
    case True
    have "overwrite xs j [] = xs" for xs :: bytes and j by (simp add: overwrite_def)
    then show ?thesis using True v by (simp add: amd_put_def amd_WriteIPA_def)
  qed
  show ?thesis using s get put by (auto simp: aliases_def amd_sliced_def amd_memory_def)
qed

interpretation amd_window: sliced_mem amd_sliced amd_wf amd_mapped amd_byte_at amd_layout
proof (intro_locales)
  show "guest_mem (ipa amd_sliced) amd_wf amd_mapped amd_byte_at"
    using amd.guest_mem_axioms by simp
  show "sliced_mem_axioms amd_sliced amd_wf amd_mapped amd_byte_at amd_layout"
  proof (rule sliced_mem_axioms.intro)
    show "amd_layout m' = amd_layout m \<Longrightarrow> amd_mapped m' = amd_mapped m" for m m'
      by (rule amd_layout_facts)
    show "SliceIPA amd_sliced = Some f \<Longrightarrow> amd_layout m' = amd_layout m \<Longrightarrow> f m' = f m" for f m m'
      using amd_layout_facts(1) [of m' m] by simp
    show "amd_layout (snd (WriteIPA (ipa amd_sliced) m a d)) = amd_layout m" if "amd_wf m" for m a d
      using amd_write_keeps_layout [OF that] by (simp add: amd_memory_def)
    show "\<exists>s. f m a (int n) = Inr s \<and> aliases amd_sliced amd_byte_at m s a n"
      if "amd_wf m" "amd_mapped m a n" "0 < n" "n < 2 ^ 63" "SliceIPA amd_sliced = Some f" for m a n f
      using amd_slice_mapped [OF that(1-4)] that(5) by simp
  qed (simp_all add: amd_into_mapped amd_mapped_sub)
qed

end
