(* ===== verification/Nvme.thy ===== *)
theory Nvme
  imports GuestSlice Virtqueue
begin

text \<open>
  The NVMe controller (\<^verbatim>\<open>nvme/controller.go\<close>): its registers and doorbells, the admin and I/O commands,
  data transfer through physical region pages, and the completion queues. Go code holds pointers to
  queues that may have left the table, so queues live in a store of objects and the table maps an
  identifier to an object. Guest memory, the interrupt controller and the block backend are the
  parameters \<open>M\<close>, \<open>nirq\<close> and \<open>B\<close>. The scratch buffers \<^verbatim>\<open>scratch\<close> and \<^verbatim>\<open>prps\<close> are always overwritten
  before they are read and are left out, as is the tracing to standard error. Memory is attached once,
  before the guest runs, so a slice kept in a queue is a window of the attached memory.
\<close>

section \<open>State\<close>

datatype irq_call = LevelCall u32 bool | MsiCall u64 u32

record nvme_irq =
  answerIRQ :: "irq_call list \<Rightarrow> u32 \<Rightarrow> bool \<Rightarrow> goerr option"
  answerMSI :: "(irq_call list \<Rightarrow> u64 \<Rightarrow> u32 \<Rightarrow> goerr option) option"

text \<open>\<^verbatim>\<open>virtio.BlockBackend\<close>: a read returns the bytes \<^verbatim>\<open>p[:n]\<close>, a write the count.\<close>

datatype read_err = EOF | ReadErr goerr

record 'b block_backend =
  ReadAt :: "'b \<Rightarrow> nat \<Rightarrow> int \<Rightarrow> bytes \<times> read_err option"
  WriteAt :: "'b \<Rightarrow> bytes \<Rightarrow> int \<Rightarrow> (nat \<times> goerr option) \<times> 'b"
  bSize :: "'b \<Rightarrow> int"

record nvqueue =
  nqid :: u16
  nqsize :: u16
  sqAddr :: u64
  cqAddr :: u64
  cqID :: u16
  sqHead :: u16
  sqTail :: u16
  cqHead :: u16
  cqTail :: u16
  cqPending :: u16
  cqPhase :: bool
  interrupts :: bool
  sqMem :: slice
  cqMem :: slice

record msiConfig =
  msiEnabled :: bool
  msiAddr :: u64
  msiData :: u32

record nvcommand =
  opcode :: u8
  cid :: u16
  nsid :: u32
  prp1 :: u64
  prp2 :: u64
  cdw10 :: u32
  cdw11 :: u32
  cdw12 :: u32
  cdw13 :: u32

record ('m, 'b) controller =
  nBase :: u64
  nSize :: u64
  nIRQ :: u32
  nmem :: "'m option"
  nirq :: "nvme_irq option"
  nlog :: "irq_call list"
  nbackend :: "'b option"
  ncc :: u32
  csts :: u32
  intMask :: u32
  aqa :: u32
  asq :: u64
  acq :: u64
  pageSz :: u64
  nirqHigh :: bool
  nqueues :: "u16 \<rightharpoonup> nat"
  qobjs :: "nvqueue list"
  msi :: msiConfig
  readOps :: u64
  readBytes :: u64
  writeOps :: u64
  writeBytes :: u64

abbreviation (input) nvRegCAP :: u64 where "nvRegCAP \<equiv> 0x00"
abbreviation (input) nvRegVS :: u64 where "nvRegVS \<equiv> 0x08"
abbreviation (input) nvRegINTMS :: u64 where "nvRegINTMS \<equiv> 0x0c"
abbreviation (input) nvRegINTMC :: u64 where "nvRegINTMC \<equiv> 0x10"
abbreviation (input) nvRegCC :: u64 where "nvRegCC \<equiv> 0x14"
abbreviation (input) nvRegCSTS :: u64 where "nvRegCSTS \<equiv> 0x1c"
abbreviation (input) nvRegAQA :: u64 where "nvRegAQA \<equiv> 0x24"
abbreviation (input) nvRegASQ :: u64 where "nvRegASQ \<equiv> 0x28"
abbreviation (input) nvRegACQ :: u64 where "nvRegACQ \<equiv> 0x30"
abbreviation (input) doorbellBase :: u64 where "doorbellBase \<equiv> 0x1000"
abbreviation (input) blockSize :: nat where "blockSize \<equiv> 512"
abbreviation (input) adminQueueID :: u16 where "adminQueueID \<equiv> 0"
abbreviation (input) adminDeleteSQ :: u8 where "adminDeleteSQ \<equiv> 0x00"
abbreviation (input) adminCreateSQ :: u8 where "adminCreateSQ \<equiv> 0x01"
abbreviation (input) adminGetLogPage :: u8 where "adminGetLogPage \<equiv> 0x02"
abbreviation (input) adminDeleteCQ :: u8 where "adminDeleteCQ \<equiv> 0x04"
abbreviation (input) adminCreateCQ :: u8 where "adminCreateCQ \<equiv> 0x05"
abbreviation (input) adminIdentify :: u8 where "adminIdentify \<equiv> 0x06"
abbreviation (input) adminAsyncEvent :: u8 where "adminAsyncEvent \<equiv> 0x0c"
abbreviation (input) ioFlush :: u8 where "ioFlush \<equiv> 0x00"
abbreviation (input) ioWrite :: u8 where "ioWrite \<equiv> 0x01"
abbreviation (input) ioRead :: u8 where "ioRead \<equiv> 0x02"

text \<open>A panic or a hang goes through code that would drop an error.\<close>

fun fatal :: "goerr \<Rightarrow> bool" where
  "fatal (Panic p) = True"
| "fatal Diverges = True"
| "fatal _ = False"

definition nil_slice :: slice where
  "nil_slice = (0, 0)"

definition new_queue :: "u16 \<Rightarrow> nvqueue" where
  "new_queue qid = \<lparr>nqid = qid, nqsize = 0, sqAddr = 0, cqAddr = 0, cqID = 0, sqHead = 0, sqTail = 0, cqHead = 0,
     cqTail = 0, cqPending = 0, cqPhase = False, interrupts = False, sqMem = nil_slice, cqMem = nil_slice\<rparr>"

definition upd_queue :: "nat \<Rightarrow> (nvqueue \<Rightarrow> nvqueue) \<Rightarrow> ('m, 'b) controller \<Rightarrow> ('m, 'b) controller" where
  "upd_queue i f c = c\<lparr>qobjs := (qobjs c)[i := f (qobjs c ! i)]\<rparr>"

section \<open>Registers and interrupts\<close>

definition nv_truncate :: "u64 \<Rightarrow> int \<Rightarrow> u64" where
  "nv_truncate v sz =
     (if 8 \<le> sz then v else if sz \<le> 0 then 0 else v AND (push_bit (nat sz * 8) 1 - 1))"

definition capability :: u64 where
  "capability = 0x3fff OR push_bit 16 1 OR push_bit 24 0xf OR push_bit 37 1"

definition ReadMMIO :: "('m, 'b) controller \<Rightarrow> u64 \<Rightarrow> int \<Rightarrow> u64" where
  "ReadMMIO c offset sz =
     (if offset = nvRegCAP then nv_truncate capability sz
      else if offset = nvRegCAP + 4 then nv_truncate (drop_bit 32 capability) sz
      else if offset = nvRegVS then nv_truncate 0x00010400 sz
      else if offset = nvRegINTMS then nv_truncate (ucast (intMask c)) sz
      else if offset = nvRegCC then nv_truncate (ucast (ncc c)) sz
      else if offset = nvRegCSTS then nv_truncate (ucast (csts c)) sz
      else if offset = nvRegAQA then nv_truncate (ucast (aqa c)) sz
      else if offset = nvRegASQ then nv_truncate (asq c) sz
      else if offset = nvRegASQ + 4 then nv_truncate (drop_bit 32 (asq c)) sz
      else if offset = nvRegACQ then nv_truncate (acq c) sz
      else if offset = nvRegACQ + 4 then nv_truncate (drop_bit 32 (acq c)) sz
      else 0)"

definition nv_SetIRQ :: "bool \<Rightarrow> (('m, 'b) controller, unit) gomethod" where
  "nv_SetIRQ level c =
     (case nirq c of None \<Rightarrow> (Inl (Panic NilDeref), c)
      | Some k \<Rightarrow> ((case answerIRQ k (nlog c) (nIRQ c) level of None \<Rightarrow> Inr () | Some e \<Rightarrow> Inl e),
          c\<lparr>nlog := nlog c @ [LevelCall (nIRQ c) level]\<rparr>))"

definition irq_wanted :: "('m, 'b) controller \<Rightarrow> bool" where
  "irq_wanted c \<longleftrightarrow> intMask c AND 1 = 0
     \<and> (\<exists>i \<in> ran (nqueues c). interrupts (qobjs c ! i) \<and> cqPending (qobjs c ! i) \<noteq> 0)"

definition nv_updateIRQLocked :: "(('m, 'b) controller, unit) gomethod" where
  "nv_updateIRQLocked c =
     (let high = irq_wanted c in
      if high = nirqHigh c then (Inr (), c)
      else let c1 = c\<lparr>nirqHigh := high\<rparr> in
        case nirq c of None \<Rightarrow> (Inr (), c1)
        | Some k \<Rightarrow>
            if msiEnabled (msi c) then
              if \<not> high then (Inr (), c1)
              else case answerMSI k of None \<Rightarrow> (Inr (), c1)
                | Some f \<Rightarrow>
                    ((case f (nlog c) (msiAddr (msi c)) (msiData (msi c)) of None \<Rightarrow> Inr () | Some e \<Rightarrow> Inl e),
                     c1\<lparr>nlog := nlog c @ [MsiCall (msiAddr (msi c)) (msiData (msi c))]\<rparr>)
            else nv_SetIRQ high c1)"

definition nv_resetLocked :: "('m, 'b) controller \<Rightarrow> ('m, 'b) controller" where
  "nv_resetLocked c =
     (let c1 = c\<lparr>ncc := 0, csts := 0, intMask := 0, aqa := 0, asq := 0, acq := 0, pageSz := 4096,
            nqueues := Map.empty, nirqHigh := False\<rparr> in
      if nirq c = None then c1 else snd (nv_SetIRQ False c1))"

definition NewController :: "'b option \<Rightarrow> ('m, 'b) controller" where
  "NewController b = nv_resetLocked
     \<lparr>nBase = 0, nSize = 0x4000, nIRQ = 0, nmem = None, nirq = None, nlog = [], nbackend = b,
      ncc = 0, csts = 0, intMask = 0, aqa = 0, asq = 0, acq = 0, pageSz = 4096, nirqHigh = False,
      nqueues = Map.empty, qobjs = [], msi = \<lparr>msiEnabled = False, msiAddr = 0, msiData = 0\<rparr>,
      readOps = 0, readBytes = 0, writeOps = 0, writeBytes = 0\<rparr>"

definition nv_Attach :: "'m option \<Rightarrow> nvme_irq option \<Rightarrow> ('m, 'b) controller \<Rightarrow> ('m, 'b) controller" where
  "nv_Attach m k c = c\<lparr>nmem := m, nirq := k\<rparr>"

definition ConfigureMSI :: "bool \<Rightarrow> u64 \<Rightarrow> u32 \<Rightarrow> ('m, 'b) controller \<Rightarrow> ('m, 'b) controller" where
  "ConfigureMSI e a d c = c\<lparr>msi := \<lparr>msiEnabled = e, msiAddr = a, msiData = d\<rparr>\<rparr>"

section \<open>Queues\<close>

text \<open>Taking a slice: an error keeps the old slice, a panic does not.\<close>

definition cache_slice :: "'m sliced_memory \<Rightarrow> 'm \<Rightarrow> u64 \<Rightarrow> nat \<Rightarrow> slice \<Rightarrow> goerr + slice" where
  "cache_slice M m addr n old =
     (case SliceIPA M of None \<Rightarrow> Inr old
      | Some f \<Rightarrow> if addr = 0 then Inr old
          else case f m addr (int n) of
            Inr s \<Rightarrow> Inr s
          | Inl e \<Rightarrow> if fatal e then Inl e else Inr old)"

definition cacheQueueMemoryLocked :: "'m sliced_memory \<Rightarrow> 'm option \<Rightarrow> nvqueue \<Rightarrow> goerr + nvqueue" where
  "cacheQueueMemoryLocked M mo q =
     (case mo of None \<Rightarrow> Inr q
      | Some m \<Rightarrow>
          if nqsize q = 0 then Inr q
          else case cache_slice M m (sqAddr q) (unat (nqsize q) * 64) (sqMem q) of
            Inl e \<Rightarrow> Inl e
          | Inr s \<Rightarrow> (case cache_slice M m (cqAddr q) (unat (nqsize q) * 16) (cqMem q) of
              Inl e \<Rightarrow> Inl e
            | Inr t \<Rightarrow> Inr (q\<lparr>sqMem := s, cqMem := t\<rparr>)))"

definition configureAdminQueueLocked :: "'m sliced_memory \<Rightarrow> (('m, 'b) controller, unit) gomethod" where
  "configureAdminQueueLocked M c =
     (let sqSize = ucast (aqa c AND 0xfff) + 1; cqSize = ucast ((drop_bit 16 (aqa c)) AND 0xfff) + 1;
          s1 = (if cqSize < sqSize then cqSize else sqSize); s2 = (if s1 = 0 then 1 else s1);
          q = (new_queue adminQueueID)\<lparr>nqsize := s2, sqAddr := asq c, cqAddr := acq c, cqPhase := True,
                interrupts := True\<rparr> in
      case cacheQueueMemoryLocked M (nmem c) q of
        Inl e \<Rightarrow> (Inl e, c)
      | Inr q' \<Rightarrow> (Inr (), c\<lparr>qobjs := qobjs c @ [q'], nqueues := (nqueues c)(adminQueueID \<mapsto> length (qobjs c))\<rparr>))"

definition advanceCompletionHeadLocked :: "u16 \<Rightarrow> nvqueue \<Rightarrow> nvqueue" where
  "advanceCompletionHeadLocked head q =
     (if nqsize q = 0 then q\<lparr>cqHead := head, cqPending := 0\<rparr>
      else let oldHead = cqHead q; q1 = q\<lparr>cqHead := head mod nqsize q\<rparr>;
          consumed = (if cqHead q1 < oldHead then nqsize q - oldHead + cqHead q1 else cqHead q1 - oldHead) in
        if consumed = 0 \<and> cqPending q = nqsize q then q1\<lparr>cqPending := 0\<rparr>
        else if cqPending q \<le> consumed then q1\<lparr>cqPending := 0\<rparr>
        else q1\<lparr>cqPending := cqPending q - consumed\<rparr>)"

text \<open>The sixteen bytes of a completion entry.\<close>

definition completion_entry :: "bool \<Rightarrow> u16 \<Rightarrow> u16 \<Rightarrow> u16 \<Rightarrow> u32 \<Rightarrow> u16 \<Rightarrow> bytes" where
  "completion_entry phase sqid sqHd cmdid result status =
     le_bytes 4 result @ replicate 4 0 @ le_bytes 2 sqHd @ le_bytes 2 sqid @ le_bytes 2 cmdid
     @ le_bytes 2 (if phase then push_bit 1 status OR 1 else push_bit 1 status)"

definition post_completion :: "nvqueue \<Rightarrow> nvqueue" where
  "post_completion q =
     (let q1 = q\<lparr>cqTail := (cqTail q + 1) mod nqsize q\<rparr>;
          q2 = (if cqPending q1 < nqsize q1 then q1\<lparr>cqPending := cqPending q1 + 1\<rparr> else q1) in
      if cqTail q2 = 0 then q2\<lparr>cqPhase := \<not> cqPhase q2\<rparr> else q2)"

definition writeCompletionLocked ::
  "'m sliced_memory \<Rightarrow> nat \<Rightarrow> u16 \<Rightarrow> u16 \<Rightarrow> u16 \<Rightarrow> u32 \<Rightarrow> u16 \<Rightarrow> (('m, 'b) controller, unit) gomethod" where
  "writeCompletionLocked M i sqid sqHd cmdid result status c =
     (let q = qobjs c ! i; raw = completion_entry (cqPhase q) sqid sqHd cmdid result status;
          offset = unat (cqTail q) * 16 in
      case nmem c of None \<Rightarrow> (Inl (Panic NilDeref), c)
      | Some m \<Rightarrow>
          (case (if offset + 16 \<le> snd (cqMem q) then (Inr (), slice_put M (fst (cqMem q) + offset) raw m)
                 else WriteIPA (ipa M) m (cqAddr q + ucast (cqTail q) * 16) raw) of
             (Inl e, m') \<Rightarrow> (Inl e, c\<lparr>nmem := Some m'\<rparr>)
           | (Inr _, m') \<Rightarrow>
               if nqsize q = 0 then (Inl (Panic DivideByZero), c\<lparr>nmem := Some m'\<rparr>)
               else (Inr (), upd_queue i post_completion (c\<lparr>nmem := Some m'\<rparr>))))"

section \<open>Physical region pages\<close>

definition page_size :: "u64 \<Rightarrow> u64" where
  "page_size p = (if p = 0 then 4096 else p)"

definition transferPage ::
  "'m sliced_memory \<Rightarrow> bool \<Rightarrow> u64 \<Rightarrow> nat \<Rightarrow> nat \<Rightarrow> ('m option \<times> bytes, unit) gomethod" where
  "transferPage M wr addr off n s =
     (case s of (mo, data) \<Rightarrow>
      if addr = 0 then (Inl ZeroPRP, s)
      else case mo of None \<Rightarrow> (Inl (Panic NilDeref), s)
      | Some m \<Rightarrow>
          if wr then
            (case WriteIPA (ipa M) m addr (take n (drop off data)) of (r, m') \<Rightarrow> (r, (Some m', data)))
          else
            (case (case ReadIPAInto M of Some f \<Rightarrow> f m addr n | None \<Rightarrow> ReadIPA (ipa M) m addr (int n)) of
               Inl e \<Rightarrow> (Inl e, s)
             | Inr raw \<Rightarrow> (Inr (), (mo, overwrite data off (take n raw)))))"

text \<open>
  \<^verbatim>\<open>walkPRPListLocked\<close>: the state of the callback rides along with the memory the lists are read from.
  The inner loop runs over the entries of one list; it returns how many bytes remain.
\<close>

fun walk_entries ::
  "nat \<Rightarrow> u64 list \<Rightarrow> nat \<Rightarrow> (u64 \<Rightarrow> nat \<Rightarrow> ('m option \<times> 'x, unit) gomethod) \<Rightarrow> ('m option \<times> 'x, nat) gomethod" where
  "walk_entries page [] remaining fn s = (Inr remaining, s)"
| "walk_entries page (addr # addrs) remaining fn s =
     (let chunk = min page remaining in
      and_then (fn addr chunk) (\<lambda>_. walk_entries page addrs (remaining - chunk) fn) s)"

definition list_entry :: "bytes \<Rightarrow> nat \<Rightarrow> u64" where
  "list_entry raw i = le_word (sub_bytes raw (i * 8) (i * 8 + 8))"

definition read_prp_list :: "'m sliced_memory \<Rightarrow> 'm option \<Rightarrow> u64 \<Rightarrow> nat \<Rightarrow> goerr + bytes" where
  "read_prp_list M mo addr n =
     (case mo of None \<Rightarrow> Inl (Panic NilDeref)
      | Some m \<Rightarrow> (case ReadIPAInto M of Some f \<Rightarrow> f m addr n
          | None \<Rightarrow> (case ReadIPA (ipa M) m addr (int n) of
              Inl e \<Rightarrow> Inl e | Inr raw \<Rightarrow> Inr (take n raw @ replicate (n - length raw) 0))))"

fun walk_lists ::
  "nat \<Rightarrow> 'm sliced_memory \<Rightarrow> nat \<Rightarrow> u64 \<Rightarrow> nat \<Rightarrow> nat \<Rightarrow> (u64 \<Rightarrow> nat \<Rightarrow> ('m option \<times> 'x, unit) gomethod)
     \<Rightarrow> ('m option \<times> 'x, unit) gomethod" where
  "walk_lists 0 M page listAddr remaining entries fn s =
     (if entries = 0 then (Inr (), s) else (Inl Diverges, s))"
| "walk_lists (Suc k) M page listAddr remaining entries fn s =
     (if entries = 0 then (Inr (), s)
      else case read_prp_list M (fst s) listAddr page of
        Inl e \<Rightarrow> (Inl e, s)
      | Inr list \<Rightarrow>
          let per = page div 8; hasNext = per < entries; usable = (if hasNext then per - 1 else entries) in
          and_then (walk_entries page (map (list_entry list) [0..<usable]) remaining fn)
            (\<lambda>rest. if \<not> hasNext then return_ok ()
              else let next = list_entry list (per - 1) in
                if next = 0 then return_err ZeroPRPList
                else walk_lists k M page next rest (entries - usable) fn) s)"

definition walkPRPListLocked ::
  "'m sliced_memory \<Rightarrow> u64 \<Rightarrow> u64 \<Rightarrow> nat \<Rightarrow> (u64 \<Rightarrow> nat \<Rightarrow> ('m option \<times> 'x, unit) gomethod)
     \<Rightarrow> ('m option \<times> 'x, unit) gomethod" where
  "walkPRPListLocked M psz listAddr remaining fn s =
     (if remaining = 0 then (Inr (), s)
      else if listAddr = 0 then (Inl ZeroPRPList, s)
      else let page = unat (page_size psz) in
        if page div 8 < 2 then (Inl PageTooSmall, s)
        else let entries = (remaining + page - 1) div page in
          walk_lists entries M page listAddr remaining entries fn s)"

text \<open>The loop variables of \<^verbatim>\<open>transferPRP\<close>: adjacent pages are collected into a run before they are transferred.\<close>

record prp_run =
  runAddr :: u64
  runOff :: nat
  runLen :: nat
  prpOff :: nat

definition flushRun :: "'m sliced_memory \<Rightarrow> bool \<Rightarrow> ('m option \<times> bytes \<times> prp_run, unit) gomethod" where
  "flushRun M wr s =
     (case s of (mo, data, r) \<Rightarrow>
      if runLen r = 0 then (Inr (), s)
      else case transferPage M wr (runAddr r) (runOff r) (runLen r) (mo, data) of
        (Inl e, (mo', data')) \<Rightarrow> (Inl e, (mo', data', r))
      | (Inr _, (mo', data')) \<Rightarrow> (Inr (), (mo', data', r\<lparr>runLen := 0\<rparr>)))"

definition start_run :: "u64 \<Rightarrow> nat \<Rightarrow> ('m option \<times> bytes \<times> prp_run) \<Rightarrow> ('m option \<times> bytes \<times> prp_run)" where
  "start_run addr chunk s = (case s of (mo, data, r) \<Rightarrow>
     (mo, data, r\<lparr>runAddr := addr, runOff := prpOff r, runLen := chunk\<rparr>))"

definition add_page :: "'m sliced_memory \<Rightarrow> bool \<Rightarrow> u64 \<Rightarrow> nat \<Rightarrow> ('m option \<times> bytes \<times> prp_run, unit) gomethod" where
  "add_page M wr addr chunk s =
     (case s of (mo, data, r) \<Rightarrow>
      and_then
        (if runLen r = 0 then modify_state (start_run addr chunk)
         else if addr = runAddr r + of_nat (runLen r)
         then modify_state (\<lambda>(mo, data, r). (mo, data, r\<lparr>runLen := runLen r + chunk\<rparr>))
         else and_then (flushRun M wr) (\<lambda>_. modify_state (start_run addr chunk)))
        (\<lambda>_. modify_state (\<lambda>(mo, data, r). (mo, data, r\<lparr>prpOff := prpOff r + chunk\<rparr>))) s)"

definition transferPRP ::
  "'m sliced_memory \<Rightarrow> u64 \<Rightarrow> bool \<Rightarrow> u64 \<Rightarrow> u64 \<Rightarrow> ('m option \<times> bytes, unit) gomethod" where
  "transferPRP M psz wr p1 p2 s0 =
     (let len = length (snd s0); page = page_size psz; n = min (unat (page - p1 mod page)) len; remaining = len - n in
      if len = 0 then (Inr (), s0)
      else if p1 = 0 then (Inl MissingPRP, s0)
      else and_then (transferPage M wr p1 0 n) (\<lambda>_ s.
        if len \<le> n then (Inr (), s)
        else if remaining \<le> unat page then transferPage M wr p2 n remaining s
        else case and_then (walkPRPListLocked M psz p2 remaining (add_page M wr)) (\<lambda>_. flushRun M wr)
              (fst s, snd s, \<lparr>runAddr = 0, runOff = 0, runLen = 0, prpOff = n\<rparr>) of
            (r, (mo, data, _)) \<Rightarrow> (r, (mo, data))) s0)"

definition writePRP :: "'m sliced_memory \<Rightarrow> u64 \<Rightarrow> u64 \<Rightarrow> bytes \<Rightarrow> (('m, 'b) controller, unit) gomethod" where
  "writePRP M p1 p2 src c =
     (case transferPRP M (pageSz c) True p1 p2 (nmem c, src) of (r, (mo, _)) \<Rightarrow> (r, c\<lparr>nmem := mo\<rparr>))"

definition readPRP :: "'m sliced_memory \<Rightarrow> u64 \<Rightarrow> u64 \<Rightarrow> nat \<Rightarrow> ('m, 'b) controller \<Rightarrow> goerr + bytes" where
  "readPRP M p1 p2 n c =
     (case transferPRP M (pageSz c) False p1 p2 (nmem c, replicate n 0) of
        (Inl e, _) \<Rightarrow> Inl e | (Inr _, (_, data)) \<Rightarrow> Inr data)"

text \<open>Whether the pages of a transfer follow one another in guest memory.\<close>

definition expect_page :: "u64 \<Rightarrow> u64 \<Rightarrow> nat \<Rightarrow> ('m option \<times> u64, unit) gomethod" where
  "expect_page page addr _ s =
     (if addr \<noteq> snd s then (Inl NotContiguous, s) else (Inr (), (fst s, snd s + page)))"

definition prpIsContiguousLocked :: "'m sliced_memory \<Rightarrow> u64 \<Rightarrow> 'm option \<Rightarrow> u64 \<Rightarrow> u64 \<Rightarrow> nat \<Rightarrow> goerr + bool" where
  "prpIsContiguousLocked M psz mo p1 p2 sz =
     (let page = page_size psz; first = unat (page - p1 mod page) in
      if sz \<le> first then Inr True
      else let remaining = sz - first; expected = p1 + of_nat first in
        if remaining \<le> unat page then Inr (p2 = expected)
        else case fst (walkPRPListLocked M psz p2 remaining (expect_page page) (mo, expected)) of
          Inr _ \<Rightarrow> Inr True
        | Inl e \<Rightarrow> if fatal e then Inl e else Inr False)"

section \<open>Commands\<close>

definition parseCommand :: "bytes \<Rightarrow> goerr + nvcommand" where
  "parseCommand raw =
     (if length raw < 56 then Inl (Panic SliceBounds)
      else Inr \<lparr>opcode = raw ! 0, cid = le_word (sub_bytes raw 2 4), nsid = le_word (sub_bytes raw 4 8),
        prp1 = le_word (sub_bytes raw 24 32), prp2 = le_word (sub_bytes raw 32 40),
        cdw10 = le_word (sub_bytes raw 40 44), cdw11 = le_word (sub_bytes raw 44 48),
        cdw12 = le_word (sub_bytes raw 48 52), cdw13 = le_word (sub_bytes raw 52 56)\<rparr>)"

definition identifyController :: bytes where
  "identifyController =
     fold (\<lambda>(off, bs) d. overwrite d off bs)
       [(0, le_bytes 2 (0x1b36 :: u16)), (2, le_bytes 2 (0x0010 :: u16)), (4, ascii ''cc-nvme-000000000001''),
        (24, ascii ''cc NVMe Block Device''), (64, ascii ''0.1''), (78, le_bytes 2 (1 :: u16)),
        (80, le_bytes 4 (0x00010400 :: u32)), (512, [0x66]), (513, [0x44]), (516, le_bytes 4 (1 :: u32))]
       (replicate 4096 0)"

definition identifyNamespace :: "'b block_backend \<Rightarrow> 'b option \<Rightarrow> bytes" where
  "identifyNamespace B b =
     (let blocks = (case b of None \<Rightarrow> 0
            | Some x \<Rightarrow> if 0 < bSize B x then of_int (bSize B x) div 512 else 0) :: u64 in
      fold (\<lambda>(off, bs) d. overwrite d off bs)
        [(0, le_bytes 8 blocks), (8, le_bytes 8 blocks), (16, le_bytes 8 blocks), (26, [0]), (130, [9])]
        (replicate 4096 0))"

text \<open>The queue of an identifier, made when there is none.\<close>

definition queue_for :: "u16 \<Rightarrow> ('m, 'b) controller \<Rightarrow> nat \<times> ('m, 'b) controller" where
  "queue_for qid c =
     (case nqueues c qid of Some i \<Rightarrow> (i, c)
      | None \<Rightarrow> (length (qobjs c), c\<lparr>qobjs := qobjs c @ [new_queue qid],
          nqueues := (nqueues c)(qid \<mapsto> length (qobjs c))\<rparr>))"

definition create_queue ::
  "'m sliced_memory \<Rightarrow> u16 \<Rightarrow> (nvqueue \<Rightarrow> nvqueue) \<Rightarrow> (('m, 'b) controller, unit) gomethod" where
  "create_queue M qid f c0 =
     (case queue_for qid c0 of (i, c) \<Rightarrow>
        let c1 = upd_queue i f c in
        case cacheQueueMemoryLocked M (nmem c1) (qobjs c1 ! i) of
          Inl e \<Rightarrow> (Inl e, c1)
        | Inr q \<Rightarrow> (Inr (), upd_queue i (\<lambda>_. q) c1))"

definition executeAdminLocked ::
  "'m sliced_memory \<Rightarrow> 'b block_backend \<Rightarrow> nvcommand \<Rightarrow> (('m, 'b) controller, u32 \<times> u16) gomethod" where
  "executeAdminLocked M B cmd c =
     (let done = (\<lambda>_. return_ok (0, 0)); qid = ucast (cdw10 cmd); sz = ucast (drop_bit 16 (cdw10 cmd)) + 1 in
      if opcode cmd = adminIdentify then
        (if cdw10 cmd AND 0xff = 0 then and_then (writePRP M (prp1 cmd) (prp2 cmd) (identifyNamespace B (nbackend c))) done c
         else if cdw10 cmd AND 0xff = 1 then and_then (writePRP M (prp1 cmd) (prp2 cmd) identifyController) done c
         else if cdw10 cmd AND 0xff = 2 then
           and_then (writePRP M (prp1 cmd) (prp2 cmd) (le_bytes 4 (1 :: u32) @ replicate 4092 0)) done c
         else (Inr (0, 0), c))
      else if opcode cmd = adminCreateCQ then
        and_then (create_queue M qid (\<lambda>q. q\<lparr>nqsize := sz, cqAddr := prp1 cmd, cqPhase := True,
          interrupts := (cdw11 cmd AND 2 \<noteq> 0)\<rparr>)) done c
      else if opcode cmd = adminCreateSQ then
        and_then (create_queue M qid (\<lambda>q. q\<lparr>nqsize := sz, sqAddr := prp1 cmd,
          cqID := ucast (drop_bit 16 (cdw11 cmd))\<rparr>)) done c
      else if opcode cmd = adminDeleteSQ \<or> opcode cmd = adminDeleteCQ then
        (Inr (0, 0), c\<lparr>nqueues := (nqueues c)(qid := None)\<rparr>)
      else if opcode cmd = adminGetLogPage then
        and_then (writePRP M (prp1 cmd) (prp2 cmd)
          (replicate (unat (((drop_bit 16 (cdw10 cmd)) AND 0xfff) + 1) * 4) 0)) done c
      else (Inr (0, 0), c))"

definition recordIOLocked :: "bool \<Rightarrow> nat \<Rightarrow> ('m, 'b) controller \<Rightarrow> ('m, 'b) controller" where
  "recordIOLocked rd n c =
     (if rd then c\<lparr>readOps := readOps c + 1, readBytes := readBytes c + of_nat n\<rparr>
      else c\<lparr>writeOps := writeOps c + 1, writeBytes := writeBytes c + of_nat n\<rparr>)"

text \<open>
  The direct paths between the backend and guest memory: \<open>Inr False\<close> is \<^verbatim>\<open>(false, nil)\<close>, \<open>Inr True\<close> is
  \<^verbatim>\<open>(true, nil)\<close>, and an error is \<^verbatim>\<open>(true, err)\<close>. \<open>direct_slice\<close> is what the two have in common, up to
  the slice.
\<close>

definition direct_slice :: "'m sliced_memory \<Rightarrow> u64 \<Rightarrow> u64 \<Rightarrow> nat \<Rightarrow> ('m, 'b) controller \<Rightarrow> goerr + slice option" where
  "direct_slice M p1 p2 n c =
     (case (SliceIPA M, nmem c) of
        (Some f, Some m) \<Rightarrow>
          if nbackend c = None \<or> n = 0 then Inr None
          else if p1 = 0 then Inl MissingPRP
          else (case prpIsContiguousLocked M (pageSz c) (nmem c) p1 p2 n of
            Inl e \<Rightarrow> Inl e
          | Inr b \<Rightarrow>
              if \<not> b then Inr None
              else (case f m p1 (int n) of
                Inl e \<Rightarrow> if fatal e then Inl e else Inr None
              | Inr s \<Rightarrow> Inr (Some s)))
      | _ \<Rightarrow> Inr None)"

definition readBackendToPRP ::
  "'m sliced_memory \<Rightarrow> 'b block_backend \<Rightarrow> int \<Rightarrow> nat \<Rightarrow> u64 \<Rightarrow> u64 \<Rightarrow> (('m, 'b) controller, bool) gomethod" where
  "readBackendToPRP M B offset n p1 p2 c =
     (case direct_slice M p1 p2 n c of
        Inl e \<Rightarrow> (Inl e, c)
      | Inr None \<Rightarrow> (Inr False, c)
      | Inr (Some s) \<Rightarrow>
          (case ReadAt B (the (nbackend c)) n offset of (bs, err) \<Rightarrow>
            let m1 = slice_put M (fst s) (take n bs) (the (nmem c)); c1 = c\<lparr>nmem := Some m1\<rparr> in
            case err of
              Some (ReadErr e) \<Rightarrow> (Inl e, c1)
            | _ \<Rightarrow>
                if n < length bs then (Inl (Panic SliceBounds), c1)
                else (Inr True, c1\<lparr>nmem := Some (slice_put M (fst s + length bs) (replicate (n - length bs) 0) m1)\<rparr>)))"

definition writeBackendFromPRP ::
  "'m sliced_memory \<Rightarrow> 'b block_backend \<Rightarrow> int \<Rightarrow> nat \<Rightarrow> u64 \<Rightarrow> u64 \<Rightarrow> (('m, 'b) controller, bool) gomethod" where
  "writeBackendFromPRP M B offset n p1 p2 c =
     (case direct_slice M p1 p2 n c of
        Inl e \<Rightarrow> (Inl e, c)
      | Inr None \<Rightarrow> (Inr False, c)
      | Inr (Some s) \<Rightarrow>
          (case WriteAt B (the (nbackend c)) (slice_get M (the (nmem c)) s) offset of ((k, err), b') \<Rightarrow>
            let c1 = c\<lparr>nbackend := Some b'\<rparr> in
            case err of Some e \<Rightarrow> (Inl e, c1)
            | None \<Rightarrow> if k \<noteq> snd s then (Inl ShortWrite, c1) else (Inr True, c1)))"

definition io_bytes :: "nvcommand \<Rightarrow> nat" where
  "io_bytes cmd = unat ((cdw12 cmd AND 0xffff) + 1) * blockSize"

definition io_offset :: "nvcommand \<Rightarrow> int" where
  "io_offset cmd = sint ((ucast (cdw10 cmd) OR push_bit 32 (ucast (cdw11 cmd))) * 512 :: u64)"

definition io_read :: "'m sliced_memory \<Rightarrow> 'b block_backend \<Rightarrow> nvcommand \<Rightarrow> (('m, 'b) controller, u32 \<times> u16) gomethod" where
  "io_read M B cmd =
     (let n = io_bytes cmd; off = io_offset cmd in
      and_then (readBackendToPRP M B off n (prp1 cmd) (prp2 cmd)) (\<lambda>ok c.
        if ok then (Inr (0, 0), recordIOLocked True n c)
        else case ReadAt B (the (nbackend c)) n off of
          (bs, Some (ReadErr e)) \<Rightarrow> (Inr (0, 1), c)
        | (bs, _) \<Rightarrow>
            if n < length bs then (Inl (Panic SliceBounds), c)
            else and_then (writePRP M (prp1 cmd) (prp2 cmd) (bs @ replicate (n - length bs) 0))
                   (\<lambda>_. return_ok (0, 0)) (recordIOLocked True n c)))"

definition io_write :: "'m sliced_memory \<Rightarrow> 'b block_backend \<Rightarrow> nvcommand \<Rightarrow> (('m, 'b) controller, u32 \<times> u16) gomethod" where
  "io_write M B cmd =
     (let n = io_bytes cmd; off = io_offset cmd in
      and_then (writeBackendFromPRP M B off n (prp1 cmd) (prp2 cmd)) (\<lambda>ok c.
        if ok then (Inr (0, 0), recordIOLocked False n c)
        else case readPRP M (prp1 cmd) (prp2 cmd) n c of
          Inl e \<Rightarrow> (Inl e, c)
        | Inr buf \<Rightarrow>
            (case WriteAt B (the (nbackend c)) buf off of ((k, err), b') \<Rightarrow>
              let c1 = c\<lparr>nbackend := Some b'\<rparr> in
              case err of Some e \<Rightarrow> (Inr (0, 1), c1)
              | None \<Rightarrow> (Inr (0, 0), recordIOLocked False n c1))))"

definition executeIOLocked ::
  "'m sliced_memory \<Rightarrow> 'b block_backend \<Rightarrow> nvcommand \<Rightarrow> (('m, 'b) controller, u32 \<times> u16) gomethod" where
  "executeIOLocked M B cmd c =
     (if nbackend c = None then (Inr (0, 1), c)
      else if opcode cmd = ioFlush then (Inr (0, 0), c)
      else if opcode cmd = ioRead then io_read M B cmd c
      else if opcode cmd = ioWrite then io_write M B cmd c
      else (Inr (0, 1), c))"

definition executeCommandLocked ::
  "'m sliced_memory \<Rightarrow> 'b block_backend \<Rightarrow> nat \<Rightarrow> nvcommand \<Rightarrow> (('m, 'b) controller, u32 \<times> u16) gomethod" where
  "executeCommandLocked M B i cmd c =
     (if nqid (qobjs c ! i) = adminQueueID then executeAdminLocked M B cmd c else executeIOLocked M B cmd c)"

section \<open>Submission queues\<close>

definition queueSubmissionEntry :: "nvqueue \<Rightarrow> slice option" where
  "queueSubmissionEntry q =
     (let offset = unat (sqHead q) * 64 in
      if offset + 64 \<le> snd (sqMem q) then Some (fst (sqMem q) + offset, 64) else None)"

definition fetch_command :: "'m sliced_memory \<Rightarrow> 'm option \<Rightarrow> nvqueue \<Rightarrow> goerr + bytes" where
  "fetch_command M mo q =
     (case mo of None \<Rightarrow> Inl (Panic NilDeref)
      | Some m \<Rightarrow> (case queueSubmissionEntry q of
          Some s \<Rightarrow> Inr (slice_get M m s)
        | None \<Rightarrow> ReadIPA (ipa M) m (sqAddr q + ucast (sqHead q) * 64) 64))"

definition advance_sq :: "nat \<Rightarrow> (('m, 'b) controller, unit) gomethod" where
  "advance_sq i c =
     (if nqsize (qobjs c ! i) = 0 then (Inl (Panic DivideByZero), c)
      else (Inr (), upd_queue i (\<lambda>q. q\<lparr>sqHead := (sqHead q + 1) mod nqsize q\<rparr>) c))"

text \<open>The completion queue of a submission queue: the admin queue has its own.\<close>

definition completion_queue :: "nat \<Rightarrow> ('m, 'b) controller \<Rightarrow> nat option" where
  "completion_queue i c =
     (if nqid (qobjs c ! i) = adminQueueID then Some i else nqueues c (cqID (qobjs c ! i)))"

definition sq_round :: "'m sliced_memory \<Rightarrow> 'b block_backend \<Rightarrow> nat \<Rightarrow> (('m, 'b) controller, unit) gomethod" where
  "sq_round M B i c =
     (case fetch_command M (nmem c) (qobjs c ! i) of
        Inl e \<Rightarrow> (Inl e, c)
      | Inr raw \<Rightarrow>
      (case parseCommand raw of
        Inl e \<Rightarrow> (Inl e, c)
      | Inr cmd \<Rightarrow>
          if nqid (qobjs c ! i) = adminQueueID \<and> opcode cmd = adminAsyncEvent then advance_sq i c
          else and_then (executeCommandLocked M B i cmd) (\<lambda>(result, status).
            and_then (advance_sq i) (\<lambda>_ c'.
              case completion_queue i c' of
                None \<Rightarrow> (Inl (QueueMissing (cqID (qobjs c' ! i))), c')
              | Some j \<Rightarrow> writeCompletionLocked M j (nqid (qobjs c' ! i)) (sqHead (qobjs c' ! i)) (cid cmd) result status c')) c))"

text \<open>
  \<^verbatim>\<open>for q.sqHead != q.sqTail\<close>. Nothing bounds the loop, since the guest writes the tail; not returning is
  \<open>None\<close>.
\<close>

partial_function (option) sq_loop ::
  "'m sliced_memory \<Rightarrow> 'b block_backend \<Rightarrow> nat \<Rightarrow> ('m, 'b) controller \<Rightarrow> ((goerr + unit) \<times> ('m, 'b) controller) option" where
  "sq_loop M B i c =
     (if sqHead (qobjs c ! i) = sqTail (qobjs c ! i) then Some (Inr (), c)
      else case sq_round M B i c of
        (Inl e, c') \<Rightarrow> Some (Inl e, c')
      | (Inr _, c') \<Rightarrow> sq_loop M B i c')"

definition processSubmissionQueueLocked ::
  "'m sliced_memory \<Rightarrow> 'b block_backend \<Rightarrow> nat \<Rightarrow> ('m, 'b) controller \<Rightarrow> ((goerr + unit) \<times> ('m, 'b) controller) option" where
  "processSubmissionQueueLocked M B i c =
     (case sq_loop M B i c of None \<Rightarrow> None
      | Some (Inl e, c') \<Rightarrow> Some (Inl e, c')
      | Some (Inr _, c') \<Rightarrow> Some (nv_updateIRQLocked c'))"

definition writeDoorbellLocked ::
  "'m sliced_memory \<Rightarrow> 'b block_backend \<Rightarrow> u64 \<Rightarrow> u32 \<Rightarrow> ('m, 'b) controller \<Rightarrow> ((goerr + unit) \<times> ('m, 'b) controller) option" where
  "writeDoorbellLocked M B offset v c =
     (let index = offset div 4; qid = ucast (index div 2) in
      case nqueues c qid of None \<Rightarrow> Some (Inr (), c)
      | Some i \<Rightarrow>
          if index mod 2 = 0 then processSubmissionQueueLocked M B i (upd_queue i (\<lambda>q. q\<lparr>sqTail := ucast v\<rparr>) c)
          else Some (nv_updateIRQLocked (upd_queue i (advanceCompletionHeadLocked (ucast v)) c)))"

definition write_CC :: "'m sliced_memory \<Rightarrow> u32 \<Rightarrow> (('m, 'b) controller, unit) gomethod" where
  "write_CC M v c =
     (let wasEnabled = ncc c AND 1 \<noteq> 0; c1 = c\<lparr>ncc := v\<rparr> in
      if v AND 1 = 0 then
        let c2 = c1\<lparr>csts := 0\<rparr> in
        if wasEnabled then
          let c3 = c2\<lparr>nqueues := Map.empty, nirqHigh := False\<rparr> in
          if nirq c3 \<noteq> None then nv_SetIRQ False c3 else (Inr (), c3)
        else (Inr (), c2)
      else
        let mps = drop_bit 7 v AND 0xf in
        and_then (configureAdminQueueLocked M) (\<lambda>_. modify_state (\<lambda>c. c\<lparr>csts := 1\<rparr>))
          (c1\<lparr>pageSz := push_bit (unat mps) 4096\<rparr>))"

definition WriteMMIO ::
  "'m sliced_memory \<Rightarrow> 'b block_backend \<Rightarrow> u64 \<Rightarrow> int \<Rightarrow> u64 \<Rightarrow> ('m, 'b) controller \<Rightarrow> ((goerr + unit) \<times> ('m, 'b) controller) option" where
  "WriteMMIO M B offset sz v c =
     (let w = ucast v :: u32 in
      if offset = nvRegINTMS then Some (nv_updateIRQLocked (c\<lparr>intMask := intMask c OR w\<rparr>))
      else if offset = nvRegINTMC then Some (nv_updateIRQLocked (c\<lparr>intMask := intMask c AND NOT w\<rparr>))
      else if offset = nvRegCC then Some (write_CC M w c)
      else if offset = nvRegAQA then Some (Inr (), c\<lparr>aqa := w\<rparr>)
      else if offset = nvRegASQ then Some (Inr (), c\<lparr>asq := (asq c AND 0xffffffff00000000) OR ucast w\<rparr>)
      else if offset = nvRegASQ + 4 then Some (Inr (), c\<lparr>asq := (asq c AND 0xffffffff) OR push_bit 32 (ucast w)\<rparr>)
      else if offset = nvRegACQ then Some (Inr (), c\<lparr>acq := (acq c AND 0xffffffff00000000) OR ucast w\<rparr>)
      else if offset = nvRegACQ + 4 then Some (Inr (), c\<lparr>acq := (acq c AND 0xffffffff) OR push_bit 32 (ucast w)\<rparr>)
      else if doorbellBase \<le> offset then writeDoorbellLocked M B (offset - doorbellBase) w c
      else Some (Inr (), c))"

end
