(* ===== verification/NvmePrp.thy ===== *)
theory NvmePrp
  imports Nvme
begin

text \<open>
  What the physical region pages of a command stand for. \<open>prp_pages\<close> lists the pages of a transfer by
  reading the lists of entries alone; the walker, the collection of adjacent pages into runs and the
  test for contiguous pages of the controller are shown to agree with it, on any memory that meets the
  contract.
\<close>

section \<open>The pages of a transfer\<close>

text \<open>The entries of a chain of lists, and the addresses of the lists.\<close>

fun prp_entries :: "nat \<Rightarrow> (u64 \<Rightarrow> goerr + bytes) \<Rightarrow> nat \<Rightarrow> u64 \<Rightarrow> nat \<Rightarrow> goerr + u64 list \<times> u64 list" where
  "prp_entries 0 rd page la n = (if n = 0 then Inr ([], []) else Inl Diverges)"
| "prp_entries (Suc k) rd page la n =
     (if n = 0 then Inr ([], [])
      else case rd la of Inl e \<Rightarrow> Inl e
      | Inr raw \<Rightarrow>
          let per = page div 8 in
          if n \<le> per then Inr (map (list_entry raw) [0..<n], [la])
          else let next = list_entry raw (per - 1) in
            if next = 0 then Inl ZeroPRPList
            else case prp_entries k rd page next (n - (per - 1)) of
              Inl e \<Rightarrow> Inl e
            | Inr (es, ls) \<Rightarrow> Inr (map (list_entry raw) [0..<per - 1] @ es, la # ls))"

fun chunked :: "nat \<Rightarrow> u64 list \<Rightarrow> nat \<Rightarrow> (u64 \<times> nat) list" where
  "chunked page [] remaining = []"
| "chunked page (a # as) remaining = (a, min page remaining) # chunked page as (remaining - min page remaining)"

definition prp_pages ::
  "'m sliced_memory \<Rightarrow> u64 \<Rightarrow> 'm \<Rightarrow> u64 \<Rightarrow> u64 \<Rightarrow> nat \<Rightarrow> goerr + (u64 \<times> nat) list \<times> u64 list" where
  "prp_pages M psz m p1 p2 len =
     (let page = unat (page_size psz); n = min (unat (page_size psz - p1 mod page_size psz)) len; rest = len - n in
      if p1 = 0 then Inl MissingPRP
      else if rest = 0 then Inr ([(p1, n)], [])
      else if rest \<le> page then Inr ([(p1, n), (p2, rest)], [])
      else if p2 = 0 then Inl ZeroPRPList
      else if page div 8 < 2 then Inl PageTooSmall
      else let entries = (rest + page - 1) div page in
        case prp_entries entries (\<lambda>la. read_prp_list M (Some m) la page) page p2 entries of
          Inl e \<Rightarrow> Inl e
        | Inr (es, ls) \<Rightarrow> Inr ((p1, n) # chunked page es rest, ls))"

text \<open>Adjacent pages joined into runs, and the bytes of a list of ranges.\<close>

fun merge_runs :: "u64 \<times> nat \<Rightarrow> (u64 \<times> nat) list \<Rightarrow> (u64 \<times> nat) list" where
  "merge_runs r [] = [r]"
| "merge_runs r (p # ps) =
     (if fst p = fst r + of_nat (snd r) then merge_runs (fst r, snd r + snd p) ps else r # merge_runs p ps)"

definition runs_of :: "(u64 \<times> nat) list \<Rightarrow> (u64 \<times> nat) list" where
  "runs_of ps = (case ps of [] \<Rightarrow> [] | p # ps' \<Rightarrow> merge_runs p ps')"

definition gather_ranges :: "(u64 \<Rightarrow> u8) \<Rightarrow> (u64 \<times> nat) list \<Rightarrow> bytes" where
  "gather_ranges f rs = concat (map (\<lambda>(a, n). range_bytes f a n) rs)"

fun store_ranges :: "(u64 \<times> nat) list \<Rightarrow> bytes \<Rightarrow> (u64 \<Rightarrow> u8) \<Rightarrow> u64 \<Rightarrow> u8" where
  "store_ranges [] d f = f"
| "store_ranges ((a, n) # rs) d f = store_ranges rs (drop n d) (\<lambda>x. stored_byte a (take n d) (f x) x)"

definition ranges_size :: "(u64 \<times> nat) list \<Rightarrow> nat" where
  "ranges_size rs = sum_list (map snd rs)"

lemma ranges_size_simps [simp]: "ranges_size [] = 0" "ranges_size (r # rs) = snd r + ranges_size rs"
  "ranges_size (rs @ ss) = ranges_size rs + ranges_size ss"
  by (simp_all add: ranges_size_def)

lemma gather_ranges_simps [simp]:
  "gather_ranges f [] = []" "gather_ranges f ((a, n) # rs) = range_bytes f a n @ gather_ranges f rs"
  by (simp_all add: gather_ranges_def)

lemma length_gather_ranges [simp]: "length (gather_ranges f rs) = ranges_size rs"
  by (induction rs) auto

lemma merge_runs_size [simp]: "ranges_size (merge_runs r ps) = snd r + ranges_size ps"
  by (induction r ps rule: merge_runs.induct) auto

lemma merge_runs_gather: "gather_ranges f (merge_runs r ps) = range_bytes f (fst r) (snd r) @ gather_ranges f ps"
proof (induction r ps rule: merge_runs.induct)
  case (2 r p ps)
  then show ?case by (cases r; cases p) (simp add: range_bytes_append)
qed (simp add: gather_ranges_def split: prod.splits)

lemma runs_of_size [simp]: "ranges_size (runs_of ps) = ranges_size ps"
  by (cases ps) (simp_all add: runs_of_def)

lemma runs_of_gather: "gather_ranges f (runs_of ps) = gather_ranges f ps"
  by (cases ps) (auto simp: runs_of_def merge_runs_gather split: prod.splits)

text \<open>Storing a run is storing its pages.\<close>

lemma stored_byte_split:
  assumes "n \<le> length d" "length d \<le> 2 ^ 63"
  shows "stored_byte (a + of_nat n) (drop n d) (stored_byte a (take n d) old x) x = stored_byte a d old x"
proof -
  let ?i = "unat (x - a)"
  have n: "unat (of_nat n :: u64) = n" using assms by (simp add: unat_of_nat)
  have eq: "x - (a + of_nat n) = (x - a) - of_nat n" by (simp add: diff_diff_eq)
  show ?thesis
  proof (cases "n \<le> ?i")
    case True
    then have "unat (x - (a + of_nat n)) = ?i - n" unfolding eq using n by (subst unat_minus_le) (simp_all add: word_le_nat_alt)
    then show ?thesis using True assms by (auto simp: stored_byte_def)
  next
    case False
    have "\<not> unat (x - (a + of_nat n)) < length d - n"
    proof
      assume l: "unat (x - (a + of_nat n)) < length d - n"
      then have "unat (x - (a + of_nat n) + of_nat n) = unat (x - (a + of_nat n)) + n"
        using assms by (intro unat_add_of_nat) simp
      then show False using False by (simp add: diff_add_eq)
    qed
    then show ?thesis using False assms by (auto simp: stored_byte_def)
  qed
qed

lemma merge_runs_store:
  "snd r + ranges_size ps \<le> length d \<Longrightarrow> length d \<le> 2 ^ 63 \<Longrightarrow>
     store_ranges (merge_runs r ps) d f = store_ranges ps (drop (snd r) d) (\<lambda>x. stored_byte (fst r) (take (snd r) d) (f x) x)"
proof (induction r ps arbitrary: d f rule: merge_runs.induct)
  case (1 r)
  then show ?case by (cases r) simp
next
  case (2 r p ps)
  obtain a n b k where rp: "r = (a, n)" "p = (b, k)" by (cases r; cases p)
  show ?case
  proof (cases "b = a + of_nat n")
    case True
    have "stored_byte a (take (n + k) d) (f x) x =
        stored_byte b (take k (drop n d)) (stored_byte a (take n d) (f x) x) x" for x
      using stored_byte_split [of n "take (n + k) d" a "f x" x] 2(3,4) True rp
      by (simp add: min_absorb2 drop_take)
    then show ?thesis using 2(1) [of d f] 2(3,4) True rp by (simp add: add.commute)
  next
    case False
    then show ?thesis using 2(2) [of "drop n d"] 2(3,4) rp by simp
  qed
qed

lemma runs_of_store:
  "ranges_size ps \<le> length d \<Longrightarrow> length d \<le> 2 ^ 63 \<Longrightarrow> store_ranges (runs_of ps) d f = store_ranges ps d f"
  by (cases ps) (auto simp: runs_of_def merge_runs_store)

section \<open>Walking the lists\<close>

fun fold_pages :: "(u64 \<Rightarrow> nat \<Rightarrow> ('s, unit) gomethod) \<Rightarrow> (u64 \<times> nat) list \<Rightarrow> ('s, unit) gomethod" where
  "fold_pages fn [] s = (Inr (), s)"
| "fold_pages fn (p # ps) s = and_then (fn (fst p) (snd p)) (\<lambda>_. fold_pages fn ps) s"

lemma and_then_assoc: "and_then (and_then m f) g = and_then m (\<lambda>x. and_then (f x) g)"
  by (auto simp: and_then_def fun_eq_iff split: prod.splits sum.splits)

lemma and_then_return: "and_then m (\<lambda>_. return_ok ()) = m"
  by (auto simp: and_then_def fun_eq_iff return_ok_def split: prod.splits sum.splits)

lemma fold_pages_append: "fold_pages fn (ps @ qs) = and_then (fold_pages fn ps) (\<lambda>_. fold_pages fn qs)"
proof (induction ps)
  case Nil
  then show ?case by (auto simp: and_then_def fun_eq_iff)
next
  case (Cons p ps)
  have "fold_pages fn (p # ps) = and_then (fn (fst p) (snd p)) (\<lambda>_. fold_pages fn ps)"
    "fold_pages fn (p # ps @ qs) = and_then (fn (fst p) (snd p)) (\<lambda>_. fold_pages fn (ps @ qs))"
    by (simp_all add: fun_eq_iff)
  then show ?case using Cons by (simp add: and_then_assoc)
qed

lemma chunked_append:
  "chunked page (as @ bs) r = chunked page as r @ chunked page bs (r - ranges_size (chunked page as r))"
  by (induction as arbitrary: r) simp_all

lemma chunked_size: "ranges_size (chunked page as r) = min (page * length as) r"
  by (induction as arbitrary: r) (auto simp: min_def)

lemma walk_entries_fold:
  "walk_entries page as r fn = and_then (fold_pages fn (chunked page as r))
     (\<lambda>_. return_ok (r - ranges_size (chunked page as r)))"
proof (induction as arbitrary: r)
  case Nil
  then show ?case by (auto simp: and_then_def fun_eq_iff)
next
  case (Cons a as)
  have "walk_entries page (a # as) r fn = and_then (fn a (min page r)) (\<lambda>_. walk_entries page as (r - min page r) fn)"
    "fold_pages fn (chunked page (a # as) r) = and_then (fn a (min page r)) (\<lambda>_. fold_pages fn (chunked page as (r - min page r)))"
    by (simp_all add: fun_eq_iff Let_def)
  then show ?case using Cons by (simp add: and_then_assoc)
qed

text \<open>Two continuations that agree after every success of the first part.\<close>

lemma and_then_cong:
  "(\<And>x s'. m s = (Inr x, s') \<Longrightarrow> f x s' = g x s') \<Longrightarrow> and_then m f s = and_then m g s"
  by (auto simp: and_then_def split: prod.splits sum.splits)

text \<open>
  The walker is the fold over the pages, as long as the lists read the same at every point of it.
\<close>

lemma walk_lists_fold:
  assumes "prp_entries k rd page la n = Inr (es, ls)"
    and "\<And>ps qs t l. chunked page es r = ps @ qs \<Longrightarrow> fold_pages fn ps s = (Inr (), t) \<Longrightarrow> l \<in> set ls \<Longrightarrow>
      read_prp_list M (fst t) l page = rd l"
  shows "walk_lists k M page la r n fn s = fold_pages fn (chunked page es r) s"
  using assms
proof (induction k arbitrary: la n es ls r s)
  case 0
  then show ?case by (auto split: if_splits)
next
  case (Suc k)
  show ?case
  proof (cases "n = 0")
    case True
    then show ?thesis using Suc.prems(1) by auto
  next
    case False
    then obtain raw where raw: "rd la = Inr raw" using Suc.prems(1) by (auto split: sum.splits)
    have la: "la \<in> set ls" using Suc.prems(1) False raw by (auto simp: Let_def split: if_splits sum.splits)
    have rd: "read_prp_list M (fst s) la page = Inr raw" using Suc.prems(2) [of "[]" _ s la] la raw by simp
    let ?per = "page div 8"
    show ?thesis
    proof (cases "n \<le> ?per")
      case True
      then have "es = map (list_entry raw) [0..<n]" using Suc.prems(1) False raw by (simp add: Let_def)
      then show ?thesis using False rd True
        by (simp add: Let_def walk_entries_fold and_then_assoc and_then_def split: prod.splits sum.splits)
    next
      case gt: False
      let ?as = "map (list_entry raw) [0..<?per - 1]" and ?next = "list_entry raw (?per - 1)"
      obtain es' ls' where r: "prp_entries k rd page ?next (n - (?per - 1)) = Inr (es', ls')" "?next \<noteq> 0"
        and es: "es = ?as @ es'" "ls = la # ls'"
        using Suc.prems(1) False raw gt by (auto simp: Let_def split: if_splits sum.splits prod.splits)
      let ?r = "r - ranges_size (chunked page ?as r)"
      have "walk_lists (Suc k) M page la r n fn s = and_then (fold_pages fn (chunked page ?as r))
          (\<lambda>_. walk_lists k M page ?next ?r (n - (?per - 1)) fn) s"
        using False rd gt r(2) by (simp add: Let_def walk_entries_fold and_then_assoc and_then_def split: prod.splits sum.splits)
      also have "\<dots> = and_then (fold_pages fn (chunked page ?as r)) (\<lambda>_. fold_pages fn (chunked page es' ?r)) s"
      proof (rule and_then_cong)
        fix x t assume t: "fold_pages fn (chunked page ?as r) s = (Inr x, t)"
        have "read_prp_list M (fst u) l page = rd l"
          if "chunked page es' ?r = ps @ qs" "fold_pages fn ps t = (Inr (), u)" "l \<in> set ls'" for ps qs u l
          using Suc.prems(2) [of "chunked page ?as r @ ps" qs u l] that t es
          by (simp add: chunked_append fold_pages_append and_then_def)
        then show "walk_lists k M page ?next ?r (n - (?per - 1)) fn t = fold_pages fn (chunked page es' ?r) t"
          by (intro Suc.IH [OF r(1)])
      qed
      finally show ?thesis by (simp add: es chunked_append fold_pages_append)
    qed
  qed
qed

section \<open>Collecting pages into runs\<close>

fun xfer_runs :: "'m sliced_memory \<Rightarrow> bool \<Rightarrow> (u64 \<times> nat) list \<Rightarrow> nat \<Rightarrow> ('m option \<times> bytes, unit) gomethod" where
  "xfer_runs M wr [] off s = (Inr (), s)"
| "xfer_runs M wr (p # rs) off s = and_then (transferPage M wr (fst p) off (snd p)) (\<lambda>_. xfer_runs M wr rs (off + snd p)) s"

text \<open>The outcome of the collecting loop without its loop variables.\<close>

definition drop_run :: "(goerr + unit) \<times> ('m option \<times> bytes \<times> prp_run) \<Rightarrow> (goerr + unit) \<times> ('m option \<times> bytes)" where
  "drop_run = (\<lambda>(r, (mo, data, _)). (r, (mo, data)))"

lemma add_page_start:
  "add_page M wr a c (mo, data, \<lparr>runAddr = ra, runOff = ro, runLen = 0, prpOff = po\<rparr>) =
     (Inr (), (mo, data, \<lparr>runAddr = a, runOff = po, runLen = c, prpOff = po + c\<rparr>))"
  by (simp add: add_page_def start_run_def and_then_def)

lemma add_page_join:
  "0 < n \<Longrightarrow> a = ra + of_nat n \<Longrightarrow>
     add_page M wr a c (mo, data, \<lparr>runAddr = ra, runOff = ro, runLen = n, prpOff = po\<rparr>) =
     (Inr (), (mo, data, \<lparr>runAddr = ra, runOff = ro, runLen = n + c, prpOff = po + c\<rparr>))"
  by (simp add: add_page_def and_then_def)

lemma add_page_flush:
  "0 < n \<Longrightarrow> a \<noteq> ra + of_nat n \<Longrightarrow>
     add_page M wr a c (mo, data, \<lparr>runAddr = ra, runOff = ro, runLen = n, prpOff = po\<rparr>) =
     (case transferPage M wr ra ro n (mo, data) of
        (Inl e, (mo', data')) \<Rightarrow> (Inl e, (mo', data', \<lparr>runAddr = ra, runOff = ro, runLen = n, prpOff = po\<rparr>))
      | (Inr _, (mo', data')) \<Rightarrow> (Inr (), (mo', data', \<lparr>runAddr = a, runOff = po, runLen = c, prpOff = po + c\<rparr>)))"
  by (simp add: add_page_def flushRun_def start_run_def and_then_def split: prod.splits sum.splits)

lemma flushRun_eq:
  "0 < n \<Longrightarrow> drop_run (flushRun M wr (mo, data, \<lparr>runAddr = ra, runOff = ro, runLen = n, prpOff = po\<rparr>)) =
     transferPage M wr ra ro n (mo, data)"
  by (auto simp: flushRun_def drop_run_def split: prod.splits sum.splits)

lemma collect_runs:
  assumes "0 < n" "\<forall>p \<in> set ps. 0 < snd p"
  shows "drop_run (and_then (fold_pages (add_page M wr) ps) (\<lambda>_. flushRun M wr)
      (mo, data, \<lparr>runAddr = a, runOff = ro, runLen = n, prpOff = ro + n\<rparr>)) =
    xfer_runs M wr (merge_runs (a, n) ps) ro (mo, data)"
  using assms
proof (induction ps arbitrary: a n ro mo data)
  case Nil
  then show ?case
    by (simp add: and_then_def flushRun_eq) (auto split: prod.splits sum.splits)
next
  case (Cons p ps)
  obtain b k where p: "p = (b, k)" by force
  show ?case
  proof (cases "b = a + of_nat n")
    case True
    then show ?thesis
      using Cons.IH [where n = "n + k" and a = a and ro = ro and mo = mo and data = data] Cons.prems p
      by (simp add: and_then_def add_page_join add.assoc)
  next
    case False
    obtain r mo' data' where t: "transferPage M wr a ro n (mo, data) = (r, (mo', data'))" by (metis prod.exhaust)
    show ?thesis
    proof (cases r)
      case (Inl e)
      then show ?thesis using t False Cons.prems p by (simp add: and_then_def add_page_flush drop_run_def)
    next
      case (Inr u)
      then show ?thesis
        using t False Cons.prems p Cons.IH [where n = k and a = b and ro = "ro + n" and mo = mo' and data = data']
        by (simp add: and_then_def add_page_flush)
    qed
  qed
qed

lemma collect_runs_start:
  assumes "\<forall>p \<in> set ps. 0 < snd p"
  shows "drop_run (and_then (fold_pages (add_page M wr) ps) (\<lambda>_. flushRun M wr)
      (mo, data, \<lparr>runAddr = 0, runOff = 0, runLen = 0, prpOff = off\<rparr>)) = xfer_runs M wr (runs_of ps) off (mo, data)"
proof (cases ps)
  case Nil
  then show ?thesis by (simp add: and_then_def flushRun_def drop_run_def runs_of_def)
next
  case (Cons p qs)
  then show ?thesis
    using collect_runs [where n = "snd p" and ps = qs and a = "fst p" and ro = off and mo = mo and data = data and M = M and wr = wr] assms
    by (cases p) (simp add: and_then_def add_page_start runs_of_def)
qed

lemma chunked_positive:
  assumes "0 < page" "page * (length as - 1) < r"
  shows "\<forall>p \<in> set (chunked page as r). 0 < snd p"
  using assms
proof (induction as arbitrary: r)
  case (Cons a as)
  show ?case
  proof (cases as)
    case Nil
    then show ?thesis using Cons.prems by simp
  next
    case (Cons b bs)
    then have "page * (length as - 1) < r - min page r" using Cons.prems by (auto simp: min_def algebra_simps)
    then show ?thesis using Cons.IH Cons.prems by auto
  qed
qed simp

lemma prp_entries_length: "prp_entries k rd page la n = Inr (es, ls) \<Longrightarrow> length es = n"
proof (induction k arbitrary: la n es ls)
  case (Suc k)
  show ?case
  proof (cases "n \<le> page div 8")
    case True
    then show ?thesis using Suc.prems by (auto simp: Let_def split: if_splits sum.splits)
  next
    case False
    then obtain next' es' ls' where "prp_entries k rd page next' (n - (page div 8 - 1)) = Inr (es', ls')"
      "length es = page div 8 - 1 + length es'"
      using Suc.prems by (auto simp: Let_def split: if_splits sum.splits prod.splits)
    then show ?thesis using Suc.IH [of next' "n - (page div 8 - 1)" es' ls'] False by simp
  qed
qed (auto split: if_splits)

lemma entries_cover:
  assumes "0 < page" "0 < (r :: nat)"
  shows "page * ((r + page - 1) div page - 1) < r" "r \<le> page * ((r + page - 1) div page)"
proof -
  let ?q = "(r + page - 1) div page"
  have q: "page * ?q \<le> r + page - 1" by (rule times_div_less_eq_dividend)
  have "r + page - 1 < page * Suc ?q" using assms(1) by (metis dividend_less_times_div mult_Suc_right)
  then show "r \<le> page * ?q" by simp
  have "page * (?q - 1) = page * ?q - page" by (simp add: diff_mult_distrib2)
  then show "page * (?q - 1) < r" using q assms by linarith
qed

text \<open>The loop before its last flush: all runs but the last are transferred, the last is pending.\<close>

lemma merge_runs_nonempty [simp]: "merge_runs r ps \<noteq> []"
  by (induction r ps rule: merge_runs.induct) auto

lemma merge_runs_shift:
  "merge_runs (a + of_nat n, k) ps = h # R \<Longrightarrow> merge_runs (a, n + k) ps = (a, n + snd h) # R \<and> fst h = a + of_nat n"
proof (induction ps arbitrary: k)
  case (Cons p ps)
  show ?case
  proof (cases "fst p = a + of_nat n + of_nat k")
    case True
    then show ?thesis using Cons.IH [of "k + snd p"] Cons.prems by (simp add: add.assoc)
  next
    case False
    then show ?thesis using Cons.prems by (auto simp: add.assoc)
  qed
qed auto

lemma merge_runs_append:
  "merge_runs r (ps @ qs) = butlast (merge_runs r ps) @ merge_runs (last (merge_runs r ps)) qs"
  by (induction r ps rule: merge_runs.induct) auto

lemma collect_pending:
  assumes "0 < n" "\<forall>p \<in> set ps. 0 < snd p"
    and "fold_pages (add_page M wr) ps (mo, data, \<lparr>runAddr = a, runOff = ro, runLen = n, prpOff = ro + n\<rparr>) = (Inr (), t)"
  shows "xfer_runs M wr (butlast (merge_runs (a, n) ps)) ro (mo, data) = (Inr (), (fst t, fst (snd t)))"
  using assms
proof (induction ps arbitrary: a n ro mo data)
  case (Cons p ps)
  obtain b k where p: "p = (b, k)" by force
  show ?case
  proof (cases "b = a + of_nat n")
    case True
    then show ?thesis
      using Cons.IH [where n = "n + k" and a = a and ro = ro and mo = mo and data = data] Cons.prems p
      by (simp add: and_then_def add_page_join add.assoc)
  next
    case False
    obtain r mo' data' where x: "transferPage M wr a ro n (mo, data) = (r, (mo', data'))" by (metis prod.exhaust)
    then obtain u where r: "r = Inr u"
      using Cons.prems p False by (cases r) (simp_all add: and_then_def add_page_flush)
    then show ?thesis
      using x False Cons.prems p Cons.IH [where n = k and a = b and ro = "ro + n" and mo = mo' and data = data']
      by (simp add: and_then_def add_page_flush)
  qed
qed auto

lemma collect_pending_start:
  assumes "\<forall>p \<in> set ps. 0 < snd p"
    and "fold_pages (add_page M wr) ps (mo, data, \<lparr>runAddr = 0, runOff = 0, runLen = 0, prpOff = off\<rparr>) = (Inr (), t)"
  shows "xfer_runs M wr (butlast (runs_of ps)) off (mo, data) = (Inr (), (fst t, fst (snd t)))"
proof (cases ps)
  case Nil
  then show ?thesis using assms(2) by (auto simp: runs_of_def)
next
  case (Cons p qs)
  then show ?thesis
    using collect_pending [where n = "snd p" and ps = qs and a = "fst p" and ro = off and mo = mo and data = data
        and M = M and wr = wr and t = t] assms
    by (cases p) (simp add: and_then_def add_page_start runs_of_def)
qed

lemma runs_of_prefix: "set (butlast (runs_of ps)) \<subseteq> set (runs_of (ps @ qs))"
  by (cases ps) (auto simp: runs_of_def merge_runs_append)

section \<open>Addresses of runs\<close>

definition in_range :: "u64 \<Rightarrow> u64 \<times> nat \<Rightarrow> bool" where
  "in_range x r \<longleftrightarrow> unat (x - fst r) < snd r"

lemma in_range_join:
  assumes "in_range x (a, n + k)" "n + k \<le> 2 ^ 63"
  shows "in_range x (a, n) \<or> in_range x (a + of_nat n, k)"
proof (cases "unat (x - a) < n")
  case False
  have n: "unat (of_nat n :: u64) = n" using assms by (simp add: unat_of_nat)
  have "unat (x - (a + of_nat n)) = unat ((x - a) - of_nat n)" by (simp add: diff_diff_eq)
  also have "\<dots> = unat (x - a) - n"
    using False n by (subst unat_minus_le) (simp_all add: word_le_nat_alt)
  finally show ?thesis using assms False by (simp only: in_range_def fst_conv snd_conv) linarith
qed (simp add: in_range_def)

lemma merge_runs_covers:
  "r' \<in> set (merge_runs r ps) \<Longrightarrow> in_range x r' \<Longrightarrow> snd r + ranges_size ps \<le> 2 ^ 63 \<Longrightarrow> \<exists>p \<in> set (r # ps). in_range x p"
proof (induction r ps rule: merge_runs.induct)
  case (2 r p ps)
  show ?case
  proof (cases "fst p = fst r + of_nat (snd r)")
    case True
    then have "\<exists>p' \<in> set ((fst r, snd r + snd p) # ps). in_range x p'" using 2(1) 2(3-5) by simp
    then show ?thesis using in_range_join [of x "fst r" "snd r" "snd p"] True 2(5) by (cases r; cases p) auto
  next
    case False
    then show ?thesis using 2(2) 2(3-5) by auto
  qed
qed simp

lemma runs_of_covers:
  "r \<in> set (runs_of ps) \<Longrightarrow> in_range x r \<Longrightarrow> ranges_size ps \<le> 2 ^ 63 \<Longrightarrow> \<exists>p \<in> set ps. in_range x p"
  using merge_runs_covers by (cases ps) (auto simp: runs_of_def)

lemma merge_runs_starts: "r' \<in> set (merge_runs r ps) \<Longrightarrow> \<exists>p \<in> set (r # ps). fst r' = fst p"
  by (induction r ps rule: merge_runs.induct) (auto split: if_splits)

lemma runs_of_starts: "r \<in> set (runs_of ps) \<Longrightarrow> \<exists>p \<in> set ps. fst r = fst p"
  using merge_runs_starts by (cases ps) (auto simp: runs_of_def)

lemma runs_of_size_le: "r \<in> set (runs_of ps) \<Longrightarrow> snd r \<le> ranges_size ps"
proof -
  assume "r \<in> set (runs_of ps)"
  then have "snd r \<le> ranges_size (runs_of ps)"
    unfolding ranges_size_def by (auto intro: member_le_sum_list)
  then show ?thesis by simp
qed

lemma store_ranges_outside: "\<forall>r \<in> set rs. \<not> in_range x r \<Longrightarrow> store_ranges rs d f x = f x"
proof (induction rs d f rule: store_ranges.induct)
  case (2 a n rs d f)
  then show ?case by (simp add: in_range_def stored_byte_def)
qed simp

section \<open>Transfers on a memory that meets the contract\<close>

text \<open>Ranges a transfer can use: mapped, and not at address zero.\<close>

definition usable :: "(u64 \<Rightarrow> nat \<Rightarrow> bool) \<Rightarrow> u64 \<times> nat \<Rightarrow> bool" where
  "usable mp r \<longleftrightarrow> mp (fst r) (snd r) \<and> fst r \<noteq> 0"

lemma take_overwrite: "off + length zs \<le> length xs \<Longrightarrow> take (off + length zs) (overwrite xs off zs) = take off xs @ zs"
  by (simp add: overwrite_def)

context sliced_mem
begin

lemma transferPage_read:
  assumes "invar m" "usable (mapped m) (a, n)" "n < 2 ^ 63"
  shows "transferPage N False a off n (Some m, data) =
    (Inr (), (Some m, overwrite data off (range_bytes (byte_at m) a n)))"
  using assms read_mapped [of m a n] into_mapped [of m a n]
  by (auto simp: transferPage_def usable_def split: option.splits)

lemma transferPage_write:
  assumes "invar m" "usable (mapped m) (a, n)" "n < 2 ^ 63" "off + n \<le> length data"
  shows "\<exists>m'. transferPage N True a off n (Some m, data) = (Inr (), (Some m', data)) \<and> invar m'
    \<and> layout m' = layout m \<and> byte_at m' = (\<lambda>x. stored_byte a (take n (drop off data)) (byte_at m x) x)"
proof -
  let ?d = "take n (drop off data)"
  have d: "length ?d = n" using assms(4) by simp
  have w: "fst (WriteIPA (ipa N) m a ?d) = Inr ()" "invar (snd (WriteIPA (ipa N) m a ?d))"
    "layout (snd (WriteIPA (ipa N) m a ?d)) = layout m"
    "byte_at (snd (WriteIPA (ipa N) m a ?d)) = (\<lambda>x. stored_byte a ?d (byte_at m x) x)"
    using assms d write_mapped [of m a ?d] write_frame [of m ?d a] write_keeps_layout [of m ?d a] write_byte_at [of m a ?d]
    by (auto simp: usable_def)
  then obtain m' where "WriteIPA (ipa N) m a ?d = (Inr (), m')" by (metis prod.collapse)
  then show ?thesis using w assms(2) by (simp add: transferPage_def usable_def)
qed

lemma xfer_read:
  assumes "invar m" "\<forall>r \<in> set rs. usable (mapped m) r \<and> snd r < 2 ^ 63" "off + ranges_size rs = length data"
  shows "xfer_runs N False rs off (Some m, data) = (Inr (), (Some m, take off data @ gather_ranges (byte_at m) rs))"
  using assms
proof (induction rs arbitrary: off data)
  case (Cons r rs)
  obtain a n where r: "r = (a, n)" by force
  let ?d = "overwrite data off (range_bytes (byte_at m) a n)"
  have len: "length ?d = length data" using Cons.prems(3) r by simp
  have "xfer_runs N False rs (off + n) (Some m, ?d) =
      (Inr (), (Some m, take (off + n) ?d @ gather_ranges (byte_at m) rs))"
    using Cons.prems r len by (intro Cons.IH) simp_all
  moreover have "take (off + n) ?d = take off data @ range_bytes (byte_at m) a n"
    using take_overwrite [of off "range_bytes (byte_at m) a n" data] Cons.prems(3) r by simp
  ultimately show ?case
    using transferPage_read [of m a n off data] Cons.prems r by (simp add: and_then_def)
qed simp

lemma xfer_write:
  assumes "invar m" "\<forall>r \<in> set rs. usable (mapped m) r \<and> snd r < 2 ^ 63" "off + ranges_size rs \<le> length data"
  shows "\<exists>m'. xfer_runs N True rs off (Some m, data) = (Inr (), (Some m', data)) \<and> invar m'
    \<and> layout m' = layout m \<and> byte_at m' = store_ranges rs (drop off data) (byte_at m)"
  using assms
proof (induction rs arbitrary: off m)
  case (Cons r rs)
  obtain a n where r: "r = (a, n)" by force
  obtain m1 where m1: "transferPage N True a off n (Some m, data) = (Inr (), (Some m1, data))" "invar m1"
    "layout m1 = layout m" "byte_at m1 = (\<lambda>x. stored_byte a (take n (drop off data)) (byte_at m x) x)"
    using transferPage_write [of m a n off data] Cons.prems r by auto
  have "mapped m1 = mapped m" using mapped_layout [OF m1(3)] .
  then have "\<exists>m'. xfer_runs N True rs (off + n) (Some m1, data) = (Inr (), (Some m', data)) \<and> invar m'
      \<and> layout m' = layout m1 \<and> byte_at m' = store_ranges rs (drop (off + n) data) (byte_at m1)"
    using Cons.prems r m1(2) by (intro Cons.IH) simp_all
  then show ?case using m1 r by (auto simp: and_then_def add.commute)
qed auto

text \<open>Parts of a usable run are mapped.\<close>

lemma merge_runs_parts:
  assumes "invar m" "\<forall>r' \<in> set (merge_runs r ps). mapped m (fst r') (snd r')"
  shows "mapped m (fst r) (snd r) \<and> (\<forall>r' \<in> set (runs_of ps). mapped m (fst r') (snd r'))"
proof (cases ps)
  case Nil
  then show ?thesis using assms by (simp add: runs_of_def)
next
  case (Cons p qs)
  obtain a n where r: "r = (a, n)" by force
  show ?thesis
  proof (cases "fst p = a + of_nat n")
    case True
    obtain h R where h: "merge_runs (a + of_nat n, snd p) qs = h # R" by (metis list.exhaust merge_runs_nonempty)
    then have "fst h = a + of_nat n" "merge_runs (a, n + snd p) qs = (a, n + snd h) # R"
      using merge_runs_shift by blast+
    moreover have "merge_runs r ps = merge_runs (a, n + snd p) qs" "runs_of ps = h # R"
      using Cons True r h by (simp_all add: runs_of_def) (metis prod.collapse)
    ultimately have "mapped m a (n + snd h)" "\<forall>r' \<in> set R. mapped m (fst r') (snd r')" "runs_of ps = h # R"
      "fst h = a + of_nat n"
      using assms(2) by simp_all
    then show ?thesis
      using mapped_sub [OF assms(1), of a "n + snd h" 0 n] mapped_sub [OF assms(1), of a "n + snd h" n "snd h"] r by simp
  next
    case False
    then show ?thesis using assms(2) Cons r by (simp add: runs_of_def)
  qed
qed

lemma read_prp_list_mapped:
  assumes "invar m" "mapped m l n" "n < 2 ^ 63"
  shows "read_prp_list N (Some m) l n = Inr (range_bytes (byte_at m) l n)"
  using assms read_mapped [of m l n] into_mapped [of m l n] by (simp add: read_prp_list_def split: option.splits)

end

lemma page_size_pos: "0 < unat (page_size psz)"
  by (simp add: page_size_def unat_gt_0)

lemma page_first_pos: "0 < unat (page_size psz - p mod page_size psz)"
proof -
  have "p mod page_size psz < page_size psz"
    using page_size_pos [of psz] by (simp add: word_less_nat_alt unat_mod)
  then show ?thesis by (metis diff_eq_eq add_0 gr0I less_irrefl unat_0_iff unat_gt_0 right_minus_eq)
qed

text \<open>The shape of the pages: the first one, then one more, or the entries of the lists.\<close>

lemma prp_pages_cases:
  assumes "prp_pages M psz m p1 p2 len = Inr (pages, ls)" "0 < len"
  obtains (one) "p1 \<noteq> 0" "len \<le> unat (page_size psz - p1 mod page_size psz)" "pages = [(p1, len)]" "ls = []"
  | (two) n where "p1 \<noteq> 0" "n = unat (page_size psz - p1 mod page_size psz)" "n < len" "len - n \<le> unat (page_size psz)"
      "pages = [(p1, n), (p2, len - n)]" "ls = []"
  | (lists) n es where "p1 \<noteq> 0" "n = unat (page_size psz - p1 mod page_size psz)" "n < len"
      "unat (page_size psz) < len - n" "p2 \<noteq> 0" "2 \<le> unat (page_size psz) div 8"
      "pages = (p1, n) # chunked (unat (page_size psz)) es (len - n)"
      "prp_entries (((len - n) + unat (page_size psz) - 1) div unat (page_size psz))
         (\<lambda>la. read_prp_list M (Some m) la (unat (page_size psz))) (unat (page_size psz)) p2
         (((len - n) + unat (page_size psz) - 1) div unat (page_size psz)) = Inr (es, ls)"
  using assms that
  by (auto simp: prp_pages_def Let_def min_def not_less split: if_splits sum.splits prod.splits)

lemma prp_pages_facts:
  assumes "prp_pages M psz m p1 p2 len = Inr (pages, ls)" "0 < len"
  shows "ranges_size pages = len \<and> (\<forall>p \<in> set pages. 0 < snd p)
    \<and> hd pages = (p1, min (unat (page_size psz - p1 mod page_size psz)) len) \<and> pages \<noteq> []"
  using assms
proof (cases rule: prp_pages_cases)
  case (lists n es)
  let ?page = "unat (page_size psz)" and ?r = "len - n"
  have es: "length es = (?r + ?page - 1) div ?page" using prp_entries_length lists(8) by blast
  have r: "0 < ?r" using lists(3) by simp
  have "?r \<le> ?page * length es" unfolding es by (rule entries_cover(2) [OF page_size_pos r])
  then have "ranges_size (chunked ?page es ?r) = ?r" by (simp add: chunked_size)
  moreover have "?page * (length es - 1) < ?r" unfolding es by (rule entries_cover(1) [OF page_size_pos r])
  then have "\<forall>p \<in> set (chunked ?page es ?r). 0 < snd p" by (rule chunked_positive [OF page_size_pos])
  ultimately show ?thesis
    using lists page_first_pos [of psz p1] by simp
qed (use assms(2) page_first_pos [of psz p1] in \<open>auto simp: min_def\<close>)

lemmas prp_pages_size = prp_pages_facts [THEN conjunct1] prp_pages_facts [THEN conjunct2, THEN conjunct1]
  prp_pages_facts [THEN conjunct2, THEN conjunct2, THEN conjunct1]
  prp_pages_facts [THEN conjunct2, THEN conjunct2, THEN conjunct2]

lemma xfer_read_keeps: "fst (snd (xfer_runs M False rs off s)) = fst s"
proof (induction rs arbitrary: off s)
  case (Cons r rs)
  have "fst (snd (transferPage M False a o' n s)) = fst s" for a o' n
    by (auto simp: transferPage_def split: prod.splits option.splits sum.splits)
  then show ?case using Cons by (auto simp: and_then_def split: prod.splits sum.splits) (metis fst_conv snd_conv)+
qed simp

lemma disjoint_not_in_range: "ranges_disjoint a n l k \<Longrightarrow> i < k \<Longrightarrow> \<not> in_range (l + of_nat i) (a, n)"
proof
  assume d: "ranges_disjoint a n l k" "i < k" "in_range (l + of_nat i) (a, n)"
  then have "a + of_nat (unat (l + of_nat i - a)) = l + of_nat i" by simp
  then show False using d unfolding ranges_disjoint_def in_range_def by (metis fst_conv snd_conv)
qed

text \<open>The transfer of pages beyond the second, given that the lists stay readable.\<close>

lemma transferPRP_lists:
  assumes "p1 \<noteq> 0" "n = unat (page_size psz - p1 mod page_size psz)" "n < len"
    "unat (page_size psz) < len - n" "p2 \<noteq> 0" "2 \<le> unat (page_size psz) div 8" "len = length data"
    "prp_entries (((len - n) + unat (page_size psz) - 1) div unat (page_size psz)) rd (unat (page_size psz)) p2
       (((len - n) + unat (page_size psz) - 1) div unat (page_size psz)) = Inr (es, ls)"
    "transferPage M wr p1 0 n (mo, data) = (Inr (), (mo1, data1))"
    "\<And>ps qs mo2 d2 l. chunked (unat (page_size psz)) es (len - n) = ps @ qs \<Longrightarrow>
       xfer_runs M wr (butlast (runs_of ps)) n (mo1, data1) = (Inr (), (mo2, d2)) \<Longrightarrow> l \<in> set ls \<Longrightarrow>
       read_prp_list M mo2 l (unat (page_size psz)) = rd l"
    "\<forall>p \<in> set (chunked (unat (page_size psz)) es (len - n)). 0 < snd p"
  shows "transferPRP M psz wr p1 p2 (mo, data) =
    xfer_runs M wr (runs_of (chunked (unat (page_size psz)) es (len - n))) n (mo1, data1)"
proof -
  let ?page = "unat (page_size psz)" and ?r = "len - n"
  let ?ps = "chunked ?page es ?r" and ?s = "(mo1, data1, \<lparr>runAddr = 0, runOff = 0, runLen = 0, prpOff = n\<rparr>)"
  have walk: "walkPRPListLocked M psz p2 ?r (add_page M wr) ?s = fold_pages (add_page M wr) ?ps ?s"
  proof -
    have "read_prp_list M (fst t) l ?page = rd l"
      if "?ps = ps @ qs" "fold_pages (add_page M wr) ps ?s = (Inr (), t)" "l \<in> set ls" for ps qs t l
    proof -
      have "\<forall>p \<in> set ps. 0 < snd p" using assms(11) that(1) by auto
      then have "xfer_runs M wr (butlast (runs_of ps)) n (mo1, data1) = (Inr (), (fst t, fst (snd t)))"
        using collect_pending_start that(2) by blast
      then show ?thesis using assms(10) that(1,3) by blast
    qed
    then have "walk_lists ((?r + ?page - 1) div ?page) M ?page p2 ?r ((?r + ?page - 1) div ?page) (add_page M wr) ?s =
        fold_pages (add_page M wr) ?ps ?s"
      by (intro walk_lists_fold [OF assms(8)])
    then show ?thesis using assms(3,5,6) by (simp add: walkPRPListLocked_def Let_def not_less)
  qed
  have "transferPRP M psz wr p1 p2 (mo, data) =
      drop_run (and_then (walkPRPListLocked M psz p2 ?r (add_page M wr)) (\<lambda>_. flushRun M wr) ?s)"
    using assms(1-4,7,9) by (cases "data = []") (simp_all add: transferPRP_def Let_def and_then_def min_def drop_run_def)
  also have "\<dots> = drop_run (and_then (fold_pages (add_page M wr) ?ps) (\<lambda>_. flushRun M wr) ?s)"
    using walk by (simp add: and_then_def)
  also have "\<dots> = xfer_runs M wr (runs_of ?ps) n (mo1, data1)" using collect_runs_start [OF assms(11)] .
  finally show ?thesis .
qed

context sliced_mem
begin

lemma runs_usable:
  assumes "invar m" "pages = p # ps" "\<forall>q \<in> set pages. fst q \<noteq> 0" "ranges_size pages < 2 ^ 63"
    "\<forall>r \<in> set (runs_of pages). mapped m (fst r) (snd r)"
  shows "usable (mapped m) p" "snd p < 2 ^ 63" "\<forall>r \<in> set (runs_of ps). usable (mapped m) r \<and> snd r < 2 ^ 63"
proof -
  have parts: "mapped m (fst p) (snd p) \<and> (\<forall>r \<in> set (runs_of ps). mapped m (fst r) (snd r))"
    using merge_runs_parts [OF assms(1), of p ps] assms(2,5) by (simp add: runs_of_def)
  then show "usable (mapped m) p" "snd p < 2 ^ 63" using assms(2-4) by (simp_all add: usable_def)
  show "\<forall>r \<in> set (runs_of ps). usable (mapped m) r \<and> snd r < 2 ^ 63"
  proof
    fix r assume r: "r \<in> set (runs_of ps)"
    have "fst r \<noteq> 0" using runs_of_starts [OF r] assms(2,3) by force
    moreover have "snd r < 2 ^ 63" using runs_of_size_le [OF r] assms(2,4) by simp
    ultimately show "usable (mapped m) r \<and> snd r < 2 ^ 63" using parts r by (simp add: usable_def)
  qed
qed

lemma transferPRP_read:
  assumes "invar m" "prp_pages N psz m p1 p2 (length data) = Inr (pages, ls)" "data \<noteq> []" "length data < 2 ^ 63"
    "\<forall>p \<in> set pages. fst p \<noteq> 0" "\<forall>r \<in> set (runs_of pages). mapped m (fst r) (snd r)"
  shows "transferPRP N psz False p1 p2 (Some m, data) = (Inr (), (Some m, gather_ranges (byte_at m) pages))"
proof -
  have len: "0 < length data" using assms(3) by simp
  note sz = prp_pages_size [OF assms(2) len]
  have all: "length (overwrite data 0 d) = length data" "take (length d) (overwrite data 0 d) = d"
    if "length d \<le> length data" for d
    using that by (simp_all add: overwrite_def)
  from assms(2) len show ?thesis
  proof (cases rule: prp_pages_cases)
    case one
    have "usable (mapped m) (p1, length data)" using runs_usable [OF assms(1) one(3) assms(5) _ assms(6)] sz(1) assms(4) by simp
    then show ?thesis
      using one transferPage_read [OF assms(1), of p1 "length data" 0 data] assms(3,4)
      by (simp add: transferPRP_def and_then_def Let_def min_def overwrite_def)
  next
    case (two n)
    have u: "usable (mapped m) (p1, n)" "\<forall>r \<in> set (runs_of [(p2, length data - n)]). usable (mapped m) r \<and> snd r < 2 ^ 63"
      using runs_usable [OF assms(1) two(5) assms(5) _ assms(6)] sz(1) assms(4) by simp_all
    let ?d1 = "range_bytes (byte_at m) p1 n" and ?d2 = "range_bytes (byte_at m) p2 (length data - n)"
    have "transferPage N False p1 0 n (Some m, data) = (Inr (), (Some m, overwrite data 0 ?d1))"
      using transferPage_read [OF assms(1) u(1)] two(3) assms(4) by simp
    moreover have "transferPage N False p2 n (length data - n) (Some m, overwrite data 0 ?d1) =
        (Inr (), (Some m, overwrite (overwrite data 0 ?d1) n ?d2))"
      using transferPage_read [OF assms(1), of p2 "length data - n"] u(2) by (simp add: runs_of_def)
    moreover have "overwrite (overwrite data 0 ?d1) n ?d2 = ?d1 @ ?d2" using two(3) by (simp add: overwrite_def)
    ultimately show ?thesis
      using two assms(3) by (simp add: transferPRP_def and_then_def Let_def min_def not_le)
  next
    case (lists n es)
    let ?page = "unat (page_size psz)" and ?d1 = "range_bytes (byte_at m) p1 n"
    let ?ps = "chunked ?page es (length data - n)"
    have u: "usable (mapped m) (p1, n)" "\<forall>r \<in> set (runs_of ?ps). usable (mapped m) r \<and> snd r < 2 ^ 63"
      using runs_usable [OF assms(1) lists(7) assms(5) _ assms(6)] sz(1) assms(4) by simp_all
    have t: "transferPage N False p1 0 n (Some m, data) = (Inr (), (Some m, overwrite data 0 ?d1))"
      using transferPage_read [OF assms(1) u(1)] lists(3) assms(4) by simp
    have "transferPRP N psz False p1 p2 (Some m, data) = xfer_runs N False (runs_of ?ps) n (Some m, overwrite data 0 ?d1)"
    proof (rule transferPRP_lists [OF lists(1-6) refl lists(8) t])
      show "read_prp_list N mo2 l ?page = read_prp_list N (Some m) l ?page"
        if "xfer_runs N False (butlast (runs_of ps)) n (Some m, overwrite data 0 ?d1) = (Inr (), mo2, d2)" for ps mo2 d2 l
        using xfer_read_keeps [of N "butlast (runs_of ps)" n "(Some m, overwrite data 0 ?d1)"] that by simp
      show "\<forall>p \<in> set ?ps. 0 < snd p" using sz(2) lists(7) by simp
    qed
    also have "\<dots> = (Inr (), (Some m, take n (overwrite data 0 ?d1) @ gather_ranges (byte_at m) (runs_of ?ps)))"
      using u(2) sz(1) lists(3,7) all(1) [of ?d1] by (intro xfer_read [OF assms(1)]) simp_all
    also have "take n (overwrite data 0 ?d1) = ?d1" using all(2) [of ?d1] lists(3) by simp
    finally show ?thesis using lists(7) by (simp add: runs_of_gather)
  qed
qed

lemma lists_stay:
  assumes "ranges_size pages \<le> 2 ^ 63" "\<forall>p \<in> set pages. ranges_disjoint (fst p) (snd p) l k"
    "\<forall>r \<in> set rs. \<forall>x. in_range x r \<longrightarrow> (\<exists>p \<in> set pages. in_range x p)"
  shows "range_bytes (store_ranges rs d f) l k = range_bytes f l k"
proof (rule range_bytes_cong)
  fix i assume i: "i < k"
  have "\<not> in_range (l + of_nat i) p" if "p \<in> set pages" for p
    using disjoint_not_in_range [of "fst p" "snd p" l k i] assms(2) that i by simp
  then have "\<forall>r \<in> set rs. \<not> in_range (l + of_nat i) r" using assms(3) by blast
  then show "store_ranges rs d f (l + of_nat i) = f (l + of_nat i)" by (rule store_ranges_outside)
qed

lemma transferPRP_write:
  assumes "invar m" "prp_pages N psz m p1 p2 (length data) = Inr (pages, ls)" "data \<noteq> []" "length data < 2 ^ 63"
    "\<forall>p \<in> set pages. fst p \<noteq> 0" "\<forall>r \<in> set (runs_of pages). mapped m (fst r) (snd r)"
    and lists: "\<forall>l \<in> set ls. mapped m l (unat (page_size psz))
      \<and> (\<forall>p \<in> set pages. ranges_disjoint (fst p) (snd p) l (unat (page_size psz)))"
    and page: "unat (page_size psz) < 2 ^ 63"
  shows "\<exists>m'. transferPRP N psz True p1 p2 (Some m, data) = (Inr (), (Some m', data)) \<and> invar m'
    \<and> layout m' = layout m \<and> byte_at m' = store_ranges pages data (byte_at m)"
proof -
  have len: "0 < length data" using assms(3) by simp
  note sz = prp_pages_size [OF assms(2) len]
  from assms(2) len show ?thesis
  proof (cases rule: prp_pages_cases)
    case one
    have "usable (mapped m) (p1, length data)" using runs_usable [OF assms(1) one(3) assms(5) _ assms(6)] sz(1) assms(4) by simp
    then show ?thesis
      using one transferPage_write [OF assms(1), of p1 "length data" 0 data] assms(3,4)
      by (auto simp: transferPRP_def and_then_def Let_def min_def)
  next
    case (two n)
    have u: "usable (mapped m) (p1, n)" "usable (mapped m) (p2, length data - n)"
      using runs_usable [OF assms(1) two(5) assms(5) _ assms(6)] sz(1) assms(4) by (simp_all add: runs_of_def)
    obtain m1 where m1: "transferPage N True p1 0 n (Some m, data) = (Inr (), (Some m1, data))" "invar m1"
      "layout m1 = layout m" "byte_at m1 = (\<lambda>x. stored_byte p1 (take n data) (byte_at m x) x)"
      using transferPage_write [OF assms(1) u(1), of 0 data] two(3) assms(4) by auto
    have "usable (mapped m1) (p2, length data - n)" using u(2) mapped_layout [OF m1(3)] by simp
    moreover have "length data - n < 2 ^ 63" "n + (length data - n) \<le> length data" using two(3) assms(4) by simp_all
    ultimately obtain m2 where "transferPage N True p2 n (length data - n) (Some m1, data) = (Inr (), (Some m2, data))"
      "invar m2" "layout m2 = layout m1"
      "byte_at m2 = (\<lambda>x. stored_byte p2 (take (length data - n) (drop n data)) (byte_at m1 x) x)"
      using transferPage_write [OF m1(2), of p2 "length data - n" n data] by blast
    then show ?thesis
      using two m1 assms(3) by (simp add: transferPRP_def and_then_def Let_def min_def not_le)
  next
    case lst: (lists n es)
    let ?page = "unat (page_size psz)"
    let ?ps = "chunked ?page es (length data - n)"
    have u: "usable (mapped m) (p1, n)" "\<forall>r \<in> set (runs_of ?ps). usable (mapped m) r \<and> snd r < 2 ^ 63"
      using runs_usable [OF assms(1) lst(7) assms(5) _ assms(6)] sz(1) assms(4) by simp_all
    obtain m1 where m1: "transferPage N True p1 0 n (Some m, data) = (Inr (), (Some m1, data))" "invar m1"
      "layout m1 = layout m" "byte_at m1 = (\<lambda>x. stored_byte p1 (take n data) (byte_at m x) x)"
      using transferPage_write [OF assms(1) u(1), of 0 data] lst(3) assms(4) by auto
    note mp = mapped_layout [OF m1(3)]
    have st: "byte_at m1 = store_ranges [(p1, n)] data (byte_at m)" using m1(4) by simp
    have x: "transferPRP N psz True p1 p2 (Some m, data) = xfer_runs N True (runs_of ?ps) n (Some m1, data)"
    proof (rule transferPRP_lists [OF lst(1-6) refl lst(8) m1(1)])
      show "\<forall>p \<in> set ?ps. 0 < snd p" using sz(2) lst(7) by simp
      fix ps qs mo2 d2 l
      assume ps: "?ps = ps @ qs" and l: "l \<in> set ls"
        and x: "xfer_runs N True (butlast (runs_of ps)) n (Some m1, data) = (Inr (), mo2, d2)"
      let ?b = "butlast (runs_of ps)"
      have sub: "set ?b \<subseteq> set (runs_of ?ps)" using runs_of_prefix ps by metis
      have "ranges_size ?b \<le> ranges_size (runs_of ps)"
        by (cases "runs_of ps" rule: rev_cases) simp_all
      then have "n + ranges_size ?b \<le> length data" using sz(1) lst(7) ps by simp
      then obtain m2 where m2: "mo2 = Some m2" "invar m2" "layout m2 = layout m1"
        "byte_at m2 = store_ranges ?b (drop n data) (byte_at m1)"
        using xfer_write [OF m1(2), of ?b n data] u(2) sub mp x by auto
      have sz': "ranges_size pages \<le> 2 ^ 63" using sz(1) assms(4) by simp
      have "\<exists>p \<in> set pages. in_range y p" if "r \<in> set ?b" "in_range y r" for r y
        using runs_of_covers [of r ?ps y] that sub sz' lst(7) by fastforce
      then have "range_bytes (byte_at m2) l ?page = range_bytes (byte_at m1) l ?page"
        using lists_stay [OF sz', of l ?page ?b] lists l m2(4) by simp
      moreover have "range_bytes (byte_at m1) l ?page = range_bytes (byte_at m) l ?page"
        using lists_stay [OF sz', of l ?page "[(p1, n)]"] lists l lst(7) st by simp
      ultimately show "read_prp_list N mo2 l ?page = read_prp_list N (Some m) l ?page"
        using read_prp_list_mapped [of m l ?page] read_prp_list_mapped [of m2 l ?page] assms(1) m2 lists l page
          mapped_layout [OF m2(3)] mp by simp
    qed
    have "n + ranges_size (runs_of ?ps) \<le> length data" using sz(1) lst(7) by simp
    then obtain m2 where "xfer_runs N True (runs_of ?ps) n (Some m1, data) = (Inr (), (Some m2, data))" "invar m2"
      "layout m2 = layout m1" "byte_at m2 = store_ranges (runs_of ?ps) (drop n data) (byte_at m1)"
      using xfer_write [OF m1(2), of "runs_of ?ps" n data] u(2) mp by auto
    moreover have "store_ranges (runs_of ?ps) (drop n data) (byte_at m1) = store_ranges pages data (byte_at m)"
      using runs_of_store [of ?ps "drop n data"] sz(1) lst(7) assms(4) m1(4) by simp
    ultimately show ?thesis using x m1(3) by auto
  qed
qed

end

section \<open>Contiguous pages\<close>

lemma expected_run:
  assumes "fold_pages (expect_page pg) (chunked page es r) (mo, e) = (Inr (), t)" "pg = of_nat page"
    "\<forall>p \<in> set (chunked page es r). 0 < snd p" "e = a + of_nat n"
  shows "merge_runs (a, n) (chunked page es r) = [(a, n + ranges_size (chunked page es r))]"
  using assms
proof (induction es arbitrary: r e n)
  case (Cons b es)
  let ?c = "min page r"
  have b: "b = e" "fold_pages (expect_page pg) (chunked page es (r - ?c)) (mo, e + pg) = (Inr (), t)"
    using Cons.prems(1) expect_page_def [of pg b ?c "(mo, e)"] by (auto simp: and_then_def split: if_splits)
  show ?case
  proof (cases es)
    case Nil
    then show ?thesis using b Cons.prems by simp
  next
    case (Cons d ds)
    then have "?c = page" using Cons.prems(3) by (auto simp: min_def split: if_splits)
    then have "e + pg = a + of_nat (n + ?c)" using Cons.prems(2,4) by simp
    then have "merge_runs (a, n + ?c) (chunked page es (r - ?c)) = [(a, n + ?c + ranges_size (chunked page es (r - ?c)))]"
      using Cons.prems(2,3) b(2) by (intro Cons.IH) auto
    then show ?thesis using b(1) Cons.prems(4) by (simp add: add.assoc)
  qed
qed simp

lemma expect_page_keeps: "fold_pages (expect_page pg) ps s = (Inr (), t) \<Longrightarrow> fst t = fst s"
  by (induction ps arbitrary: s) (auto simp: and_then_eq_ok expect_page_def split: if_splits)

lemma expect_page_error: "fold_pages (expect_page pg) ps s = (Inl e, t) \<Longrightarrow> e = NotContiguous"
proof (induction ps arbitrary: s)
  case (Cons p ps)
  show ?case
  proof (cases "fst p = snd s")
    case True
    then show ?thesis using Cons by (simp add: and_then_def expect_page_def)
  next
    case False
    then show ?thesis using Cons.prems by (simp add: and_then_def expect_page_def)
  qed
qed simp

lemma prpIsContiguous_pages:
  assumes "prp_pages M psz m p1 p2 len = Inr (pages, ls)" "0 < len"
  shows "\<exists>b. prpIsContiguousLocked M psz (Some m) p1 p2 len = Inr b \<and> (b \<longrightarrow> runs_of pages = [(p1, len)])"
  using assms
proof (cases rule: prp_pages_cases)
  case one
  then show ?thesis by (auto simp: prpIsContiguousLocked_def runs_of_def intro!: exI [of _ True])
next
  case (two n)
  then show ?thesis by (auto simp: prpIsContiguousLocked_def Let_def runs_of_def)
next
  case (lists n es)
  let ?page = "unat (page_size psz)" and ?r = "len - n"
  let ?ps = "chunked ?page es ?r" and ?s = "(Some m, p1 + of_nat n)" and ?k = "(len - n + ?page - 1) div ?page"
  have "walk_lists ?k M ?page p2 ?r ?k (expect_page (page_size psz)) ?s = fold_pages (expect_page (page_size psz)) ?ps ?s"
    by (rule walk_lists_fold [OF lists(8)]) (metis expect_page_keeps fst_conv)
  then have w: "walkPRPListLocked M psz p2 ?r (expect_page (page_size psz)) ?s = fold_pages (expect_page (page_size psz)) ?ps ?s"
    using lists(3,5,6) by (simp add: walkPRPListLocked_def Let_def not_less)
  have c: "prpIsContiguousLocked M psz (Some m) p1 p2 len =
      (case fst (fold_pages (expect_page (page_size psz)) ?ps ?s) of
        Inr _ \<Rightarrow> Inr True | Inl e \<Rightarrow> if fatal e then Inl e else Inr False)"
    using w lists(2-4) by (simp add: prpIsContiguousLocked_def Let_def)
  note sz = prp_pages_size [OF assms]
  obtain x t where f: "fold_pages (expect_page (page_size psz)) ?ps ?s = (x, t)" by (rule prod.exhaust)
  show ?thesis
  proof (cases x)
    case (Inl e)
    then show ?thesis using c f expect_page_error by fastforce
  next
    case (Inr u)
    have "runs_of pages = merge_runs (p1, n) ?ps" using lists(7) by (simp add: runs_of_def)
    also have "\<dots> = [(p1, n + ranges_size ?ps)]"
      using f Inr sz(2) lists(7) by (intro expected_run [of "page_size psz" _ _ _ "Some m" "p1 + of_nat n" t]) simp_all
    also have "n + ranges_size ?ps = len" using sz(1) lists(7) by simp
    finally show ?thesis using c f Inr by (auto intro!: exI [of _ True])
  qed
qed

end
