(* ===== verification/NvmeProps.thy ===== *)
theory NvmeProps
  imports NvmePrp
begin

text \<open>
  What the NVMe controller does for its driver: the data path of reads and writes, the completion
  queues and their interrupts, and how its loop over a submission queue ends.
\<close>

section \<open>Reads and writes\<close>

lemma io_bytes_bounds: "0 < io_bytes cmd" "io_bytes cmd < 2 ^ 63"
proof -
  have "unat (cdw12 cmd AND 0xffff) \<le> unat (0xffff :: u32)"
    using word_and_le1 [of "cdw12 cmd" "0xffff"] by (simp add: word_le_nat_alt and.commute)
  then have le: "unat (cdw12 cmd AND 0xffff) \<le> 65535" by simp
  then have "unat ((cdw12 cmd AND 0xffff) + 1) = unat (cdw12 cmd AND 0xffff) + 1"
    using unat_add_of_nat [of "cdw12 cmd AND 0xffff" 1] by simp
  then show "0 < io_bytes cmd" "io_bytes cmd < 2 ^ 63" using le by (simp_all add: io_bytes_def)
qed

text \<open>
  A data transfer the controller can carry out: the pages of the command can be listed, none is at
  address zero, and each run of adjacent pages is mapped.
\<close>

definition prp_usable ::
  "'m sliced_memory \<Rightarrow> ('m \<Rightarrow> u64 \<Rightarrow> nat \<Rightarrow> bool) \<Rightarrow> u64 \<Rightarrow> 'm \<Rightarrow> nvcommand \<Rightarrow> (u64 \<times> nat) list \<Rightarrow> u64 list \<Rightarrow> bool" where
  "prp_usable M mapped psz m cmd pages ls \<longleftrightarrow>
     prp_pages M psz m (prp1 cmd) (prp2 cmd) (io_bytes cmd) = Inr (pages, ls)
     \<and> (\<forall>p \<in> set pages. fst p \<noteq> 0) \<and> (\<forall>r \<in> set (runs_of pages). mapped m (fst r) (snd r))"

text \<open>The contract of a block device: what was written is read back.\<close>

definition backend_stores :: "'b block_backend \<Rightarrow> bool" where
  "backend_stores B \<longleftrightarrow> (\<forall>b d off. \<exists>b'. WriteAt B b d off = ((length d, None), b')
     \<and> ReadAt B b' (length d) off = (d, None))"

text \<open>The lists of a transfer into memory are mapped and not among the pages written.\<close>

definition lists_apart :: "('m \<Rightarrow> u64 \<Rightarrow> nat \<Rightarrow> bool) \<Rightarrow> u64 \<Rightarrow> 'm \<Rightarrow> (u64 \<times> nat) list \<Rightarrow> u64 list \<Rightarrow> bool" where
  "lists_apart mapped psz m pages ls \<longleftrightarrow> unat (page_size psz) < 2 ^ 63
     \<and> (\<forall>l \<in> set ls. mapped m l (unat (page_size psz))
          \<and> (\<forall>p \<in> set pages. ranges_disjoint (fst p) (snd p) l (unat (page_size psz))))"

lemma aliases_get: "aliases N f m s a n \<Longrightarrow> snd s = n \<and> slice_get N m s = range_bytes (f m) a n"
proof -
  assume al: "aliases N f m s a n"
  have "slice_get N m (fst s, n) = range_bytes (f m) a n"
    using al [unfolded aliases_def, THEN conjunct2, THEN conjunct1, rule_format, of 0 n] by simp
  moreover have "snd s = n" using al by (simp add: aliases_def)
  ultimately show ?thesis by (metis prod.collapse)
qed

lemma aliases_put:
  "aliases N f m s a n \<Longrightarrow> i + length d \<le> n \<Longrightarrow> slice_put N (fst s + i) d m = snd (WriteIPA (ipa N) m (a + of_nat i) d)"
  unfolding aliases_def by blast

context sliced_mem
begin

lemma direct_slice_cases:
  assumes "invar m" "nmem c = Some m" "nbackend c = Some b" "prp_usable N mapped (pageSz c) m cmd pages ls"
  shows "direct_slice N (prp1 cmd) (prp2 cmd) (io_bytes cmd) c = Inr None
    \<or> (\<exists>s. direct_slice N (prp1 cmd) (prp2 cmd) (io_bytes cmd) c = Inr (Some s)
         \<and> (\<forall>m'. invar m' \<longrightarrow> layout m' = layout m \<longrightarrow> aliases N byte_at m' s (prp1 cmd) (io_bytes cmd))
         \<and> runs_of pages = [(prp1 cmd, io_bytes cmd)])"
proof (cases "SliceIPA N")
  case None
  then show ?thesis by (simp add: direct_slice_def)
next
  case (Some f)
  let ?n = "io_bytes cmd" and ?p = "prp1 cmd"
  have pages: "prp_pages N (pageSz c) m ?p (prp2 cmd) ?n = Inr (pages, ls)" "\<forall>p \<in> set pages. fst p \<noteq> 0"
    "\<forall>r \<in> set (runs_of pages). mapped m (fst r) (snd r)"
    using assms(4) by (auto simp: prp_usable_def)
  have p: "?p \<noteq> 0" using pages(1) by (auto simp: prp_pages_def Let_def split: if_splits)
  obtain b' where c: "prpIsContiguousLocked N (pageSz c) (Some m) ?p (prp2 cmd) ?n = Inr b'"
    "b' \<longrightarrow> runs_of pages = [(?p, ?n)]"
    using prpIsContiguous_pages [OF pages(1) io_bytes_bounds(1)] by blast
  show ?thesis
  proof (cases b')
    case False
    then show ?thesis using Some assms(2,3) p c(1) io_bytes_bounds [of cmd] by (simp add: direct_slice_def)
  next
    case True
    then have runs: "runs_of pages = [(?p, ?n)]" using c(2) by simp
    then have mp: "mapped m ?p ?n" using pages(3) by simp
    obtain s where s: "f m ?p (int ?n) = Inr s"
      using slice_mapped [OF assms(1) mp io_bytes_bounds Some] by blast
    then have "\<forall>m'. invar m' \<longrightarrow> layout m' = layout m \<longrightarrow> aliases N byte_at m' s ?p ?n"
      using slice_persists [OF assms(1) mp io_bytes_bounds Some s] by blast
    then show ?thesis using Some assms(2,3) p c(1) True io_bytes_bounds [of cmd] s runs by (simp add: direct_slice_def)
  qed
qed

lemma write_command:
  assumes "invar m" "nmem c = Some m" "nbackend c = Some b" "prp_usable N mapped (pageSz c) m cmd pages ls"
    "opcode cmd = ioWrite"
    "WriteAt B b (gather_ranges (byte_at m) pages) (io_offset cmd) = ((io_bytes cmd, None), b')"
  shows "executeIOLocked N B cmd c = (Inr (0, 0), recordIOLocked False (io_bytes cmd) (c\<lparr>nbackend := Some b'\<rparr>))"
  using direct_slice_cases [OF assms(1-4)]
proof
  let ?n = "io_bytes cmd"
  have pages: "prp_pages N (pageSz c) m (prp1 cmd) (prp2 cmd) ?n = Inr (pages, ls)" "\<forall>p \<in> set pages. fst p \<noteq> 0"
    "\<forall>r \<in> set (runs_of pages). mapped m (fst r) (snd r)"
    using assms(4) by (auto simp: prp_usable_def)
  assume d: "direct_slice N (prp1 cmd) (prp2 cmd) ?n c = Inr None"
  have "transferPRP N (pageSz c) False (prp1 cmd) (prp2 cmd) (Some m, replicate ?n 0) =
      (Inr (), (Some m, gather_ranges (byte_at m) pages))"
    using pages io_bytes_bounds [of cmd] by (intro transferPRP_read [OF assms(1)]) simp_all
  then have "readPRP N (prp1 cmd) (prp2 cmd) ?n c = Inr (gather_ranges (byte_at m) pages)"
    using assms(2) by (simp add: readPRP_def)
  then show ?thesis
    using d assms(3,5,6) by (simp add: executeIOLocked_def io_write_def writeBackendFromPRP_def and_then_def Let_def)
next
  let ?n = "io_bytes cmd"
  assume "\<exists>s. direct_slice N (prp1 cmd) (prp2 cmd) ?n c = Inr (Some s)
      \<and> (\<forall>m'. invar m' \<longrightarrow> layout m' = layout m \<longrightarrow> aliases N byte_at m' s (prp1 cmd) ?n)
      \<and> runs_of pages = [(prp1 cmd, ?n)]"
  then obtain s where s: "direct_slice N (prp1 cmd) (prp2 cmd) ?n c = Inr (Some s)"
    "aliases N byte_at m s (prp1 cmd) ?n" "runs_of pages = [(prp1 cmd, ?n)]"
    using assms(1) by blast
  then have "slice_get N m s = gather_ranges (byte_at m) pages"
    using runs_of_gather [of "byte_at m" pages] aliases_get [OF s(2)] by simp
  then show ?thesis
    using s aliases_get [OF s(2)] assms(2,3,5,6) by (simp add: executeIOLocked_def io_write_def writeBackendFromPRP_def and_then_def Let_def)
qed

lemma read_command:
  assumes "invar m" "nmem c = Some m" "nbackend c = Some b" "prp_usable N mapped (pageSz c) m cmd pages ls"
    "lists_apart mapped (pageSz c) m pages ls" "opcode cmd = ioRead"
    "ReadAt B b (io_bytes cmd) (io_offset cmd) = (bs, err)" "err = None \<or> err = Some EOF" "length bs \<le> io_bytes cmd"
  shows "\<exists>m'. executeIOLocked N B cmd c = (Inr (0, 0), recordIOLocked True (io_bytes cmd) (c\<lparr>nmem := Some m'\<rparr>))
    \<and> invar m' \<and> layout m' = layout m
    \<and> byte_at m' = store_ranges pages (bs @ replicate (io_bytes cmd - length bs) 0) (byte_at m)"
  using direct_slice_cases [OF assms(1-4)]
proof
  let ?n = "io_bytes cmd" and ?d = "bs @ replicate (io_bytes cmd - length bs) 0"
  have pages: "prp_pages N (pageSz c) m (prp1 cmd) (prp2 cmd) ?n = Inr (pages, ls)" "\<forall>p \<in> set pages. fst p \<noteq> 0"
    "\<forall>r \<in> set (runs_of pages). mapped m (fst r) (snd r)"
    using assms(4) by (auto simp: prp_usable_def)
  assume d: "direct_slice N (prp1 cmd) (prp2 cmd) ?n c = Inr None"
  obtain m' where m': "transferPRP N (pageSz c) True (prp1 cmd) (prp2 cmd) (Some m, ?d) = (Inr (), (Some m', ?d))"
    "invar m'" "layout m' = layout m" "byte_at m' = store_ranges pages ?d (byte_at m)"
    using transferPRP_write [OF assms(1), of "pageSz c" "prp1 cmd" "prp2 cmd" ?d pages ls] pages assms(5,9) io_bytes_bounds [of cmd]
    by (auto simp: lists_apart_def)
  have "writePRP N (prp1 cmd) (prp2 cmd) ?d (recordIOLocked True ?n c) = (Inr (), recordIOLocked True ?n (c\<lparr>nmem := Some m'\<rparr>))"
    using m'(1) assms(2) by (simp add: writePRP_def recordIOLocked_def)
  then have "executeIOLocked N B cmd c = (Inr (0, 0), recordIOLocked True ?n (c\<lparr>nmem := Some m'\<rparr>))"
    using d assms(3,6-9)
    by (auto simp: executeIOLocked_def io_read_def readBackendToPRP_def and_then_def Let_def)
  then show ?thesis using m' by blast
next
  let ?n = "io_bytes cmd" and ?z = "replicate (io_bytes cmd - length bs) (0 :: u8)"
  assume "\<exists>s. direct_slice N (prp1 cmd) (prp2 cmd) ?n c = Inr (Some s)
      \<and> (\<forall>m'. invar m' \<longrightarrow> layout m' = layout m \<longrightarrow> aliases N byte_at m' s (prp1 cmd) ?n)
      \<and> runs_of pages = [(prp1 cmd, ?n)]"
  then obtain s where s: "direct_slice N (prp1 cmd) (prp2 cmd) ?n c = Inr (Some s)"
    "\<And>m'. invar m' \<Longrightarrow> layout m' = layout m \<Longrightarrow> aliases N byte_at m' s (prp1 cmd) ?n" "runs_of pages = [(prp1 cmd, ?n)]"
    by blast
  have n: "?n < 2 ^ 63" by (rule io_bytes_bounds)
  have mp: "mapped m (prp1 cmd) ?n" using assms(4) s(3) by (simp add: prp_usable_def)
  have mp1: "mapped m (prp1 cmd) (length bs)" "mapped m (prp1 cmd + of_nat (length bs)) (length ?z)"
    using mapped_sub [OF assms(1) mp, of 0 "length bs"] mapped_sub [OF assms(1) mp, of "length bs" "length ?z"] assms(9) by simp_all
  let ?m1 = "slice_put N (fst s) bs m"
  have e1: "?m1 = snd (WriteIPA (ipa N) m (prp1 cmd) bs)"
    using aliases_put [OF s(2) [OF assms(1) refl], of 0 bs] assms(9) by simp
  have m1: "invar ?m1" "layout ?m1 = layout m" "byte_at ?m1 = (\<lambda>x. stored_byte (prp1 cmd) bs (byte_at m x) x)"
    unfolding e1 using assms(1,9) n mp1(1) by (auto simp: write_frame write_keeps_layout write_byte_at)
  let ?m2 = "slice_put N (fst s + length bs) ?z ?m1"
  have e2: "?m2 = snd (WriteIPA (ipa N) ?m1 (prp1 cmd + of_nat (length bs)) ?z)"
    using assms(9) by (intro aliases_put [OF s(2) [OF m1(1,2)]]) simp
  have m2: "invar ?m2" "layout ?m2 = layout m"
    "byte_at ?m2 = (\<lambda>x. stored_byte (prp1 cmd + of_nat (length bs)) ?z (byte_at ?m1 x) x)"
    unfolding e2 using m1(1,2) n mp1(2) mapped_layout [OF m1(2)]
    by (auto simp: write_frame write_keeps_layout write_byte_at)
  have "byte_at ?m2 = store_ranges [(prp1 cmd, ?n)] (bs @ ?z) (byte_at m)"
    using stored_byte_split [of "length bs" "bs @ ?z" "prp1 cmd"] assms(9) n unfolding m2(3) m1(3) by (simp add: fun_eq_iff)
  moreover have "prp_pages N (pageSz c) m (prp1 cmd) (prp2 cmd) ?n = Inr (pages, ls)"
    using assms(4) by (simp add: prp_usable_def)
  then have "ranges_size pages = ?n" by (rule prp_pages_size(1) [OF _ io_bytes_bounds(1)])
  ultimately have "byte_at ?m2 = store_ranges pages (bs @ ?z) (byte_at m)"
    using runs_of_store [of pages "bs @ ?z" "byte_at m"] s(3) assms(9) n by simp
  moreover have "executeIOLocked N B cmd c = (Inr (0, 0), recordIOLocked True ?n (c\<lparr>nmem := Some ?m2\<rparr>))"
    using s(1) assms(2,3,6-9)
    by (auto simp: executeIOLocked_def io_read_def readBackendToPRP_def and_then_def Let_def)
  ultimately show ?thesis using m2(1,2) by blast
qed

lemma recordIO_simps [simp]:
  "nmem (recordIOLocked k n c) = nmem c" "nbackend (recordIOLocked k n c) = nbackend c"
  "pageSz (recordIOLocked k n c) = pageSz c"
  by (simp_all add: recordIOLocked_def)

lemma write_then_read:
  assumes "backend_stores B" "opcode w = ioWrite" "opcode r = ioRead" "io_offset r = io_offset w" "io_bytes r = io_bytes w"
    "invar m" "nmem c = Some m" "nbackend c = Some b"
    "prp_usable N mapped (pageSz c) m w src ls" "prp_usable N mapped (pageSz c) m r dst ls'"
    "lists_apart mapped (pageSz c) m dst ls'"
  shows "\<exists>c1 c2 m2. executeIOLocked N B w c = (Inr (0, 0), c1) \<and> executeIOLocked N B r c1 = (Inr (0, 0), c2)
    \<and> nmem c2 = Some m2 \<and> byte_at m2 = store_ranges dst (gather_ranges (byte_at m) src) (byte_at m)"
proof -
  let ?d = "gather_ranges (byte_at m) src"
  have "prp_pages N (pageSz c) m (prp1 w) (prp2 w) (io_bytes w) = Inr (src, ls)"
    using assms(9) by (simp add: prp_usable_def)
  then have len: "length ?d = io_bytes w" using prp_pages_size(1) [OF _ io_bytes_bounds(1)] by simp
  obtain b' where b': "WriteAt B b ?d (io_offset w) = ((io_bytes w, None), b')"
    "ReadAt B b' (io_bytes w) (io_offset w) = (?d, None)"
    using assms(1) len unfolding backend_stores_def by metis
  let ?c1 = "recordIOLocked False (io_bytes w) (c\<lparr>nbackend := Some b'\<rparr>)"
  have w: "executeIOLocked N B w c = (Inr (0, 0), ?c1)"
    using write_command [OF assms(6-9,2) b'(1)] .
  have u: "prp_usable N mapped (pageSz ?c1) m r dst ls'" "lists_apart mapped (pageSz ?c1) m dst ls'"
    using assms(10,11) by simp_all
  have "ReadAt B b' (io_bytes r) (io_offset r) = (?d, None)" "length ?d \<le> io_bytes r" using b'(2) assms(4,5) len by simp_all
  then obtain m2 where "executeIOLocked N B r ?c1 = (Inr (0, 0), recordIOLocked True (io_bytes r) (?c1\<lparr>nmem := Some m2\<rparr>))"
    "byte_at m2 = store_ranges dst (?d @ replicate (io_bytes r - length ?d) 0) (byte_at m)"
    using read_command [OF assms(6) _ _ u assms(3), of b' B ?d None] assms(7) by auto
  then show ?thesis using w len assms(5) by auto
qed

end

section \<open>Completions\<close>

text \<open>The completion queue is in mapped memory, and its cached slice, if any, is a slice of it.\<close>

definition cq_backed :: "'m sliced_memory \<Rightarrow> ('m \<Rightarrow> u64 \<Rightarrow> nat \<Rightarrow> bool) \<Rightarrow> 'm \<Rightarrow> nvqueue \<Rightarrow> bool" where
  "cq_backed M mapped m q \<longleftrightarrow> mapped m (cqAddr q) (unat (nqsize q) * 16)
     \<and> (snd (cqMem q) < 16 \<or> (case SliceIPA M of None \<Rightarrow> False
          | Some f \<Rightarrow> f m (cqAddr q) (int (unat (nqsize q) * 16)) = Inr (cqMem q)))"

lemma length_completion_entry [simp]: "length (completion_entry ph sqid h cmdid res st) = 16"
  by (simp add: completion_entry_def)

context sliced_mem
begin

lemma completion_posted:
  assumes "invar m" "nmem c = Some m" "q = qobjs c ! i" "cqTail q < nqsize q" "cq_backed N mapped m q"
  shows "\<exists>m'. writeCompletionLocked N i sqid h cmdid res st c = (Inr (), upd_queue i post_completion (c\<lparr>nmem := Some m'\<rparr>))
    \<and> invar m' \<and> layout m' = layout m
    \<and> byte_at m' = (\<lambda>x. stored_byte (cqAddr q + of_nat (unat (cqTail q) * 16))
        (completion_entry (cqPhase q) sqid h cmdid res st) (byte_at m x) x)"
proof -
  let ?t = "unat (cqTail q) * 16" and ?raw = "completion_entry (cqPhase q) sqid h cmdid res st"
  let ?w = "WriteIPA (ipa N) m (cqAddr q + of_nat ?t) ?raw"
  have t: "unat (cqTail q) < unat (nqsize q)" using assms(4) by (simp add: word_less_nat_alt)
  have sz: "unat (nqsize q) < 65536" using unsigned_less [of "nqsize q"] by simp
  have mp: "mapped m (cqAddr q + of_nat ?t) (length ?raw)"
    using assms(1,5) t by (intro mapped_sub [of m _ "unat (nqsize q) * 16"]) (simp_all add: cq_backed_def)
  then have w: "fst ?w = Inr ()" "invar (snd ?w)" "layout (snd ?w) = layout m"
    "byte_at (snd ?w) = (\<lambda>x. stored_byte (cqAddr q + of_nat ?t) ?raw (byte_at m x) x)"
    using assms(1) write_mapped write_frame [of m ?raw] write_keeps_layout [of m ?raw] write_byte_at [OF assms(1) mp] by auto
  have addr: "cqAddr q + ucast (cqTail q) * 16 = cqAddr q + of_nat ?t" by simp
  have put: "(if ?t + 16 \<le> snd (cqMem q) then (Inr (), slice_put N (fst (cqMem q) + ?t) ?raw m)
      else WriteIPA (ipa N) m (cqAddr q + ucast (cqTail q) * 16) ?raw) = (Inr (), snd ?w)"
  proof (cases "?t + 16 \<le> snd (cqMem q)")
    case True
    then obtain f where f: "SliceIPA N = Some f" "f m (cqAddr q) (int (unat (nqsize q) * 16)) = Inr (cqMem q)"
      using assms(5) by (auto simp: cq_backed_def split: option.splits)
    have "aliases N byte_at m (cqMem q) (cqAddr q) (unat (nqsize q) * 16)"
      using assms(1,5) f t sz by (intro slice_persists [of m _ _ f _ m]) (auto simp: cq_backed_def)
    moreover have "?t + length ?raw \<le> unat (nqsize q) * 16" unfolding length_completion_entry using t by linarith
    ultimately have "slice_put N (fst (cqMem q) + ?t) ?raw m = snd ?w" by (rule aliases_put)
    then show ?thesis using True by simp
  next
    case False
    then show ?thesis unfolding addr using w(1) by (metis prod.collapse)
  qed
  have "nqsize q \<noteq> 0" using t by auto
  then have "writeCompletionLocked N i sqid h cmdid res st c = (Inr (), upd_queue i post_completion (c\<lparr>nmem := Some (snd ?w)\<rparr>))"
    unfolding writeCompletionLocked_def Let_def assms(3) [symmetric] assms(2) option.case put by simp
  then show ?thesis using w(2-4) by blast
qed

end

section \<open>Properties of the data path\<close>


text \<open>A disk in memory, and a machine with 512 bytes to write and room to read them back.\<close>

definition memory_disk :: "(int \<Rightarrow> u8) block_backend" where
  "memory_disk = \<lparr>ReadAt = (\<lambda>b n off. (map (\<lambda>i. b (off + int i)) [0..<n], None)),
     WriteAt = (\<lambda>b d off. ((length d, None), \<lambda>x. if off \<le> x \<and> x < off + int (length d) then d ! nat (x - off) else b x)),
     bSize = (\<lambda>_. 4096)\<rparr>"

lemma memory_disk_stores: "backend_stores memory_disk"
  by (auto simp: backend_stores_def memory_disk_def intro!: nth_equalityI)

definition disk_vm :: "arm_vm option" where
  "disk_vm = Some \<lparr>GuestPhysAddr = 0x1000, MemorySize = 1024, vm_mem = replicate 512 7 @ replicate 512 0\<rparr>"

definition io_cmd :: "u8 \<Rightarrow> u64 \<Rightarrow> nvcommand" where
  "io_cmd op addr = \<lparr>opcode = op, cid = 1, nsid = 1, prp1 = addr, prp2 = 0, cdw10 = 3, cdw11 = 0, cdw12 = 0, cdw13 = 0\<rparr>"

lemma io_cmd_usable:
  "addr = 0x1000 \<or> addr = 0x1200 \<Longrightarrow> prp_usable arm_sliced arm_mapped 4096 disk_vm (io_cmd op addr) [(addr, 512)] []"
  by (auto simp: prp_usable_def io_cmd_def io_bytes_def prp_pages_def page_size_def runs_of_def arm_mapped_def disk_vm_def Let_def)


end
