(* ===== verification/NvmeQueues.thy ===== *)
theory NvmeQueues
  imports NvmeProps
begin

text \<open>
  The queues of the NVMe controller over time: where completions go and with which phase, how many are
  outstanding, when the interrupt line is up, and when the loop over a submission queue ends.
\<close>

section \<open>The completion ring\<close>

lemma unat_mod_u16: "unat (x mod y) = unat x mod unat y" for x y :: u16
  by (rule unat_mod)

lemma post_completion_simps [simp]:
  "nqsize (post_completion q) = nqsize q" "nqid (post_completion q) = nqid q" "sqHead (post_completion q) = sqHead q"
  "sqTail (post_completion q) = sqTail q" "cqHead (post_completion q) = cqHead q" "cqID (post_completion q) = cqID q"
  "cqAddr (post_completion q) = cqAddr q" "interrupts (post_completion q) = interrupts q"
  "sqAddr (post_completion q) = sqAddr q" "sqMem (post_completion q) = sqMem q" "cqMem (post_completion q) = cqMem q"
  by (simp_all add: post_completion_def Let_def)

lemma post_completion_tail:
  "cqTail (post_completion q) = (cqTail q + 1) mod nqsize q"
  "cqPhase (post_completion q) = (if (cqTail q + 1) mod nqsize q = 0 then \<not> cqPhase q else cqPhase q)"
  "cqPending (post_completion q) = (if cqPending q < nqsize q then cqPending q + 1 else cqPending q)"
  by (simp_all add: post_completion_def Let_def)

lemma unat_succ: "x < y \<Longrightarrow> unat (x + 1) = unat x + 1" for x y :: u16
proof -
  assume "x < y"
  moreover have "unat y < 2 ^ 16" using unsigned_less [of y] by simp
  ultimately have "unat x + 1 < 2 ^ 16" by (simp add: word_less_nat_alt)
  then show ?thesis using unat_add_of_nat [of x 1] by simp
qed

lemma mod_Suc_div: "0 < (s :: nat) \<Longrightarrow> Suc n div s = (if Suc n mod s = 0 then Suc (n div s) else n div s)"
  by (simp add: div_Suc)

lemma phase_after:
  assumes "cqTail q = 0" "cqPhase q" "nqsize q \<noteq> 0"
  shows "unat (cqTail ((post_completion ^^ n) q)) = n mod unat (nqsize q)
    \<and> (cqPhase ((post_completion ^^ n) q) \<longleftrightarrow> even (n div unat (nqsize q))) \<and> nqsize ((post_completion ^^ n) q) = nqsize q"
proof (induction n)
  case 0
  then show ?case using assms by simp
next
  case (Suc n)
  let ?q = "(post_completion ^^ n) q" and ?s = "unat (nqsize q)"
  have s: "0 < ?s" using assms(3) by (simp add: unat_gt_0)
  then have "cqTail ?q < nqsize q" using Suc by (simp add: word_less_nat_alt)
  then have t: "unat ((cqTail ?q + 1) mod nqsize q) = Suc n mod ?s"
    using Suc unat_succ [of "cqTail ?q" "nqsize q"] by (simp add: unat_mod_u16 mod_Suc_eq)
  then have z: "(cqTail ?q + 1) mod nqsize q = 0 \<longleftrightarrow> Suc n mod ?s = 0" by (metis unat_0 unat_0_iff)
  show ?case using Suc t z mod_Suc_div [OF s, of n] by (auto simp: post_completion_tail)
qed


definition ring_vm :: "arm_vm option" where
  "ring_vm = Some \<lparr>GuestPhysAddr = 0x1000, MemorySize = 32, vm_mem = replicate 32 0\<rparr>"

definition ring_queue :: nvqueue where
  "ring_queue = (new_queue 1)\<lparr>nqsize := 2, cqAddr := 0x1000, cqPhase := True, cqMem := (0, 32)\<rparr>"


section \<open>Outstanding completions\<close>

text \<open>
  The entries between the driver's head and the controller's tail, for a driver that consumes only
  entries that were posted: it acknowledges \<open>k\<close> of them by writing the head \<open>k\<close> further on.
\<close>

datatype cq_event = Posted | Acked nat

fun cq_apply :: "cq_event \<Rightarrow> nvqueue \<Rightarrow> nvqueue" where
  "cq_apply Posted q = post_completion q"
| "cq_apply (Acked k) q =
     advanceCompletionHeadLocked (of_nat ((unat (cqHead q) + k) mod unat (nqsize q))) q"

text \<open>A full ring must be drained by at least one entry: a head that has not moved says nothing.\<close>

fun cq_legal :: "cq_event \<Rightarrow> nvqueue \<Rightarrow> bool" where
  "cq_legal Posted q \<longleftrightarrow> cqPending q < nqsize q"
| "cq_legal (Acked k) q \<longleftrightarrow> k \<le> unat (cqPending q) \<and> (k = 0 \<longrightarrow> cqPending q < nqsize q)"

fun cq_run :: "cq_event list \<Rightarrow> nvqueue \<Rightarrow> nvqueue" where
  "cq_run [] q = q"
| "cq_run (e # es) q = cq_run es (cq_apply e q)"

fun cq_legals :: "cq_event list \<Rightarrow> nvqueue \<Rightarrow> bool" where
  "cq_legals [] q \<longleftrightarrow> True"
| "cq_legals (e # es) q \<longleftrightarrow> cq_legal e q \<and> cq_legals es (cq_apply e q)"

fun posted :: "cq_event list \<Rightarrow> int" where
  "posted [] = 0"
| "posted (Posted # es) = 1 + posted es"
| "posted (Acked k # es) = posted es - int k"

definition cq_ok :: "nvqueue \<Rightarrow> bool" where
  "cq_ok q \<longleftrightarrow> nqsize q \<noteq> 0 \<and> cqHead q < nqsize q \<and> cqPending q \<le> nqsize q
     \<and> unat (cqTail q) = (unat (cqHead q) + unat (cqPending q)) mod unat (nqsize q)"

lemma cq_post_ok:
  assumes "cq_ok q" "cqPending q < nqsize q"
  shows "cq_ok (post_completion q) \<and> unat (cqPending (post_completion q)) = unat (cqPending q) + 1"
proof -
  let ?s = "unat (nqsize q)"
  have s: "0 < ?s" using assms(1) by (simp add: cq_ok_def unat_gt_0)
  have t: "unat (cqTail q) = (unat (cqHead q) + unat (cqPending q)) mod ?s" using assms(1) by (simp add: cq_ok_def)
  then have "cqTail q < nqsize q" using s by (simp add: word_less_nat_alt)
  then have "unat ((cqTail q + 1) mod nqsize q) = (unat (cqTail q) + 1) mod ?s"
    using unat_succ by (simp add: unat_mod_u16)
  also have "\<dots> = (unat (cqHead q) + (unat (cqPending q) + 1)) mod ?s" unfolding t by (simp add: mod_Suc_eq)
  finally have "unat ((cqTail q + 1) mod nqsize q) = (unat (cqHead q) + (unat (cqPending q) + 1)) mod ?s" .
  moreover have "unat (cqPending q + 1) = unat (cqPending q) + 1" using unat_succ assms(2) by simp
  moreover have "cqPending q + 1 \<le> nqsize q" using assms(2) calculation(2) by (simp add: word_le_nat_alt word_less_nat_alt)
  ultimately show ?thesis using assms by (simp add: cq_ok_def post_completion_tail)
qed

lemma advance_head_eq:
  assumes "nqsize q \<noteq> 0" "head mod nqsize q = head"
    "cc = (if head < cqHead q then nqsize q - cqHead q + head else head - cqHead q)"
  shows "advanceCompletionHeadLocked head q =
    (if cc = 0 \<and> cqPending q = nqsize q then q\<lparr>cqHead := head, cqPending := 0\<rparr>
     else if cqPending q \<le> cc then q\<lparr>cqHead := head, cqPending := 0\<rparr>
     else q\<lparr>cqHead := head, cqPending := cqPending q - cc\<rparr>)"
proof -
  have "cqHead (q\<lparr>cqHead := head\<rparr>) = head" by simp
  then show ?thesis unfolding advanceCompletionHeadLocked_def Let_def assms(2) assms(3) [symmetric]
    using assms(1,3) by (simp only: if_False)
qed

lemma cq_ack_ok:
  assumes "cq_ok q" "k \<le> unat (cqPending q)" "k = 0 \<longrightarrow> cqPending q < nqsize q"
  shows "cq_ok (cq_apply (Acked k) q) \<and> unat (cqPending (cq_apply (Acked k) q)) = unat (cqPending q) - k
    \<and> nqsize (cq_apply (Acked k) q) = nqsize q"
proof -
  let ?s = "unat (nqsize q)" and ?h = "unat (cqHead q)" and ?p = "unat (cqPending q)"
  let ?n = "(?h + k) mod ?s"
  define w0 :: u16 where "w0 = of_nat ?n"
  have ok: "0 < ?s" "?h < ?s" "?p \<le> ?s" "unat (cqTail q) = (?h + ?p) mod ?s"
    using assms(1) by (auto simp: cq_ok_def word_less_nat_alt word_le_nat_alt unat_gt_0)
  have s: "?s < 2 ^ 16" using unsigned_less [of "nqsize q"] by simp
  have n: "?n < ?s" using ok(1) by simp
  then have w: "unat w0 = ?n" using s by (simp add: unat_of_nat w0_def)
  then have hd: "unat (w0 mod nqsize q) = ?n" by (simp add: unat_mod_u16)
  then have hw: "w0 mod nqsize q = w0" using w by (simp add: word_unat_eq_iff)
  have tail: "unat (cqTail q) = (?n + (?p - k)) mod ?s"
  proof -
    have "?h + ?p = ?h + k + (?p - k)" using assms(2) by simp
    then show ?thesis unfolding ok(4) by (simp only: mod_add_left_eq)
  qed
  let ?c = "if w0 < cqHead q then nqsize q - cqHead q + w0 else w0 - cqHead q"
  have c: "unat ?c = (if k = ?s then 0 else k)"
  proof (cases "?h + k < ?s")
    case True
    then have "?n = ?h + k" by simp
    then have "\<not> w0 < cqHead q" "unat (w0 - cqHead q) = k"
      using w by (auto simp: word_less_nat_alt unat_minus_le word_le_nat_alt)
    then show ?thesis using True ok(2) by auto
  next
    case False
    have k: "k \<le> ?s" using assms(2) ok(3) by simp
    then have "?h + k - ?s < ?s" using ok(2) by simp
    then have nn: "?n = ?h + k - ?s" using False by (simp add: le_mod_geq)
    show ?thesis
    proof (cases "k = ?s")
      case True
      then have "w0 = cqHead q" using nn w by (simp add: word_unat_eq_iff)
      then show ?thesis using True by simp
    next
      case lt: False
      then have "w0 < cqHead q" using nn w k ok(2) False by (simp add: word_less_nat_alt)
      moreover have "unat (nqsize q - cqHead q) = ?s - ?h" using ok(2) by (intro unat_minus_le) (simp add: word_le_nat_alt)
      moreover have "unat (nqsize q - cqHead q + w0) = unat (nqsize q - cqHead q) + unat w0"
        using calculation(2) w nn k s False ok(2) by (intro unat_add_lt) simp
      ultimately show ?thesis using w nn lt False ok(2) by simp
    qed
  qed
  let ?q = "cq_apply (Acked k) q"
  have q: "?q = advanceCompletionHeadLocked w0 q" by (simp add: w0_def)
  define cc where "cc = ?c"
  have adv: "?q = (if cc = 0 \<and> cqPending q = nqsize q then q\<lparr>cqHead := w0, cqPending := 0\<rparr>
      else if cqPending q \<le> cc then q\<lparr>cqHead := w0, cqPending := 0\<rparr>
      else q\<lparr>cqHead := w0, cqPending := cqPending q - cc\<rparr>)"
    unfolding q by (rule advance_head_eq) (use ok(1) hw cc_def in auto)
  note c = c [folded cc_def]
  have size: "nqsize ?q = nqsize q" "cqHead ?q = w0" "cqTail ?q = cqTail q"
    unfolding adv by auto
  have "unat (cqPending ?q) = ?p - k"
  proof (cases "cc = 0 \<and> cqPending q = nqsize q")
    case True
    then have "k = ?s" using c assms(3) by (auto split: if_splits)
    then show ?thesis unfolding adv using True by simp
  next
    case False
    have "unat cc = k"
    proof (rule ccontr)
      assume "unat cc \<noteq> k"
      then have "k = ?s" using c by (auto split: if_splits)
      moreover have "cqPending q = nqsize q" using assms(2) ok(3) calculation by (simp add: word_unat_eq_iff)
      ultimately show False using False c by (simp add: unat_0_iff)
    qed
    then show ?thesis
      unfolding adv using False by (auto simp: word_le_nat_alt unat_minus_le)
  qed
  then show ?thesis using size tail ok n w by (auto simp: cq_ok_def word_less_nat_alt word_le_nat_alt unat_gt_0)
qed

text \<open>
  The number of outstanding completions, which decides about the interrupt, is exact: over any sequence
  of posted entries and acknowledgements in which the ring does not overflow and the driver consumes only
  what was posted, it is the number posted less the number consumed, and the head and the tail are that
  far apart on the ring.
\<close>

theorem nvme_pending_exact:
  assumes "cq_ok q" "cq_legals es q"
  shows "cq_ok (cq_run es q) \<and> int (unat (cqPending (cq_run es q))) = int (unat (cqPending q)) + posted es"
  using assms
proof (induction es arbitrary: q)
  case (Cons e es)
  have step: "cq_ok (cq_apply e q) \<and> int (unat (cqPending (cq_apply e q))) = int (unat (cqPending q)) + posted [e]"
  proof (cases e)
    case Posted
    then show ?thesis using cq_post_ok Cons.prems by simp
  next
    case (Acked k)
    have "k \<le> unat (cqPending q)" "k = 0 \<longrightarrow> cqPending q < nqsize q" using Cons.prems(2) Acked by simp_all
    from cq_ack_ok [OF Cons.prems(1) this] this(1) show ?thesis unfolding Acked by (simp add: of_nat_diff)
  qed
  have "posted (e # es) = posted [e] + posted es" by (cases e) simp_all
  then show ?case using Cons.IH [of "cq_apply e q"] step Cons.prems(2) by simp
qed simp

theorem nvme_pending_exact_witness:
  "cq_ok (cq_run [Posted, Posted, Acked 1, Posted, Acked 2] ring_queue)
   \<and> cqPending (cq_run [Posted, Posted, Acked 1, Posted, Acked 2] ring_queue) = 0"
proof -
  let ?es = "[Posted, Posted, Acked 1, Posted, Acked 2]"
  have "cq_ok ring_queue" by (simp add: cq_ok_def ring_queue_def new_queue_def)
  moreover have "cq_legals ?es ring_queue"
    by (simp add: ring_queue_def new_queue_def post_completion_def advanceCompletionHeadLocked_def Let_def)
      (simp add: word_le_nat_alt)
  ultimately have "cq_ok (cq_run ?es ring_queue)
      \<and> int (unat (cqPending (cq_run ?es ring_queue))) = int (unat (cqPending ring_queue)) + posted ?es"
    by (rule nvme_pending_exact)
  moreover have "cqPending ring_queue = 0" by (simp add: ring_queue_def new_queue_def)
  ultimately show ?thesis by (simp add: uint_0_iff del: cq_run.simps)
qed

section \<open>The submission loop\<close>

text \<open>What a command of an I/O queue leaves alone.\<close>

definition same_queues :: "('m, 'b) controller \<Rightarrow> ('m, 'b) controller \<Rightarrow> bool" where
  "same_queues c c' \<longleftrightarrow> qobjs c' = qobjs c \<and> nqueues c' = nqueues c \<and> nlog c' = nlog c \<and> nirqHigh c' = nirqHigh c
     \<and> nirq c' = nirq c \<and> msi c' = msi c \<and> intMask c' = intMask c \<and> nIRQ c' = nIRQ c \<and> ncc c' = ncc c"

lemma same_queues_refl [simp]: "same_queues c c"
  by (simp add: same_queues_def)

lemma same_queues_trans: "same_queues a b \<Longrightarrow> same_queues b c \<Longrightarrow> same_queues a c"
  by (simp add: same_queues_def)

lemma writePRP_same: "same_queues c (snd (writePRP M p1 p2 d c))"
  by (simp add: writePRP_def same_queues_def split: prod.splits)

lemma recordIO_same: "same_queues c (recordIOLocked k n c)"
  by (simp add: recordIOLocked_def same_queues_def)

lemma direct_same:
  "same_queues c (snd (readBackendToPRP M B off n p1 p2 c))" "same_queues c (snd (writeBackendFromPRP M B off n p1 p2 c))"
  by (auto simp: readBackendToPRP_def writeBackendFromPRP_def same_queues_def Let_def
      split: sum.splits option.splits prod.splits read_err.splits)

lemma preserves_sameI: "(\<And>c. same_queues c (snd (m c))) \<Longrightarrow> preserves (same_queues u) m"
  using same_queues_trans by (rule preservesI) blast

lemma io_read_same: "preserves (same_queues u) (io_read M B cmd)"
  unfolding io_read_def Let_def
proof (rule preserves_and_then)
  show "preserves (same_queues u) (readBackendToPRP M B (io_offset cmd) (io_bytes cmd) (prp1 cmd) (prp2 cmd))"
    by (rule preserves_sameI) (rule direct_same)
  have w: "preserves (same_queues u) (and_then (writePRP M (prp1 cmd) (prp2 cmd) d) (\<lambda>_. return_ok (0, 0)))" for u d
    by (intro preserves_and_then preserves_sameI writePRP_same preserves_return_ok)
  show "preserves (same_queues u) (\<lambda>c. if ok then (Inr (0, 0), recordIOLocked True (io_bytes cmd) c)
      else case ReadAt B (the (nbackend c)) (io_bytes cmd) (io_offset cmd) of
          (bs, Some (ReadErr e)) \<Rightarrow> (Inr (0, 1), c)
        | (bs, _) \<Rightarrow> if io_bytes cmd < length bs then (Inl (Panic SliceBounds), c)
            else and_then (writePRP M (prp1 cmd) (prp2 cmd) (bs @ replicate (io_bytes cmd - length bs) 0))
              (\<lambda>_. return_ok (0, 0)) (recordIOLocked True (io_bytes cmd) c))" for ok
    by (rule preserves_sameI)
      (auto intro: preservesD [OF w] recordIO_same split: prod.splits option.splits read_err.splits)
qed

lemma io_write_same: "preserves (same_queues u) (io_write M B cmd)"
  unfolding io_write_def Let_def
proof (rule preserves_and_then)
  show "preserves (same_queues u) (writeBackendFromPRP M B (io_offset cmd) (io_bytes cmd) (prp1 cmd) (prp2 cmd))"
    by (rule preserves_sameI) (rule direct_same)
qed (rule preserves_sameI, auto simp: same_queues_def recordIOLocked_def split: sum.splits prod.splits option.splits)

lemma executeIO_same: "same_queues c (snd (executeIOLocked M B cmd c))"
  using preservesD [OF io_read_same, of c c] preservesD [OF io_write_same, of c c] by (simp add: executeIOLocked_def)

lemma writeCompletion_outcome:
  assumes "writeCompletionLocked M j sqid h cmdid res st c = (r, c')"
  shows "(case r of Inr _ \<Rightarrow> qobjs c' = (qobjs c)[j := post_completion (qobjs c ! j)] | Inl _ \<Rightarrow> qobjs c' = qobjs c)
    \<and> nqueues c' = nqueues c \<and> nlog c' = nlog c \<and> nirqHigh c' = nirqHigh c \<and> nirq c' = nirq c \<and> msi c' = msi c
    \<and> intMask c' = intMask c \<and> nIRQ c' = nIRQ c"
  using assms
  by (auto simp: writeCompletionLocked_def upd_queue_def Let_def split: option.splits prod.splits sum.splits if_splits)

lemma advance_sq_outcome:
  assumes "advance_sq i c = (Inr u, c')"
  shows "nqsize (qobjs c ! i) \<noteq> 0 \<and> c' = upd_queue i (\<lambda>q. q\<lparr>sqHead := (sqHead q + 1) mod nqsize q\<rparr>) c"
  using assms by (auto simp: advance_sq_def split: if_splits)

text \<open>A round of an I/O queue that succeeds moves the head by one and keeps the rest of the queue's submission side.\<close>

lemma sq_round_io:
  assumes "sq_round M B i c = (Inr u, c')" "nqid (qobjs c ! i) \<noteq> adminQueueID" "i < length (qobjs c)"
  shows "let q = qobjs c ! i; q' = qobjs c' ! i in nqsize q \<noteq> 0 \<and> sqHead q' = (sqHead q + 1) mod nqsize q
    \<and> nqsize q' = nqsize q \<and> sqTail q' = sqTail q \<and> nqid q' = nqid q \<and> length (qobjs c') = length (qobjs c)"
proof -
  obtain raw cmd where f: "fetch_command M (nmem c) (qobjs c ! i) = Inr raw" "parseCommand raw = Inr cmd"
    using assms(1) by (auto simp: sq_round_def split: sum.splits)
  obtain res st c1 where e: "executeIOLocked M B cmd c = (Inr (res, st), c1)"
    and r: "and_then (advance_sq i) (\<lambda>_ c'. case completion_queue i c' of
        None \<Rightarrow> (Inl (QueueMissing (cqID (qobjs c' ! i))), c')
      | Some j \<Rightarrow> writeCompletionLocked M j (nqid (qobjs c' ! i)) (sqHead (qobjs c' ! i)) (cid cmd) res st c') c1 = (Inr u, c')"
    using assms(1,2) f by (auto simp: sq_round_def executeCommandLocked_def and_then_eq_ok)
  have q1: "qobjs c1 = qobjs c" using executeIO_same [of c M B cmd] e by (simp add: same_queues_def)
  obtain c2 j where a: "nqsize (qobjs c ! i) \<noteq> 0" "c2 = upd_queue i (\<lambda>q. q\<lparr>sqHead := (sqHead q + 1) mod nqsize q\<rparr>) c1"
    and w: "writeCompletionLocked M j (nqid (qobjs c2 ! i)) (sqHead (qobjs c2 ! i)) (cid cmd) res st c2 = (Inr u, c')"
    using r q1 by (auto simp: and_then_eq_ok dest!: advance_sq_outcome split: option.splits)
  have "qobjs c' = (qobjs c2)[j := post_completion (qobjs c2 ! j)]" using writeCompletion_outcome [OF w] by simp
  then show ?thesis using a q1 assms(3) by (cases "j = i") (simp_all add: upd_queue_def Let_def)
qed

text \<open>The steps left from head to tail on the ring.\<close>

definition ring_distance :: "nvqueue \<Rightarrow> nat" where
  "ring_distance q = (unat (sqTail q) + unat (nqsize q) - unat (sqHead q)) mod unat (nqsize q)"

lemma ring_distance_step:
  assumes "sqHead q < nqsize q" "sqTail q < nqsize q" "sqHead q \<noteq> sqTail q" "nqsize q' = nqsize q"
    "sqTail q' = sqTail q" "sqHead q' = (sqHead q + 1) mod nqsize q"
  shows "sqHead q' < nqsize q' \<and> ring_distance q = Suc (ring_distance q')"
proof -
  let ?s = "unat (nqsize q)" and ?h = "unat (sqHead q)" and ?t = "unat (sqTail q)"
  have h: "?h < ?s" "?t < ?s" "?h \<noteq> ?t" using assms(1-3) by (simp_all add: word_less_nat_alt word_unat_eq_iff)
  have h': "unat (sqHead q') = (?h + 1) mod ?s" using unat_succ [OF assms(1)] assms(6) by (simp add: unat_mod_u16)
  have d: "ring_distance q = (if ?h < ?t then ?t - ?h else ?t + ?s - ?h)"
    using h by (auto simp: ring_distance_def le_mod_geq)
  have "ring_distance q' = (if ?h < ?t then ?t - ?h - 1 else ?t + ?s - ?h - 1)"
  proof (cases "?h + 1 = ?s")
    case True
    then show ?thesis using h h' assms(4,5) by (simp add: ring_distance_def)
  next
    case False
    then have "unat (sqHead q') = ?h + 1" using h h' by simp
    then show ?thesis using h assms(4,5) by (auto simp: ring_distance_def le_mod_geq)
  qed
  moreover have "sqHead q' < nqsize q'" using h' h assms(4) by (simp add: word_less_nat_alt)
  ultimately show ?thesis using d h by auto
qed

lemma sq_loop_returns:
  assumes "i < length (qobjs c)" "nqid (qobjs c ! i) \<noteq> adminQueueID"
    "sqHead (qobjs c ! i) < nqsize (qobjs c ! i)" "sqTail (qobjs c ! i) < nqsize (qobjs c ! i)"
    "ring_distance (qobjs c ! i) = n"
  shows "\<exists>r c'. sq_loop M B i c = Some (r, c') \<and> (r = Inr () \<longrightarrow> sqHead (qobjs c' ! i) = sqTail (qobjs c ! i))"
  using assms
proof (induction n arbitrary: c)
  case 0
  have "sqHead (qobjs c ! i) = sqTail (qobjs c ! i)"
    using 0 ring_distance_step [of "qobjs c ! i" "(qobjs c ! i)\<lparr>sqHead := (sqHead (qobjs c ! i) + 1) mod nqsize (qobjs c ! i)\<rparr>"] by force
  then show ?case by (simp add: sq_loop.simps)
next
  case (Suc n)
  let ?q = "qobjs c ! i"
  have ne: "sqHead ?q \<noteq> sqTail ?q" using Suc.prems(5) by (auto simp: ring_distance_def)
  obtain r c1 where r: "sq_round M B i c = (r, c1)" by (metis prod.exhaust)
  show ?case
  proof (cases r)
    case (Inl e)
    then show ?thesis using ne r by (simp add: sq_loop.simps [of M B i c])
  next
    case (Inr u)
    let ?q1 = "qobjs c1 ! i"
    have q1: "sqHead ?q1 = (sqHead ?q + 1) mod nqsize ?q" "nqsize ?q1 = nqsize ?q" "sqTail ?q1 = sqTail ?q"
      "nqid ?q1 = nqid ?q" "length (qobjs c1) = length (qobjs c)"
      using sq_round_io [OF r [unfolded Inr] Suc.prems(2,1)] by (auto simp: Let_def)
    have "sqHead ?q1 < nqsize ?q1" "ring_distance ?q1 = n"
      using ring_distance_step [OF Suc.prems(3,4) ne q1(2,3,1)] Suc.prems(5) by auto
    then have "\<exists>r c'. sq_loop M B i c1 = Some (r, c') \<and> (r = Inr () \<longrightarrow> sqHead (qobjs c' ! i) = sqTail ?q1)"
      using q1 Suc.prems by (intro Suc.IH) simp_all
    then show ?thesis using ne r Inr q1(3) by (simp add: sq_loop.simps [of M B i c])
  qed
qed

section \<open>Doorbells\<close>

definition sq_doorbell :: "u16 \<Rightarrow> u64" where
  "sq_doorbell qid = 0x1000 + ucast qid * 8"

lemma ucast_u16_of_u64: "ucast (ucast v :: u32) = (ucast v :: u16)" for v :: u64
  by (rule bit_word_eqI) (simp add: bit_simps)

lemma sq_doorbell_decode:
  "(sq_doorbell qid - 0x1000) div 4 mod 2 = 0" "ucast ((sq_doorbell qid - 0x1000) div 4 div 2) = qid" "0x1000 \<le> sq_doorbell qid"
proof -
  have lt: "unat qid < 2 ^ 16" using unsigned_less [of qid] by simp
  then have "unat (ucast qid :: u64) = unat qid" by (simp add: unsigned_ucast_eq take_bit_nat_eq_self)
  then have u: "unat (ucast qid * 8 :: u64) = unat qid * 8"
    using lt unat_mult_lem [of "ucast qid :: u64" 8] by simp
  then have d: "unat ((sq_doorbell qid - 0x1000) div 4) = unat qid * 2" by (simp add: sq_doorbell_def unat_div)
  show "(sq_doorbell qid - 0x1000) div 4 mod 2 = 0" using d by (simp add: word_unat_eq_iff unat_mod)
  have "unat ((sq_doorbell qid - 0x1000) div 4 div 2) = unat qid" using d by (simp add: unat_div)
  then show "ucast ((sq_doorbell qid - 0x1000) div 4 div 2) = qid"
    using lt by (simp add: word_unat_eq_iff unsigned_ucast_eq take_bit_nat_eq_self)
  show "0x1000 \<le> sq_doorbell qid"
    using unat_add_lt [of "0x1000 :: u64" "ucast qid * 8"] u lt by (simp add: sq_doorbell_def word_le_nat_alt)
qed

lemma WriteMMIO_doorbell:
  assumes "nqueues c qid = Some i"
  shows "WriteMMIO M B (sq_doorbell qid) sz v c =
    processSubmissionQueueLocked M B i (upd_queue i (\<lambda>q. q\<lparr>sqTail := ucast v\<rparr>) c)"
proof -
  have "sq_doorbell qid \<noteq> r" if "r < 0x1000" for r using sq_doorbell_decode(3) [of qid] that by auto
  then show ?thesis
    using assms by (simp add: WriteMMIO_def writeDoorbellLocked_def sq_doorbell_decode ucast_u16_of_u64 Let_def)
qed

lemma updateIRQ_frame:
  "qobjs (snd (nv_updateIRQLocked c)) = qobjs c" "nqueues (snd (nv_updateIRQLocked c)) = nqueues c"
  "intMask (snd (nv_updateIRQLocked c)) = intMask c" "ncc (snd (nv_updateIRQLocked c)) = ncc c"
  "nirq (snd (nv_updateIRQLocked c)) = nirq c" "msi (snd (nv_updateIRQLocked c)) = msi c"
  "nirqHigh (snd (nv_updateIRQLocked c)) = irq_wanted c"
  by (auto simp: nv_updateIRQLocked_def nv_SetIRQ_def Let_def split: option.splits)


definition ring_controller :: "(arm_vm option, int \<Rightarrow> u8) controller" where
  "ring_controller = (nv_Attach (Some ring_vm) None (NewController None))\<lparr>qobjs := [ring_queue], nqueues := [1 \<mapsto> 0]\<rparr>"


section \<open>A tail outside the ring\<close>

text \<open>
  The state in which every round of a queue succeeds: its commands are flushes in the cached ring, and its
  completions go to a cached ring apart from it.
\<close>

definition flush_ring :: "nat \<Rightarrow> nat \<Rightarrow> (arm_vm option, 'b) controller \<Rightarrow> bool" where
  "flush_ring i j c \<longleftrightarrow> (let q = qobjs c ! i; d = qobjs c ! j; n = unat (nqsize q) * 64; k = unat (nqsize d) * 16 in
     i < length (qobjs c) \<and> j < length (qobjs c) \<and> nqid q \<noteq> 0 \<and> nqueues c (cqID q) = Some j
     \<and> sqHead q < nqsize q \<and> cqTail d < nqsize d \<and> n \<le> snd (sqMem q) \<and> k \<le> snd (cqMem d)
     \<and> (case nmem c of Some (Some v) \<Rightarrow> fst (sqMem q) + n \<le> length (vm_mem v) \<and> fst (cqMem d) + k \<le> length (vm_mem v)
          \<and> (\<forall>h < unat (nqsize q). vm_mem v ! (fst (sqMem q) + h * 64) = 0) | _ \<Rightarrow> False)
     \<and> (fst (sqMem q) + n \<le> fst (cqMem d) \<or> fst (cqMem d) + k \<le> fst (sqMem q)))"

lemma slot_le: "x < y \<Longrightarrow> unat x * k + k \<le> unat y * k" for x y :: u16
proof -
  assume "x < y"
  then have "(unat x + 1) * k \<le> unat y * k" by (intro mult_le_mono1) (simp add: word_less_nat_alt)
  then show ?thesis by simp
qed

lemma flush_executed: "opcode cmd = 0 \<Longrightarrow> \<exists>st. executeIOLocked M B cmd c = (Inr (0, st), c)"
  by (simp add: executeIOLocked_def)

lemma mod_less_u16: "y \<noteq> 0 \<Longrightarrow> x mod y < y" for x y :: u16
  by (simp add: word_less_nat_alt unat_mod_u16 unat_gt_0)

lemma flush_ring_round:
  assumes "flush_ring i j c"
  shows "\<exists>c'. sq_round arm_sliced B i c = (Inr (), c') \<and> flush_ring i j c' \<and> nqsize (qobjs c' ! i) = nqsize (qobjs c ! i)
    \<and> sqTail (qobjs c' ! i) = sqTail (qobjs c ! i)"
proof -
  let ?q = "qobjs c ! i" and ?d = "qobjs c ! j"
  obtain v where v: "nmem c = Some (Some v)" using assms by (auto simp: flush_ring_def Let_def split: option.splits)
  note r = assms [unfolded flush_ring_def Let_def v option.case]
  have h: "unat (sqHead ?q) * 64 + 64 \<le> unat (nqsize ?q) * 64" "unat (cqTail ?d) * 16 + 16 \<le> unat (nqsize ?d) * 16"
    using r slot_le [of "sqHead ?q" "nqsize ?q" 64] slot_le [of "cqTail ?d" "nqsize ?d" 16] by simp_all
  let ?s = "(fst (sqMem ?q) + unat (sqHead ?q) * 64, 64 :: nat)"
  let ?raw = "arm_get (Some v) ?s"
  have fetch: "fetch_command arm_sliced (nmem c) ?q = Inr ?raw"
    using h r by (simp add: fetch_command_def queueSubmissionEntry_def v Let_def)
  have raw: "length ?raw = 64" "?raw ! 0 = 0"
    using h r by (auto simp: arm_get_def word_less_nat_alt)
  obtain cmd where cmd: "parseCommand ?raw = Inr cmd" "opcode cmd = 0" using raw by (simp add: parseCommand_def)
  obtain st where ex: "executeIOLocked arm_sliced B cmd c = (Inr (0, st), c)" using flush_executed [OF cmd(2)] by blast
  define c1 where "c1 = upd_queue i (\<lambda>q. q\<lparr>sqHead := (sqHead q + 1) mod nqsize q\<rparr>) c"
  have sz: "nqsize ?q \<noteq> 0" "nqsize ?d \<noteq> 0" using r by auto
  have c1: "nmem c1 = Some (Some v)" "nqueues c1 = nqueues c" "length (qobjs c1) = length (qobjs c)"
    "qobjs c1 ! i = ?q\<lparr>sqHead := (sqHead ?q + 1) mod nqsize ?q\<rparr>" "k \<noteq> i \<Longrightarrow> qobjs c1 ! k = qobjs c ! k" for k
    using r v by (simp_all add: c1_def upd_queue_def)
  have d1: "cqMem (qobjs c1 ! j) = cqMem ?d" "cqTail (qobjs c1 ! j) = cqTail ?d" "nqsize (qobjs c1 ! j) = nqsize ?d"
    using c1(4,5) by (cases "j = i"; simp)+
  let ?e = "completion_entry (cqPhase (qobjs c1 ! j)) (nqid ?q) (sqHead (qobjs c1 ! i)) (cid cmd) 0 st"
  let ?m = "overwrite (vm_mem v) (fst (cqMem ?d) + unat (cqTail ?d) * 16) ?e"
  let ?v = "v\<lparr>vm_mem := ?m\<rparr>"
  define c2 where "c2 = upd_queue j post_completion (c1\<lparr>nmem := Some (Some ?v)\<rparr>)"
  have round: "sq_round arm_sliced B i c = (Inr (), c2)"
    using fetch cmd ex r sz c1 d1 h
    by (simp add: sq_round_def executeCommandLocked_def and_then_def advance_sq_def completion_queue_def
        writeCompletionLocked_def arm_put_def Let_def c2_def flip: c1_def)
  have c2: "nmem c2 = Some (Some ?v)" "nqueues c2 = nqueues c" "length (qobjs c2) = length (qobjs c)"
    "qobjs c2 ! i = (if i = j then post_completion (qobjs c1 ! i) else qobjs c1 ! i)"
    "qobjs c2 ! j = post_completion (qobjs c1 ! j)"
    using r c1(2,3) by (simp_all add: c2_def upd_queue_def)
  have mem: "length ?m = length (vm_mem v)" using h r by simp
  have zero: "?m ! (fst (sqMem ?q) + k * 64) = 0" if "k < unat (nqsize ?q)" for k
  proof -
    have "(k + 1) * 64 \<le> unat (nqsize ?q) * 64" using that by (intro mult_le_mono1) simp
    then show ?thesis using that h r by (subst nth_overwrite) auto
  qed
  have "qobjs c2 ! i = post_completion (qobjs c1 ! i) \<or> qobjs c2 ! i = qobjs c1 ! i" using c2(4) by simp
  then have q2: "nqsize (qobjs c2 ! i) = nqsize ?q" "sqMem (qobjs c2 ! i) = sqMem ?q" "nqid (qobjs c2 ! i) = nqid ?q"
    "cqID (qobjs c2 ! i) = cqID ?q" "sqTail (qobjs c2 ! i) = sqTail ?q" "sqHead (qobjs c2 ! i) = (sqHead ?q + 1) mod nqsize ?q"
    by (elim disjE; simp add: c1(4))+
  have e2: "nqsize (qobjs c2 ! j) = nqsize ?d" "cqMem (qobjs c2 ! j) = cqMem ?d"
    "cqTail (qobjs c2 ! j) = (cqTail ?d + 1) mod nqsize ?d"
    using d1 by (simp_all add: c2(5) post_completion_tail)
  have "flush_ring i j c2"
    unfolding flush_ring_def Let_def c2(1-3) q2 e2 option.case
    using r zero mem mod_less_u16 sz by simp
  then show ?thesis using round q2(1,5) by blast
qed

lemma flush_ring_hangs:
  assumes "sq_loop arm_sliced B i c = Some y" "flush_ring i j c" "nqsize (qobjs c ! i) \<le> sqTail (qobjs c ! i)"
  shows False
  using assms
proof (induction arm_sliced B i c y rule: sq_loop.raw_induct [rotated 1, consumes 1])
  case (1 loop B i c y)
  have "sqHead (qobjs c ! i) < nqsize (qobjs c ! i)" using 1(3) by (simp add: flush_ring_def Let_def)
  then have "sqHead (qobjs c ! i) \<noteq> sqTail (qobjs c ! i)" using 1(4) by auto
  moreover obtain c' where "sq_round arm_sliced B i c = (Inr (), c')" "flush_ring i j c'"
    "nqsize (qobjs c' ! i) = nqsize (qobjs c ! i)" "sqTail (qobjs c' ! i) = sqTail (qobjs c ! i)"
    using flush_ring_round [OF 1(3), of B] by auto
  ultimately show False using 1(1) [of B i c' y] 1(2,4) by simp
qed


definition hang_controller :: "(arm_vm option, int \<Rightarrow> u8) controller" where
  "hang_controller = (nv_Attach (Some (Some \<lparr>GuestPhysAddr = 0x1000, MemorySize = 80, vm_mem = replicate 80 0\<rparr>)) None
     (NewController None))
     \<lparr>qobjs := [(new_queue 1)\<lparr>nqsize := 1, sqAddr := 0x1010, cqAddr := 0x1000, cqID := 1, sqMem := (16, 64),
        cqMem := (0, 16)\<rparr>], nqueues := [1 \<mapsto> 0]\<rparr>"


text \<open>
  The size of a queue is taken from a 16-bit field plus one, in 16 bits: a Create I/O Submission Queue
  command with the field at its maximum makes a queue of size zero, is reported successful, and the first
  command submitted on that queue panics with a division by zero.
\<close>

theorem nvme_queue_size_wraps:
  assumes "opcode cmd = adminCreateSQ" "cdw10 cmd = push_bit 16 0xffff OR ucast qid" "qid \<noteq> 0" "nqueues c qid = None"
    "nmem c = Some vm" "arm_wf vm" "arm_mapped vm (prp1 cmd) 64" "arm_byte_at vm (prp1 cmd) = 0" "(ucast v :: u16) \<noteq> 0"
  shows "\<exists>c1 c2. executeAdminLocked arm_sliced B cmd c = (Inr (0, 0), c1)
    \<and> WriteMMIO arm_sliced B (sq_doorbell qid) sz v c1 = Some (Inl (Panic DivideByZero), c2)"
proof -
  have dec: "(ucast (cdw10 cmd) :: u16) = qid" "(ucast (drop_bit 16 (cdw10 cmd)) :: u16) + 1 = 0"
  proof -
    have m: "(0xffff :: u32) = mask 16" "(0xffff :: u16) = mask 16" by (simp_all add: mask_eq_exp_minus_1)
    show "(ucast (cdw10 cmd) :: u16) = qid"
      unfolding assms(2) m by (rule bit_word_eqI) (auto simp: bit_simps)
    have "(ucast (drop_bit 16 (cdw10 cmd)) :: u16) = 0xffff"
      unfolding assms(2) m by (rule bit_word_eqI) (auto simp: bit_simps)
    then show "(ucast (drop_bit 16 (cdw10 cmd)) :: u16) + 1 = 0" by simp
  qed
  let ?i = "length (qobjs c)"
  let ?q = "(new_queue qid)\<lparr>nqsize := 0, sqAddr := prp1 cmd, cqID := ucast (drop_bit 16 (cdw11 cmd))\<rparr>"
  let ?c1 = "c\<lparr>nqueues := (nqueues c)(qid \<mapsto> ?i), qobjs := qobjs c @ [?q]\<rparr>"
  have create: "executeAdminLocked arm_sliced B cmd c = (Inr (0, 0), ?c1)"
    using assms(1,4,5) dec
    by (simp add: executeAdminLocked_def and_then_def create_queue_def queue_for_def upd_queue_def
        cacheQueueMemoryLocked_def new_queue_def Let_def)
  define c2 where "c2 = upd_queue ?i (\<lambda>q. q\<lparr>sqTail := ucast v\<rparr>) ?c1"
  have q2: "qobjs c2 ! ?i = ?q\<lparr>sqTail := ucast v\<rparr>" "nmem c2 = Some vm"
    using assms(5) by (simp_all add: c2_def upd_queue_def)
  let ?raw = "range_bytes (arm_byte_at vm) (prp1 cmd) 64"
  have fetch: "fetch_command arm_sliced (nmem c2) (qobjs c2 ! ?i) = Inr ?raw"
    using arm_read_mapped [OF assms(6,7)]
    by (simp add: q2 fetch_command_def queueSubmissionEntry_def new_queue_def nil_slice_def arm_memory_def)
  obtain fl where fl: "parseCommand ?raw = Inr fl" "opcode fl = 0"
    using assms(8) by (simp add: parseCommand_def range_bytes_def)
  obtain st where "executeIOLocked arm_sliced B fl c2 = (Inr (0, st), c2)" using flush_executed [OF fl(2)] by blast
  then have "sq_round arm_sliced B ?i c2 = (Inl (Panic DivideByZero), c2)"
    using fetch fl assms(3)
    by (simp add: sq_round_def executeCommandLocked_def and_then_def advance_sq_def q2 new_queue_def)
  then have "sq_loop arm_sliced B ?i c2 = Some (Inl (Panic DivideByZero), c2)"
    using assms(9) by (simp add: sq_loop.simps [of _ _ _ c2] q2 new_queue_def)
  then have "WriteMMIO arm_sliced B (sq_doorbell qid) sz v ?c1 = Some (Inl (Panic DivideByZero), c2)"
    using WriteMMIO_doorbell [of ?c1 qid ?i arm_sliced B sz v] by (simp add: processSubmissionQueueLocked_def c2_def)
  then show ?thesis using create by blast
qed

definition create_cmd :: nvcommand where
  "create_cmd = \<lparr>opcode = 1, cid = 7, nsid = 0, prp1 = 0x1000, prp2 = 0, cdw10 = 0xffff0001, cdw11 = 0x10001,
     cdw12 = 0, cdw13 = 0\<rparr>"

definition idle_controller :: "(arm_vm option, int \<Rightarrow> u8) controller" where
  "idle_controller = nv_Attach (Some (Some \<lparr>GuestPhysAddr = 0x1000, MemorySize = 64, vm_mem = replicate 64 0\<rparr>)) None
     (NewController None)"

theorem nvme_queue_size_wraps_witness:
  "\<exists>c1 c2. executeAdminLocked arm_sliced memory_disk create_cmd idle_controller = (Inr (0, 0), c1)
    \<and> WriteMMIO arm_sliced memory_disk (sq_doorbell 1) 4 1 c1 = Some (Inl (Panic DivideByZero), c2)"
  by (rule nvme_queue_size_wraps [where vm = "Some \<lparr>GuestPhysAddr = 0x1000, MemorySize = 64, vm_mem = replicate 64 0\<rparr>"])
    (simp_all add: create_cmd_def idle_controller_def nv_Attach_def NewController_def nv_resetLocked_def Let_def
      arm_wf_def arm_mapped_def arm_byte_at_def)

section \<open>Interrupts\<close>

text \<open>What commands leave alone of the interrupt side; they may change the queues.\<close>

definition same_line :: "('m, 'b) controller \<Rightarrow> ('m, 'b) controller \<Rightarrow> bool" where
  "same_line c c' \<longleftrightarrow> nlog c' = nlog c \<and> nirqHigh c' = nirqHigh c \<and> nirq c' = nirq c \<and> msi c' = msi c
     \<and> nIRQ c' = nIRQ c \<and> ncc c' = ncc c"

lemma same_line_refl [simp]: "same_line c c"
  by (simp add: same_line_def)

lemma same_line_trans: "same_line a b \<Longrightarrow> same_line b c \<Longrightarrow> same_line a c"
  by (simp add: same_line_def)

lemma same_queues_line: "same_queues c c' \<Longrightarrow> same_line c c'"
  by (simp add: same_queues_def same_line_def)

lemma same_line_upd [simp]: "same_line u (upd_queue i f c) = same_line u c"
  by (simp add: same_line_def upd_queue_def)

lemma preserves_lineI: "(\<And>c. same_line c (snd (m c))) \<Longrightarrow> preserves (same_line u) m"
  using same_line_trans by (rule preservesI) blast

lemma create_queue_line: "same_line c (snd (create_queue M qid f c))"
  by (auto simp: create_queue_def queue_for_def Let_def same_line_def upd_queue_def split: option.splits sum.splits)

lemma advance_sq_line: "same_line c (snd (advance_sq i c))"
  by (simp add: advance_sq_def)

lemma writeCompletion_line: "same_line c (snd (writeCompletionLocked M j a b d e f c))"
  by (auto simp: writeCompletionLocked_def Let_def same_line_def upd_queue_def split: option.splits sum.splits prod.splits)

lemma executeAdmin_line: "same_line c (snd (executeAdminLocked M B cmd c))"
proof -
  have w: "same_line c (snd (and_then (writePRP M a b d) (\<lambda>_. return_ok r) c))" for a b d r
    by (rule preservesD [OF preserves_and_then]) (intro preserves_lineI same_queues_line writePRP_same preserves_return_ok same_line_refl)+
  have k: "same_line c (snd (and_then (create_queue M q f) (\<lambda>_. return_ok r) c))" for q f r
    by (rule preservesD [OF preserves_and_then]) (intro preserves_lineI create_queue_line preserves_return_ok same_line_refl)+
  have d: "same_line c (c\<lparr>nqueues := m\<rparr>)" for m by (simp add: same_line_def)
  show ?thesis by (simp add: executeAdminLocked_def Let_def w k d)
qed

lemma sq_round_line: "same_line c (snd (sq_round M B i c))"
proof -
  have e: "preserves (same_line u) (executeCommandLocked M B i cmd)" for u cmd
    by (rule preserves_lineI) (simp add: executeCommandLocked_def executeAdmin_line same_queues_line executeIO_same)
  have p: "preserves (same_line u) (\<lambda>c'. case completion_queue i c' of
        None \<Rightarrow> (Inl (QueueMissing (cqID (qobjs c' ! i))), c')
      | Some j \<Rightarrow> writeCompletionLocked M j (nqid (qobjs c' ! i)) (sqHead (qobjs c' ! i)) a b d c')" for u a b d
    by (rule preserves_lineI) (auto simp: writeCompletion_line split: option.splits)
  have "preserves (same_line u) (and_then (executeCommandLocked M B i cmd) (\<lambda>(result, status).
      and_then (advance_sq i) (\<lambda>_ c'. case completion_queue i c' of
        None \<Rightarrow> (Inl (QueueMissing (cqID (qobjs c' ! i))), c')
      | Some j \<Rightarrow> writeCompletionLocked M j (nqid (qobjs c' ! i)) (sqHead (qobjs c' ! i)) (cid cmd) result status c')))" for u cmd
    by (intro preserves_and_then e, clarsimp) (intro preserves_and_then p preserves_lineI advance_sq_line)
  note this [THEN preservesD]
  then show ?thesis by (auto simp: sq_round_def advance_sq_line split: sum.splits)
qed

lemma sq_loop_line: "sq_loop M B i c = Some (r, c') \<Longrightarrow> same_line c c'"
proof (induction M B i c "(r, c')" rule: sq_loop.raw_induct [rotated 1, consumes 1])
  case (1 loop M B i c)
  obtain x c1 where r: "sq_round M B i c = (x, c1)" by (rule prod.exhaust)
  then have l: "same_line c c1" using sq_round_line [of c M B i] by simp
  consider "sqHead (qobjs c ! i) = sqTail (qobjs c ! i)" | e where "x = Inl e" "sqHead (qobjs c ! i) \<noteq> sqTail (qobjs c ! i)"
    | "x = Inr ()" "sqHead (qobjs c ! i) \<noteq> sqTail (qobjs c ! i)" by (cases x) auto
  then show ?case
  proof cases
    case 3
    then have "same_line c1 c'" using 1(1) [of M B i c1] 1(2) r by simp
    then show ?thesis using l same_line_trans by blast
  qed (use 1(2) r l in auto)
qed

text \<open>The level of the pin, as the interrupt controller saw it last.\<close>

definition pin_level :: "irq_call list \<Rightarrow> bool" where
  "pin_level calls = foldl (\<lambda>lv x. case x of LevelCall _ h \<Rightarrow> h | MsiCall _ _ \<Rightarrow> lv) False calls"

lemma pin_level_simps [simp]: "pin_level [] = False" "pin_level (xs @ [LevelCall n h]) = h"
  by (simp_all add: pin_level_def)

text \<open>
  The interrupt side is right: the controller's note of the line is what the queues ask for and, with pin
  interrupts, what the interrupt controller saw; a disabled controller has no queues.
\<close>

definition irq_exact :: "('m, 'b) controller \<Rightarrow> bool" where
  "irq_exact c \<longleftrightarrow> nirqHigh c = irq_wanted c \<and> (ncc c AND 1 = 0 \<longrightarrow> nqueues c = Map.empty)
     \<and> (\<not> msiEnabled (msi c) \<and> nirq c \<noteq> None \<longrightarrow> pin_level (nlog c) = nirqHigh c)"

lemma updateIRQ_exact:
  assumes "ncc c AND 1 = 0 \<longrightarrow> nqueues c = Map.empty"
    "\<not> msiEnabled (msi c) \<and> nirq c \<noteq> None \<longrightarrow> pin_level (nlog c) = nirqHigh c"
  shows "irq_exact (snd (nv_updateIRQLocked c))"
proof -
  let ?c = "snd (nv_updateIRQLocked c)"
  have "irq_wanted ?c = irq_wanted c" by (simp add: irq_wanted_def updateIRQ_frame)
  moreover have "\<not> msiEnabled (msi c) \<and> nirq c \<noteq> None \<longrightarrow> pin_level (nlog ?c) = nirqHigh ?c"
    using assms(2) by (auto simp: nv_updateIRQLocked_def nv_SetIRQ_def Let_def)
  ultimately show ?thesis using assms(1) by (simp add: irq_exact_def updateIRQ_frame)
qed

lemma processSQ_exact:
  assumes "processSubmissionQueueLocked M B i c = Some (Inr (), c')" "ncc c AND 1 \<noteq> 0"
    "\<not> msiEnabled (msi c) \<and> nirq c \<noteq> None \<longrightarrow> pin_level (nlog c) = nirqHigh c"
  shows "irq_exact c'"
proof -
  obtain c1 where "sq_loop M B i c = Some (Inr (), c1)" "c' = snd (nv_updateIRQLocked c1)"
    using assms(1) by (auto simp: processSubmissionQueueLocked_def split: option.splits prod.splits sum.splits)
  then show ?thesis using sq_loop_line [of M B i c "Inr ()" c1] assms(2,3) updateIRQ_exact [of c1] by (simp add: same_line_def)
qed

lemma write_CC_exact:
  assumes "irq_exact c" "write_CC M w c = (Inr (), c')" "ncc c AND 1 = 0 \<or> w AND 1 = 0"
  shows "irq_exact c'"
proof (cases "w AND 1 = 0")
  case True
  then show ?thesis using assms
    by (auto simp: write_CC_def irq_exact_def irq_wanted_def nv_SetIRQ_def Let_def split: if_splits option.splits)
next
  case False
  then have "nqueues c = Map.empty" "\<not> nirqHigh c" using assms(1,3) by (auto simp: irq_exact_def irq_wanted_def)
  moreover have "cacheQueueMemoryLocked M mo q = Inr q' \<Longrightarrow> cqPending q' = cqPending q" for mo q q'
    by (auto simp: cacheQueueMemoryLocked_def split: option.splits if_splits sum.splits)
  ultimately show ?thesis using assms(1,2) False
    by (auto simp: write_CC_def configureAdminQueueLocked_def irq_exact_def irq_wanted_def Let_def and_then_def
        new_queue_def split: sum.splits prod.splits)
qed


definition pending_controller :: "(arm_vm option, int \<Rightarrow> u8) controller" where
  "pending_controller = idle_controller\<lparr>nirq := Some \<lparr>answerIRQ = (\<lambda>_ _ _. None), answerMSI = None\<rparr>,
     nlog := [LevelCall 5 True], ncc := 1, nirqHigh := True, nqueues := [0 \<mapsto> 0],
     qobjs := [(new_queue 0)\<lparr>nqsize := 2, cqPending := 1, interrupts := True\<rparr>]\<rparr>"


end
