(* ===== verification/Pic.thy ===== *)
theory Pic
  imports Prelude
begin

text \<open>
  The pair of interrupt controllers of the PC platform (\<^verbatim>\<open>bootPIC\<close> in
  \<^verbatim>\<open>hv/whp/platform_amd64_windows.go\<close>): the port interface, edge and level triggered lines, the
  cascade, acknowledgement and end of interrupt. A nil receiver and the textual summary are left out.
\<close>

section \<open>State\<close>

record pic_chip =
  vectorBase :: u8
  pmask :: u8
  icwStep :: u8
  ocw3 :: u8
  irr :: u8
  isr :: u8
  lastIRR :: u8

record pic =
  master :: pic_chip
  slave :: pic_chip
  elcr :: bytes
  picHigh :: "bool list"

definition zero_chip :: pic_chip where
  "zero_chip = \<lparr>vectorBase = 0, pmask = 0, icwStep = 0, ocw3 = 0, irr = 0, isr = 0, lastIRR = 0\<rparr>"

definition zero_pic :: pic where
  "zero_pic = \<lparr>master = zero_chip, slave = zero_chip, elcr = [0, 0], picHigh = replicate 16 False\<rparr>"

text \<open>The chip a line belongs to, \<open>True\<close> for the slave, and an update of one chip.\<close>

definition chip_of :: "bool \<Rightarrow> pic \<Rightarrow> pic_chip" where
  "chip_of s p = (if s then slave p else master p)"

definition upd_chip :: "bool \<Rightarrow> (pic_chip \<Rightarrow> pic_chip) \<Rightarrow> pic \<Rightarrow> pic" where
  "upd_chip s f p = (if s then p\<lparr>slave := f (slave p)\<rparr> else p\<lparr>master := f (master p)\<rparr>)"

definition line_bit :: "nat \<Rightarrow> u8" where
  "line_bit i = push_bit i 1"

section \<open>Operations\<close>

definition pendingIRQ :: "pic_chip \<Rightarrow> nat option" where
  "pendingIRQ c =
     (let pending = irr c AND NOT (pmask c) in
      if pending = 0 then None else find (\<lambda>i. pending AND line_bit i \<noteq> 0) [0..<8])"

definition pic_writeCommand :: "u8 \<Rightarrow> pic_chip \<Rightarrow> pic_chip" where
  "pic_writeCommand v c =
     (if v AND 0x10 \<noteq> 0 then c\<lparr>pmask := 0xff, icwStep := 2, irr := 0, isr := 0, lastIRR := 0\<rparr>
      else if v AND 0x20 \<noteq> 0 then c\<lparr>isr := 0\<rparr>
      else if v AND 0x08 \<noteq> 0 then c\<lparr>ocw3 := v\<rparr>
      else c)"

definition pic_writeData :: "u8 \<Rightarrow> pic_chip \<Rightarrow> pic_chip" where
  "pic_writeData v c =
     (if icwStep c = 2 then c\<lparr>vectorBase := v AND 0xf8, icwStep := 3\<rparr>
      else if icwStep c = 3 then c\<lparr>icwStep := 4\<rparr>
      else if icwStep c = 4 then c\<lparr>icwStep := 0\<rparr>
      else c\<lparr>pmask := v\<rparr>)"

definition level_triggered :: "nat \<Rightarrow> pic \<Rightarrow> bool" where
  "level_triggered line p \<longleftrightarrow> elcr p ! (line div 8) AND line_bit (line mod 8) \<noteq> 0"

text \<open>What a line does to the two request registers of its chip.\<close>

definition latch_line :: "bool \<Rightarrow> bool \<Rightarrow> u8 \<Rightarrow> pic_chip \<Rightarrow> pic_chip" where
  "latch_line levelTriggered high m c =
     (if levelTriggered then
        if high then c\<lparr>irr := irr c OR m, lastIRR := lastIRR c OR m\<rparr>
        else c\<lparr>irr := irr c AND NOT m, lastIRR := lastIRR c AND NOT m\<rparr>
      else if high then
        (let c1 = (if lastIRR c AND m = 0 then c\<lparr>irr := irr c OR m\<rparr> else c) in c1\<lparr>lastIRR := lastIRR c1 OR m\<rparr>)
      else c\<lparr>lastIRR := lastIRR c AND NOT m\<rparr>)"

definition setLineLocked :: "nat \<Rightarrow> bool \<Rightarrow> pic \<Rightarrow> pic" where
  "setLineLocked line high p =
     (let m = line_bit (if 8 \<le> line then line - 8 else line) in
      upd_chip (8 \<le> line) (latch_line (elcr p ! (line div 8) AND m \<noteq> 0) high m) p)"

definition pic_SetIRQ :: "nat \<Rightarrow> bool \<Rightarrow> pic \<Rightarrow> pic" where
  "pic_SetIRQ line high p =
     (if 16 \<le> line then p else setLineLocked line high (p\<lparr>picHigh := (picHigh p)[line := high]\<rparr>))"

definition ackLocked :: "bool \<Rightarrow> nat \<Rightarrow> nat \<Rightarrow> pic \<Rightarrow> u8 \<times> pic" where
  "ackLocked s irq line p =
     (let m = line_bit irq in
      (vectorBase (chip_of s p) + of_nat irq,
       upd_chip s (\<lambda>c. let c1 = c\<lparr>isr := isr c OR m\<rparr> in
         if elcr p ! (line div 8) AND m = 0 then c1\<lparr>irr := irr c1 AND NOT m\<rparr> else c1) p))"

text \<open>The vector and the line of the interrupt that goes to the processor.\<close>

definition AcknowledgePending :: "pic \<Rightarrow> (u8 \<times> nat) option \<times> pic" where
  "AcknowledgePending p0 =
     (let p = (if pendingIRQ (slave p0) \<noteq> None then upd_chip False (\<lambda>c. c\<lparr>irr := irr c OR line_bit 2\<rparr>) p0 else p0) in
      case pendingIRQ (master p) of
        None \<Rightarrow> (None, p)
      | Some masterIRQ \<Rightarrow>
          (case (if masterIRQ = 2 then pendingIRQ (slave p) else None) of
             Some slaveIRQ \<Rightarrow>
               (let p1 = snd (ackLocked False 2 2 p); line = 8 + slaveIRQ in
                case ackLocked True slaveIRQ line p1 of (v, p2) \<Rightarrow> (Some (v, line), p2))
           | None \<Rightarrow> (case ackLocked False masterIRQ masterIRQ p of (v, p2) \<Rightarrow> (Some (v, masterIRQ), p2))))"

definition EndOfInterrupt :: "u8 \<Rightarrow> pic \<Rightarrow> bool \<times> pic" where
  "EndOfInterrupt vector p =
     (if vectorBase (slave p) \<le> vector \<and> vector < vectorBase (slave p) + 8 then
        let irq = unat (vector - vectorBase (slave p)); m = line_bit irq in
        if isr (slave p) AND m = 0 then (False, p)
        else let p1 = upd_chip True (\<lambda>c. c\<lparr>isr := isr c AND NOT m\<rparr>) p;
                 p2 = upd_chip False (\<lambda>c. c\<lparr>isr := isr c AND NOT (line_bit 2)\<rparr>) p1 in
             (True, setLineLocked (8 + irq) (picHigh p2 ! (8 + irq)) p2)
      else if vectorBase (master p) \<le> vector \<and> vector < vectorBase (master p) + 8 then
        let irq = unat (vector - vectorBase (master p)); m = line_bit irq in
        if isr (master p) AND m = 0 then (False, p)
        else let p1 = upd_chip False (\<lambda>c. c\<lparr>isr := isr c AND NOT m\<rparr>) p in
             (True, setLineLocked irq (picHigh p1 ! irq) p1)
      else (False, p))"

definition Resample :: "pic \<Rightarrow> pic" where
  "Resample p = fold (\<lambda>(line, high). setLineLocked line high) (enumerate 0 (picHigh p)) p"

definition pic_Clear :: "nat \<Rightarrow> pic \<Rightarrow> pic" where
  "pic_Clear line p =
     (if 16 \<le> line then p
      else upd_chip (8 \<le> line) (\<lambda>c. c\<lparr>irr := irr c AND NOT (line_bit (if 8 \<le> line then line - 8 else line))\<rparr>)
        (p\<lparr>picHigh := (picHigh p)[line := False]\<rparr>))"

definition LevelTriggered :: "nat \<Rightarrow> pic \<Rightarrow> bool" where
  "LevelTriggered line p \<longleftrightarrow> line < 16 \<and> level_triggered line p"

definition SetLevelTriggered :: "nat \<Rightarrow> bool \<Rightarrow> pic \<Rightarrow> pic" where
  "SetLevelTriggered line level p =
     (if 16 \<le> line then p
      else let m = line_bit (line mod 8); e = elcr p ! (line div 8);
               p1 = p\<lparr>elcr := (elcr p)[line div 8 := (if level then e OR m else e AND NOT m)]\<rparr> in
           setLineLocked line (picHigh p1 ! line) p1)"

text \<open>The ports; \<open>None\<close> is a port of another device or an access of another width.\<close>

definition pic_Read :: "u16 \<Rightarrow> nat \<Rightarrow> pic \<Rightarrow> u8 option" where
  "pic_Read port n p =
     (if n \<noteq> 1 then None
      else if port = 0x20 then Some (if ocw3 (master p) AND 1 \<noteq> 0 then isr (master p) else irr (master p))
      else if port = 0x21 then Some (pmask (master p))
      else if port = 0xa0 then Some (if ocw3 (slave p) AND 1 \<noteq> 0 then isr (slave p) else irr (slave p))
      else if port = 0xa1 then Some (pmask (slave p))
      else if port = 0x4d0 then Some (elcr p ! 0)
      else if port = 0x4d1 then Some (elcr p ! 1)
      else None)"

definition pic_Write :: "u16 \<Rightarrow> bytes \<Rightarrow> pic \<Rightarrow> pic option" where
  "pic_Write port data p =
     (if length data \<noteq> 1 then None
      else let v = data ! 0 in
        if port = 0x20 then Some (upd_chip False (pic_writeCommand v) p)
        else if port = 0x21 then Some (upd_chip False (pic_writeData v) p)
        else if port = 0xa0 then Some (upd_chip True (pic_writeCommand v) p)
        else if port = 0xa1 then Some (upd_chip True (pic_writeData v) p)
        else if port = 0x4d0 then Some (p\<lparr>elcr := (elcr p)[0 := v]\<rparr>)
        else if port = 0x4d1 then Some (p\<lparr>elcr := (elcr p)[1 := v]\<rparr>)
        else None)"

section \<open>Snapshots\<close>

record bootPICChipState =
  sVectorBase :: u8
  sMask :: u8
  sICWStep :: u8
  sOCW3 :: u8
  sIRR :: u8
  sISR :: u8
  sLastIRR :: u8

record bootPICState =
  sMaster :: bootPICChipState
  sSlave :: bootPICChipState
  sELCR :: bytes
  sLineHigh :: "bool list"

definition chip_snapshotState :: "pic_chip \<Rightarrow> bootPICChipState" where
  "chip_snapshotState c = \<lparr>sVectorBase = vectorBase c, sMask = pmask c, sICWStep = icwStep c, sOCW3 = ocw3 c,
     sIRR = irr c, sISR = isr c, sLastIRR = lastIRR c\<rparr>"

definition chip_restoreState :: "bootPICChipState \<Rightarrow> pic_chip \<Rightarrow> pic_chip" where
  "chip_restoreState st c = c\<lparr>vectorBase := sVectorBase st, pmask := sMask st, icwStep := sICWStep st, ocw3 := sOCW3 st,
     irr := sIRR st, isr := sISR st, lastIRR := sLastIRR st\<rparr>"

definition pic_SnapshotState :: "pic \<Rightarrow> bootPICState" where
  "pic_SnapshotState p = \<lparr>sMaster = chip_snapshotState (master p), sSlave = chip_snapshotState (slave p),
     sELCR = elcr p, sLineHigh = picHigh p\<rparr>"

definition pic_RestoreState :: "bootPICState \<Rightarrow> pic \<Rightarrow> pic" where
  "pic_RestoreState st p = p\<lparr>master := chip_restoreState (sMaster st) (master p),
     slave := chip_restoreState (sSlave st) (slave p), elcr := sELCR st, picHigh := sLineHigh st\<rparr>"

lemma pic_snapshot_restores [simp]: "pic_RestoreState (pic_SnapshotState p) q = p"
  by (simp add: pic_RestoreState_def pic_SnapshotState_def chip_restoreState_def chip_snapshotState_def)

section \<open>Requests and priorities\<close>

lemma and_line_bit [simp]: "x AND line_bit i = 0 \<longleftrightarrow> \<not> bit x i"
  by (simp add: line_bit_def push_bit_eq_mult and_exp_eq_0_iff_not_bit)

lemma bit_line_bit [simp]: "bit (line_bit i) j \<longleftrightarrow> i = j \<and> j < 8"
  by (auto simp: line_bit_def bit_simps)

lemma bit_u8_lt: "bit (x :: u8) i \<Longrightarrow> i < 8"
  by (drule bit_imp_le_length) simp

lemma pendingIRQ_eq: "pendingIRQ c = find (\<lambda>i. bit (irr c) i \<and> \<not> bit (pmask c) i) [0..<8]"
proof -
  have b: "bit (irr c AND NOT (pmask c)) i \<longleftrightarrow> bit (irr c) i \<and> \<not> bit (pmask c) i" for i
    using bit_u8_lt [of "irr c" i] by (auto simp: bit_simps)
  show ?thesis
  proof (cases "irr c AND NOT (pmask c) = 0")
    case True
    then have "find (\<lambda>i. bit (irr c) i \<and> \<not> bit (pmask c) i) [0..<8] = None" using b by (simp add: find_None_iff)
    then show ?thesis using True by (simp add: pendingIRQ_def)
  qed (simp add: pendingIRQ_def b)
qed

lemma pendingIRQ_lt: "pendingIRQ c = Some i \<Longrightarrow> i < 8 \<and> bit (irr c) i \<and> \<not> bit (pmask c) i"
  unfolding pendingIRQ_eq by (auto simp: find_Some_iff)

lemma chip_of_simps [simp]: "chip_of True p = slave p" "chip_of False p = master p"
  by (simp_all add: chip_of_def)

lemma upd_chip_simps [simp]:
  "chip_of s (upd_chip t f p) = (if s = t then f (chip_of s p) else chip_of s p)"
  "elcr (upd_chip t f p) = elcr p" "picHigh (upd_chip t f p) = picHigh p"
  "master (upd_chip t f p) = (if t then master p else f (master p))"
  "slave (upd_chip t f p) = (if t then f (slave p) else slave p)"
  by (auto simp: upd_chip_def chip_of_def)

text \<open>The three registers, read by line: requested, masked and in service.\<close>

definition requested :: "pic \<Rightarrow> nat \<Rightarrow> bool" where
  "requested p l \<longleftrightarrow> bit (irr (chip_of (8 \<le> l) p)) (l mod 8)"

definition in_service :: "pic \<Rightarrow> nat \<Rightarrow> bool" where
  "in_service p l \<longleftrightarrow> bit (isr (chip_of (8 \<le> l) p)) (l mod 8)"

definition last_level :: "pic \<Rightarrow> nat \<Rightarrow> bool" where
  "last_level p l \<longleftrightarrow> bit (lastIRR (chip_of (8 \<le> l) p)) (l mod 8)"

definition vector_of :: "pic \<Rightarrow> nat \<Rightarrow> u8" where
  "vector_of p l = vectorBase (chip_of (8 \<le> l) p) + of_nat (l mod 8)"

text \<open>
  What may be delivered: a requested line that is not masked and, on the slave, not behind a masked
  cascade. The cascade makes the slave's eight lines come before line 2.
\<close>

definition line_pending :: "pic \<Rightarrow> nat \<Rightarrow> bool" where
  "line_pending p l \<longleftrightarrow> requested p l \<and> \<not> bit (pmask (chip_of (8 \<le> l) p)) (l mod 8)
     \<and> (8 \<le> l \<longrightarrow> \<not> bit (pmask (master p)) 2)"

definition pic_order :: "nat list" where
  "pic_order = [0, 1] @ [8..<16] @ [2..<8]"

lemma find_append: "find P (xs @ ys) = (case find P xs of None \<Rightarrow> find P ys | Some x \<Rightarrow> Some x)"
  by (induction xs) auto

lemma find_cong_list: "(\<And>x. x \<in> set xs \<Longrightarrow> P x = Q x) \<Longrightarrow> find P xs = find Q xs"
  by (induction xs) auto

lemma find_map_shift: "find P (map f xs) = map_option f (find (P \<circ> f) xs)"
  by (induction xs) auto

lemma find_slave:
  "\<not> bit (pmask (master p)) 2 \<Longrightarrow> find (line_pending p) [8..<16] = map_option ((+) 8) (pendingIRQ (slave p))"
proof -
  assume m: "\<not> bit (pmask (master p)) 2"
  have "[8..<16] = map ((+) 8) [0..<8 :: nat]" by (simp add: upt_rec)
  moreover have "find (line_pending p \<circ> (+) 8) [0..<8] = pendingIRQ (slave p)"
    unfolding pendingIRQ_eq using m by (intro find_cong_list) (simp add: line_pending_def requested_def)
  ultimately show ?thesis by (simp add: find_map_shift)
qed

lemma find_slave_masked: "bit (pmask (master p)) 2 \<Longrightarrow> find (line_pending p) [8..<16] = None"
  by (simp add: find_None_iff line_pending_def)

lemma master_order: "[0..<8] = [0, 1] @ [2..<8 :: nat]"
  by (simp add: upt_rec)

lemma pending_master:
  "pendingIRQ (master p) = (case find (line_pending p) [0, 1] of Some l \<Rightarrow> Some l | None \<Rightarrow> find (line_pending p) [2..<8])"
proof -
  have "pendingIRQ (master p) = find (line_pending p) [0..<8]"
    unfolding pendingIRQ_eq by (intro find_cong_list) (simp add: line_pending_def requested_def)
  then show ?thesis by (simp only: master_order find_append)
qed

lemma find_order:
  "find (line_pending p) pic_order = (case find (line_pending p) [0, 1] of Some l \<Rightarrow> Some l
     | None \<Rightarrow> (case find (line_pending p) [8..<16] of Some l \<Rightarrow> Some l | None \<Rightarrow> find (line_pending p) [2..<8]))"
  by (simp only: pic_order_def find_append)

text \<open>The request of the slave on the master.\<close>

definition cascade :: "pic \<Rightarrow> pic" where
  "cascade p = (if pendingIRQ (slave p) \<noteq> None then upd_chip False (\<lambda>c. c\<lparr>irr := irr c OR line_bit 2\<rparr>) p else p)"

lemma cascade_simps [simp]:
  "slave (cascade p) = slave p" "elcr (cascade p) = elcr p" "picHigh (cascade p) = picHigh p"
  "isr (master (cascade p)) = isr (master p)" "pmask (master (cascade p)) = pmask (master p)"
  "lastIRR (master (cascade p)) = lastIRR (master p)" "vectorBase (master (cascade p)) = vectorBase (master p)"
  by (simp_all add: cascade_def)

lemma cascade_pending: "l \<noteq> 2 \<Longrightarrow> l < 16 \<Longrightarrow> line_pending (cascade p) l = line_pending p l"
  by (auto simp: cascade_def line_pending_def requested_def bit_simps)

lemma cascade_request: "l \<noteq> 2 \<Longrightarrow> l < 16 \<Longrightarrow> requested (cascade p) l = requested p l"
  by (auto simp: cascade_def requested_def bit_simps)

lemma pending_cascade:
  assumes "pendingIRQ (slave p) \<noteq> None" "\<not> bit (pmask (master p)) 2"
  shows "pendingIRQ (master (cascade p)) = (case find (line_pending p) [0, 1] of Some l \<Rightarrow> Some l | None \<Rightarrow> Some 2)"
proof -
  have "line_pending (cascade p) 2" using assms by (simp add: cascade_def line_pending_def requested_def bit_simps)
  moreover have "[2..<8] = 2 # [3..<8 :: nat]" by (simp add: upt_rec)
  moreover have "find (line_pending (cascade p)) [0, 1] = find (line_pending p) [0, 1]"
    by (intro find_cong_list) (auto simp: cascade_pending)
  ultimately show ?thesis by (simp add: pending_master [of "cascade p"])
qed

lemma pending_no_cascade:
  assumes "pendingIRQ (slave p) = None \<or> bit (pmask (master p)) 2"
  shows "pendingIRQ (master (cascade p)) = find (line_pending p) pic_order \<and> find (line_pending p) [8..<16] = None"
proof -
  have "line_pending (cascade p) l = line_pending p l" if "l < 16" for l
    using assms that by (cases "l = 2") (auto simp: cascade_pending line_pending_def requested_def cascade_def bit_simps)
  then have "pendingIRQ (master (cascade p)) = pendingIRQ (master p)"
    unfolding pending_master by (auto intro!: find_cong_list arg_cong2 [where f = "case_option _"] split: option.splits)
  moreover have "find (line_pending p) [8..<16] = None"
    using assms find_slave [of p] find_slave_masked [of p] by (cases "bit (pmask (master p)) 2") auto
  ultimately show ?thesis
    unfolding find_order pending_master [of p] by (simp split: option.splits)
qed

lemma AcknowledgePending_eq:
  "AcknowledgePending p = (case pendingIRQ (master (cascade p)) of None \<Rightarrow> (None, cascade p)
     | Some i \<Rightarrow> (case (if i = 2 then pendingIRQ (slave p) else None) of
         Some s \<Rightarrow> (case ackLocked True s (8 + s) (snd (ackLocked False 2 2 (cascade p))) of (v, q) \<Rightarrow> (Some (v, 8 + s), q))
       | None \<Rightarrow> (case ackLocked False i i (cascade p) of (v, q) \<Rightarrow> (Some (v, i), q))))"
  by (simp add: AcknowledgePending_def cascade_def Let_def split: option.splits)

text \<open>
  Acknowledgement follows the priorities of the cascaded pair: the line handed to the processor is the
  first pending one in the order 0, 1, then the eight lines of the slave, then 2 to 7, and there is none
  exactly when no line is pending.
\<close>

theorem pic_acknowledge_priority:
  "map_option snd (fst (AcknowledgePending p)) = find (line_pending p) pic_order"
proof -
  note a = AcknowledgePending_eq
  show ?thesis
  proof (cases "pendingIRQ (slave p) = None \<or> bit (pmask (master p)) 2")
    case True
    have "pendingIRQ (slave p) = None" if "find (line_pending p) pic_order = Some 2"
      using True that by (auto simp: find_Some_iff line_pending_def)
    then show ?thesis unfolding a using pending_no_cascade [OF True] by (auto split: option.splits prod.splits)
  next
    case False
    then obtain s where s: "pendingIRQ (slave p) = Some s" "find (line_pending p) [8..<16] = Some (8 + s)"
      using find_slave by auto
    have "find (line_pending p) [0, 1] = Some l \<Longrightarrow> l \<noteq> 2" for l by (auto split: if_splits)
    then show ?thesis unfolding a find_order using False s pending_cascade [of p]
      by (auto simp del: find.simps split: option.splits prod.splits)
  qed
qed

section \<open>One interrupt from request to end\<close>

lemma line_mod8: "l < 16 \<Longrightarrow> (if 8 \<le> l then l - 8 else l) = l mod 8" for l :: nat
  by (simp add: mod_if)

lemma same_line_iff: "k < 16 \<Longrightarrow> l < 16 \<Longrightarrow> (8 \<le> k) = (8 \<le> l) \<Longrightarrow> k mod 8 = l mod 8 \<longleftrightarrow> k = (l :: nat)"
  by (auto simp: mod_if split: if_splits)

lemma setLineLocked_eq:
  "l < 16 \<Longrightarrow> setLineLocked l h p = upd_chip (8 \<le> l) (latch_line (level_triggered l p) h (line_bit (l mod 8))) p"
  by (simp add: setLineLocked_def level_triggered_def line_mod8 Let_def)

lemma latch_line_bits:
  assumes "i < 8"
  shows "bit (irr (latch_line t h (line_bit i) c)) j =
      (if j = i then (if t then h else bit (irr c) i \<or> (h \<and> \<not> bit (lastIRR c) i)) else bit (irr c) j)"
    "bit (lastIRR (latch_line t h (line_bit i) c)) j = (if j = i then h else bit (lastIRR c) j)"
    "isr (latch_line t h (line_bit i) c) = isr c" "vectorBase (latch_line t h (line_bit i) c) = vectorBase c"
    "pmask (latch_line t h (line_bit i) c) = pmask c"
  using assms bit_u8_lt [of "irr c" j] bit_u8_lt [of "lastIRR c" j]
  by (auto simp: latch_line_def Let_def bit_simps)

lemma setLine_facts:
  assumes "l < 16"
  shows "k < 16 \<Longrightarrow> requested (setLineLocked l h p) k = (if k = l then
      (if level_triggered l p then h else requested p l \<or> (h \<and> \<not> last_level p l)) else requested p k)"
    "k < 16 \<Longrightarrow> last_level (setLineLocked l h p) k = (if k = l then h else last_level p k)"
    "in_service (setLineLocked l h p) = in_service p" "elcr (setLineLocked l h p) = elcr p"
    "picHigh (setLineLocked l h p) = picHigh p" "vectorBase (chip_of s (setLineLocked l h p)) = vectorBase (chip_of s p)"
  using assms same_line_iff [of k l]
  by (auto simp: requested_def last_level_def in_service_def setLineLocked_eq latch_line_bits fun_eq_iff chip_of_def
      split: if_splits)

text \<open>The registers remember the levels of the lines.\<close>

definition pic_ok :: "pic \<Rightarrow> bool" where
  "pic_ok p \<longleftrightarrow> length (elcr p) = 2 \<and> length (picHigh p) = 16 \<and> (\<forall>l < 16. last_level p l = picHigh p ! l)"

lemma setLine_ok:
  assumes "l < 16" "length (elcr p) = 2" "length (picHigh p) = 16" "\<forall>k < 16. k \<noteq> l \<longrightarrow> last_level p k = picHigh p ! k"
  shows "pic_ok (setLineLocked l (picHigh p ! l) p)"
  using assms setLine_facts by (auto simp: pic_ok_def)

lemma pic_SetIRQ_ok: "pic_ok p \<Longrightarrow> pic_ok (pic_SetIRQ l h p)"
proof -
  assume ok: "pic_ok p"
  show ?thesis
  proof (cases "l < 16")
    case True
    let ?q = "p\<lparr>picHigh := (picHigh p)[l := h]\<rparr>"
    have "last_level ?q k = last_level p k" for k by (simp add: last_level_def chip_of_def)
    then have "pic_ok (setLineLocked l (picHigh ?q ! l) ?q)" using ok True by (intro setLine_ok) (auto simp: pic_ok_def)
    then show ?thesis using True ok by (simp add: pic_SetIRQ_def pic_ok_def)
  qed (use ok in \<open>simp add: pic_SetIRQ_def\<close>)
qed

lemma SetLevelTriggered_ok: "pic_ok p \<Longrightarrow> pic_ok (SetLevelTriggered l h p)"
proof -
  assume ok: "pic_ok p"
  show ?thesis
  proof (cases "l < 16")
    case True
    let ?e = "if h then elcr p ! (l div 8) OR line_bit (l mod 8) else elcr p ! (l div 8) AND NOT (line_bit (l mod 8))"
    let ?q = "p\<lparr>elcr := (elcr p)[l div 8 := ?e]\<rparr>"
    have "last_level ?q k = last_level p k" for k by (simp add: last_level_def chip_of_def)
    then have "pic_ok (setLineLocked l (picHigh ?q ! l) ?q)" using ok True by (intro setLine_ok) (auto simp: pic_ok_def)
    then show ?thesis using True by (simp add: SetLevelTriggered_def Let_def)
  qed (use ok in \<open>simp add: SetLevelTriggered_def\<close>)
qed

lemma Resample_fold:
  assumes "n + length hs \<le> 16" "q = fold (\<lambda>(l, h). setLineLocked l h) (enumerate n hs) p"
  shows "elcr q = elcr p \<and> picHigh q = picHigh p
    \<and> (\<forall>l < 16. last_level q l = (if n \<le> l \<and> l < n + length hs then hs ! (l - n) else last_level p l))"
  using assms
proof (induction hs arbitrary: n p)
  case (Cons h hs)
  let ?p = "setLineLocked n h p"
  have n: "n < 16" using Cons.prems(1) by simp
  have ih: "elcr q = elcr ?p \<and> picHigh q = picHigh ?p
    \<and> (\<forall>l < 16. last_level q l = (if Suc n \<le> l \<and> l < Suc n + length hs then hs ! (l - Suc n) else last_level ?p l))"
    using Cons.prems by (intro Cons.IH) simp_all
  have "last_level q l = (if n \<le> l \<and> l < n + length (h # hs) then (h # hs) ! (l - n) else last_level p l)" if "l < 16" for l
  proof (cases "l = n")
    case True
    then show ?thesis using ih that setLine_facts(2) [OF n that, of h p] by simp
  next
    case False
    have "last_level ?p l = last_level p l" using setLine_facts(2) [OF n that, of h p] False by simp
    moreover have "(h # hs) ! (l - n) = hs ! (l - Suc n)" if "Suc n \<le> l" using that by (simp add: nth_Cons')
    ultimately show ?thesis using ih that False by auto
  qed
  then show ?case using ih setLine_facts(4,5) [OF n, of h p] by simp
qed auto

lemma Resample_ok: "length (elcr p) = 2 \<Longrightarrow> length (picHigh p) = 16 \<Longrightarrow> pic_ok (Resample p)"
  using Resample_fold [of 0 "picHigh p" "Resample p" p] by (simp add: Resample_def pic_ok_def)

lemma pic_Write_frame: "pic_Write port data p = Some q \<Longrightarrow> length (elcr q) = length (elcr p) \<and> picHigh q = picHigh p"
  by (auto simp: pic_Write_def Let_def split: if_splits)

lemma ackLocked_facts:
  assumes "i < 8" "l < 16" "l mod 8 = i" "s = (8 \<le> l)" "ackLocked s i l p = (v, q)"
  shows "v = vector_of p l \<and> elcr q = elcr p \<and> picHigh q = picHigh p \<and> last_level q = last_level p
    \<and> (\<forall>k < 16. in_service q k = (in_service p k \<or> k = l))
    \<and> (\<forall>k < 16. requested q k = (requested p k \<and> (k \<noteq> l \<or> level_triggered l p)))
    \<and> (\<forall>t. vectorBase (chip_of t q) = vectorBase (chip_of t p))"
proof -
  let ?f = "\<lambda>c. let c1 = c\<lparr>isr := isr c OR line_bit i\<rparr> in
     if elcr p ! (l div 8) AND line_bit i = 0 then c1\<lparr>irr := irr c1 AND NOT (line_bit i)\<rparr> else c1"
  have q: "v = vectorBase (chip_of s p) + of_nat i" "q = upd_chip s ?f p"
    using assms(5) by (simp_all add: ackLocked_def Let_def)
  have f: "bit (isr (?f c)) j = (bit (isr c) j \<or> j = i)" "bit (irr (?f c)) j = (bit (irr c) j \<and> (j \<noteq> i \<or> level_triggered l p))"
    "lastIRR (?f c) = lastIRR c" "vectorBase (?f c) = vectorBase c" for c j
    using assms(1,3) bit_u8_lt [of "irr c" j] by (auto simp: level_triggered_def Let_def bit_simps)
  have "in_service q k = (in_service p k \<or> k = l)" if "k < 16" for k
    using that same_line_iff [of k l] assms(2-4) unfolding q in_service_def upd_chip_simps by (auto simp only: f split: if_splits)
  moreover have "requested q k = (requested p k \<and> (k \<noteq> l \<or> level_triggered l p))" if "k < 16" for k
    using that same_line_iff [of k l] assms(2-4) unfolding q requested_def upd_chip_simps by (auto simp only: f split: if_splits)
  moreover have "last_level q = last_level p" unfolding q last_level_def upd_chip_simps by (auto simp only: f fun_eq_iff split: if_splits)
  moreover have "vectorBase (chip_of t q) = vectorBase (chip_of t p)" for t
    unfolding q upd_chip_simps by (auto simp only: f split: if_splits)
  ultimately show ?thesis using q assms(3,4) by (simp add: vector_of_def)
qed

text \<open>What acknowledging a line leaves alone, and what it changes for that line.\<close>

definition acknowledged :: "pic \<Rightarrow> nat \<Rightarrow> pic \<Rightarrow> bool" where
  "acknowledged p l q \<longleftrightarrow> elcr q = elcr p \<and> picHigh q = picHigh p \<and> last_level q = last_level p
     \<and> (\<forall>t. vectorBase (chip_of t q) = vectorBase (chip_of t p))
     \<and> in_service q l \<and> (requested q l \<longleftrightarrow> level_triggered l p)"

lemma cascade_frame:
  "last_level (cascade p) = last_level p" "level_triggered l (cascade p) = level_triggered l p"
  "vector_of (cascade p) l = vector_of p l" "vectorBase (chip_of t (cascade p)) = vectorBase (chip_of t p)"
  by (auto simp: cascade_def last_level_def level_triggered_def vector_of_def fun_eq_iff)

lemma ack_outcome:
  assumes "AcknowledgePending p = (Some (v, l), q)"
  shows "l < 16 \<and> v = vector_of p l \<and> acknowledged p l q"
proof -
  obtain i where i: "pendingIRQ (master (cascade p)) = Some i"
    using assms by (auto simp: AcknowledgePending_eq split: option.splits)
  then have ilt: "i < 8" "requested (cascade p) i" using pendingIRQ_lt [OF i] by (simp_all add: requested_def)
  show ?thesis
  proof (cases "if i = 2 then pendingIRQ (slave p) else None")
    case None
    then have "l = i" "ackLocked False i i (cascade p) = (v, q)"
      using assms i by (auto simp: AcknowledgePending_eq split: prod.splits)
    then show ?thesis using ackLocked_facts [of i i False "cascade p" v q] ilt
      by (simp add: acknowledged_def cascade_frame)
  next
    case (Some s)
    then have s: "pendingIRQ (slave p) = Some s" by (simp split: if_splits)
    let ?r = "snd (ackLocked False 2 2 (cascade p))"
    have l: "l = 8 + s" "ackLocked True s (8 + s) ?r = (v, q)"
      using assms i Some by (auto simp: AcknowledgePending_eq split: prod.splits)
    have slt: "s < 8" "bit (irr (slave p)) s" using pendingIRQ_lt [OF s] by simp_all
    then have rq: "requested (cascade p) (8 + s)" by (simp add: requested_def)
    have a: "elcr ?r = elcr p \<and> picHigh ?r = picHigh p \<and> last_level ?r = last_level p
        \<and> (\<forall>k < 16. requested ?r k = (requested (cascade p) k \<and> (k \<noteq> 2 \<or> level_triggered 2 p)))
        \<and> (\<forall>t. vectorBase (chip_of t ?r) = vectorBase (chip_of t p))"
      using ackLocked_facts [of 2 2 False "cascade p" "fst (ackLocked False 2 2 (cascade p))" ?r] by (simp add: cascade_frame)
    have "v = vector_of ?r l \<and> acknowledged ?r l q"
      using ackLocked_facts [of s "8 + s" True ?r v q] l slt a rq by (simp add: acknowledged_def)
    moreover have "vector_of ?r l = vector_of p l" "level_triggered l ?r = level_triggered l p"
      using a by (simp_all add: vector_of_def level_triggered_def)
    ultimately show ?thesis using a l(1) slt(1) by (simp add: acknowledged_def)
  qed
qed

text \<open>The two blocks of vectors neither overlap nor reach the top of the byte.\<close>

definition bases_apart :: "pic \<Rightarrow> bool" where
  "bases_apart p \<longleftrightarrow> (let m = unat (vectorBase (master p)); s = unat (vectorBase (slave p)) in
     m + 8 < 256 \<and> s + 8 < 256 \<and> (m + 8 \<le> s \<or> s + 8 \<le> m))"

lemma base_range:
  assumes "unat (b :: u8) + 8 < 256"
  shows "b \<le> v \<and> v < b + 8 \<longleftrightarrow> unat b \<le> unat v \<and> unat v < unat b + 8"
  using unat_add_of_nat [of b 8] assms by (simp add: word_le_nat_alt word_less_nat_alt)

lemma vector_unat:
  assumes "unat (b :: u8) + 8 < 256" "i < 8"
  shows "unat (b + of_nat i) = unat b + i" "unat (b + of_nat i - b) = i"
  using unat_add_of_nat [of b i] assms by (simp_all add: unat_of_nat)

lemma eoi_outcome:
  assumes "bases_apart p" "l < 16" "in_service p l"
  shows "\<exists>q. EndOfInterrupt (vector_of p l) p = (True, setLineLocked l (picHigh p ! l) q) \<and> \<not> in_service q l
    \<and> elcr q = elcr p \<and> last_level q = last_level p \<and> requested q = requested p"
proof (cases "8 \<le> l")
  case True
  let ?i = "l mod 8" and ?b = "vectorBase (slave p)"
  have i: "?i < 8" "8 + ?i = l" using True assms(2) line_mod8 [of l] by (simp, presburger)
  let ?q = "upd_chip False (\<lambda>c. c\<lparr>isr := isr c AND NOT (line_bit 2)\<rparr>) (upd_chip True (\<lambda>c. c\<lparr>isr := isr c AND NOT (line_bit ?i)\<rparr>) p)"
  have "?b \<le> vector_of p l \<and> vector_of p l < ?b + 8" "unat (vector_of p l - ?b) = ?i"
    using base_range [of ?b "vector_of p l"] vector_unat [of ?b ?i] assms(1) True i
    by (simp_all add: vector_of_def bases_apart_def Let_def)
  moreover have "bit (isr (slave p)) ?i" using assms(3) True by (simp add: in_service_def)
  ultimately have "EndOfInterrupt (vector_of p l) p = (True, setLineLocked l (picHigh p ! l) ?q)"
    using i by (simp add: EndOfInterrupt_def Let_def)
  moreover have "\<not> in_service ?q l" using True i by (simp add: in_service_def bit_simps)
  ultimately show ?thesis by (intro exI [of _ ?q]) (auto simp: last_level_def requested_def fun_eq_iff)
next
  case False
  let ?b = "vectorBase (master p)" and ?q = "upd_chip False (\<lambda>c. c\<lparr>isr := isr c AND NOT (line_bit l)\<rparr>) p"
  have n: "?b \<le> vector_of p l \<and> vector_of p l < ?b + 8" "unat (vector_of p l - ?b) = l"
    "\<not> (vectorBase (slave p) \<le> vector_of p l \<and> vector_of p l < vectorBase (slave p) + 8)"
    using base_range [of ?b "vector_of p l"] base_range [of "vectorBase (slave p)" "vector_of p l"] vector_unat [of ?b l]
      assms(1) False by (auto simp: vector_of_def bases_apart_def Let_def)
  have "bit (isr (master p)) l" using assms(3) False by (simp add: in_service_def)
  then have "EndOfInterrupt (vector_of p l) p = (True, setLineLocked l (picHigh p ! l) ?q)"
    by (simp add: EndOfInterrupt_def Let_def n)
  moreover have "\<not> in_service ?q l" using False by (simp add: in_service_def bit_simps)
  ultimately show ?thesis by (intro exI [of _ ?q]) (auto simp: last_level_def requested_def fun_eq_iff)
qed

text \<open>
  The states of the controllers from the platform's set-up on. After a port write the platform samples the
  lines again.
\<close>

definition boot_pic :: pic where
  "boot_pic = zero_pic\<lparr>master := zero_chip\<lparr>vectorBase := 0x20, pmask := 0xff\<rparr>,
     slave := zero_chip\<lparr>vectorBase := 0x28, pmask := 0xff\<rparr>\<rparr>"

inductive pic_reachable :: "pic \<Rightarrow> bool" where
  boot: "pic_reachable boot_pic"
| irq: "pic_reachable p \<Longrightarrow> pic_reachable (pic_SetIRQ l h p)"
| trigger: "pic_reachable p \<Longrightarrow> pic_reachable (SetLevelTriggered l h p)"
| port: "pic_reachable p \<Longrightarrow> pic_Write a d p = Some q \<Longrightarrow> pic_reachable (Resample q)"
| ack: "pic_reachable p \<Longrightarrow> pic_reachable (snd (AcknowledgePending p))"
| eoi: "pic_reachable p \<Longrightarrow> pic_reachable (snd (EndOfInterrupt v p))"

lemma pic_ok_cong:
  "elcr q = elcr p \<Longrightarrow> picHigh q = picHigh p \<Longrightarrow> last_level q = last_level p \<Longrightarrow> pic_ok p \<Longrightarrow> pic_ok q"
  by (simp add: pic_ok_def)

lemma Acknowledge_ok: "pic_ok p \<Longrightarrow> pic_ok (snd (AcknowledgePending p))"
proof -
  assume ok: "pic_ok p"
  obtain r q where r: "AcknowledgePending p = (r, q)" by (rule prod.exhaust)
  show ?thesis
  proof (cases r)
    case None
    then have "q = cascade p" using r by (auto simp: AcknowledgePending_eq split: option.splits prod.splits)
    then show ?thesis using ok r pic_ok_cong [of "cascade p" p] by (simp add: cascade_frame)
  next
    case (Some x)
    then show ?thesis using ack_outcome [of p "fst x" "snd x" q] ok r pic_ok_cong [of q p]
      by (simp add: acknowledged_def)
  qed
qed

lemma EndOfInterrupt_ok: "pic_ok p \<Longrightarrow> pic_ok (snd (EndOfInterrupt v p))"
proof -
  assume ok: "pic_ok p"
  have set: "pic_ok (setLineLocked l (picHigh p ! l) q)"
    if "l < 16" "elcr q = elcr p" "picHigh q = picHigh p" "last_level q = last_level p" for l q
    using setLine_ok [of l q] ok that by (simp add: pic_ok_def)
  have r: "unat (v - b) < 8" if "b \<le> v \<and> v < b + 8" for b :: u8
  proof -
    have "unat v < unat (b + 8)" "unat (b + 8) \<le> unat b + 8" using that by (simp_all add: word_less_nat_alt unat_word_ariths)
    then show ?thesis using that by (auto simp: unat_minus_le word_le_nat_alt)
  qed
  have l: "last_level (upd_chip s (\<lambda>c. c\<lparr>isr := f c\<rparr>) x) = last_level x" for s f x by (auto simp: last_level_def fun_eq_iff)
  show ?thesis using ok r [of "vectorBase (slave p)"] r [of "vectorBase (master p)"]
    by (auto simp: EndOfInterrupt_def Let_def l intro!: set)
qed

lemma boot_pic_ok: "pic_ok boot_pic"
  by (auto simp: pic_ok_def boot_pic_def zero_pic_def zero_chip_def last_level_def chip_of_def)

lemma pic_reachable_ok: "pic_reachable p \<Longrightarrow> pic_ok p"
proof (induction rule: pic_reachable.induct)
  case (port p a d q)
  then show ?case using pic_Write_frame [of a d p q] Resample_ok [of q] by (simp add: pic_ok_def)
qed (simp_all add: boot_pic_ok pic_SetIRQ_ok SetLevelTriggered_ok Acknowledge_ok EndOfInterrupt_ok)

lemma interrupt_cycle:
  assumes "pic_reachable p" "bases_apart p" "AcknowledgePending p = (Some (v, l), p1)"
  shows "v = vector_of p l \<and> in_service p1 l
    \<and> (\<exists>p2. EndOfInterrupt v p1 = (True, p2) \<and> \<not> in_service p2 l
         \<and> (requested p2 l \<longleftrightarrow> level_triggered l p \<and> picHigh p ! l))"
proof -
  have ok: "pic_ok p" by (rule pic_reachable_ok [OF assms(1)])
  have a: "l < 16" "v = vector_of p l" "acknowledged p l p1" using ack_outcome [OF assms(3)] by auto
  note k = a(3) [unfolded acknowledged_def]
  have "bases_apart p1" using assms(2) k by (auto simp: bases_apart_def chip_of_def all_bool_eq)
  moreover have "v = vector_of p1 l" using a(2) k by (simp add: vector_of_def)
  ultimately obtain q where q: "EndOfInterrupt v p1 = (True, setLineLocked l (picHigh p1 ! l) q)" "\<not> in_service q l"
    "elcr q = elcr p1" "last_level q = last_level p1" "requested q = requested p1"
    using eoi_outcome [of p1 l] a(1) k by auto
  have "level_triggered l q = level_triggered l p" using q(3) k by (simp add: level_triggered_def)
  then have "requested (setLineLocked l (picHigh p1 ! l) q) l \<longleftrightarrow> level_triggered l p \<and> picHigh p ! l"
    using setLine_facts(1) [OF a(1) a(1), of "picHigh p1 ! l" q] q(4,5) k ok a(1) by (auto simp: pic_ok_def)
  then show ?thesis using q(1,2) a(2) k setLine_facts(3) [OF a(1), of "picHigh p1 ! l" q] by auto
qed


definition timer_pic :: pic where
  "timer_pic = pic_SetIRQ 5 True (SetLevelTriggered 5 True (Resample (the (pic_Write 0x21 [0] boot_pic))))"

lemma timer_pic_reachable: "pic_reachable timer_pic"
  unfolding timer_pic_def
  by (intro pic_reachable.irq pic_reachable.trigger pic_reachable.port [OF pic_reachable.boot, of "0x21" "[0]"])
    (simp add: pic_Write_def)


text \<open>
  The range check of the end of interrupt adds eight to the vector base in a byte: with the slave's
  vectors at the top, 0xf8 to 0xff, the sum wraps to zero, no vector passes the check, and an acknowledged
  interrupt of the slave stays in service.
\<close>

theorem pic_top_vectors_stuck:
  assumes "vectorBase (slave p) = 0xf8" "unat (vectorBase (master p)) \<le> 0xf0"
    "AcknowledgePending p = (Some (v, l), p1)" "8 \<le> l"
  shows "EndOfInterrupt v p1 = (False, p1) \<and> in_service p1 l"
proof -
  have a: "l < 16" "v = vector_of p l" "acknowledged p l p1" using ack_outcome [OF assms(3)] by auto
  note k = a(3) [unfolded acknowledged_def]
  then have b: "vectorBase (slave p1) = 0xf8" "unat (vectorBase (master p1)) \<le> 0xf0"
    using assms(1,2) by (auto simp: chip_of_def all_bool_eq)
  have "unat v = 0xf8 + l mod 8"
    using a(2) assms(1,4) unat_add_of_nat [of "0xf8 :: u8" "l mod 8"] by (simp add: vector_of_def)
  then have "\<not> v < vectorBase (master p1) + 8"
    using b(2) unat_add_of_nat [of "vectorBase (master p1)" 8] by (simp add: word_less_nat_alt)
  moreover have "\<not> v < (256 :: u8)" by (simp add: word_less_nat_alt)
  ultimately show ?thesis using b(1) k by (simp add: EndOfInterrupt_def)
qed

definition top_pic :: pic where
  "top_pic = pic_SetIRQ 9 True (fold (\<lambda>(a, v) p. Resample (the (pic_Write a [v] p)))
     [(0xa0, 0x11), (0xa1, 0xf8), (0xa1, 2), (0xa1, 1), (0xa1, 0), (0x21, 0)] boot_pic)"

theorem pic_top_vectors_stuck_witness:
  "\<exists>p1. AcknowledgePending top_pic = (Some (0xf9, 9), p1) \<and> EndOfInterrupt 0xf9 p1 = (False, p1) \<and> in_service p1 9"
proof -
  have "fst (AcknowledgePending top_pic) = Some (0xf9, 9)" by code_simp
  then obtain p1 where p1: "AcknowledgePending top_pic = (Some (0xf9, 9), p1)" by (cases "AcknowledgePending top_pic") auto
  have "vectorBase (slave top_pic) = 0xf8" "unat (vectorBase (master top_pic)) \<le> 0xf0" by code_simp+
  from pic_top_vectors_stuck [OF this p1] show ?thesis using p1 by simp
qed

end
