(* ===== verification/IoApic.thy ===== *)
theory IoApic
  imports Prelude
begin

text \<open>
  The I/O interrupt controller of the PC platform (\<^verbatim>\<open>bootIOAPIC\<close> in
  \<^verbatim>\<open>hv/whp/platform_amd64_windows.go\<close>): its redirection table behind an index register, edge and level
  triggered lines, and the vectors in flight. A route that is not pending is \<open>None\<close>. A nil receiver and
  the textual summary are left out.
\<close>

section \<open>State\<close>

datatype interrupt_type = TypeFixed | TypeLowestPriority

datatype destination_mode = Physical | Logical

record route =
  rLine :: nat
  rVector :: u8
  rLevel :: bool
  rType :: interrupt_type
  rMode :: destination_mode
  rDestination :: u32

record ioapic =
  ioIndex :: u32
  redir :: "u64 list"
  ioVersion :: u32
  inFlight :: "u8 \<Rightarrow> bool"
  ioHigh :: "bool list"

abbreviation (input) ioapicBaseAddress :: u64 where "ioapicBaseAddress \<equiv> 0xfec00000"
abbreviation (input) ioapicMMIOSize :: u64 where "ioapicMMIOSize \<equiv> 0x20"
abbreviation (input) ioapicRedirEntries :: nat where "ioapicRedirEntries \<equiv> 24"

definition default_version :: u32 where
  "default_version = 0x11 OR push_bit 16 23"

definition zero_ioapic :: ioapic where
  "zero_ioapic = \<lparr>ioIndex = 0, redir = replicate 24 0, ioVersion = 0, inFlight = (\<lambda>_. False), ioHigh = replicate 24 False\<rparr>"

definition ioapic_init :: "ioapic \<Rightarrow> ioapic" where
  "ioapic_init a = a\<lparr>redir := map (\<lambda>_. push_bit 16 1) (redir a), ioVersion := default_version\<rparr>"

section \<open>Redirection entries\<close>

definition ioapicInterruptType :: "u64 \<Rightarrow> interrupt_type" where
  "ioapicInterruptType entry = (if drop_bit 8 entry AND 7 = 1 then TypeLowestPriority else TypeFixed)"

definition ioapicDestinationMode :: "u64 \<Rightarrow> destination_mode" where
  "ioapicDestinationMode entry = (if entry AND push_bit 11 1 \<noteq> 0 then Logical else Physical)"

definition masked :: "u64 \<Rightarrow> bool" where
  "masked entry \<longleftrightarrow> entry AND push_bit 16 1 \<noteq> 0"

definition is_level :: "u64 \<Rightarrow> bool" where
  "is_level entry \<longleftrightarrow> entry AND push_bit 15 1 \<noteq> 0"

definition active_low :: "u64 \<Rightarrow> bool" where
  "active_low entry \<longleftrightarrow> entry AND push_bit 13 1 \<noteq> 0"

definition entry_route :: "nat \<Rightarrow> u64 \<Rightarrow> route" where
  "entry_route line entry = \<lparr>rLine = line, rVector = ucast entry, rLevel = is_level entry,
     rType = ioapicInterruptType entry, rMode = ioapicDestinationMode entry, rDestination = ucast (drop_bit 56 entry)\<rparr>"

section \<open>Delivery\<close>

definition evaluateLocked :: "nat \<Rightarrow> bool \<Rightarrow> ioapic \<Rightarrow> route option" where
  "evaluateLocked line edge a =
     (if length (redir a) \<le> line then None
      else let entry = redir a ! line in
        if masked entry then None
        else let level = is_level entry; edge' = (if active_low entry \<and> \<not> level then \<not> edge else edge) in
          if level \<and> (\<not> ioHigh a ! line \<or> inFlight a (ucast entry)) then None
          else if \<not> level \<and> \<not> edge' then None
          else Some (entry_route line entry))"

definition routeForLineLocked :: "nat \<Rightarrow> ioapic \<Rightarrow> route option" where
  "routeForLineLocked line a =
     (if length (redir a) \<le> line then None
      else let entry = redir a ! line in
        if masked entry then None
        else if (ucast entry :: u8) < 0x10 then None
        else Some (entry_route line entry))"

definition deviceHighRoute :: "nat \<Rightarrow> ioapic \<Rightarrow> route option" where
  "deviceHighRoute line a =
     (if length (redir a) \<le> line \<or> \<not> ioHigh a ! line then None else routeForLineLocked line a)"

definition enabled :: "nat \<Rightarrow> ioapic \<Rightarrow> bool" where
  "enabled line a \<longleftrightarrow> line < length (redir a) \<and> \<not> masked (redir a ! line)"

definition io_vector :: "nat \<Rightarrow> ioapic \<Rightarrow> u8" where
  "io_vector line a = (if length (redir a) \<le> line then 0 else ucast (redir a ! line))"

definition levelTriggered :: "nat \<Rightarrow> ioapic \<Rightarrow> bool" where
  "levelTriggered line a \<longleftrightarrow> line < length (redir a) \<and> is_level (redir a ! line)"

definition beginInterrupt :: "u8 \<Rightarrow> ioapic \<Rightarrow> bool \<times> ioapic" where
  "beginInterrupt vector a = (if inFlight a vector then (False, a) else (True, a\<lparr>inFlight := (inFlight a)(vector := True)\<rparr>))"

definition endInterrupt :: "u8 \<Rightarrow> ioapic \<Rightarrow> ioapic" where
  "endInterrupt vector a = a\<lparr>inFlight := (inFlight a)(vector := False)\<rparr>"

definition io_cancel :: "route \<Rightarrow> ioapic \<Rightarrow> ioapic" where
  "io_cancel r a = (if \<not> rLevel r then a else endInterrupt (rVector r) a)"

definition io_assert :: "nat \<Rightarrow> bool \<Rightarrow> ioapic \<Rightarrow> route option \<times> ioapic" where
  "io_assert line high a =
     (if length (redir a) \<le> line then (None, a)
      else if high then
        let edge = (\<not> ioHigh a ! line); a1 = a\<lparr>ioHigh := (ioHigh a)[line := True]\<rparr> in
        (evaluateLocked line edge a1, a1)
      else let a1 = a\<lparr>ioHigh := (ioHigh a)[line := False]\<rparr> in
        (None, if is_level (redir a1 ! line) then endInterrupt (ucast (redir a1 ! line)) a1 else a1))"

text \<open>The first line of the vector that has an interrupt.\<close>

fun eoi_scan :: "nat list \<Rightarrow> u8 \<Rightarrow> ioapic \<Rightarrow> route option" where
  "eoi_scan [] v a = None"
| "eoi_scan (line # lines) v a =
     (if ucast (redir a ! line) \<noteq> v then eoi_scan lines v a
      else case evaluateLocked line False a of Some r \<Rightarrow> Some r | None \<Rightarrow> eoi_scan lines v a)"

definition handleEOI :: "u32 \<Rightarrow> ioapic \<Rightarrow> route option \<times> ioapic" where
  "handleEOI vector a =
     (let a1 = endInterrupt (ucast vector) a in (eoi_scan [0..<length (redir a1)] (ucast vector) a1, a1))"

section \<open>Registers\<close>

definition io_readRegister :: "u32 \<Rightarrow> ioapic \<Rightarrow> u32" where
  "io_readRegister index a =
     (if index = 0 then 0
      else if index = 1 then ioVersion a
      else if 0x10 \<le> index \<and> index < 0x10 + of_nat (length (redir a)) * 2 then
        let entry = redir a ! unat ((index - 0x10) div 2) in
        if index AND 1 = 0 then ucast entry else ucast (drop_bit 32 entry)
      else 0)"

definition io_writeRegister :: "u32 \<Rightarrow> u32 \<Rightarrow> ioapic \<Rightarrow> route option \<times> ioapic" where
  "io_writeRegister index v a =
     (if index < 0x10 \<or> 0x10 + of_nat (length (redir a)) * 2 \<le> index then (None, a)
      else let i = unat ((index - 0x10) div 2); old = redir a ! i;
               new = (if index AND 1 = 0 then (old AND 0xffffffff00000000) OR ucast v
                      else (old AND 0xffffffff) OR push_bit 32 (ucast v));
               a1 = a\<lparr>redir := (redir a)[i := new]\<rparr> in
        if masked old \<and> \<not> masked new \<and> ioHigh a1 ! i then (evaluateLocked i True a1, a1)
        else (None, a1))"

definition io_in_window :: "u64 \<Rightarrow> nat \<Rightarrow> bool" where
  "io_in_window addr n \<longleftrightarrow> n = 4 \<and> ioapicBaseAddress \<le> addr \<and> addr + of_nat n \<le> ioapicBaseAddress + ioapicMMIOSize"

definition io_Read :: "u64 \<Rightarrow> nat \<Rightarrow> ioapic \<Rightarrow> bytes option" where
  "io_Read addr n a =
     (if \<not> io_in_window addr n then None
      else let off = addr - ioapicBaseAddress in
        Some (le_bytes 4 (if off = 0 then ioIndex a else if off = 0x10 then io_readRegister (ioIndex a) a else 0)))"

text \<open>\<open>None\<close> is an address of another device.\<close>

definition io_Write :: "u64 \<Rightarrow> bytes \<Rightarrow> ioapic \<Rightarrow> (route option \<times> ioapic) option" where
  "io_Write addr data a =
     (if \<not> io_in_window addr (length data) then None
      else let v = le_word data; off = addr - ioapicBaseAddress in
        Some (if off = 0 then (None, a\<lparr>ioIndex := v AND 0xff\<rparr>)
              else if off = 0x10 then io_writeRegister (ioIndex a) v a
              else (None, a)))"

section \<open>Snapshots\<close>

record bootIOAPICState =
  sIndex :: u32
  sRedir :: "u64 list"
  sVersion :: u32
  sInFlight :: "u8 \<Rightarrow> bool"
  sIoHigh :: "bool list"

definition io_SnapshotState :: "ioapic \<Rightarrow> bootIOAPICState" where
  "io_SnapshotState a = \<lparr>sIndex = ioIndex a, sRedir = redir a, sVersion = ioVersion a, sInFlight = inFlight a, sIoHigh = ioHigh a\<rparr>"

definition io_RestoreState :: "bootIOAPICState \<Rightarrow> ioapic \<Rightarrow> ioapic" where
  "io_RestoreState st a = a\<lparr>ioIndex := sIndex st, redir := sRedir st,
     ioVersion := (if sVersion st = 0 then default_version else sVersion st), inFlight := sInFlight st, ioHigh := sIoHigh st\<rparr>"

section \<open>Programming the table\<close>

definition io_ok :: "ioapic \<Rightarrow> bool" where
  "io_ok a \<longleftrightarrow> length (redir a) = 24 \<and> length (ioHigh a) = 24"

definition entry_index :: "nat \<Rightarrow> u32" where
  "entry_index l = 0x10 + of_nat l * 2"

lemma entry_index_facts:
  assumes "l < 24"
  shows "entry_index l AND 0xff = entry_index l" "entry_index l \<noteq> 0" "entry_index l \<noteq> 1" "0x10 \<le> entry_index l"
    "entry_index l < 0x40" "unat ((entry_index l - 0x10) div 2) = l" "entry_index l AND 1 = 0"
    "(entry_index l + 1) AND 0xff = entry_index l + 1" "entry_index l + 1 \<noteq> 0" "entry_index l + 1 \<noteq> 1"
    "0x10 \<le> entry_index l + 1" "entry_index l + 1 < 0x40" "unat ((entry_index l + 1 - 0x10) div 2) = l"
    "(entry_index l + 1) AND 1 \<noteq> 0"
proof -
  have "list_all (\<lambda>l. let i = entry_index l in i AND 0xff = i \<and> i \<noteq> 0 \<and> i \<noteq> 1 \<and> 0x10 \<le> i \<and> i < 0x40
      \<and> unat ((i - 0x10) div 2) = l \<and> i AND 1 = 0 \<and> (i + 1) AND 0xff = i + 1 \<and> i + 1 \<noteq> 0 \<and> i + 1 \<noteq> 1
      \<and> 0x10 \<le> i + 1 \<and> i + 1 < 0x40 \<and> unat ((i + 1 - 0x10) div 2) = l \<and> (i + 1) AND 1 \<noteq> 0) [0..<24]"
    by code_simp
  then have "let i = entry_index l in i AND 0xff = i \<and> i \<noteq> 0 \<and> i \<noteq> 1 \<and> 0x10 \<le> i \<and> i < 0x40
      \<and> unat ((i - 0x10) div 2) = l \<and> i AND 1 = 0 \<and> (i + 1) AND 0xff = i + 1 \<and> i + 1 \<noteq> 0 \<and> i + 1 \<noteq> 1
      \<and> 0x10 \<le> i + 1 \<and> i + 1 < 0x40 \<and> unat ((i + 1 - 0x10) div 2) = l \<and> (i + 1) AND 1 \<noteq> 0"
    using assms unfolding list_all_iff by (drule_tac bspec [of _ _ l]) simp_all
  then show "entry_index l AND 0xff = entry_index l" "entry_index l \<noteq> 0" "entry_index l \<noteq> 1" "0x10 \<le> entry_index l"
    "entry_index l < 0x40" "unat ((entry_index l - 0x10) div 2) = l" "entry_index l AND 1 = 0"
    "(entry_index l + 1) AND 0xff = entry_index l + 1" "entry_index l + 1 \<noteq> 0" "entry_index l + 1 \<noteq> 1"
    "0x10 \<le> entry_index l + 1" "entry_index l + 1 < 0x40" "unat ((entry_index l + 1 - 0x10) div 2) = l"
    "(entry_index l + 1) AND 1 \<noteq> 0"
    unfolding Let_def by blast+
qed

text \<open>What a driver does: it selects a register with one write and accesses it with the next.\<close>

definition io_set :: "u32 \<Rightarrow> u32 \<Rightarrow> ioapic \<Rightarrow> ioapic" where
  "io_set i v a = snd (the (io_Write (ioapicBaseAddress + 0x10) (le_bytes 4 v)
     (snd (the (io_Write ioapicBaseAddress (le_bytes 4 i) a)))))"

definition io_get :: "u32 \<Rightarrow> ioapic \<Rightarrow> u32" where
  "io_get i a = le_word (the (io_Read (ioapicBaseAddress + 0x10) 4 (snd (the (io_Write ioapicBaseAddress (le_bytes 4 i) a)))))"

definition io_program :: "nat \<Rightarrow> u64 \<Rightarrow> ioapic \<Rightarrow> ioapic" where
  "io_program l v a = io_set (entry_index l + 1) (ucast (drop_bit 32 v)) (io_set (entry_index l) (ucast v) a)"

lemma io_windows: "io_in_window 0xfec00000 4" "io_in_window (0xfec00000 + 0x10) 4"
  by code_simp+

lemma io_set_eq: "i AND 0xff = i \<Longrightarrow> io_set i v a = snd (io_writeRegister i v (a\<lparr>ioIndex := i\<rparr>))"
  by (simp add: io_set_def io_Write_def io_windows [simplified] le_word_le_bytes Let_def)

lemma io_get_eq: "i AND 0xff = i \<Longrightarrow> io_get i a = io_readRegister i (a\<lparr>ioIndex := i\<rparr>)"
  by (simp add: io_get_def io_Write_def io_Read_def io_windows [simplified] le_word_le_bytes Let_def)

lemma io_set_entry:
  assumes "io_ok a" "l < 24"
  shows "redir (io_set (entry_index l) v a) = (redir a)[l := (redir a ! l AND 0xffffffff00000000) OR ucast v]"
    "redir (io_set (entry_index l + 1) v a) = (redir a)[l := (redir a ! l AND 0xffffffff) OR push_bit 32 (ucast v)]"
    "ioHigh (io_set (entry_index l) v a) = ioHigh a" "ioHigh (io_set (entry_index l + 1) v a) = ioHigh a"
proof -
  note f = entry_index_facts [OF assms(2)]
  have n: "length (redir a) = 24" using assms(1) by (simp add: io_ok_def)
  have even: "\<exists>r. io_writeRegister (entry_index l) v (a\<lparr>ioIndex := entry_index l\<rparr>) =
      (r, a\<lparr>ioIndex := entry_index l, redir := (redir a)[l := (redir a ! l AND 0xffffffff00000000) OR ucast v]\<rparr>)"
    unfolding io_writeRegister_def Let_def using f(4,5) by (simp add: n f(6,7) not_le not_less)
  have odd: "\<exists>r. io_writeRegister (entry_index l + 1) v (a\<lparr>ioIndex := entry_index l + 1\<rparr>) =
      (r, a\<lparr>ioIndex := entry_index l + 1, redir := (redir a)[l := (redir a ! l AND 0xffffffff) OR push_bit 32 (ucast v)]\<rparr>)"
    unfolding io_writeRegister_def Let_def f(13) using f(11,12,14) by (simp add: n not_le not_less)
  show "redir (io_set (entry_index l) v a) = (redir a)[l := (redir a ! l AND 0xffffffff00000000) OR ucast v]"
    "ioHigh (io_set (entry_index l) v a) = ioHigh a" using even by (auto simp: io_set_eq f(1))
  show "redir (io_set (entry_index l + 1) v a) = (redir a)[l := (redir a ! l AND 0xffffffff) OR push_bit 32 (ucast v)]"
    "ioHigh (io_set (entry_index l + 1) v a) = ioHigh a" using odd by (auto simp: io_set_eq f(8))
qed

lemma io_get_entry:
  assumes "io_ok a" "l < 24"
  shows "io_get (entry_index l) a = ucast (redir a ! l)" "io_get (entry_index l + 1) a = ucast (drop_bit 32 (redir a ! l))"
proof -
  note f = entry_index_facts [OF assms(2)]
  have n: "length (redir a) = 24" using assms(1) by (simp add: io_ok_def)
  show "io_get (entry_index l) a = ucast (redir a ! l)"
    using f(2-5) by (simp add: io_get_eq f(1,6,7) io_readRegister_def n)
  show "io_get (entry_index l + 1) a = ucast (drop_bit 32 (redir a ! l))"
    unfolding io_get_eq [OF f(8)] io_readRegister_def Let_def f(13) using f(9-12,14) by (simp add: n)
qed

lemma halves_rebuild:
  "(((x AND 0xffffffff00000000) OR ucast (ucast v :: u32)) AND 0xffffffff) OR push_bit 32 (ucast (ucast (drop_bit 32 v) :: u32)) = (v :: u64)"
proof -
  have m: "(0xffffffff00000000 :: u64) = push_bit 32 (mask 32)" "(0xffffffff :: u64) = mask 32"
    by (simp_all add: mask_eq_exp_minus_1 push_bit_eq_mult)
  show ?thesis unfolding m
    by (rule bit_word_eqI) (auto simp: bit_simps)
qed

text \<open>
  The redirection table is exact behind its index and data registers: a 64-bit entry programmed as two
  halves is stored in its line, read back as the two halves, and leaves every other entry alone.
\<close>

theorem ioapic_entry_round_trip:
  assumes "io_ok a" "line < 24" "l < 24"
  shows "io_get (entry_index l) (io_program line v a) = ucast (if l = line then v else redir a ! l)
    \<and> io_get (entry_index l + 1) (io_program line v a) = ucast (drop_bit 32 (if l = line then v else redir a ! l))"
proof -
  let ?b = "io_set (entry_index line) (ucast v) a"
  have b: "io_ok ?b" using io_set_entry [OF assms(1,2)] assms(1) by (simp add: io_ok_def)
  have r: "redir (io_program line v a) = (redir a)[line := v]"
    unfolding io_program_def io_set_entry(2) [OF b assms(2)] io_set_entry(1) [OF assms(1,2)]
    using assms(1,2) by (simp add: io_ok_def halves_rebuild)
  moreover have "io_ok (io_program line v a)"
    using r assms(1) io_set_entry(3,4) [OF assms(1,2)] io_set_entry(4) [OF b assms(2)] by (simp add: io_program_def io_ok_def)
  ultimately show ?thesis using io_get_entry assms(1,3) by (simp add: io_ok_def nth_list_update)
qed

theorem ioapic_entry_round_trip_witness:
  "io_get (entry_index 4) (io_program 4 0x0100000000008031 (ioapic_init zero_ioapic)) = 0x8031
   \<and> io_get (entry_index 4 + 1) (io_program 4 0x0100000000008031 (ioapic_init zero_ioapic)) = 0x01000000"
  using ioapic_entry_round_trip [of "ioapic_init zero_ioapic" 4 4 "0x0100000000008031"]
  by (simp add: io_ok_def ioapic_init_def zero_ioapic_def ucast_eq drop_bit_eq_div)

section \<open>Level-triggered interrupts\<close>

text \<open>A line that has a level-triggered interrupt to deliver now.\<close>

definition wants :: "ioapic \<Rightarrow> nat \<Rightarrow> bool" where
  "wants a l \<longleftrightarrow> l < length (redir a) \<and> \<not> masked (redir a ! l) \<and> is_level (redir a ! l) \<and> ioHigh a ! l
     \<and> \<not> inFlight a (ucast (redir a ! l))"

lemma evaluate_wants: "wants a l \<Longrightarrow> evaluateLocked l e a = Some (entry_route l (redir a ! l))"
  by (simp add: wants_def evaluateLocked_def Let_def)

lemma evaluate_Some:
  assumes "evaluateLocked l e a = Some r"
  shows "r = entry_route l (redir a ! l) \<and> (rLevel r \<longrightarrow> wants a l)"
  using assms by (auto simp: evaluateLocked_def wants_def entry_route_def Let_def split: if_splits)

lemma eoi_scan_Some:
  "eoi_scan ls v a = Some r \<Longrightarrow> \<exists>l \<in> set ls. ucast (redir a ! l) = v \<and> evaluateLocked l False a = Some r"
  by (induction ls) (auto split: if_splits option.splits)

lemma eoi_scan_hit: "l \<in> set ls \<Longrightarrow> ucast (redir a ! l) = v \<Longrightarrow> evaluateLocked l False a \<noteq> None \<Longrightarrow> eoi_scan ls v a \<noteq> None"
  by (induction ls) (auto split: option.splits)

text \<open>The operations after which the platform injects the route they return.\<close>

datatype io_op = Raise nat | Eoi u32 | SetRegister u32 u32

fun io_do :: "io_op \<Rightarrow> ioapic \<Rightarrow> route option \<times> ioapic" where
  "io_do (Raise l) a = io_assert l True a"
| "io_do (Eoi v) a = handleEOI v a"
| "io_do (SetRegister i v) a = io_writeRegister i v a"

lemma io_do_sound:
  assumes "io_do x a = (Some r, a')" "rLevel r"
  shows "wants a' (rLine r) \<and> r = entry_route (rLine r) (redir a' ! rLine r)"
proof -
  have "\<exists>l e. evaluateLocked l e a' = Some r"
  proof (cases x)
    case (Raise l)
    then show ?thesis using assms(1) by (auto simp: io_assert_def Let_def split: if_splits)
  next
    case (Eoi v)
    then show ?thesis using assms(1) eoi_scan_Some by (fastforce simp: handleEOI_def Let_def)
  next
    case (SetRegister i v)
    then show ?thesis using assms(1) by (auto simp: io_writeRegister_def Let_def split: if_splits)
  qed
  then obtain l e where "r = entry_route l (redir a' ! l)" "wants a' l" using evaluate_Some assms(2) by blast
  then show ?thesis by (simp add: entry_route_def)
qed

lemma writeRegister_outcome:
  assumes "io_writeRegister i v a = (r, a')"
  shows "a' = a \<or> (\<exists>j new. a' = a\<lparr>redir := (redir a)[j := new]\<rparr>
    \<and> r = (if masked (redir a ! j) \<and> \<not> masked new \<and> ioHigh a ! j then evaluateLocked j True a' else None))"
  using assms unfolding io_writeRegister_def Let_def by (auto split: if_splits)

lemma io_do_complete:
  assumes "io_ok a" "io_do x a = (r, a')" "wants a' l" "\<not> wants a l"
    "\<And>i v. x = SetRegister i v \<Longrightarrow> masked (redir a ! l)"
  shows "\<exists>rt. r = Some rt \<and> rVector rt = ucast (redir a' ! l)"
proof (cases x)
  case (Raise k)
  then have "k = l"
    using assms(1-4) by (auto simp: io_ok_def io_assert_def wants_def Let_def nth_list_update split: if_splits)
  then have "r = evaluateLocked l (\<not> ioHigh a ! l) a'"
    using Raise assms(2-4) by (auto simp: io_assert_def Let_def split: if_splits)
  then show ?thesis using evaluate_wants [OF assms(3)] by (simp add: entry_route_def)
next
  case (Eoi v)
  then have r: "a' = endInterrupt (ucast v) a" "r = eoi_scan [0..<length (redir a')] (ucast v) a'"
    using assms(2) by (auto simp: handleEOI_def Let_def)
  then have v: "ucast (redir a' ! l) = (ucast v :: u8)"
    using assms(3,4) by (auto simp: wants_def endInterrupt_def split: if_splits)
  have "r \<noteq> None"
    unfolding r(2) using v evaluate_wants [OF assms(3)] assms(3) by (intro eoi_scan_hit) (auto simp: wants_def)
  then show ?thesis using r(2) v eoi_scan_Some evaluate_Some by (fastforce simp: entry_route_def)
next
  case (SetRegister i v)
  then have w: "io_writeRegister i v a = (r, a')" and m: "masked (redir a ! l)" using assms(2,5) by auto
  have "a' \<noteq> a" using assms(3,4) by auto
  then obtain j new where new: "a' = a\<lparr>redir := (redir a)[j := new]\<rparr>"
      "r = (if masked (redir a ! j) \<and> \<not> masked new \<and> ioHigh a ! j then evaluateLocked j True a' else None)"
    using writeRegister_outcome [OF w] by blast
  have j: "j = l"
  proof (rule ccontr)
    assume "j \<noteq> l"
    then have "wants a' l = wants a l" by (simp add: new(1) wants_def)
    then show False using assms(3,4) by simp
  qed
  then have "\<not> masked new \<and> ioHigh a ! j" using assms(3) by (auto simp: new(1) wants_def)
  then have "r = evaluateLocked l True a'" using new(2) m j by simp
  then show ?thesis using evaluate_wants [OF assms(3)] by (simp add: entry_route_def)
qed


definition level_ioapic :: ioapic where
  "level_ioapic = (ioapic_init zero_ioapic)\<lparr>redir := (redir (ioapic_init zero_ioapic))[10 := 0x8045]\<rparr>"


text \<open>
  The polarity bit is applied to the wrong thing: on an edge-triggered line with the active-low bit set,
  a rising line delivers nothing, and every end of interrupt for its vector delivers the interrupt again,
  whatever the line does.
\<close>

theorem ioapic_active_low_edge:
  assumes "io_ok a" "l < 24" "\<not> masked (redir a ! l)" "\<not> is_level (redir a ! l)" "active_low (redir a ! l)"
  shows "fst (handleEOI (ucast (redir a ! l)) a) \<noteq> None \<and> (\<not> ioHigh a ! l \<longrightarrow> fst (io_assert l True a) = None)"
proof -
  let ?v = "ucast (redir a ! l) :: u8"
  have v: "(ucast (ucast (redir a ! l) :: u32) :: u8) = ?v" by (rule bit_word_eqI) (simp add: bit_simps)
  let ?a = "endInterrupt ?v a"
  have e: "evaluateLocked l False ?a \<noteq> None"
    using assms by (simp add: evaluateLocked_def endInterrupt_def io_ok_def Let_def)
  have "eoi_scan [0..<length (redir ?a)] ?v ?a \<noteq> None"
    using assms(1,2) e by (intro eoi_scan_hit) (simp_all add: endInterrupt_def io_ok_def)
  then show ?thesis using assms v
    by (simp add: handleEOI_def io_assert_def evaluateLocked_def io_ok_def Let_def)
qed

theorem ioapic_active_low_edge_witness:
  "fst (handleEOI 0x45 (level_ioapic\<lparr>redir := (redir level_ioapic)[10 := 0x2045]\<rparr>)) \<noteq> None"
proof -
  let ?a = "level_ioapic\<lparr>redir := (redir level_ioapic)[10 := 0x2045]\<rparr>"
  have "io_ok ?a" "redir ?a ! 10 = 0x2045"
    by (simp_all add: io_ok_def level_ioapic_def ioapic_init_def zero_ioapic_def)
  moreover have "\<not> masked 0x2045" "\<not> is_level 0x2045" "active_low 0x2045" "(ucast (0x2045 :: u64) :: u32) = 0x2045"
    by code_simp+
  moreover have "handleEOI 0x2045 ?a = handleEOI 0x45 ?a"
  proof -
    have "(ucast (0x2045 :: u32) :: u8) = ucast (0x45 :: u32)" by code_simp
    then show ?thesis by (simp only: handleEOI_def)
  qed
  ultimately show ?thesis using ioapic_active_low_edge [of ?a 10] by simp
qed

end
