(* ===== verification/Platform.thy ===== *)
theory Platform
  imports Pic IoApic
begin

text \<open>
  How interrupts travel through the PC platform (\<^verbatim>\<open>bootPlatform\<close> in \<^verbatim>\<open>hv/whp/boot_windows_amd64.go\<close>):
  a device line goes to the I/O interrupt controller or to the older pair of controllers, from there to a
  queue of pending interrupts, and from the queue to a virtual processor. The hypervisor is a parameter:
  it answers each request after the requests made so far. Calls that only wake a processor, the
  summaries and the last-exit record are left out. Each function runs as one step here; in the program the
  sections under \<^verbatim>\<open>pendingMu\<close> are atomic, and the lemmas on them hold section by section.
\<close>

section \<open>State\<close>

datatype vm_call =
    RequestInterrupt u32 bool interrupt_type destination_mode u32
  | SetPendingInterruption u32 u8

record hypervisor =
  vmAnswer :: "vm_call list \<Rightarrow> vm_call \<Rightarrow> goerr option"
  vmCanSet :: "vm_call list \<Rightarrow> u32 \<Rightarrow> u8 \<Rightarrow> goerr + bool"
  vmHalted :: "vm_call list \<Rightarrow> u32 \<Rightarrow> u8 \<Rightarrow> goerr + bool"

record pending =
  pRoute :: route
  pTrigger :: bool
  pDevice :: bool
  pSticky :: bool
  pPic :: bool

record platform =
  ppic :: pic
  pioapic :: ioapic
  netIRQ :: "u32 option"
  vcpuCount :: u32
  hyper :: hypervisor
  vmCalls :: "vm_call list"
  irqAttempts :: u64
  irqDelivered :: u64
  irqFailed :: u64
  irqSuppressed :: u64
  irqLine :: "u64 list"
  deviceIRQLine :: "bool list"
  deferredIRQ :: "bool list"
  pendingFlag :: "u8 \<Rightarrow> bool"
  pendingIRQs :: "pending list"

definition newBootPlatform :: "hypervisor \<Rightarrow> u32 \<Rightarrow> platform" where
  "newBootPlatform h n = \<lparr>ppic = boot_pic, pioapic = ioapic_init zero_ioapic, netIRQ = None, vcpuCount = n, hyper = h,
     vmCalls = [], irqAttempts = 0, irqDelivered = 0, irqFailed = 0, irqSuppressed = 0, irqLine = replicate 16 0,
     deviceIRQLine = replicate 24 False, deferredIRQ = replicate 24 False, pendingFlag = (\<lambda>_. False), pendingIRQs = []\<rparr>"

definition vm_request :: "vm_call \<Rightarrow> platform \<Rightarrow> goerr option \<times> platform" where
  "vm_request x p = (vmAnswer (hyper p) (vmCalls p) x, p\<lparr>vmCalls := vmCalls p @ [x]\<rparr>)"

section \<open>The queue of pending interrupts\<close>

definition queuePendingIRQ :: "route \<Rightarrow> bool \<Rightarrow> bool \<Rightarrow> bool \<Rightarrow> platform \<Rightarrow> platform" where
  "queuePendingIRQ r trigger device sticky p =
     (if pendingFlag p (rVector r) then p
      else p\<lparr>pendingFlag := (pendingFlag p)(rVector r := True),
             pendingIRQs := pendingIRQs p @ [\<lparr>pRoute = r, pTrigger = trigger, pDevice = device, pSticky = sticky, pPic = False\<rparr>]\<rparr>)"

definition queuePendingPICIRQ :: "route \<Rightarrow> bool \<Rightarrow> platform \<Rightarrow> platform" where
  "queuePendingPICIRQ r trigger p =
     (if pendingFlag p (rVector r) then p
      else p\<lparr>pendingFlag := (pendingFlag p)(rVector r := True),
             pendingIRQs := pendingIRQs p @ [\<lparr>pRoute = r, pTrigger = trigger, pDevice = False, pSticky = False, pPic = True\<rparr>]\<rparr>)"

definition kept :: "nat \<Rightarrow> bool \<Rightarrow> pending \<Rightarrow> bool" where
  "kept line keepSticky x \<longleftrightarrow> rLine (pRoute x) \<noteq> line \<or> (keepSticky \<and> pSticky x)"

fun clear_loop :: "nat \<Rightarrow> bool \<Rightarrow> pending list \<Rightarrow> (u8 \<Rightarrow> bool) \<Rightarrow> pending list \<times> (u8 \<Rightarrow> bool)" where
  "clear_loop line keepSticky [] f = ([], f)"
| "clear_loop line keepSticky (x # xs) f =
     (if kept line keepSticky x then
        (case clear_loop line keepSticky xs f of (ys, g) \<Rightarrow> (x # ys, g))
      else clear_loop line keepSticky xs (f(rVector (pRoute x) := False)))"

definition clearPendingIRQForLine :: "nat \<Rightarrow> bool \<Rightarrow> platform \<Rightarrow> platform" where
  "clearPendingIRQForLine line keepSticky p =
     (case clear_loop line keepSticky (pendingIRQs p) (pendingFlag p) of (q, f) \<Rightarrow> p\<lparr>pendingFlag := f, pendingIRQs := q\<rparr>)"

definition pop_pending :: "platform \<Rightarrow> platform" where
  "pop_pending p = p\<lparr>pendingFlag := (pendingFlag p)(rVector (pRoute (hd (pendingIRQs p))) := False),
     pendingIRQs := tl (pendingIRQs p)\<rparr>"

definition markDeferredDeviceIRQ :: "nat \<Rightarrow> platform \<Rightarrow> platform" where
  "markDeferredDeviceIRQ line p = (if length (deferredIRQ p) \<le> line then p else p\<lparr>deferredIRQ := (deferredIRQ p)[line := True]\<rparr>)"

definition clearDeferredDeviceIRQ :: "nat \<Rightarrow> platform \<Rightarrow> platform" where
  "clearDeferredDeviceIRQ line p = (if length (deferredIRQ p) \<le> line then p else p\<lparr>deferredIRQ := (deferredIRQ p)[line := False]\<rparr>)"

definition pendingRouteVCPU :: "route \<Rightarrow> platform \<Rightarrow> u32" where
  "pendingRouteVCPU r p =
     (case rMode r of
        Physical \<Rightarrow> if rDestination r < vcpuCount p then rDestination r else 0
      | Logical \<Rightarrow>
          (case find (\<lambda>i. rDestination r AND push_bit i 1 \<noteq> 0) [0..<min (unat (vcpuCount p)) 8] of
             Some i \<Rightarrow> of_nat i | None \<Rightarrow> 0))"

definition pendingVCPU :: "pending \<Rightarrow> platform \<Rightarrow> u32" where
  "pendingVCPU x p = (if pPic x then 0 else pendingRouteVCPU (pRoute x) p)"

definition hasPendingIRQ :: "platform \<Rightarrow> bool" where
  "hasPendingIRQ p \<longleftrightarrow> pendingIRQs p \<noteq> [] \<or> True \<in> set (deferredIRQ p)"

definition hasQueuedIRQ :: "platform \<Rightarrow> bool" where
  "hasQueuedIRQ p \<longleftrightarrow> pendingIRQs p \<noteq> []"

definition firstPendingIRQTargetsVCPU :: "u32 \<Rightarrow> platform \<Rightarrow> bool" where
  "firstPendingIRQTargetsVCPU index p \<longleftrightarrow> pendingIRQs p \<noteq> [] \<and> pendingVCPU (hd (pendingIRQs p)) p = index"

section \<open>Delivery\<close>

definition isDeviceIRQ :: "nat \<Rightarrow> platform \<Rightarrow> bool" where
  "isDeviceIRQ line p \<longleftrightarrow> line < length (deviceIRQLine p) \<and> deviceIRQLine p ! line"

definition markDeviceIRQ :: "u32 \<Rightarrow> platform \<Rightarrow> platform" where
  "markDeviceIRQ irq p =
     (let line = unat irq in
      if irq < 24 then
        let p1 = p\<lparr>deviceIRQLine := (deviceIRQLine p)[line := True]\<rparr> in
        if irq < 16 then p1\<lparr>ppic := SetLevelTriggered line True (ppic p1)\<rparr> else p1
      else p)"

definition keepUndeliveredDeviceIRQ :: "nat \<Rightarrow> platform \<Rightarrow> bool" where
  "keepUndeliveredDeviceIRQ line p \<longleftrightarrow> netIRQ p \<noteq> Some (of_nat line)"

definition recordIRQAttempt :: "nat \<Rightarrow> platform \<Rightarrow> platform" where
  "recordIRQAttempt line p =
     (let p1 = p\<lparr>irqAttempts := irqAttempts p + 1\<rparr> in
      if line < length (irqLine p1) then p1\<lparr>irqLine := (irqLine p1)[line := irqLine p1 ! line + 1]\<rparr> else p1)"

definition suppressed :: "platform \<Rightarrow> platform" where
  "suppressed p = p\<lparr>irqSuppressed := irqSuppressed p + 1\<rparr>"

definition delivered :: "platform \<Rightarrow> platform" where
  "delivered p = p\<lparr>irqDelivered := irqDelivered p + 1\<rparr>"

definition failed :: "platform \<Rightarrow> platform" where
  "failed p = p\<lparr>irqFailed := irqFailed p + 1\<rparr>"

definition begin_vector :: "u8 \<Rightarrow> platform \<Rightarrow> bool \<times> platform" where
  "begin_vector v p = (case beginInterrupt v (pioapic p) of (ok, a) \<Rightarrow> (ok, p\<lparr>pioapic := a\<rparr>))"

definition cancel_route :: "route \<Rightarrow> platform \<Rightarrow> platform" where
  "cancel_route r p = p\<lparr>pioapic := io_cancel r (pioapic p)\<rparr>"

definition injectIOAPIC :: "route \<Rightarrow> bool \<Rightarrow> platform \<Rightarrow> platform" where
  "injectIOAPIC r deviceIRQ p =
     (if rVector r < 0x10 then
        let p1 = suppressed p; p2 = (if deviceIRQ then markDeferredDeviceIRQ (rLine r) p1 else p1) in
        cancel_route r p2
      else if deviceIRQ then
        let p1 = clearDeferredDeviceIRQ (rLine r) p in
        queuePendingIRQ r (rLevel r) True (keepUndeliveredDeviceIRQ (rLine r) p1) p1
      else case (if rLevel r then begin_vector (rVector r) p else (True, p)) of
        (False, p1) \<Rightarrow> suppressed p1
      | (True, p1) \<Rightarrow>
          (case vm_request (RequestInterrupt (ucast (rVector r)) (rLevel r) TypeFixed Physical 0) p1 of
             (Some e, p2) \<Rightarrow> cancel_route r (failed p2)
           | (None, p2) \<Rightarrow> delivered p2))"

definition deliverPICOutput :: "platform \<Rightarrow> bool \<times> platform" where
  "deliverPICOutput p =
     (case AcknowledgePending (ppic p) of
        (None, q) \<Rightarrow> (False, p\<lparr>ppic := q\<rparr>)
      | (Some (vector, line), q) \<Rightarrow>
          (True, queuePendingPICIRQ \<lparr>rLine = line, rVector = vector, rLevel = LevelTriggered line q, rType = TypeFixed,
             rMode = Physical, rDestination = 0\<rparr> (LevelTriggered line q) (p\<lparr>ppic := q\<rparr>)))"

definition isDeviceVector :: "u8 \<Rightarrow> platform \<Rightarrow> bool" where
  "isDeviceVector v p \<longleftrightarrow> list_ex (\<lambda>line. deviceIRQLine p ! line \<and> io_vector line (pioapic p) = v) [0..<length (deviceIRQLine p)]"

definition HandleEOI :: "u32 \<Rightarrow> platform \<Rightarrow> platform" where
  "HandleEOI vector p =
     (case EndOfInterrupt (ucast vector) (ppic p) of (ok, q) \<Rightarrow>
        let p1 = p\<lparr>ppic := q\<rparr>; p2 = (if ok then snd (deliverPICOutput p1) else p1) in
        if isDeviceVector (ucast vector) p2 then p2
        else case handleEOI vector (pioapic p2) of (r, a) \<Rightarrow>
          let p3 = p2\<lparr>pioapic := a\<rparr> in
          case r of None \<Rightarrow> p3
          | Some rt \<Rightarrow> injectIOAPIC rt False (p3\<lparr>irqAttempts := irqAttempts p3 + 1\<rparr>))"

definition platform_SetIRQ :: "u32 \<Rightarrow> bool \<Rightarrow> (platform, unit) gomethod" where
  "platform_SetIRQ irq level p =
     (if 0xff < irq then (Inl (OutsideRange (ucast irq)), p)
      else let line = unat irq;
          p1 = (if level then recordIRQAttempt line p else clearPendingIRQForLine line (keepUndeliveredDeviceIRQ line p) p) in
        if line < 24 then
          let ioapicEnabled = enabled line (pioapic p1) in
          case io_assert line level (pioapic p1) of (r, a) \<Rightarrow>
            let p2 = p1\<lparr>pioapic := a\<rparr> in
            (case r of
               Some rt \<Rightarrow> (Inr (), injectIOAPIC rt True p2)
             | None \<Rightarrow>
                 let p3 = (if level \<and> isDeviceIRQ line p2 then markDeferredDeviceIRQ line p2 else p2) in
                 if \<not> level \<or> ioapicEnabled then (Inr (), if level then suppressed p3 else p3)
                 else if level then (Inr (), snd (deliverPICOutput (p3\<lparr>ppic := pic_SetIRQ line True (ppic p3)\<rparr>)))
                 else (Inr (), p3\<lparr>ppic := pic_SetIRQ line False (ppic p3)\<rparr>))
        else if level then (Inr (), snd (deliverPICOutput (p1\<lparr>ppic := pic_SetIRQ line True (ppic p1)\<rparr>)))
        else (Inr (), p1\<lparr>ppic := pic_SetIRQ line False (ppic p1)\<rparr>))"

definition raise_pic :: "nat \<Rightarrow> platform \<Rightarrow> platform" where
  "raise_pic line p =
     (let p1 = p\<lparr>ppic := pic_SetIRQ line True (ppic p)\<rparr>; p2 = snd (deliverPICOutput p1) in
      p2\<lparr>ppic := pic_SetIRQ line False (ppic p2)\<rparr>)"

definition raiseIRQ :: "nat \<Rightarrow> platform \<Rightarrow> platform" where
  "raiseIRQ line p =
     (let p1 = recordIRQAttempt line p in
      case (if enabled line (pioapic p1) then routeForLineLocked line (pioapic p1) else None) of
        Some r \<Rightarrow>
          if 0x10 \<le> rVector r then
            if \<not> levelTriggered line (pioapic p1) then
              (case vm_request (RequestInterrupt (ucast (rVector r)) False TypeFixed Physical 0) p1 of
                 (Some e, p2) \<Rightarrow> failed p2 | (None, p2) \<Rightarrow> delivered p2)
            else (case begin_vector (rVector r) p1 of
                (False, p2) \<Rightarrow> suppressed p2
              | (True, p2) \<Rightarrow>
                  (case vm_request (RequestInterrupt (ucast (rVector r)) True TypeFixed Physical 0) p2 of
                     (Some e, p3) \<Rightarrow> (let p4 = failed p3 in p4\<lparr>pioapic := endInterrupt (rVector r) (pioapic p4)\<rparr>)
                   | (None, p3) \<Rightarrow> delivered p3))
          else raise_pic line p1
      | None \<Rightarrow> raise_pic line p1)"

text \<open>\<open>early\<close>: the first seconds, in which the legacy timer is quiet.\<close>

definition raiseTimerIRQ :: "bool \<Rightarrow> platform \<Rightarrow> platform" where
  "raiseTimerIRQ early p =
     (if early then suppressed (p\<lparr>irqAttempts := irqAttempts p + 1\<rparr>)
      else let line = (if enabled 2 (pioapic p) then 2 else 0) in
        if hasQueuedIRQ p then suppressed (recordIRQAttempt line p) else raiseIRQ line p)"

fun collect_deferred :: "nat list \<Rightarrow> platform \<Rightarrow> route list \<times> platform" where
  "collect_deferred [] p = ([], p)"
| "collect_deferred (line # lines) p =
     (if \<not> deferredIRQ p ! line \<or> \<not> deviceIRQLine p ! line then collect_deferred lines p
      else case (if keepUndeliveredDeviceIRQ line p then (routeForLineLocked line (pioapic p), pioapic p)
                 else io_assert line True (pioapic p)) of (r, a) \<Rightarrow>
        let p1 = p\<lparr>pioapic := a, deferredIRQ := (deferredIRQ p)[line := False]\<rparr> in
        case r of None \<Rightarrow> collect_deferred lines p1
        | Some rt \<Rightarrow> (case collect_deferred lines p1 of (rs, p2) \<Rightarrow> (rt # rs, p2)))"

definition deliverDeferredDeviceIRQs :: "platform \<Rightarrow> platform" where
  "deliverDeferredDeviceIRQs p =
     (case collect_deferred [0..<length (deferredIRQ p)] p of (rs, p1) \<Rightarrow> fold (\<lambda>r. injectIOAPIC r True) rs p1)"

definition write_pic_port :: "u16 \<Rightarrow> bytes \<Rightarrow> platform \<Rightarrow> platform option" where
  "write_pic_port port data p =
     (case pic_Write port data (ppic p) of None \<Rightarrow> None
      | Some q \<Rightarrow> Some (snd (deliverPICOutput (p\<lparr>ppic := Resample q\<rparr>))))"

definition write_ioapic :: "u64 \<Rightarrow> bytes \<Rightarrow> platform \<Rightarrow> platform option" where
  "write_ioapic addr data p =
     (case io_Write addr data (pioapic p) of None \<Rightarrow> None
      | Some (r, a) \<Rightarrow>
          let p1 = p\<lparr>pioapic := a\<rparr>;
              p2 = (case r of None \<Rightarrow> p1 | Some rt \<Rightarrow> injectIOAPIC rt (isDeviceIRQ (rLine rt) p1) p1) in
          Some (deliverDeferredDeviceIRQs p2))"

definition deassertDeviceIRQs :: "platform \<Rightarrow> platform" where
  "deassertDeviceIRQs p =
     fold (\<lambda>line p. if deviceIRQLine p ! line then snd (platform_SetIRQ (of_nat line) False p) else p) [0..<length (deviceIRQLine p)] p"

text \<open>The lines of the devices that assert their interrupt, in the order the devices are asked.\<close>

definition resampleDeviceIRQs :: "nat list \<Rightarrow> platform \<Rightarrow> platform" where
  "resampleDeviceIRQs lines =
     fold (\<lambda>line p. case io_assert line True (pioapic p) of (r, a) \<Rightarrow>
        let p1 = p\<lparr>pioapic := a\<rparr> in (case r of None \<Rightarrow> p1 | Some rt \<Rightarrow> injectIOAPIC rt True p1)) lines"

section \<open>From the queue to a processor\<close>

definition injectPendingInterruption :: "u32 \<Rightarrow> u8 \<Rightarrow> (platform, bool) gomethod" where
  "injectPendingInterruption index vector p =
     (case vmCanSet (hyper p) (vmCalls p) index vector of
        Inl e \<Rightarrow> (Inl e, p)
      | Inr False \<Rightarrow> (Inr False, p)
      | Inr True \<Rightarrow>
          (case vm_request (SetPendingInterruption index vector) p of
             (Some e, p1) \<Rightarrow> (Inl e, p1)
           | (None, p1) \<Rightarrow> (Inr True, delivered p1)))"

text \<open>The first interrupt of the queue, if it came from the older controllers and goes to this processor.\<close>

definition first_pic :: "u32 \<Rightarrow> platform \<Rightarrow> pending option" where
  "first_pic index p =
     (case pendingIRQs p of [] \<Rightarrow> None | x # _ \<Rightarrow> if pendingVCPU x p \<noteq> index \<or> \<not> pPic x then None else Some x)"

definition flushHaltedPendingIRQForVCPU :: "u32 \<Rightarrow> (platform, bool) gomethod" where
  "flushHaltedPendingIRQForVCPU index p =
     (case first_pic index p of None \<Rightarrow> (Inr False, p)
      | Some x \<Rightarrow>
          let vector = rVector (pRoute x) in
          case vmHalted (hyper p) (vmCalls p) index vector of
            Inl e \<Rightarrow> (Inl e, p)
          | Inr False \<Rightarrow> (Inr False, p)
          | Inr True \<Rightarrow>
              (case first_pic index p of
                 Some y \<Rightarrow>
                   if rVector (pRoute y) \<noteq> vector then (Inr False, p)
                   else injectPendingInterruption index vector (pop_pending p)
               | None \<Rightarrow> (Inr False, p)))"

text \<open>
  The last part of \<^verbatim>\<open>flushPendingIRQForVCPU\<close>, after the entry has left the queue. \<open>window\<close> is an exit because
  the processor can take an interrupt, \<open>pic\<close> that the entry came from the older controllers.
\<close>

definition send_route :: "u32 \<Rightarrow> bool \<Rightarrow> bool \<Rightarrow> route \<Rightarrow> bool \<Rightarrow> (platform, bool) gomethod" where
  "send_route index window pic r trigger p =
     (case (if rLevel r then begin_vector (rVector r) p else (True, p)) of
        (False, p1) \<Rightarrow> (Inr False, suppressed p1)
      | (True, p1) \<Rightarrow>
          (case vm_request (if pic then SetPendingInterruption index (rVector r)
              else RequestInterrupt (ucast (rVector r)) trigger (rType r) (rMode r) (rDestination r)) p1 of
             (Some e, p2) \<Rightarrow> (Inl e, if window \<and> pic then failed p2 else cancel_route r (failed p2))
           | (None, p2) \<Rightarrow> (Inr True, delivered p2)))"

text \<open>\<open>ctx\<close> is \<open>None\<close> for a nil context, and otherwise whether the exit was for the interrupt window.\<close>

definition flushPendingIRQForVCPU :: "u32 \<Rightarrow> bool option \<Rightarrow> (platform, bool) gomethod" where
  "flushPendingIRQForVCPU index ctx p =
     (case pendingIRQs p of [] \<Rightarrow> (Inr False, p)
      | x # _ \<Rightarrow>
          if pendingVCPU x p \<noteq> index then (Inr False, p)
          else if ctx = None \<and> pPic x then (Inr False, p)
          else let window = (pPic x \<and> ctx = Some True) in
            case (if pPic x \<and> \<not> window then vmCanSet (hyper p) (vmCalls p) index (rVector (pRoute x)) else Inr True) of
              Inl e \<Rightarrow> (Inl e, p)
            | Inr False \<Rightarrow> (Inr False, p)
            | Inr True \<Rightarrow>
                let r = pRoute x; low = (rLevel r \<and> \<not> pPic x \<and> deviceHighRoute (rLine r) (pioapic p) = None) in
                if low \<and> \<not> pSticky x then (Inr False, pop_pending p)
                else send_route index window (pPic x) (if low then r\<lparr>rLevel := False\<rparr> else r)
                       (if low then False else pTrigger x) (pop_pending p))"

section \<open>The queue and its flags\<close>

text \<open>A vector is flagged exactly when it is queued, and it is queued once.\<close>

definition queue_ok :: "platform \<Rightarrow> bool" where
  "queue_ok p \<longleftrightarrow> distinct (map (rVector \<circ> pRoute) (pendingIRQs p))
     \<and> (\<forall>v. pendingFlag p v \<longleftrightarrow> v \<in> set (map (rVector \<circ> pRoute) (pendingIRQs p)))"

lemma queue_ok_cong:
  "pendingIRQs q = pendingIRQs p \<Longrightarrow> pendingFlag q = pendingFlag p \<Longrightarrow> queue_ok q = queue_ok p"
  by (simp add: queue_ok_def)

lemma queuePending_ok: "queue_ok p \<Longrightarrow> queue_ok (queuePendingIRQ r t d s p)"
  by (auto simp: queue_ok_def queuePendingIRQ_def)

lemma queuePendingPIC_ok: "queue_ok p \<Longrightarrow> queue_ok (queuePendingPICIRQ r t p)"
  by (auto simp: queue_ok_def queuePendingPICIRQ_def)

lemma clear_loop_ok:
  assumes "clear_loop l k xs f = (ys, g)"
  shows "ys = filter (kept l k) xs
    \<and> (\<forall>v. g v = (f v \<and> v \<notin> set (map (rVector \<circ> pRoute) (filter (\<lambda>x. \<not> kept l k x) xs))))"
  using assms
proof (induction xs arbitrary: f ys g)
  case (Cons x xs)
  show ?case
  proof (cases "kept l k x")
    case True
    obtain zs h where z: "clear_loop l k xs f = (zs, h)" by (rule prod.exhaust)
    then have "ys = x # zs" "g = h" using Cons.prems True by simp_all
    then show ?thesis using Cons.IH [OF z] True by simp
  next
    case False
    then have "clear_loop l k xs (f(rVector (pRoute x) := False)) = (ys, g)" using Cons.prems by simp
    from Cons.IH [OF this] False show ?thesis by simp
  qed
qed simp

lemma clearPending_ok: "queue_ok p \<Longrightarrow> queue_ok (clearPendingIRQForLine l k p)"
proof -
  assume ok: "queue_ok p"
  let ?vec = "rVector \<circ> pRoute" and ?keep = "kept l k" and ?q = "pendingIRQs p"
  obtain ys g where c: "clear_loop l k ?q (pendingFlag p) = (ys, g)" by (rule prod.exhaust)
  have d: "distinct (map ?vec ?q)" using ok by (simp add: queue_ok_def)
  note f = clear_loop_ok [OF c]
  have "g v \<longleftrightarrow> v \<in> set (map ?vec ys)" for v
  proof -
    have "x = y" if "x \<in> set ?q" "y \<in> set ?q" "?vec x = ?vec y" for x y
      using d that by (auto simp: distinct_map inj_on_def)
    moreover have "g v \<longleftrightarrow> v \<in> ?vec ` set ?q \<and> v \<notin> ?vec ` {x \<in> set ?q. \<not> ?keep x}" "set ys = {x \<in> set ?q. ?keep x}"
      using f ok by (simp_all add: queue_ok_def)
    ultimately show ?thesis by (simp only: set_map) blast
  qed
  moreover have "distinct (map ?vec ys)" using f d by (simp add: distinct_map_filter)
  ultimately show ?thesis using c by (simp add: clearPendingIRQForLine_def queue_ok_def)
qed

lemma pop_ok: "queue_ok p \<Longrightarrow> pendingIRQs p \<noteq> [] \<Longrightarrow> queue_ok (pop_pending p)"
  by (cases "pendingIRQs p") (auto simp: queue_ok_def pop_pending_def)

lemma queue_frames [simp]:
  "queue_ok (p\<lparr>ppic := q\<rparr>) = queue_ok p" "queue_ok (p\<lparr>pioapic := a\<rparr>) = queue_ok p"
  "queue_ok (p\<lparr>deferredIRQ := d\<rparr>) = queue_ok p" "queue_ok (p\<lparr>pioapic := a, deferredIRQ := d\<rparr>) = queue_ok p"
  "queue_ok (p\<lparr>irqAttempts := n\<rparr>) = queue_ok p" "queue_ok (p\<lparr>vmCalls := xs\<rparr>) = queue_ok p"
  "queue_ok (suppressed p) = queue_ok p" "queue_ok (delivered p) = queue_ok p" "queue_ok (failed p) = queue_ok p"
  "queue_ok (cancel_route r p) = queue_ok p" "queue_ok (recordIRQAttempt l p) = queue_ok p"
  "queue_ok (markDeferredDeviceIRQ l p) = queue_ok p" "queue_ok (clearDeferredDeviceIRQ l p) = queue_ok p"
  "queue_ok (markDeviceIRQ irq p) = queue_ok p"
  by (simp_all add: queue_ok_def suppressed_def delivered_def failed_def cancel_route_def recordIRQAttempt_def
      markDeferredDeviceIRQ_def clearDeferredDeviceIRQ_def markDeviceIRQ_def Let_def)

lemma begin_vector_ok: "queue_ok (snd (begin_vector v p)) = queue_ok p"
  by (simp add: begin_vector_def split: prod.splits)

lemma vm_request_ok: "queue_ok (snd (vm_request x p)) = queue_ok p"
  by (simp add: vm_request_def)

lemma inject_ok:
  assumes "queue_ok p"
  shows "queue_ok (injectIOAPIC r d p)"
proof -
  obtain b p1 where b: "(if rLevel r then begin_vector (rVector r) p else (True, p)) = (b, p1)" by (rule prod.exhaust)
  then have "queue_ok p1" using assms begin_vector_ok [of "rVector r" p] by (auto split: if_splits)
  then show ?thesis using assms b
    by (auto simp: injectIOAPIC_def queuePending_ok vm_request_def Let_def split: prod.splits option.splits bool.splits)
qed

lemma deliverPIC_ok: "queue_ok p \<Longrightarrow> queue_ok (snd (deliverPICOutput p))"
  by (auto simp: deliverPICOutput_def queuePendingPIC_ok split: prod.splits option.splits)

lemma HandleEOI_ok: "queue_ok p \<Longrightarrow> queue_ok (HandleEOI v p)"
  by (auto simp: HandleEOI_def Let_def deliverPIC_ok intro!: inject_ok split: prod.splits option.splits)

lemma SetIRQ_ok:
  assumes "queue_ok p"
  shows "queue_ok (snd (platform_SetIRQ irq level p))"
proof -
  let ?p1 = "if level then recordIRQAttempt (unat irq) p
    else clearPendingIRQForLine (unat irq) (keepUndeliveredDeviceIRQ (unat irq) p) p"
  have "queue_ok ?p1" using assms by (simp add: clearPending_ok)
  then show ?thesis using assms
    by (auto simp: platform_SetIRQ_def Let_def intro!: inject_ok deliverPIC_ok split: prod.splits option.splits)
qed

lemma raise_pic_ok: "queue_ok p \<Longrightarrow> queue_ok (raise_pic l p)"
  by (simp add: raise_pic_def Let_def deliverPIC_ok)

lemma raiseIRQ_ok:
  assumes "queue_ok p"
  shows "queue_ok (raiseIRQ l p)"
proof -
  have "queue_ok (snd (begin_vector v (recordIRQAttempt l p)))" for v using assms begin_vector_ok by simp
  then have "begin_vector v (recordIRQAttempt l p) = (b, q) \<Longrightarrow> queue_ok q" for v b q by (metis snd_conv)
  then show ?thesis using assms
    by (auto simp: raiseIRQ_def Let_def vm_request_def raise_pic_ok split: prod.splits option.splits bool.splits)
qed

lemma raiseTimer_ok: "queue_ok p \<Longrightarrow> queue_ok (raiseTimerIRQ e p)"
  by (simp add: raiseTimerIRQ_def Let_def raiseIRQ_ok)

lemma collect_deferred_ok: "collect_deferred ls p = (rs, q) \<Longrightarrow> queue_ok p \<Longrightarrow> queue_ok q"
proof (induction ls arbitrary: p rs)
  case (Cons l ls)
  then show ?case by (auto simp: Let_def split: if_splits prod.splits option.splits)
qed simp

lemma inject_all_ok: "queue_ok p \<Longrightarrow> queue_ok (fold (\<lambda>r. injectIOAPIC r True) rs p)"
  by (induction rs arbitrary: p) (simp_all add: inject_ok)

lemma deliverDeferred_ok: "queue_ok p \<Longrightarrow> queue_ok (deliverDeferredDeviceIRQs p)"
  by (auto simp: deliverDeferredDeviceIRQs_def intro!: inject_all_ok dest: collect_deferred_ok split: prod.splits)

lemma resample_ok: "queue_ok p \<Longrightarrow> queue_ok (resampleDeviceIRQs ls p)"
  unfolding resampleDeviceIRQs_def
  by (induction ls arbitrary: p) (auto simp: Let_def inject_ok split: prod.splits option.splits)

lemma send_route_ok:
  assumes "queue_ok p"
  shows "queue_ok (snd (send_route i w c r t p))"
proof -
  obtain b p1 where b: "(if rLevel r then begin_vector (rVector r) p else (True, p)) = (b, p1)" by (rule prod.exhaust)
  then have "queue_ok p1" using assms begin_vector_ok [of "rVector r" p] by (auto split: if_splits)
  then show ?thesis using b
    by (auto simp: send_route_def vm_request_def Let_def split: prod.splits option.splits bool.splits)
qed

lemma flush_ok: "queue_ok p \<Longrightarrow> queue_ok (snd (flushPendingIRQForVCPU i ctx p))"
  by (auto simp: flushPendingIRQForVCPU_def Let_def pop_ok send_route_ok split: list.splits sum.splits bool.splits)

lemma flushHalted_ok: "queue_ok p \<Longrightarrow> queue_ok (snd (flushHaltedPendingIRQForVCPU i p))"
proof -
  assume ok: "queue_ok p"
  have inj: "queue_ok (snd (injectPendingInterruption i v q)) = queue_ok q" for v q
    by (auto simp: injectPendingInterruption_def vm_request_def split: sum.splits bool.splits option.splits)
  have "first_pic i p = Some x \<Longrightarrow> pendingIRQs p \<noteq> []" for x by (auto simp: first_pic_def)
  then show ?thesis using ok pop_ok
    by (auto simp: flushHaltedPendingIRQForVCPU_def inj Let_def split: option.splits sum.splits bool.splits)
qed

text \<open>The states of the platform, in any order of device, guest, timer and processor events.\<close>

inductive platform_reachable :: "platform \<Rightarrow> bool" where
  new: "platform_reachable (newBootPlatform h n)"
| attach: "platform_reachable p \<Longrightarrow> platform_reachable (markDeviceIRQ irq p)"
| net: "platform_reachable p \<Longrightarrow> platform_reachable (p\<lparr>netIRQ := Some irq\<rparr>)"
| line: "platform_reachable p \<Longrightarrow> platform_reachable (snd (platform_SetIRQ irq level p))"
| timer: "platform_reachable p \<Longrightarrow> platform_reachable (raiseTimerIRQ early p)"
| eoi: "platform_reachable p \<Longrightarrow> platform_reachable (HandleEOI v p)"
| port: "platform_reachable p \<Longrightarrow> write_pic_port a d p = Some q \<Longrightarrow> platform_reachable q"
| mmio: "platform_reachable p \<Longrightarrow> write_ioapic addr d p = Some q \<Longrightarrow> platform_reachable q"
| resample: "platform_reachable p \<Longrightarrow> platform_reachable (deliverDeferredDeviceIRQs (resampleDeviceIRQs lines p))"
| halted: "platform_reachable p \<Longrightarrow> platform_reachable (snd (flushHaltedPendingIRQForVCPU i p))"
| flush: "platform_reachable p \<Longrightarrow> platform_reachable (snd (flushPendingIRQForVCPU i ctx p))"
| close: "platform_reachable p \<Longrightarrow> platform_reachable (deassertDeviceIRQs p)"

lemma deassert_ok: "queue_ok p \<Longrightarrow> queue_ok (deassertDeviceIRQs p)"
proof -
  have "queue_ok p \<Longrightarrow> queue_ok (fold (\<lambda>line p. if deviceIRQLine p ! line then snd (platform_SetIRQ (of_nat line) False p) else p) ls p)"
    for ls p by (induction ls arbitrary: p) (simp_all add: SetIRQ_ok)
  then show "queue_ok p \<Longrightarrow> queue_ok (deassertDeviceIRQs p)" by (simp add: deassertDeviceIRQs_def)
qed

text \<open>
  C14. No vector gets stuck behind its pending flag: in every state of the platform, reached by any sequence
  of device lines, timer ticks, guest accesses to either interrupt controller, ends of interrupt and
  processor exits, with any answers of the hypervisor, the flag of a vector is set exactly when the vector
  is in the queue, and no vector is queued twice.
\<close>

theorem platform_queue_exact:
  assumes "platform_reachable p"
  shows "distinct (map (rVector \<circ> pRoute) (pendingIRQs p))
    \<and> (\<forall>v. pendingFlag p v \<longleftrightarrow> v \<in> set (map (rVector \<circ> pRoute) (pendingIRQs p)))"
proof -
  have "queue_ok p" using assms
  proof (induction rule: platform_reachable.induct)
    case (port p a d q)
    then show ?case by (auto simp: write_pic_port_def intro!: deliverPIC_ok split: option.splits)
  next
    case (mmio p addr d q)
    then show ?case
      by (auto simp: write_ioapic_def Let_def intro!: deliverDeferred_ok inject_ok split: option.splits prod.splits)
  next
    case (net p irq)
    then show ?case by (simp add: queue_ok_def)
  qed (simp_all add: newBootPlatform_def queue_ok_def [of "newBootPlatform _ _"] SetIRQ_ok raiseTimer_ok HandleEOI_ok
      deliverDeferred_ok resample_ok flushHalted_ok flush_ok deassert_ok, simp add: queue_ok_def)
  then show ?thesis by (simp add: queue_ok_def)
qed

lemma assert_Some:
  assumes "io_assert l h a = (Some x, a')"
  shows "x = entry_route l (redir a' ! l) \<and> l < length (redir a')"
proof -
  have "evaluateLocked l (\<not> ioHigh a ! l) a' = Some x" "l < length (redir a')"
    using assms by (auto simp: io_assert_def Let_def split: if_splits)
  then show ?thesis using evaluate_Some by blast
qed

text \<open>
  A raised device line is not forgotten: after a device raises its line its interrupt is in the queue
  under the vector of the line, or noted as deferred until the guest has set the line up.
\<close>

theorem platform_device_irq_kept:
  assumes "length (deferredIRQ p) = 24" "io_ok (pioapic p)" "isDeviceIRQ (unat irq) p" "irq < 24"
    "platform_SetIRQ irq True p = (r, p')"
  shows "r = Inr () \<and> (pendingFlag p' (io_vector (unat irq) (pioapic p')) \<or> deferredIRQ p' ! unat irq)"
proof -
  let ?l = "unat irq" and ?p1 = "recordIRQAttempt (unat irq) p"
  have l: "?l < 24" "\<not> 0xff < irq" using assms(4) by (auto simp: word_less_nat_alt)
  have p1: "pioapic ?p1 = pioapic p" "isDeviceIRQ ?l ?p1" "deferredIRQ ?p1 = deferredIRQ p" "pendingFlag ?p1 = pendingFlag p"
    using assms(3) by (simp_all add: recordIRQAttempt_def isDeviceIRQ_def Let_def)
  obtain rt a where ra: "io_assert ?l True (pioapic p) = (rt, a)" by (rule prod.exhaust)
  have v: "redir a = redir (pioapic p)" using ra by (auto simp: io_assert_def Let_def split: if_splits)
  let ?p2 = "?p1\<lparr>pioapic := a\<rparr>"
  show ?thesis
  proof (cases rt)
    case (Some x)
    have x: "rLine x = ?l" "rVector x = io_vector ?l a"
      using assert_Some [of ?l True "pioapic p" x a] ra Some by (auto simp: entry_route_def io_vector_def)
    have "p' = injectIOAPIC x True ?p2 \<and> r = Inr ()"
      using assms(5) l ra Some p1 by (simp add: platform_SetIRQ_def Let_def)
    moreover have "io_vector ?l (io_cancel x a) = io_vector ?l a"
      by (simp add: io_vector_def io_cancel_def endInterrupt_def)
    ultimately show ?thesis using x p1 assms(1) l(1)
      by (auto simp: injectIOAPIC_def cancel_route_def markDeferredDeviceIRQ_def suppressed_def clearDeferredDeviceIRQ_def
          queuePendingIRQ_def Let_def)
  next
    case None
    let ?p3 = "markDeferredDeviceIRQ ?l ?p2"
    have d: "deferredIRQ ?p3 ! ?l" using p1 assms(1) l(1) by (simp add: markDeferredDeviceIRQ_def)
    have "deferredIRQ (snd (deliverPICOutput q)) = deferredIRQ q" for q
      by (auto simp: deliverPICOutput_def queuePendingPICIRQ_def split: prod.splits option.splits)
    then have "deferredIRQ p' = deferredIRQ ?p3 \<and> r = Inr ()"
      using assms(5) l ra None p1 by (auto simp: platform_SetIRQ_def isDeviceIRQ_def suppressed_def Let_def split: if_splits)
    then show ?thesis using d by simp
  qed
qed

lemma inject_ppic: "ppic (injectIOAPIC r d q) = ppic q"
  by (auto simp: injectIOAPIC_def suppressed_def cancel_route_def markDeferredDeviceIRQ_def clearDeferredDeviceIRQ_def
      queuePendingIRQ_def begin_vector_def vm_request_def failed_def delivered_def Let_def
      split: prod.splits option.splits bool.splits)

lemma lower_keeps_pic:
  assumes "irq < 24"
  shows "ppic (snd (platform_SetIRQ irq False p)) = ppic p"
proof -
  have "ppic (clearPendingIRQForLine l k p) = ppic p" for l k
    by (simp add: clearPendingIRQForLine_def split: prod.splits)
  moreover have "unat irq < 24" "\<not> 0xff < irq" using assms by (auto simp: word_less_nat_alt)
  ultimately show ?thesis by (auto simp: platform_SetIRQ_def inject_ppic Let_def split: prod.splits option.splits)
qed

text \<open>
  A line given to the older controllers is never taken back: when a level-triggered line has been
  delivered, the device lowers it, and the guest ends the interrupt, the controllers ask for it again,
  although no device asserts it, because lowering a line below 24 does not reach them.
\<close>

theorem platform_pic_line_stays_high:
  assumes "irq < 16" "pic_reachable (ppic p)" "bases_apart (ppic p)" "level_triggered (unat irq) (ppic p)"
    "picHigh (ppic p) ! unat irq" "AcknowledgePending (ppic p) = (Some (v, unat irq), q)"
    "p1 = snd (platform_SetIRQ irq False (p\<lparr>ppic := q\<rparr>))"
  shows "\<exists>q2. EndOfInterrupt v (ppic p1) = (True, q2) \<and> requested q2 (unat irq)"
proof -
  have "irq < 24" using assms(1) by (simp add: word_less_nat_alt)
  then have "ppic p1 = q" using lower_keeps_pic [of irq "p\<lparr>ppic := q\<rparr>"] assms(7) by simp
  then show ?thesis using interrupt_cycle [OF assms(2,3,6)] assms(4,5) by auto
qed

section \<open>Examples\<close>

definition quiet_vm :: hypervisor where
  "quiet_vm = \<lparr>vmAnswer = (\<lambda>_ _. None), vmCanSet = (\<lambda>_ _ _. Inr True), vmHalted = (\<lambda>_ _ _. Inr False)\<rparr>"

definition device_platform :: platform where
  "device_platform = markDeviceIRQ 10 (newBootPlatform quiet_vm 1)"

definition routed_platform :: platform where
  "routed_platform = device_platform\<lparr>pioapic := io_set (entry_index 10) 0x8045 (pioapic device_platform)\<rparr>"

theorem platform_queue_exact_witness:
  "distinct (map (rVector \<circ> pRoute) (pendingIRQs (snd (platform_SetIRQ 10 True device_platform))))"
proof -
  have "platform_reachable (snd (platform_SetIRQ 10 True device_platform))"
    unfolding device_platform_def by (intro platform_reachable.line platform_reachable.attach platform_reachable.new)
  from platform_queue_exact [OF this] show ?thesis by blast
qed

theorem platform_device_irq_kept_witness:
  "\<exists>p'. platform_SetIRQ 10 True routed_platform = (Inr (), p')
     \<and> (pendingFlag p' (io_vector 10 (pioapic p')) \<or> deferredIRQ p' ! 10)"
proof -
  obtain r p' where s: "platform_SetIRQ 10 True routed_platform = (r, p')" by (rule prod.exhaust)
  have "length (deferredIRQ routed_platform) = 24" "io_ok (pioapic routed_platform)" "isDeviceIRQ 10 routed_platform"
    by code_simp+
  then show ?thesis using platform_device_irq_kept [OF _ _ _ _ s] s by (simp add: word_less_nat_alt)
qed

theorem platform_pic_line_stays_high_witness:
  "\<exists>q q2. AcknowledgePending timer_pic = (Some (0x25, 5), q)
     \<and> EndOfInterrupt 0x25 (ppic (snd (platform_SetIRQ 5 False ((newBootPlatform quiet_vm 1)\<lparr>ppic := q\<rparr>)))) = (True, q2)
     \<and> requested q2 5"
proof -
  let ?p = "(newBootPlatform quiet_vm 1)\<lparr>ppic := timer_pic\<rparr>"
  have "fst (AcknowledgePending timer_pic) = Some (0x25, 5)" by code_simp
  then obtain q where q: "AcknowledgePending timer_pic = (Some (0x25, 5), q)" by (cases "AcknowledgePending timer_pic") auto
  have "bases_apart timer_pic" "level_triggered 5 timer_pic" "picHigh timer_pic ! 5" by code_simp+
  moreover have "pic_reachable timer_pic" by (rule timer_pic_reachable)
  ultimately show ?thesis
    using platform_pic_line_stays_high [of 5 ?p "0x25" q "snd (platform_SetIRQ 5 False (?p\<lparr>ppic := q\<rparr>))"] q
    by (simp add: word_less_nat_alt)
qed

end
