(* ===== verification/FuseLocks.thy ===== *)
theory FuseLocks
  imports Prelude "HOL-Library.Product_Lexorder"
begin

text \<open>
  The advisory file locks of the shared filesystem (\<^verbatim>\<open>virtio/fs_locks.go\<close>): byte ranges held by owners of a
  node, for reading or for writing. Waiting is a result of its own: the call sleeps and tries again when
  the manager has changed.
\<close>

section \<open>State and operations\<close>

record file_lock =
  nodeID :: u64
  owner :: u64
  lstart :: u64
  lend :: u64
  typeID :: u32
  lpid :: u32

record lock_manager =
  locks :: "file_lock list"
  lm_closed :: bool

abbreviation (input) linuxFRdLck :: u32 where "linuxFRdLck \<equiv> 0"
abbreviation (input) linuxFWrLck :: u32 where "linuxFWrLck \<equiv> 1"
abbreviation (input) linuxFUnlck :: u32 where "linuxFUnlck \<equiv> 2"
abbreviation (input) maxUint64 :: u64 where "maxUint64 \<equiv> - 1"

definition newFuseLockManager :: lock_manager where
  "newFuseLockManager = \<lparr>locks = [], lm_closed = False\<rparr>"

definition lockRangesOverlap :: "file_lock \<Rightarrow> file_lock \<Rightarrow> bool" where
  "lockRangesOverlap left right \<longleftrightarrow> lstart left \<le> lend right \<and> lstart right \<le> lend left"

definition conflictLocked :: "file_lock \<Rightarrow> lock_manager \<Rightarrow> file_lock option" where
  "conflictLocked r m =
     find (\<lambda>h. \<not> (nodeID h \<noteq> nodeID r \<or> owner h = owner r \<or> \<not> lockRangesOverlap h r)
        \<and> (typeID h = linuxFWrLck \<or> typeID r = linuxFWrLck)) (locks m)"

definition lock_get :: "file_lock \<Rightarrow> lock_manager \<Rightarrow> file_lock option" where
  "lock_get = conflictLocked"

definition validFuseLockRange :: "file_lock \<Rightarrow> bool" where
  "validFuseLockRange r \<longleftrightarrow> lstart r \<le> lend r"

definition validFuseGetLock :: "file_lock \<Rightarrow> bool" where
  "validFuseGetLock r \<longleftrightarrow> validFuseLockRange r \<and> (typeID r = linuxFRdLck \<or> typeID r = linuxFWrLck)"

text \<open>What is left of a held lock when its owner sets the range anew.\<close>

definition carve :: "file_lock \<Rightarrow> file_lock \<Rightarrow> file_lock list" where
  "carve r h =
     (if nodeID h \<noteq> nodeID r \<or> owner h \<noteq> owner r \<or> \<not> lockRangesOverlap h r then [h]
      else (if lstart h < lstart r then [h\<lparr>lend := lstart r - 1\<rparr>] else [])
        @ (if lend r \<noteq> maxUint64 \<and> lend r < lend h then [h\<lparr>lstart := lend r + 1\<rparr>] else []))"

definition lock_key :: "file_lock \<Rightarrow> u64 \<times> u64 \<times> u64" where
  "lock_key l = (nodeID l, owner l, lstart l)"

definition mergeable :: "file_lock \<Rightarrow> file_lock \<Rightarrow> bool" where
  "mergeable prev l \<longleftrightarrow> nodeID prev = nodeID l \<and> owner prev = owner l \<and> typeID prev = typeID l
     \<and> (lend prev = maxUint64 \<or> lstart l \<le> lend prev + 1)"

function merge_locks :: "file_lock list \<Rightarrow> file_lock list" where
  "merge_locks [] = []"
| "merge_locks [l] = [l]"
| "merge_locks (prev # l # ls) =
     (if mergeable prev l then merge_locks ((if lend prev < lend l then prev\<lparr>lend := lend l\<rparr> else prev) # ls)
      else prev # merge_locks (l # ls))"
  by pat_completeness auto
termination by (relation "measure length") auto

definition replaceOwnerRangeLocked :: "file_lock \<Rightarrow> lock_manager \<Rightarrow> lock_manager" where
  "replaceOwnerRangeLocked r m =
     (let rebuilt = concat (map (carve r) (locks m)) @ (if typeID r \<noteq> linuxFUnlck then [r] else []) in
      m\<lparr>locks := merge_locks (sort_key lock_key rebuilt)\<rparr>)"

datatype lock_result = Errno int | Waits

definition lock_set :: "file_lock \<Rightarrow> bool \<Rightarrow> lock_manager \<Rightarrow> lock_result \<times> lock_manager" where
  "lock_set r wait m =
     (if \<not> validFuseLockRange r \<or> (typeID r \<noteq> linuxFRdLck \<and> typeID r \<noteq> linuxFWrLck \<and> typeID r \<noteq> linuxFUnlck) then
        (Errno (- 22), m)
      else if typeID r \<noteq> linuxFUnlck \<and> conflictLocked r m \<noteq> None then
        if \<not> wait then (Errno (- 11), m)
        else if lm_closed m then (Errno (- 4), m)
        else (Waits, m)
      else if lm_closed m then (Errno (- 4), m)
      else (Errno 0, replaceOwnerRangeLocked r m))"

definition releaseOwner :: "u64 \<Rightarrow> u64 \<Rightarrow> lock_manager \<Rightarrow> lock_manager" where
  "releaseOwner node own m = m\<lparr>locks := filter (\<lambda>l. nodeID l \<noteq> node \<or> owner l \<noteq> own) (locks m)\<rparr>"

definition lock_close :: "lock_manager \<Rightarrow> lock_manager" where
  "lock_close m = m\<lparr>locks := [], lm_closed := True\<rparr>"

section \<open>What is held\<close>

definition covers :: "file_lock \<Rightarrow> u64 \<Rightarrow> u64 \<Rightarrow> u64 \<Rightarrow> bool" where
  "covers l n w x \<longleftrightarrow> nodeID l = n \<and> owner l = w \<and> lstart l \<le> x \<and> x \<le> lend l"

definition same_holder :: "file_lock \<Rightarrow> file_lock \<Rightarrow> bool" where
  "same_holder a b \<longleftrightarrow> nodeID a = nodeID b \<and> owner a = owner b"

text \<open>\<open>before a b\<close>: locks of one holder are disjoint and in order.\<close>

definition before :: "file_lock \<Rightarrow> file_lock \<Rightarrow> bool" where
  "before a b \<longleftrightarrow> (same_holder a b \<longrightarrow> lend a < lstart b)"

definition good_lock :: "file_lock \<Rightarrow> bool" where
  "good_lock l \<longleftrightarrow> lstart l \<le> lend l \<and> (typeID l = linuxFRdLck \<or> typeID l = linuxFWrLck)"

definition locks_ok :: "file_lock list \<Rightarrow> bool" where
  "locks_ok ls \<longleftrightarrow> (\<forall>l \<in> set ls. good_lock l) \<and> sorted_wrt before ls"

text \<open>The kind of lock an owner holds on a byte of a node.\<close>

definition held :: "file_lock list \<Rightarrow> u64 \<Rightarrow> u64 \<Rightarrow> u64 \<Rightarrow> u32 option" where
  "held ls n w x = map_option typeID (find (\<lambda>l. covers l n w x) ls)"

lemma covers_before: "good_lock b \<Longrightarrow> before a b \<Longrightarrow> covers a n w x \<Longrightarrow> \<not> covers b n w x"
  by (auto simp: before_def same_holder_def covers_def)

lemma held_Some:
  assumes "locks_ok ls"
  shows "held ls n w x = Some t \<longleftrightarrow> (\<exists>l \<in> set ls. covers l n w x \<and> typeID l = t)"
  using assms
proof (induction ls)
  case (Cons a ls)
  then have ih: "held ls n w x = Some t \<longleftrightarrow> (\<exists>l \<in> set ls. covers l n w x \<and> typeID l = t)" by (simp add: locks_ok_def)
  show ?case
  proof (cases "covers a n w x")
    case True
    then have "\<not> covers l n w x" if "l \<in> set ls" for l using Cons.prems that covers_before by (auto simp: locks_ok_def)
    then show ?thesis using True by (auto simp: held_def)
  next
    case False
    then have "held (a # ls) n w x = held ls n w x" by (simp add: held_def)
    then show ?thesis using ih False by auto
  qed
qed (simp add: held_def)

lemma held_ext:
  assumes "locks_ok ls" "locks_ok ls'"
    "\<And>t. (\<exists>l \<in> set ls. covers l n w x \<and> typeID l = t) = (\<exists>l \<in> set ls'. covers l n w x \<and> typeID l = t)"
  shows "held ls n w x = held ls' n w x"
proof -
  have e: "held ls n w x = Some t \<longleftrightarrow> held ls' n w x = Some t" for t using held_Some assms by simp
  show ?thesis
  proof (cases "held ls n w x")
    case None
    then show ?thesis using e by (cases "held ls' n w x") auto
  next
    case (Some t)
    then show ?thesis using e [of t] by simp
  qed
qed

section \<open>Merging neighbours\<close>

lemma word_not_max: "(a :: u64) < b \<Longrightarrow> a \<noteq> - 1"
  by (auto simp: word_order.extremum_strict)

lemma merge_step:
  assumes "good_lock a" "good_lock b" "before a b" "mergeable a b"
  shows "lend a < lend b" "covers (a\<lparr>lend := lend b\<rparr>) n w x \<longleftrightarrow> covers a n w x \<or> covers b n w x"
    "good_lock (a\<lparr>lend := lend b\<rparr>)" "before b c \<Longrightarrow> before (a\<lparr>lend := lend b\<rparr>) c" "lstart b = lend a + 1"
proof -
  have lt: "lend a < lstart b" "lstart b \<le> lend b" "lstart a \<le> lend a" and ad: "lstart b \<le> lend a + 1"
    using assms word_not_max by (auto simp: before_def same_holder_def mergeable_def good_lock_def)
  have "lend a + 1 \<le> lstart b" using lt(1) by (rule inc_le)
  then show eq: "lstart b = lend a + 1" using ad by simp
  show "lend a < lend b" using lt by simp
  have "lstart b \<le> x \<longleftrightarrow> lend a < x" using inc_le [of "lend a" x] lt(1) eq by auto
  then have "lstart a \<le> x \<and> x \<le> lend b \<longleftrightarrow> (lstart a \<le> x \<and> x \<le> lend a) \<or> (lstart b \<le> x \<and> x \<le> lend b)"
    using lt unfolding word_le_nat_alt word_less_nat_alt by linarith
  moreover have "nodeID a = nodeID b" "owner a = owner b" using assms(4) by (simp_all add: mergeable_def)
  ultimately show "covers (a\<lparr>lend := lend b\<rparr>) n w x \<longleftrightarrow> covers a n w x \<or> covers b n w x"
    by (simp add: covers_def) blast
  show "good_lock (a\<lparr>lend := lend b\<rparr>)" using assms(1) lt by (simp add: good_lock_def)
  show "before b c \<Longrightarrow> before (a\<lparr>lend := lend b\<rparr>) c"
    using assms(4) by (auto simp: before_def same_holder_def mergeable_def)
qed

lemma merge_locks_ok:
  assumes "locks_ok ls"
  shows "locks_ok (merge_locks ls) \<and> (\<forall>m \<in> set (merge_locks ls). \<exists>l \<in> set ls. same_holder l m \<and> lstart l = lstart m)
    \<and> (\<forall>n w x t. (\<exists>l \<in> set (merge_locks ls). covers l n w x \<and> typeID l = t) = (\<exists>l \<in> set ls. covers l n w x \<and> typeID l = t))"
  using assms
proof (induction ls rule: merge_locks.induct)
  case (3 a b ls)
  have g: "good_lock a" "good_lock b" "before a b" "\<forall>l \<in> set ls. good_lock l \<and> before a l \<and> before b l" "sorted_wrt before ls"
    using "3.prems" by (auto simp: locks_ok_def)
  show ?case
  proof (cases "mergeable a b")
    case True
    note st = merge_step [OF g(1-3) True]
    let ?a = "a\<lparr>lend := lend b\<rparr>"
    have eq: "merge_locks (a # b # ls) = merge_locks (?a # ls)" using True st(1) by simp
    have "locks_ok (?a # ls)" using g st(3,4) by (simp add: locks_ok_def)
    then have ih: "locks_ok (merge_locks (?a # ls))"
      "\<forall>m \<in> set (merge_locks (?a # ls)). \<exists>l \<in> set (?a # ls). same_holder l m \<and> lstart l = lstart m"
      "\<forall>n w x t. (\<exists>l \<in> set (merge_locks (?a # ls)). covers l n w x \<and> typeID l = t) = (\<exists>l \<in> set (?a # ls). covers l n w x \<and> typeID l = t)"
      using "3.IH"(1) [OF True] st(1) by simp_all
    have t: "typeID a = typeID b" using True by (simp add: mergeable_def)
    show ?thesis unfolding eq using ih st(2) t by (auto simp: same_holder_def)
  next
    case False
    have ih: "locks_ok (merge_locks (b # ls))"
      "\<forall>m \<in> set (merge_locks (b # ls)). \<exists>l \<in> set (b # ls). same_holder l m \<and> lstart l = lstart m"
      "\<forall>n w x t. (\<exists>l \<in> set (merge_locks (b # ls)). covers l n w x \<and> typeID l = t) = (\<exists>l \<in> set (b # ls). covers l n w x \<and> typeID l = t)"
      using "3.IH"(2) [OF False] g by (simp_all add: locks_ok_def)
    have "before a m" if m: "m \<in> set (merge_locks (b # ls))" for m
    proof -
      obtain l where "l \<in> set (b # ls)" "same_holder l m" "lstart l = lstart m" using ih(2) m by blast
      then show ?thesis using g(3,4) by (auto simp: before_def same_holder_def)
    qed
    then have "locks_ok (a # merge_locks (b # ls))" using ih(1) g(1) by (simp add: locks_ok_def)
    then show ?thesis using False ih(2,3) by (auto simp: same_holder_def)
  qed
qed (auto simp: locks_ok_def same_holder_def)

section \<open>Carving and sorting\<close>

lemma unat_pred: "a < b \<Longrightarrow> unat (b - 1) = unat b - 1" for a b :: u64
  by (rule unat_minus_one) auto

lemma unat_next: "a < b \<Longrightarrow> unat (a + 1) = unat a + 1" for a b :: u64
proof -
  assume "a < b"
  moreover have "unat b < 2 ^ 64" using unsigned_less [of b] by simp
  ultimately show ?thesis using unat_add_of_nat [of a 1] by (simp add: word_less_nat_alt)
qed

lemma carve_pieces:
  assumes "good_lock h" "lstart r \<le> lend r" "p \<in> set (carve r h)"
  shows "good_lock p \<and> same_holder p h \<and> typeID p = typeID h \<and> lstart h \<le> lstart p \<and> lend p \<le> lend h
    \<and> (same_holder p r \<longrightarrow> lend p < lstart r \<or> lend r < lstart p)"
proof (cases "nodeID h \<noteq> nodeID r \<or> owner h \<noteq> owner r \<or> \<not> lockRangesOverlap h r")
  case True
  then show ?thesis using assms by (auto simp: carve_def same_holder_def lockRangesOverlap_def not_le)
next
  case False
  then have o: "lstart h \<le> lend r" "lstart r \<le> lend h" by (simp_all add: lockRangesOverlap_def)
  consider "lstart h < lstart r" "p = h\<lparr>lend := lstart r - 1\<rparr>"
    | "lend r \<noteq> - 1" "lend r < lend h" "p = h\<lparr>lstart := lend r + 1\<rparr>"
    using assms(3) False by (auto simp: carve_def split: if_splits)
  then show ?thesis
  proof cases
    case 1
    then have "unat (lstart r - 1) = unat (lstart r) - 1" by (intro unat_pred)
    then show ?thesis using 1 o assms(1) False
      by (auto simp: good_lock_def same_holder_def word_le_nat_alt word_less_nat_alt)
  next
    case 2
    then have "unat (lend r + 1) = unat (lend r) + 1" by (intro unat_next)
    then show ?thesis using 2 o assms(1) False
      by (auto simp: good_lock_def same_holder_def word_le_nat_alt word_less_nat_alt)
  qed
qed

lemma carve_cover:
  assumes "good_lock h" "lstart r \<le> lend r"
  shows "(\<exists>l \<in> set (carve r h). covers l n w x \<and> typeID l = t) \<longleftrightarrow> covers h n w x \<and> typeID h = t \<and> \<not> covers r n w x"
proof
  assume "\<exists>l \<in> set (carve r h). covers l n w x \<and> typeID l = t"
  then obtain l where l: "l \<in> set (carve r h)" "covers l n w x" "typeID l = t" by blast
  note p = carve_pieces [OF assms l(1)]
  then show "covers h n w x \<and> typeID h = t \<and> \<not> covers r n w x"
    using l(2,3) by (auto simp: covers_def same_holder_def)
next
  assume c: "covers h n w x \<and> typeID h = t \<and> \<not> covers r n w x"
  show "\<exists>l \<in> set (carve r h). covers l n w x \<and> typeID l = t"
  proof (cases "nodeID h \<noteq> nodeID r \<or> owner h \<noteq> owner r \<or> \<not> lockRangesOverlap h r")
    case True
    then show ?thesis using c by (simp add: carve_def)
  next
    case False
    then have x: "x < lstart r \<or> lend r < x" using c by (auto simp: covers_def)
    show ?thesis
    proof (cases "x < lstart r")
      case True
      then have "lstart h < lstart r" "x \<le> lstart r - 1"
        using c unat_pred [OF True] by (auto simp: covers_def word_le_nat_alt word_less_nat_alt)
      then show ?thesis using False c by (auto simp: carve_def covers_def)
    next
      case f: False
      then have "lend r < x" using x by simp
      then have "lend r < lend h" "lend r + 1 \<le> x" "lend r \<noteq> - 1" using c inc_le word_not_max by (auto simp: covers_def)
      then show ?thesis using False c by (auto simp: carve_def covers_def)
    qed
  qed
qed

definition apart :: "file_lock \<Rightarrow> file_lock \<Rightarrow> bool" where
  "apart a b \<longleftrightarrow> (same_holder a b \<longrightarrow> lend a < lstart b \<or> lend b < lstart a)"

lemma apart_sym: "apart a b \<Longrightarrow> apart b a"
  by (auto simp: apart_def same_holder_def)

lemma apart_set: "sorted_wrt apart xs \<Longrightarrow> a \<in> set xs \<Longrightarrow> b \<in> set xs \<Longrightarrow> a \<noteq> b \<Longrightarrow> apart a b"
  by (induction xs) (auto dest: apart_sym)

lemma apart_distinct: "sorted_wrt apart xs \<Longrightarrow> \<forall>l \<in> set xs. good_lock l \<Longrightarrow> distinct xs"
proof (induction xs)
  case (Cons a xs)
  have "\<not> apart a a" using Cons.prems(2) by (simp add: apart_def same_holder_def good_lock_def not_less)
  then show ?case using Cons by auto
qed simp

lemma sort_apart_ok:
  assumes "sorted_wrt apart xs" "\<forall>l \<in> set xs. good_lock l"
  shows "locks_ok (sort_key lock_key xs)"
proof -
  let ?s = "sort_key lock_key xs"
  have d: "distinct ?s" using apart_distinct [OF assms] by simp
  have "before (?s ! i) (?s ! j)" if "i < j" "j < length ?s" for i j
  proof -
    let ?a = "?s ! i" and ?b = "?s ! j"
    have m: "?a \<in> set xs" "?b \<in> set xs" using that nth_mem [of i ?s] nth_mem [of j ?s] by (simp_all del: nth_mem)
    have "?a \<noteq> ?b" using d that by (simp add: nth_eq_iff_index_eq)
    then have ap: "apart ?a ?b" using apart_set [OF assms(1) m] by simp
    have "lock_key ?a \<le> lock_key ?b" using sorted_nth_mono [of "map lock_key ?s" i j] that by simp
    then have le: "same_holder ?a ?b \<Longrightarrow> lstart ?a \<le> lstart ?b" by (simp add: lock_key_def same_holder_def)
    have "lstart ?b \<le> lend ?b" using assms(2) m by (simp add: good_lock_def)
    then show ?thesis using ap le by (auto simp: apart_def before_def)
  qed
  then have "sorted_wrt before ?s" by (simp add: sorted_wrt_iff_nth_less)
  then show ?thesis using assms(2) by (simp add: locks_ok_def)
qed

lemma carved_before:
  assumes "locks_ok ls" "lstart r \<le> lend r"
  shows "sorted_wrt before (concat (map (carve r) ls))"
  using assms(1)
proof (induction ls)
  case (Cons h ls)
  have g: "good_lock h" "\<forall>l \<in> set ls. good_lock l \<and> before h l" "locks_ok ls" using Cons.prems by (auto simp: locks_ok_def)
  have "before p q" if "p \<in> set (carve r h)" "l \<in> set ls" "q \<in> set (carve r l)" for p q l
    using carve_pieces [OF g(1) assms(2) that(1)] carve_pieces [OF _ assms(2) that(3)] g(2) that(2)
    by (auto simp: before_def same_holder_def)
  moreover have "sorted_wrt before (carve r h)"
  proof -
    have "lstart r - 1 < lend r + 1" if "lstart h < lstart r" "lend r < lend h"
      using unat_pred [OF that(1)] unat_next [OF that(2)] assms(2) by (simp add: word_le_nat_alt word_less_nat_alt)
    then show ?thesis by (auto simp: carve_def before_def)
  qed
  ultimately show ?case using Cons.IH g(3) by (auto simp: sorted_wrt_append)
qed simp

section \<open>Setting a range\<close>

text \<open>The abstract effect: the owner's bytes in the range take the new kind, everything else stays.\<close>

type_synonym holdings = "u64 \<Rightarrow> u64 \<Rightarrow> u64 \<Rightarrow> u32 option"

definition set_range :: "file_lock \<Rightarrow> holdings \<Rightarrow> holdings" where
  "set_range r h n w x = (if covers r n w x then (if typeID r = linuxFUnlck then None else Some (typeID r)) else h n w x)"

text \<open>Another owner holds a byte of the range, and one of the two locks is for writing.\<close>

definition blocked :: "file_lock \<Rightarrow> holdings \<Rightarrow> bool" where
  "blocked r h \<longleftrightarrow> (\<exists>w x t. w \<noteq> owner r \<and> lstart r \<le> x \<and> x \<le> lend r \<and> h (nodeID r) w x = Some t
     \<and> (t = linuxFWrLck \<or> typeID r = linuxFWrLck))"

lemma replace_ok:
  assumes "locks_ok (locks m)" "lstart r \<le> lend r" "typeID r \<in> {0, 1, 2}"
  shows "locks_ok (locks (replaceOwnerRangeLocked r m)) \<and> held (locks (replaceOwnerRangeLocked r m)) = set_range r (held (locks m))"
proof -
  let ?c = "concat (map (carve r) (locks m))" and ?n = "if typeID r \<noteq> 2 then [r] else []"
  let ?s = "sort_key lock_key (?c @ ?n)"
  have g: "good_lock h" if "h \<in> set (locks m)" for h using assms(1) that by (simp add: locks_ok_def)
  have pc: "good_lock p \<and> apart p r" if "p \<in> set ?c" for p
    using that carve_pieces [OF g assms(2)] by (fastforce simp: apart_def)
  have "sorted_wrt apart ?c"
    by (rule sorted_wrt_mono_rel [OF _ carved_before [OF assms(1,2)]]) (auto simp: before_def apart_def)
  then have "sorted_wrt apart (?c @ ?n)" using pc by (auto simp: sorted_wrt_append)
  moreover have good: "\<forall>l \<in> set (?c @ ?n). good_lock l" using pc assms(2,3) by (auto simp: good_lock_def split: if_splits)
  ultimately have s: "locks_ok ?s" by (rule sort_apart_ok)
  note mg = merge_locks_ok [OF s]
  have cover: "(\<exists>l \<in> set (merge_locks ?s). covers l n w x \<and> typeID l = t) \<longleftrightarrow>
      set_range r (held (locks m)) n w x = Some t" for n w x t
  proof -
    have "(\<exists>l \<in> set ?c. covers l n w x \<and> typeID l = t) \<longleftrightarrow> (\<exists>h \<in> set (locks m). \<exists>l \<in> set (carve r h). covers l n w x \<and> typeID l = t)"
      by auto
    also have "\<dots> \<longleftrightarrow> (\<exists>h \<in> set (locks m). covers h n w x \<and> typeID h = t) \<and> \<not> covers r n w x"
      using carve_cover [OF g assms(2)] by blast
    finally have "(\<exists>l \<in> set ?c. covers l n w x \<and> typeID l = t) \<longleftrightarrow> held (locks m) n w x = Some t \<and> \<not> covers r n w x"
      using held_Some [OF assms(1)] by simp
    moreover have "(\<exists>l \<in> set (merge_locks ?s). covers l n w x \<and> typeID l = t) \<longleftrightarrow> (\<exists>l \<in> set (?c @ ?n). covers l n w x \<and> typeID l = t)"
      using mg by simp
    ultimately show ?thesis by (auto simp: set_range_def)
  qed
  have "held (merge_locks ?s) n w x = set_range r (held (locks m)) n w x" for n w x
  proof (cases "held (merge_locks ?s) n w x")
    case None
    then have "set_range r (held (locks m)) n w x \<noteq> Some t" for t using cover held_Some mg by (metis option.distinct(1))
    then show ?thesis using None by (cases "set_range r (held (locks m)) n w x") auto
  next
    case (Some t)
    then show ?thesis using cover [of n w x t] held_Some mg by simp
  qed
  then show ?thesis using mg by (simp add: replaceOwnerRangeLocked_def fun_eq_iff)
qed

lemma conflict_blocked:
  assumes "locks_ok (locks m)" "lstart r \<le> lend r"
  shows "conflictLocked r m \<noteq> None \<longleftrightarrow> blocked r (held (locks m))"
proof
  assume "conflictLocked r m \<noteq> None"
  then obtain h where h: "h \<in> set (locks m)" "nodeID h = nodeID r" "owner h \<noteq> owner r" "lstart h \<le> lend r" "lstart r \<le> lend h"
    "typeID h = 1 \<or> typeID r = 1"
    by (auto simp: conflictLocked_def lockRangesOverlap_def find_None_iff)
  let ?x = "max (lstart h) (lstart r)"
  have "lstart h \<le> lend h" using assms(1) h(1) by (simp add: locks_ok_def good_lock_def)
  then have "covers h (nodeID r) (owner h) ?x" "lstart r \<le> ?x" "?x \<le> lend r"
    using h assms(2) by (auto simp: covers_def)
  then show "blocked r (held (locks m))" using h held_Some [OF assms(1)] unfolding blocked_def by blast
next
  assume "blocked r (held (locks m))"
  then obtain w x t l where "w \<noteq> owner r" "lstart r \<le> x" "x \<le> lend r" "l \<in> set (locks m)" "covers l (nodeID r) w x"
    "typeID l = t" "t = 1 \<or> typeID r = 1"
    using held_Some [OF assms(1)] by (auto simp: blocked_def)
  then have "l \<in> set (locks m)" "nodeID l = nodeID r" "owner l \<noteq> owner r" "lstart l \<le> lend r" "lstart r \<le> lend l"
    "typeID l = 1 \<or> typeID r = 1"
    by (auto simp: covers_def)
  then show "conflictLocked r m \<noteq> None"
    unfolding conflictLocked_def find_None_iff lockRangesOverlap_def by blast
qed

text \<open>
  C10. The lock table implements the abstract one: a request is refused, or waits, exactly if another owner
  holds a byte of its range in a conflicting mode; otherwise the owner's bytes in the range take the
  requested kind, or none for an unlock, and nobody else's holdings change, however the ranges are split,
  sorted and merged.
\<close>

theorem fuse_locks_refine:
  assumes "locks_ok (locks m)" "lstart r \<le> lend r" "typeID r \<in> {0, 1, 2}" "\<not> lm_closed m"
  shows "\<exists>m'. lock_set r wait m = (if typeID r \<noteq> 2 \<and> blocked r (held (locks m))
        then (if wait then Waits else Errno (- 11), m) else (Errno 0, m'))
    \<and> locks_ok (locks m') \<and> held (locks m') = set_range r (held (locks m))"
proof -
  have "conflictLocked r m \<noteq> None \<longleftrightarrow> blocked r (held (locks m))" by (rule conflict_blocked [OF assms(1,2)])
  then have "lock_set r wait m = (if typeID r \<noteq> 2 \<and> blocked r (held (locks m))
        then (if wait then Waits else Errno (- 11), m) else (Errno 0, replaceOwnerRangeLocked r m))"
    using assms by (auto simp: lock_set_def validFuseLockRange_def)
  then show ?thesis using replace_ok [OF assms(1-3)] by blast
qed

section \<open>Exclusion\<close>

definition exclusive :: "holdings \<Rightarrow> bool" where
  "exclusive h \<longleftrightarrow> (\<forall>n w w' x t t'. w \<noteq> w' \<and> h n w x = Some t \<and> h n w' x = Some t' \<longrightarrow> t = linuxFRdLck \<and> t' = linuxFRdLck)"

inductive lock_reachable :: "lock_manager \<Rightarrow> bool" where
  new: "lock_reachable newFuseLockManager"
| set: "lock_reachable m \<Longrightarrow> lock_reachable (snd (lock_set r wait m))"
| release: "lock_reachable m \<Longrightarrow> lock_reachable (releaseOwner n w m)"
| close: "lock_reachable m \<Longrightarrow> lock_reachable (lock_close m)"

lemma held_kind: "locks_ok ls \<Longrightarrow> held ls n w x = Some t \<Longrightarrow> t = 0 \<or> t = 1"
  by (auto simp: held_Some locks_ok_def good_lock_def)

lemma set_range_exclusive:
  assumes "locks_ok ls" "exclusive (held ls)" "typeID r \<in> {0, 1, 2}" "typeID r \<noteq> 2 \<Longrightarrow> \<not> blocked r (held ls)"
  shows "exclusive (set_range r (held ls))"
  unfolding exclusive_def
proof (intro allI impI)
  have key: "t = 0 \<and> t' = 0" if "w \<noteq> w'" "covers r n w x" "set_range r (held ls) n w x = Some t"
      "set_range r (held ls) n w' x = Some t'" for n w w' x t t'
  proof -
    have "\<not> covers r n w' x" using that(1,2) by (auto simp: covers_def)
    then have h: "held ls n w' x = Some t'" "t = typeID r" "typeID r \<noteq> 2"
      using that by (auto simp: set_range_def split: if_splits)
    have "blocked r (held ls)" if "t' = 1 \<or> typeID r = 1"
    proof -
      have "w' \<noteq> owner r" "lstart r \<le> x" "x \<le> lend r" "held ls (nodeID r) w' x = Some t'"
        using h(1) \<open>w \<noteq> w'\<close> \<open>covers r n w x\<close> by (auto simp: covers_def)
      then show ?thesis using that unfolding blocked_def by blast
    qed
    then have "t' \<noteq> 1" "typeID r \<noteq> 1" using assms(4) h(3) by blast+
    then show ?thesis using h assms(3) held_kind [OF assms(1) h(1)] by auto
  qed
  fix n w w' x t t'
  assume a: "w \<noteq> w' \<and> set_range r (held ls) n w x = Some t \<and> set_range r (held ls) n w' x = Some t'"
  consider "covers r n w x" | "covers r n w' x" | "\<not> covers r n w x" "\<not> covers r n w' x" by blast
  then show "t = 0 \<and> t' = 0"
  proof cases
    case 1
    then show ?thesis using key [of w w' n x t t'] a by blast
  next
    case 2
    then show ?thesis using key [of w' w n x t' t] a by blast
  next
    case 3
    then have "held ls n w x = Some t" "held ls n w' x = Some t'" using a by (simp_all add: set_range_def)
    then show ?thesis using assms(2) a unfolding exclusive_def by blast
  qed
qed

lemma held_filter:
  assumes "locks_ok ls" "held (filter P ls) n w x = Some t"
  shows "held ls n w x = Some t"
proof -
  have "locks_ok (filter P ls)" using assms(1) by (simp add: locks_ok_def sorted_wrt_filter)
  then show ?thesis using assms held_Some by fastforce
qed

lemma lock_reachable_ok: "lock_reachable m \<Longrightarrow> locks_ok (locks m) \<and> exclusive (held (locks m))"
proof (induction rule: lock_reachable.induct)
  case (set m r wait)
  show ?case
  proof (cases "fst (lock_set r wait m) = Errno 0")
    case True
    then have v: "lstart r \<le> lend r" "typeID r \<in> {0, 1, 2}" "typeID r \<noteq> 2 \<Longrightarrow> conflictLocked r m = None"
      "snd (lock_set r wait m) = replaceOwnerRangeLocked r m"
      by (auto simp: lock_set_def validFuseLockRange_def split: if_splits)
    then have "typeID r \<noteq> 2 \<Longrightarrow> \<not> blocked r (held (locks m))" using set.IH conflict_blocked [of m r] by simp
    then have "exclusive (set_range r (held (locks m)))" using set.IH v(2) by (intro set_range_exclusive) auto
    then show ?thesis using set.IH replace_ok [of m r] v by simp
  next
    case False
    then have "snd (lock_set r wait m) = m" by (auto simp: lock_set_def split: if_splits)
    then show ?thesis using set.IH by simp
  qed
next
  case (release m n w)
  let ?ls = "filter (\<lambda>l. nodeID l \<noteq> n \<or> owner l \<noteq> w) (locks m)"
  have "locks_ok ?ls" using release.IH by (simp add: locks_ok_def sorted_wrt_filter)
  moreover have "exclusive (held ?ls)"
    using release.IH held_filter [of "locks m"] unfolding exclusive_def by blast
  ultimately show ?case by (simp add: releaseOwner_def)
qed (simp_all add: newFuseLockManager_def lock_close_def locks_ok_def exclusive_def held_def)

text \<open>
  Write locks exclude: in every state reached by lock, unlock, release and close calls, a byte of a
  file that one owner holds for writing is held by no other owner.
\<close>

theorem fuse_locks_exclusive:
  assumes "lock_reachable m" "held (locks m) n w x = Some linuxFWrLck" "w' \<noteq> w"
  shows "held (locks m) n w' x = None"
proof (cases "held (locks m) n w' x")
  case (Some t)
  have "exclusive (held (locks m))" using lock_reachable_ok [OF assms(1)] by simp
  then have "(1 :: u32) = 0" using Some assms(2,3) unfolding exclusive_def by metis
  then show ?thesis by simp
qed simp

definition lock_req :: "u64 \<Rightarrow> u64 \<Rightarrow> u64 \<Rightarrow> u32 \<Rightarrow> file_lock" where
  "lock_req w a b t = \<lparr>nodeID = 3, owner = w, lstart = a, lend = b, typeID = t, lpid = 1\<rparr>"

definition split_manager :: lock_manager where
  "split_manager = snd (lock_set (lock_req 4 25 74 2) False (snd (lock_set (lock_req 4 0 99 1) False newFuseLockManager)))"

theorem fuse_locks_refine_witness:
  "fst (lock_set (lock_req 5 25 74 0) False split_manager) = Errno 0
   \<and> fst (lock_set (lock_req 5 70 80 0) False split_manager) = Errno (- 11)"
proof -
  have l: "locks split_manager = [lock_req 4 0 24 1, lock_req 4 75 99 1]" "\<not> lm_closed split_manager" by code_simp+
  then have ok: "locks_ok (locks split_manager)"
    by (simp add: locks_ok_def good_lock_def lock_req_def before_def same_holder_def word_le_nat_alt word_less_nat_alt)
  have b: "\<not> blocked (lock_req 5 25 74 0) (held (locks split_manager))" "blocked (lock_req 5 70 80 0) (held (locks split_manager))"
    using conflict_blocked [OF ok, of "lock_req 5 25 74 0"] conflict_blocked [OF ok, of "lock_req 5 70 80 0"]
    by (simp_all add: l conflictLocked_def lock_req_def lockRangesOverlap_def word_le_nat_alt)
  show ?thesis
    using fuse_locks_refine [OF ok, of "lock_req 5 25 74 0" False] fuse_locks_refine [OF ok, of "lock_req 5 70 80 0" False] b l(2)
    by (auto simp: lock_req_def word_le_nat_alt)
qed

theorem fuse_locks_exclusive_witness:
  "held (locks split_manager) 3 5 80 = None"
proof -
  have "lock_reachable split_manager" unfolding split_manager_def by (intro lock_reachable.set lock_reachable.new)
  moreover have "held (locks split_manager) 3 4 80 = Some 1" by code_simp
  ultimately show ?thesis by (rule fuse_locks_exclusive) simp
qed

end
