(* ===== verification/TcpBuffers.thy ===== *)
theory TcpBuffers
  imports Prelude "HOL-Library.Signed_Division"
begin

text \<open>
  The parts a TCP connection of the user-space network stack is made of (\<^verbatim>\<open>netstack/tcp.go\<close>): option
  parsing, the retransmission queue, the buffer of segments received out of order, the estimate of the
  round-trip time and congestion control. Times and durations are integers of nanoseconds; the time of
  a call is an argument. Payloads come from a pool in the program and are values here.
\<close>

section \<open>Options\<close>

record tcpOptions =
  omss :: u16
  owndScale :: u8
  hasMSS :: bool
  hasWndScale :: bool

definition noOptions :: tcpOptions where
  "noOptions = \<lparr>omss = 0, owndScale = 0, hasMSS = False, hasWndScale = False\<rparr>"

text \<open>The loop over the option bytes, from index \<open>i\<close>. \<open>None\<close> is a loop that never ends.\<close>

partial_function (option) parse_options :: "bytes \<Rightarrow> nat \<Rightarrow> tcpOptions \<Rightarrow> tcpOptions option" where
  "parse_options options i opts =
     (if length options \<le> i then Some opts
      else if options ! i = 0 then Some opts
      else if options ! i = 1 then parse_options options (i + 1) opts
      else if options ! i = 2 then
        let opts1 = (if i + 4 \<le> length options \<and> options ! (i + 1) = 4
                     then opts\<lparr>omss := be_word (take 2 (drop (i + 2) options)), hasMSS := True\<rparr> else opts) in
        if i + 1 < length options then parse_options options (i + unat (options ! (i + 1))) opts1 else Some opts1
      else if options ! i = 3 then
        let opts1 = (if i + 3 \<le> length options \<and> options ! (i + 1) = 3
                     then opts\<lparr>owndScale := options ! (i + 2), hasWndScale := True\<rparr> else opts) in
        if i + 1 < length options then parse_options options (i + unat (options ! (i + 1))) opts1 else Some opts1
      else if length options \<le> i + 1 then Some opts
      else if options ! (i + 1) < 2 then Some opts
      else parse_options options (i + unat (options ! (i + 1))) opts)"

definition parseTCPOptions :: "bytes \<Rightarrow> tcpOptions option" where
  "parseTCPOptions options = parse_options options 0 noOptions"

definition buildSynAckOptions :: "u16 \<Rightarrow> u8 \<Rightarrow> bool \<Rightarrow> bytes" where
  "buildSynAckOptions mss wndScale peerHasWndScale =
     (if peerHasWndScale then [2, 4] @ be_bytes 2 mss @ [1, 3, 3, wndScale] else [2, 4] @ be_bytes 2 mss)"

section \<open>Sequence numbers\<close>

definition seqLT :: "u32 \<Rightarrow> u32 \<Rightarrow> bool" where
  "seqLT a b \<longleftrightarrow> sint (a - b) < 0"

definition seqLTE :: "u32 \<Rightarrow> u32 \<Rightarrow> bool" where
  "seqLTE a b \<longleftrightarrow> sint (a - b) \<le> 0"

definition seqGT :: "u32 \<Rightarrow> u32 \<Rightarrow> bool" where
  "seqGT a b \<longleftrightarrow> 0 < sint (a - b)"

definition seqOverlap :: "u32 \<Rightarrow> u32 \<Rightarrow> u32 \<Rightarrow> u32 \<Rightarrow> bool" where
  "seqOverlap aStart aEnd bStart bEnd \<longleftrightarrow> seqLT aStart bEnd \<and> seqLT bStart aEnd"

section \<open>The retransmission queue\<close>

record tcpSendSegment =
  seqStart :: u32
  seqEnd :: u32
  spayload :: bytes
  sentAt :: int
  retx :: nat

record tcpSendBuffer =
  segments :: "tcpSendSegment list"
  capacity :: int
  used :: int

definition newTCPSendBuffer :: "int \<Rightarrow> tcpSendBuffer" where
  "newTCPSendBuffer n = \<lparr>segments = [], capacity = n, used = 0\<rparr>"

definition send_append :: "tcpSendSegment \<Rightarrow> tcpSendBuffer \<Rightarrow> bool \<times> tcpSendBuffer" where
  "send_append seg sb =
     (if capacity sb < used sb + int (length (spayload seg)) then (False, sb)
      else (True, sb\<lparr>segments := segments sb @ [seg], used := used sb + int (length (spayload seg))\<rparr>))"

text \<open>The loop of \<^verbatim>\<open>ack\<close>: what is kept, the bytes acknowledged, and the first sample.\<close>

fun ack_loop :: "u32 \<Rightarrow> int \<Rightarrow> tcpSendSegment list \<Rightarrow> nat \<Rightarrow> int option \<Rightarrow> tcpSendSegment list \<times> nat \<times> int option" where
  "ack_loop ackNum now [] n sample = ([], n, sample)"
| "ack_loop ackNum now (seg # segs) n sample =
     (if seqLTE (seqEnd seg) ackNum then
        ack_loop ackNum now segs (n + length (spayload seg))
          (if retx seg = 0 \<and> sample = None then Some (now - sentAt seg) else sample)
      else case ack_loop ackNum now segs n sample of (keep, r) \<Rightarrow> (seg # keep, r))"

definition send_ack :: "u32 \<Rightarrow> int \<Rightarrow> tcpSendBuffer \<Rightarrow> (nat \<times> int option) \<times> tcpSendBuffer" where
  "send_ack ackNum now sb =
     (case ack_loop ackNum now (segments sb) 0 None of (keep, n, sample) \<Rightarrow>
        ((n, sample), sb\<lparr>segments := keep, used := used sb - int n\<rparr>))"

definition oldest :: "tcpSendBuffer \<Rightarrow> tcpSendSegment option" where
  "oldest sb = (case segments sb of [] \<Rightarrow> None | seg # _ \<Rightarrow> Some seg)"

definition oldestCoalesced :: "nat \<Rightarrow> tcpSendBuffer \<Rightarrow> (tcpSendSegment \<times> nat) option" where
  "oldestCoalesced maxSize sb = (case segments sb of [] \<Rightarrow> None | seg # _ \<Rightarrow> Some (seg, 1))"

definition markRetransmittedN :: "nat \<Rightarrow> int \<Rightarrow> tcpSendBuffer \<Rightarrow> tcpSendBuffer" where
  "markRetransmittedN n now sb =
     sb\<lparr>segments := map (\<lambda>seg. seg\<lparr>retx := retx seg + 1, sentAt := now\<rparr>) (take n (segments sb)) @ drop n (segments sb)\<rparr>"

definition inFlight :: "tcpSendBuffer \<Rightarrow> int" where
  "inFlight sb = used sb"

definition send_clear :: "tcpSendBuffer \<Rightarrow> tcpSendBuffer" where
  "send_clear sb = sb\<lparr>segments := [], used := 0\<rparr>"

section \<open>The buffer of out-of-order segments\<close>

record tcpOOOSegment =
  ostart :: u32
  oend :: u32
  opayload :: bytes

record tcpRecvBuffer =
  osegments :: "tcpOOOSegment list"
  maxGaps :: nat

definition newTCPRecvBuffer :: "nat \<Rightarrow> tcpRecvBuffer" where
  "newTCPRecvBuffer n = \<lparr>osegments = [], maxGaps = n\<rparr>"

text \<open>The first index whose segment starts later, or the end.\<close>

fun insert_index :: "tcpOOOSegment \<Rightarrow> tcpOOOSegment list \<Rightarrow> nat" where
  "insert_index seg [] = 0"
| "insert_index seg (e # es) = (if seqLT (ostart seg) (ostart e) then 0 else Suc (insert_index seg es))"

definition recv_insert :: "tcpOOOSegment \<Rightarrow> tcpRecvBuffer \<Rightarrow> bool \<times> tcpRecvBuffer" where
  "recv_insert seg rb =
     (if list_ex (\<lambda>e. seqOverlap (ostart seg) (oend seg) (ostart e) (oend e)) (osegments rb) then (False, rb)
      else if maxGaps rb \<le> length (osegments rb) then (False, rb)
      else let i = insert_index seg (osegments rb) in
        (True, rb\<lparr>osegments := take i (osegments rb) @ seg # drop i (osegments rb)\<rparr>))"

text \<open>One pass over the buffered segments: what is collected, the next number, what is kept.\<close>

fun collect_pass :: "tcpOOOSegment list \<Rightarrow> u32 \<Rightarrow> bytes list \<times> u32 \<times> tcpOOOSegment list" where
  "collect_pass [] next = ([], next, [])"
| "collect_pass (seg # segs) next =
     (if ostart seg = next then (case collect_pass segs (oend seg) of (got, n, keep) \<Rightarrow> (opayload seg # got, n, keep))
      else case collect_pass segs next of (got, n, keep) \<Rightarrow> (got, n, seg # keep))"

lemma collect_pass_length: "collect_pass segs next = (got, n, keep) \<Longrightarrow> length got + length keep = length segs"
  by (induction segs arbitrary: "next" got n keep) (auto split: if_splits prod.splits)

lemma collect_pass_shorter:
  assumes "collect_pass segs next = (got, n, keep)" "got \<noteq> []"
  shows "length keep < length segs"
  using collect_pass_length [OF assms(1)] assms(2) by (cases got) auto

function collect :: "tcpOOOSegment list \<Rightarrow> u32 \<Rightarrow> bytes list \<times> u32 \<times> tcpOOOSegment list" where
  "collect segs next =
     (case collect_pass segs next of (got, n, keep) \<Rightarrow>
        if got = [] then ([], n, keep) else (case collect keep n of (got', n', keep') \<Rightarrow> (got @ got', n', keep')))"
  by pat_completeness auto
termination
  by (relation "measure (\<lambda>(segs, n). length segs)") (auto dest: collect_pass_shorter [OF sym])

declare collect.simps [simp del]

definition collectContiguous :: "u32 \<Rightarrow> tcpRecvBuffer \<Rightarrow> (bytes list \<times> u32) \<times> tcpRecvBuffer" where
  "collectContiguous next rb =
     (case collect (osegments rb) next of (got, n, keep) \<Rightarrow> ((got, n), rb\<lparr>osegments := keep\<rparr>))"

definition recv_clear :: "tcpRecvBuffer \<Rightarrow> tcpRecvBuffer" where
  "recv_clear rb = rb\<lparr>osegments := []\<rparr>"

section \<open>Round-trip time\<close>

record tcpRTTEstimator =
  srtt :: int
  rttVar :: int
  rto :: int
  hasInitial :: bool
  backoffCount :: nat

abbreviation (input) minRTO :: int where "minRTO \<equiv> 50000000"
abbreviation (input) maxRTO :: int where "maxRTO \<equiv> 60000000000"
abbreviation (input) initialRTO :: int where "initialRTO \<equiv> 500000000"

definition newTCPRTTEstimator :: tcpRTTEstimator where
  "newTCPRTTEstimator = \<lparr>srtt = 0, rttVar = 0, rto = initialRTO, hasInitial = False, backoffCount = 0\<rparr>"

definition rtt_update :: "int \<Rightarrow> tcpRTTEstimator \<Rightarrow> tcpRTTEstimator" where
  "rtt_update rtt r =
     (let r1 = (if \<not> hasInitial r then r\<lparr>srtt := rtt, rttVar := rtt sdiv 2, hasInitial := True\<rparr>
                else let delta = (if srtt r - rtt < 0 then - (srtt r - rtt) else srtt r - rtt) in
                  r\<lparr>rttVar := (3 * rttVar r + delta) sdiv 4, srtt := (7 * srtt r + rtt) sdiv 8\<rparr>);
          t = srtt r1 + 4 * rttVar r1; t1 = (if t < minRTO then minRTO else t) in
      r1\<lparr>rto := (if maxRTO < t1 then maxRTO else t1)\<rparr>)"

definition rtt_backoff :: "tcpRTTEstimator \<Rightarrow> tcpRTTEstimator" where
  "rtt_backoff r =
     (let r1 = (if backoffCount r < 5 then r\<lparr>rto := (rto r * 3) sdiv 2, backoffCount := backoffCount r + 1\<rparr> else r) in
      if maxRTO < rto r1 then r1\<lparr>rto := maxRTO\<rparr> else r1)"

definition resetBackoff :: "tcpRTTEstimator \<Rightarrow> tcpRTTEstimator" where
  "resetBackoff r = r\<lparr>backoffCount := 0\<rparr>"

section \<open>Congestion control\<close>

record tcpCongestionControl =
  cwnd :: u32
  ssthresh :: u32
  cmss :: u16
  cdupAcks :: nat

definition newTCPCongestionControl :: "u16 \<Rightarrow> tcpCongestionControl" where
  "newTCPCongestionControl mss = \<lparr>cwnd = 10 * ucast mss, ssthresh = - 1, cmss = mss, cdupAcks = 0\<rparr>"

text \<open>\<open>None\<close> is a division by zero.\<close>

definition onAck :: "u32 \<Rightarrow> tcpCongestionControl \<Rightarrow> tcpCongestionControl option" where
  "onAck bytesAcked cc0 =
     (let cc = cc0\<lparr>cdupAcks := 0\<rparr>; mss = ucast (cmss cc) :: u32 in
      if cwnd cc < ssthresh cc then Some (cc\<lparr>cwnd := cwnd cc + bytesAcked\<rparr>)
      else if cwnd cc = 0 then None
      else let increment = mss * mss div cwnd cc in
        Some (cc\<lparr>cwnd := cwnd cc + (if increment < 1 then 1 else increment)\<rparr>))"

definition halved :: "tcpCongestionControl \<Rightarrow> u32" where
  "halved cc = (if cwnd cc div 2 < 2 * ucast (cmss cc) then 2 * ucast (cmss cc) else cwnd cc div 2)"

definition onDupAck :: "tcpCongestionControl \<Rightarrow> bool \<times> tcpCongestionControl" where
  "onDupAck cc0 =
     (let cc = cc0\<lparr>cdupAcks := cdupAcks cc0 + 1\<rparr> in
      if cdupAcks cc = 3 then (True, cc\<lparr>ssthresh := halved cc, cwnd := halved cc + 3 * ucast (cmss cc)\<rparr>)
      else if 3 < cdupAcks cc then (False, cc\<lparr>cwnd := cwnd cc + ucast (cmss cc)\<rparr>)
      else (False, cc))"

definition onTimeout :: "tcpCongestionControl \<Rightarrow> tcpCongestionControl" where
  "onTimeout cc = cc\<lparr>ssthresh := halved cc, cwnd := ucast (cmss cc), cdupAcks := 0\<rparr>"

section \<open>Parsing options\<close>

text \<open>What a peer may send: the four forms of an option, their encoding and their effect.\<close>

datatype tcp_option = OptNop | OptMSS u16 | OptScale u8 | OptOther u8 bytes

fun option_ok :: "tcp_option \<Rightarrow> bool" where
  "option_ok (OptOther k d) = (k \<noteq> 0 \<and> k \<noteq> 1 \<and> k \<noteq> 2 \<and> k \<noteq> 3 \<and> length d < 254)"
| "option_ok _ = True"

fun encode_option :: "tcp_option \<Rightarrow> bytes" where
  "encode_option OptNop = [1]"
| "encode_option (OptMSS m) = [2, 4] @ be_bytes 2 m"
| "encode_option (OptScale s) = [3, 3, s]"
| "encode_option (OptOther k d) = [k, of_nat (length d + 2)] @ d"

fun apply_option :: "tcp_option \<Rightarrow> tcpOptions \<Rightarrow> tcpOptions" where
  "apply_option (OptMSS m) o' = o'\<lparr>omss := m, hasMSS := True\<rparr>"
| "apply_option (OptScale s) o' = o'\<lparr>owndScale := s, hasWndScale := True\<rparr>"
| "apply_option _ o' = o'"

lemma parse_option_step:
  assumes "option_ok x"
  shows "parse_options (pre @ encode_option x @ post) (length pre) opts =
    parse_options (pre @ encode_option x @ post) (length pre + length (encode_option x)) (apply_option x opts)"
proof (cases x)
  case (OptOther k d)
  have "unat (of_nat (length d + 2) :: u8) = (length d + 2) mod 2 ^ 8" using unat_of_nat [of "length d + 2", where 'a = 8] by simp
  then have "unat (of_nat (length d + 2) :: u8) = length d + 2" using assms OptOther by simp
  moreover from this have "\<not> (of_nat (length d + 2) :: u8) < 2" by (simp only: word_less_nat_alt) simp
  ultimately show ?thesis using assms OptOther
    by (subst parse_options.simps) (simp add: nth_append)
next
  case (OptMSS m)
  have "be_word (be_bytes 2 m) = m" by (simp add: be_word_be_bytes)
  then show ?thesis using OptMSS by (subst parse_options.simps) (simp add: nth_append)
next
  case OptNop
  then show ?thesis by (subst parse_options.simps) (simp add: nth_append)
next
  case (OptScale w)
  then have "length pre + length (encode_option x) = length pre + 3" by simp
  then show ?thesis using OptScale by (simp only:) (subst parse_options.simps, simp add: nth_append)
qed

lemma parse_options_list:
  assumes "list_all option_ok os"
  shows "parse_options (pre @ concat (map encode_option os) @ post) (length pre) opts =
    parse_options (pre @ concat (map encode_option os) @ post) (length pre + length (concat (map encode_option os)))
      (fold apply_option os opts)"
  using assms
proof (induction os arbitrary: pre opts)
  case (Cons x os)
  have "parse_options (pre @ encode_option x @ concat (map encode_option os) @ post) (length pre) opts =
      parse_options ((pre @ encode_option x) @ concat (map encode_option os) @ post) (length (pre @ encode_option x)) (apply_option x opts)"
    using parse_option_step [of x pre] Cons.prems by simp
  also have "\<dots> = parse_options ((pre @ encode_option x) @ concat (map encode_option os) @ post)
      (length (pre @ encode_option x) + length (concat (map encode_option os))) (fold apply_option os (apply_option x opts))"
    using Cons by (intro Cons.IH) simp
  finally show ?case by (simp add: add.assoc)
qed simp

text \<open>
  The option parser reads every well-formed list of options, in any order and with any unknown options
  between them, up to the end marker or the end of the header: it returns, with the last segment size
  and the last window scale that occur.
\<close>

theorem tcp_options_parsed:
  assumes "list_all option_ok os" "post = [] \<or> hd post = 0"
  shows "parseTCPOptions (concat (map encode_option os) @ post) = Some (fold apply_option os noOptions)"
proof -
  have "parseTCPOptions (concat (map encode_option os) @ post) =
      parse_options (concat (map encode_option os) @ post) (length (concat (map encode_option os))) (fold apply_option os noOptions)"
    using parse_options_list [OF assms(1), of "[]"] by (simp add: parseTCPOptions_def)
  also have "\<dots> = Some (fold apply_option os noOptions)"
    using assms(2) by (subst parse_options.simps, cases post) (auto simp: nth_append)
  finally show ?thesis .
qed

theorem tcp_options_parsed_witness:
  "parseTCPOptions (buildSynAckOptions 1460 7 True) = Some \<lparr>omss = 1460, owndScale = 7, hasMSS = True, hasWndScale = True\<rparr>
   \<and> parseTCPOptions [4, 2, 8, 10, 1, 2, 3, 4, 5, 6, 7, 8, 1, 3, 3, 9, 0, 2, 4, 1, 1] =
       Some \<lparr>omss = 0, owndScale = 9, hasMSS = False, hasWndScale = True\<rparr>"
  using tcp_options_parsed [of "[OptMSS 1460, OptNop, OptScale 7]" "[]"]
    tcp_options_parsed [of "[OptOther 4 [], OptOther 8 [1, 2, 3, 4, 5, 6, 7, 8], OptNop, OptScale 9]" "[0, 2, 4, 1, 1]"]
  by (simp add: buildSynAckOptions_def noOptions_def)

lemma zero_length_loops:
  assumes "parse_options xs i opts = Some r" "i + 1 < length xs" "xs ! i = 2 \<or> xs ! i = 3" "xs ! (i + 1) = 0"
  shows False
  using assms
proof (induction rule: parse_options.raw_induct [rotated 1, consumes 1])
  case (1 parse options i opts r)
  then have "\<exists>o'. parse options i o' = Some r" by (auto simp: Let_def split: if_splits)
  then show ?case using 1 by blast
qed

text \<open>
  C35. A segment-size or window-scale option whose length byte is zero, after any well-formed options, makes
  the parser run for ever: the index is advanced by the length. The other options are refused below a
  length of two.
\<close>

theorem tcp_options_hang:
  assumes "list_all option_ok os" "k = 2 \<or> k = 3"
  shows "parseTCPOptions (concat (map encode_option os) @ [k, 0] @ post) = None"
proof -
  let ?xs = "concat (map encode_option os) @ [k, 0] @ post" and ?n = "length (concat (map encode_option os))"
  have "parseTCPOptions ?xs = parse_options ?xs ?n (fold apply_option os noOptions)"
    using parse_options_list [OF assms(1), of "[]" "[k, 0] @ post"] by (simp add: parseTCPOptions_def)
  moreover have "parse_options ?xs ?n o' \<noteq> Some r" for o' r
    using zero_length_loops [of ?xs ?n o' r] assms(2) by (auto simp: nth_append)
  ultimately show ?thesis by (cases "parseTCPOptions ?xs") auto
qed

theorem tcp_options_hang_witness: "parseTCPOptions [1, 1, 2, 0] = None"
  using tcp_options_hang [of "[OptNop, OptNop]" 2 "[]"] by simp

section \<open>The retransmission queue\<close>

definition payload_bytes :: "tcpSendSegment list \<Rightarrow> nat" where
  "payload_bytes segs = sum_list (map (length \<circ> spayload) segs)"

lemma payload_bytes_simps [simp]:
  "payload_bytes [] = 0" "payload_bytes (s # segs) = length (spayload s) + payload_bytes segs"
  "payload_bytes (xs @ ys) = payload_bytes xs + payload_bytes ys"
  by (simp_all add: payload_bytes_def)

lemma ack_loop_eq:
  "ack_loop a now segs n s = (keep, m, t) \<Longrightarrow>
     keep = filter (\<lambda>g. \<not> seqLTE (seqEnd g) a) segs \<and> m = n + payload_bytes (filter (\<lambda>g. seqLTE (seqEnd g) a) segs)"
proof (induction segs arbitrary: n s keep)
  case (Cons g segs)
  obtain keep' m' t' where r: "ack_loop a now segs n s = (keep', m', t')" by (rule prod_cases3)
  show ?case
  proof (cases "seqLTE (seqEnd g) a")
    case True
    then have "ack_loop a now segs (n + length (spayload g)) (if retx g = 0 \<and> s = None then Some (now - sentAt g) else s) = (keep, m, t)"
      using Cons.prems by simp
    from Cons.IH [OF this] show ?thesis using True by simp
  next
    case False
    then have "keep = g # keep'" "m' = m" "t' = t" using Cons.prems r by auto
    then show ?thesis using Cons.IH [of n s keep'] r False by simp
  qed
qed simp

lemma payload_split: "payload_bytes (filter P segs) + payload_bytes (filter (\<lambda>g. \<not> P g) segs) = payload_bytes segs"
  by (induction segs) auto

definition send_ok :: "tcpSendBuffer \<Rightarrow> bool" where
  "send_ok sb \<longleftrightarrow> used sb = int (payload_bytes (segments sb)) \<and> used sb \<le> capacity sb"

lemma new_send_ok: "0 \<le> n \<Longrightarrow> send_ok (newTCPSendBuffer n)"
  by (simp add: send_ok_def newTCPSendBuffer_def)

lemma send_append_ok: "send_ok sb \<Longrightarrow> send_ok (snd (send_append seg sb))"
  by (auto simp: send_ok_def send_append_def)

lemma send_ack_ok: "send_ok sb \<Longrightarrow> send_ok (snd (send_ack a now sb))"
  using payload_split [of "\<lambda>g. seqLTE (seqEnd g) a" "segments sb"]
  by (auto simp: send_ok_def send_ack_def dest!: ack_loop_eq split: prod.splits)

lemma send_ack_segments:
  "segments (snd (send_ack a now sb)) = filter (\<lambda>g. \<not> seqLTE (seqEnd g) a) (segments sb)"
  by (auto simp: send_ack_def dest!: ack_loop_eq split: prod.splits)

lemma payload_bytes_map: "(\<And>s. spayload (f s) = spayload s) \<Longrightarrow> payload_bytes (map f segs) = payload_bytes segs"
  by (induction segs) auto

lemma mark_ok: "send_ok sb \<Longrightarrow> send_ok (markRetransmittedN n now sb)"
  using payload_bytes_simps(3) [of "take n (segments sb)" "drop n (segments sb)"]
  by (simp add: send_ok_def markRetransmittedN_def payload_bytes_map)

lemma clear_ok: "send_ok sb \<Longrightarrow> send_ok (send_clear sb)"
  by (simp add: send_ok_def send_clear_def)

section \<open>Reassembly\<close>

text \<open>A segment that is a piece of the stream \<open>S\<close> whose first byte has number \<open>isn\<close>.\<close>

definition piece :: "u32 \<Rightarrow> bytes \<Rightarrow> tcpOOOSegment \<Rightarrow> bool" where
  "piece isn S seg \<longleftrightarrow> (\<exists>p. p + length (opayload seg) \<le> length S \<and> opayload seg = take (length (opayload seg)) (drop p S)
     \<and> ostart seg = isn + of_nat p \<and> oend seg = ostart seg + of_nat (length (opayload seg)))"

lemma of_nat_u32_inj: "(isn :: u32) + of_nat p = isn + of_nat q \<Longrightarrow> p < 2 ^ 32 \<Longrightarrow> q < 2 ^ 32 \<Longrightarrow> p = q"
proof -
  assume a: "isn + of_nat p = isn + of_nat q" "p < 2 ^ 32" "q < 2 ^ 32"
  then have "(of_nat p :: u32) = of_nat q" by simp
  then have "unat (of_nat p :: u32) = unat (of_nat q :: u32)" by simp
  then show "p = q" using a(2,3) by (simp add: unat_of_nat)
qed


text \<open>The stretch of the stream from position \<open>n\<close> to position \<open>m\<close>.\<close>

definition stretch :: "'a list \<Rightarrow> nat \<Rightarrow> nat \<Rightarrow> 'a list" where
  "stretch S n m = take (m - n) (drop n S)"

lemma stretch_empty [simp]: "stretch S n n = []"
  by (simp add: stretch_def)

lemma stretch_append: "n \<le> k \<Longrightarrow> k \<le> m \<Longrightarrow> stretch S n k @ stretch S k m = stretch S n m"
proof -
  assume "n \<le> k" "k \<le> m"
  then have "m - n = (k - n) + (m - k)" "k = (k - n) + n" by simp_all
  then show ?thesis unfolding stretch_def by (metis take_add drop_drop)
qed

lemma take_stretch: "n \<le> m \<Longrightarrow> take n S @ stretch S n m = take m S"
  using stretch_append [of 0 n m S] by (simp add: stretch_def)

text \<open>Collecting from position \<open>n\<close> yields the stream from there on.\<close>

definition collects :: "u32 \<Rightarrow> bytes \<Rightarrow> nat \<Rightarrow> tcpOOOSegment list \<Rightarrow> bytes list \<times> u32 \<times> tcpOOOSegment list \<Rightarrow> bool" where
  "collects isn S n segs r \<longleftrightarrow> (case r of (got, next, keep) \<Rightarrow>
     \<exists>m. n \<le> m \<and> m \<le> length S \<and> next = isn + of_nat m \<and> concat got = stretch S n m \<and> set keep \<subseteq> set segs)"

lemma piece_at:
  assumes "piece isn S seg" "ostart seg = isn + of_nat n" "n \<le> length S" "length S < 2 ^ 32"
  shows "n + length (opayload seg) \<le> length S \<and> opayload seg = stretch S n (n + length (opayload seg))
    \<and> oend seg = isn + of_nat (n + length (opayload seg))"
proof -
  obtain p where p: "p + length (opayload seg) \<le> length S" "opayload seg = take (length (opayload seg)) (drop p S)"
      "ostart seg = isn + of_nat p" "oend seg = ostart seg + of_nat (length (opayload seg))"
    using assms(1) unfolding piece_def by blast
  have "p = n" using of_nat_u32_inj [of isn p n] p(1,3) assms(2,3,4) by simp
  then show ?thesis using p by (simp add: stretch_def add.assoc)
qed

lemma collect_pass_collects:
  assumes "\<forall>seg \<in> set segs. piece isn S seg" "n \<le> length S" "length S < 2 ^ 32"
  shows "collects isn S n segs (collect_pass segs (isn + of_nat n))"
  using assms(1,2)
proof (induction segs arbitrary: n)
  case Nil
  then show ?case by (auto simp: collects_def intro: exI [of _ n])
next
  case (Cons seg segs)
  show ?case
  proof (cases "ostart seg = isn + of_nat n")
    case True
    let ?k = "n + length (opayload seg)"
    have k: "?k \<le> length S" "opayload seg = stretch S n ?k" "oend seg = isn + of_nat ?k"
      using piece_at [of isn S seg n] True Cons.prems assms(3) by auto
    obtain got "next" keep where r: "collect_pass segs (isn + of_nat ?k) = (got, next, keep)" by (rule prod_cases3)
    have "collects isn S ?k segs (collect_pass segs (isn + of_nat ?k))" using Cons.prems(1) k(1) by (intro Cons.IH) simp_all
    from this [unfolded r collects_def] obtain m where m: "?k \<le> m" "m \<le> length S" "next = isn + of_nat m"
      "concat got = stretch S ?k m" "set keep \<subseteq> set segs" by auto
    have "opayload seg @ concat got = stretch S n m" using stretch_append [of n ?k m S] m(1,4) k(2) by simp
    then show ?thesis using True r m k(3) by (auto simp: collects_def intro!: exI [of _ m])
  next
    case False
    obtain got "next" keep where r: "collect_pass segs (isn + of_nat n) = (got, next, keep)" by (rule prod_cases3)
    have "collects isn S n segs (collect_pass segs (isn + of_nat n))" using Cons by simp
    then show ?thesis using False r by (auto simp: collects_def)
  qed
qed

lemma collect_collects:
  assumes "\<forall>seg \<in> set segs. piece isn S seg" "n \<le> length S" "length S < 2 ^ 32"
  shows "collects isn S n segs (collect segs (isn + of_nat n))"
  using assms(1,2)
proof (induction "length segs" arbitrary: segs n rule: less_induct)
  case less
  obtain got "next" keep where r: "collect_pass segs (isn + of_nat n) = (got, next, keep)" by (rule prod_cases3)
  obtain m where m: "n \<le> m" "m \<le> length S" "next = isn + of_nat m" "concat got = stretch S n m" "set keep \<subseteq> set segs"
    using collect_pass_collects [OF less.prems assms(3)] by (auto simp: collects_def r)
  show ?case
  proof (cases "got = []")
    case True
    then show ?thesis using r m by (subst collect.simps) (auto simp: collects_def)
  next
    case False
    obtain got' next' keep' where r': "collect keep (isn + of_nat m) = (got', next', keep')" by (rule prod_cases3)
    have "collects isn S m keep (collect keep (isn + of_nat m))"
      using less.hyps [OF collect_pass_shorter [OF r False]] less.prems(1) m(2,5) by blast
    then obtain l where l: "m \<le> l" "l \<le> length S" "next' = isn + of_nat l" "concat got' = stretch S m l" "set keep' \<subseteq> set keep"
      by (auto simp: collects_def r')
    have "concat (got @ got') = stretch S n l" using stretch_append [of n m l S] m(1,4) l(1,4) by simp
    then show ?thesis using r r' m l False by (subst collect.simps) (auto simp: collects_def intro!: exI [of _ l])
  qed
qed

text \<open>What is left has no segment at the next number: nothing that could be delivered is kept back.\<close>

lemma collect_pass_none: "collect_pass segs next = ([], n, keep) \<Longrightarrow> n = next \<and> keep = segs \<and> (\<forall>seg \<in> set segs. ostart seg \<noteq> next)"
  by (induction segs arbitrary: n keep) (auto split: if_splits prod.splits)

lemma collect_complete: "collect segs next = (got, n, keep) \<Longrightarrow> \<forall>seg \<in> set keep. ostart seg \<noteq> n"
proof (induction segs "next" arbitrary: got n keep rule: collect.induct)
  case (1 segs "next")
  obtain g m k where r: "collect_pass segs next = (g, m, k)" by (rule prod_cases3)
  show ?case
  proof (cases "g = []")
    case True
    then show ?thesis using r 1(2) collect_pass_none [of segs "next" m k] by (subst (asm) collect.simps) auto
  next
    case False
    obtain g' m' k' where r': "collect k m = (g', m', k')" by (rule prod_cases3)
    have "n = m'" "keep = k'" using 1(2) r r' False by (subst (asm) collect.simps, simp)+
    then show ?thesis using 1(1) [OF r [symmetric] refl False r'] by simp
  qed
qed

lemma recv_insert_set: "set (osegments (snd (recv_insert seg rb))) \<subseteq> insert seg (set (osegments rb))"
  by (auto simp: recv_insert_def Let_def dest: in_set_takeD in_set_dropD)

lemma recv_insert_bound:
  "length (osegments rb) \<le> maxGaps rb \<Longrightarrow> length (osegments (snd (recv_insert seg rb))) \<le> maxGaps rb
    \<and> maxGaps (snd (recv_insert seg rb)) = maxGaps rb"
  by (auto simp: recv_insert_def Let_def)

lemma collect_length: "collect segs next = (got, n, keep) \<Longrightarrow> length got + length keep = length segs"
proof (induction segs "next" arbitrary: got n keep rule: collect.induct)
  case (1 segs "next")
  obtain g m k where r: "collect_pass segs next = (g, m, k)" by (rule prod_cases3)
  obtain g' m' k' where r': "collect k m = (g', m', k')" by (rule prod_cases3)
  show ?case
  proof (cases "g = []")
    case True
    then show ?thesis using r 1(2) collect_pass_length [OF r] by (subst (asm) collect.simps) auto
  next
    case False
    have "got = g @ g'" "keep = k'" using 1(2) r r' False by (subst (asm) collect.simps, simp)+
    then show ?thesis using 1(1) [OF r [symmetric] refl False r'] collect_pass_length [OF r] by simp
  qed
qed

section \<open>Timeouts and the congestion window\<close>

definition rtt_ok :: "tcpRTTEstimator \<Rightarrow> bool" where
  "rtt_ok r \<longleftrightarrow> minRTO \<le> rto r \<and> rto r \<le> maxRTO"

lemma rtt_new_ok: "rtt_ok newTCPRTTEstimator"
  by (simp add: rtt_ok_def newTCPRTTEstimator_def)

lemma rtt_update_ok: "rtt_ok (rtt_update x r)"
  by (simp add: rtt_ok_def rtt_update_def Let_def)

lemma rtt_backoff_ok: "rtt_ok r \<Longrightarrow> rtt_ok (rtt_backoff r)"
  by (auto simp: rtt_ok_def rtt_backoff_def Let_def signed_divide_int_def)

lemma resetBackoff_ok: "rtt_ok r \<Longrightarrow> rtt_ok (resetBackoff r)"
  by (simp add: rtt_ok_def resetBackoff_def)

text \<open>The threshold stays above zero, so the window is never zero where it is divided by.\<close>

definition congestion_ok :: "tcpCongestionControl \<Rightarrow> bool" where
  "congestion_ok cc \<longleftrightarrow> 0 < ssthresh cc \<and> 0 < cmss cc"

lemma congestion_new_ok: "0 < m \<Longrightarrow> congestion_ok (newTCPCongestionControl m)"
  by (simp add: congestion_ok_def newTCPCongestionControl_def word_gt_0)

lemma onAck_ok: "congestion_ok cc \<Longrightarrow> \<exists>cc'. onAck n cc = Some cc' \<and> congestion_ok cc'"
  by (auto simp: congestion_ok_def onAck_def Let_def)

lemma halved_pos: "0 < cmss cc \<Longrightarrow> 0 < halved cc"
proof -
  assume "0 < cmss cc"
  then have "0 < unat (cmss cc)" by (simp add: word_less_nat_alt)
  moreover have "unat (cmss cc) < 65536" using unsigned_less [of "cmss cc"] by simp
  ultimately have "0 < unat (2 * ucast (cmss cc) :: u32)" by (simp add: unat_word_ariths unat_ucast_up)
  then show "0 < halved cc" by (auto simp: halved_def word_less_nat_alt not_less)
qed

lemma onDupAck_ok: "congestion_ok cc \<Longrightarrow> congestion_ok (snd (onDupAck cc))"
  by (auto simp: congestion_ok_def onDupAck_def Let_def halved_pos)

lemma onTimeout_ok: "congestion_ok cc \<Longrightarrow> congestion_ok (onTimeout cc)"
  by (auto simp: congestion_ok_def onTimeout_def halved_pos)

end
