(* ===== verification/NetPackets.thy ===== *)
theory NetPackets
  imports Prelude
begin

text \<open>
  The packets of the user-space network stack (\<^verbatim>\<open>netstack/netstack.go\<close>): hardware addresses, the Internet
  checksum, and the parsing and building of Ethernet, IPv4, UDP, TCP and ICMP headers. A function that
  fills a buffer in place is a function that returns the bytes; where it leaves bytes of the buffer
  alone, the old bytes are an argument. An IPv4 address is its four bytes.
\<close>

section \<open>Errors\<close>

datatype neterr =
    PacketTooShort nat
  | UnsupportedVersion u8
  | LengthMismatch nat
  | UDPLength u16
  | GuestMACUnknown
  | HostMACUnknown
  | BufferTooSmall
  | NotAttached
  | ConnClosed
  | TimedOut
  | BackendError
  | AddressInUse u16
  | NotUnicast
  | InvalidMAC nat
  | AlreadyAttached
  | DialFailed
  | NotIPv4
  | AccessDisabled
  | NotSynthetic

section \<open>Hardware addresses\<close>

abbreviation (input) macUnset :: u64 where "macUnset \<equiv> - 1"
abbreviation (input) macMask :: u64 where "macMask \<equiv> 0xffffffffffff"

definition macToUint64 :: "bytes \<Rightarrow> u64 option" where
  "macToUint64 m = (if length m \<noteq> 6 then None else Some (be_word m))"

definition mac_bytes :: "u64 \<Rightarrow> bytes" where
  "mac_bytes v = be_bytes 6 v"

definition macFromUint64 :: "u64 \<Rightarrow> bytes option" where
  "macFromUint64 v = (if v = macUnset then None else Some (mac_bytes (v AND macMask)))"

definition macIsSet :: "u64 \<Rightarrow> bool" where
  "macIsSet v \<longleftrightarrow> v \<noteq> macUnset"

definition macEqualUint64 :: "bytes \<Rightarrow> u64 \<Rightarrow> bool" where
  "macEqualUint64 addr mac \<longleftrightarrow> macIsSet mac \<and> macToUint64 addr = Some (mac AND macMask)"

definition writeMAC :: "bytes \<Rightarrow> u64 \<Rightarrow> bytes" where
  "writeMAC dst mac = (if length dst < 6 \<or> \<not> macIsSet mac then dst else mac_bytes mac @ drop 6 dst)"

definition isBroadcast :: "bytes \<Rightarrow> bool" where
  "isBroadcast addr \<longleftrightarrow> list_all (\<lambda>b. b = 0xff) addr"

section \<open>The Internet checksum\<close>

fun add_words :: "bytes \<Rightarrow> u32 \<Rightarrow> u32" where
  "add_words [] s = s"
| "add_words [b] s = s + push_bit 8 (ucast b)"
| "add_words (a # b # bs) s = add_words bs (s + ucast (be_word [a, b] :: u16))"

lemma fold_decreases:
  "drop_bit 16 (s :: u32) \<noteq> 0 \<Longrightarrow> unat ((s AND 0xffff) + drop_bit 16 s) = unat s mod 65536 + unat s div 65536
     \<and> unat s mod 65536 + unat s div 65536 < unat s"
proof -
  assume h: "drop_bit 16 s \<noteq> 0"
  have m: "unat (s AND 0xffff) = unat s mod 65536"
  proof -
    have "(0xffff :: u32) = mask 16" by (simp add: mask_eq_exp_minus_1)
    then have "s AND 0xffff = take_bit 16 s" by (simp only: take_bit_eq_mask)
    then have "unat (s AND 0xffff) = take_bit 16 (unat s)" by (simp only: unsigned_take_bit_eq)
    then show ?thesis by (simp add: take_bit_eq_mod)
  qed
  have d: "unat (drop_bit 16 s) = unat s div 65536" by (simp add: drop_bit_eq_div unat_div_distrib)
  have lt: "unat s < 2 ^ 32" using unsigned_less [of s] by simp
  have q: "unat s div 65536 \<noteq> 0" using h d by (metis unat_0 word_unat_eq_iff)
  have e: "unat s = 65536 * (unat s div 65536) + unat s mod 65536" by simp
  have r: "unat s mod 65536 < 65536" "unat s div 65536 < 65536" using lt by (simp_all add: less_mult_imp_div_less)
  have "unat ((s AND 0xffff) + drop_bit 16 s) = unat s mod 65536 + unat s div 65536"
    using unat_add_lt [of "s AND 0xffff" "drop_bit 16 s"] m d r by simp
  moreover have "unat s mod 65536 + unat s div 65536 < unat s" using q e by linarith
  ultimately show ?thesis by simp
qed

function fold_sum :: "u32 \<Rightarrow> u32" where
  "fold_sum s = (if drop_bit 16 s \<noteq> 0 then fold_sum ((s AND 0xffff) + drop_bit 16 s) else s)"
  by pat_completeness auto
termination by (relation "measure unat") (use fold_decreases in auto)

declare fold_sum.simps [simp del]

definition checksumWithInitial :: "bytes \<Rightarrow> u32 \<Rightarrow> u16" where
  "checksumWithInitial data initial = NOT (ucast (fold_sum (add_words data initial)))"

definition checksum :: "bytes \<Rightarrow> u16" where
  "checksum data = NOT (ucast (fold_sum (add_words data 0)))"

text \<open>The loop of \<^verbatim>\<open>ipv4Checksum\<close> tests and folds the sum in its own way.\<close>

lemma above_ffff: "0xffff < (s :: u32) \<longleftrightarrow> drop_bit 16 s \<noteq> 0"
proof -
  have "unat (drop_bit 16 s) = unat s div 65536" by (simp add: drop_bit_eq_div unat_div_distrib)
  then have "drop_bit 16 s = 0 \<longleftrightarrow> unat s div 65536 = 0" by (metis unat_0 word_unat_eq_iff)
  then show ?thesis by (auto simp: word_less_nat_alt div_eq_0_iff)
qed

function ipv4_fold :: "u32 \<Rightarrow> u32" where
  "ipv4_fold s = (if 0xffff < s then ipv4_fold (drop_bit 16 s + (s AND 0xffff)) else s)"
  by pat_completeness auto
termination by (relation "measure unat") (use fold_decreases above_ffff in \<open>auto simp: add.commute\<close>)

declare ipv4_fold.simps [simp del]

definition ipv4Checksum :: "bytes \<Rightarrow> u16" where
  "ipv4Checksum data = NOT (ucast (ipv4_fold (add_words data 0)))"

definition pseudoHeaderChecksum :: "bytes \<Rightarrow> bytes \<Rightarrow> u8 \<Rightarrow> nat \<Rightarrow> u32" where
  "pseudoHeaderChecksum src dst protocol n =
     ucast (be_word (take 2 src) :: u16) + ucast (be_word (take 2 (drop 2 src)) :: u16)
     + ucast (be_word (take 2 dst) :: u16) + ucast (be_word (take 2 (drop 2 dst)) :: u16)
     + ucast protocol + of_nat n"

abbreviation (input) tcpProtocolNumber :: u8 where "tcpProtocolNumber \<equiv> 6"
abbreviation (input) udpProtocolNumber :: u8 where "udpProtocolNumber \<equiv> 17"
abbreviation (input) icmpProtocol :: u8 where "icmpProtocol \<equiv> 1"

definition tcpChecksum :: "bytes \<Rightarrow> bytes \<Rightarrow> bytes \<Rightarrow> u16" where
  "tcpChecksum src dst payload = checksumWithInitial payload (pseudoHeaderChecksum src dst tcpProtocolNumber (length payload))"

definition udpChecksum :: "bytes \<Rightarrow> bytes \<Rightarrow> bytes \<Rightarrow> u16" where
  "udpChecksum src dst payload = checksumWithInitial payload (pseudoHeaderChecksum src dst udpProtocolNumber (length payload))"

section \<open>Ethernet and IPv4\<close>

abbreviation (input) etherTypeIPv4 :: u16 where "etherTypeIPv4 \<equiv> 0x0800"
abbreviation (input) etherTypeIPv6 :: u16 where "etherTypeIPv6 \<equiv> 0x86dd"
abbreviation (input) etherTypeARP :: u16 where "etherTypeARP \<equiv> 0x0806"
abbreviation (input) etherTypeCustom :: u16 where "etherTypeCustom \<equiv> 0x1234"

definition buildEthernetHeader :: "bytes \<Rightarrow> u64 \<Rightarrow> u64 \<Rightarrow> u16 \<Rightarrow> bytes" where
  "buildEthernetHeader buf dstMac srcMac etherType =
     writeMAC (take 6 buf) dstMac @ writeMAC (take 6 (drop 6 buf)) srcMac @ be_bytes 2 etherType"

record ipv4Header =
  iversion :: u8
  ihl :: u8
  tos :: u8
  ilength :: u16
  iid :: u16
  iflags :: u16
  ttl :: u8
  protocol :: u8
  ichecksum :: u16
  isrc :: bytes
  idst :: bytes
  ioptions :: bytes
  ipayload :: bytes

definition parseIPv4Header :: "bytes \<Rightarrow> neterr + ipv4Header" where
  "parseIPv4Header data =
     (if length data < 20 then Inl (PacketTooShort (length data))
      else let version = drop_bit 4 (data ! 0); ihl = data ! 0 AND 0x0f; headerLen = unat ihl * 4 in
        if version \<noteq> 4 then Inl (UnsupportedVersion version)
        else if length data < headerLen then Inl (LengthMismatch headerLen)
        else Inr \<lparr>iversion = version, ihl = ihl, tos = data ! 1, ilength = be_word (take 2 (drop 2 data)),
          iid = be_word (take 2 (drop 4 data)), iflags = be_word (take 2 (drop 6 data)), ttl = data ! 8, protocol = data ! 9,
          ichecksum = be_word (take 2 (drop 10 data)), isrc = take 4 (drop 12 data), idst = take 4 (drop 16 data),
          ioptions = (if 20 < headerLen then take (headerLen - 20) (drop 20 data) else []), ipayload = drop headerLen data\<rparr>)"

definition put_checksum :: "nat \<Rightarrow> u16 \<Rightarrow> bytes \<Rightarrow> bytes" where
  "put_checksum off c packet = take off packet @ be_bytes 2 c @ drop (off + 2) packet"

definition buildIPv4Header :: "bytes \<Rightarrow> bytes \<Rightarrow> u8 \<Rightarrow> nat \<Rightarrow> bytes" where
  "buildIPv4Header src dst proto payloadLen =
     (let packet = [0x45, 0] @ be_bytes 2 (of_nat (20 + payloadLen) :: u16) @ [0, 0, 0, 0, 64, proto, 0, 0] @ src @ dst in
      put_checksum 10 (ipv4Checksum packet) packet)"

section \<open>TCP and UDP\<close>

record tcpHeader =
  srcPort :: u16
  dstPort :: u16
  hseq :: u32
  hack :: u32
  dataOff :: u8
  hflags :: u16
  hwindow :: u16
  hchecksum :: u16
  urgent :: u16
  hoptions :: bytes
  hpayload :: bytes

definition parseTCPHeader :: "bytes \<Rightarrow> neterr + tcpHeader" where
  "parseTCPHeader data =
     (if length data < 20 then Inl (PacketTooShort (length data))
      else let hdrLen = unat (drop_bit 4 (data ! 12) * 4) in
        if length data < hdrLen then Inl (LengthMismatch hdrLen)
        else Inr \<lparr>srcPort = be_word (take 2 data), dstPort = be_word (take 2 (drop 2 data)), hseq = be_word (take 4 (drop 4 data)),
          hack = be_word (take 4 (drop 8 data)), dataOff = data ! 12, hflags = ucast (data ! 13),
          hwindow = be_word (take 2 (drop 14 data)), hchecksum = be_word (take 2 (drop 16 data)), urgent = be_word (take 2 (drop 18 data)),
          hoptions = (if 20 < hdrLen then take (hdrLen - 20) (drop 20 data) else []), hpayload = drop hdrLen data\<rparr>)"

record tcpFourTuple =
  ksrcIP :: bytes
  kdstIP :: bytes
  ksrcPort :: u16
  kdstPort :: u16

definition pad_options :: "bytes \<Rightarrow> bytes" where
  "pad_options options =
     (if length options mod 4 \<noteq> 0 then options @ replicate ((length options + 3) div 4 * 4 - length options) 0 else options)"

text \<open>The TCP segment of \<^verbatim>\<open>sendTCPPacketWithOptions\<close>.\<close>

definition tcp_packet :: "bytes \<Rightarrow> tcpFourTuple \<Rightarrow> u32 \<Rightarrow> u32 \<Rightarrow> u16 \<Rightarrow> bytes \<Rightarrow> bytes \<Rightarrow> bytes" where
  "tcp_packet localIPv4 key seq ack flags payload options0 =
     (let options = pad_options options0; headerLen = 20 + length options;
          packet = be_bytes 2 (kdstPort key) @ be_bytes 2 (ksrcPort key) @ be_bytes 4 seq @ be_bytes 4 ack
            @ [push_bit 4 (of_nat (headerLen div 4)), ucast flags] @ be_bytes 2 (0xffff :: u16) @ [0, 0] @ [0, 0] @ options @ payload in
      put_checksum 16 (tcpChecksum localIPv4 (ksrcIP key) packet) packet)"

definition udp_packet :: "u16 \<Rightarrow> u16 \<Rightarrow> bytes \<Rightarrow> bytes \<Rightarrow> bytes \<Rightarrow> bytes" where
  "udp_packet sport dport srcIP dstIP payload =
     (let packet = be_bytes 2 sport @ be_bytes 2 dport @ be_bytes 2 (of_nat (8 + length payload) :: u16) @ [0, 0] @ payload in
      put_checksum 6 (udpChecksum srcIP dstIP packet) packet)"

text \<open>The reply of \<^verbatim>\<open>sendICMPEchoReply\<close> to a request of at least eight bytes.\<close>

definition icmp_reply :: "bytes \<Rightarrow> bytes" where
  "icmp_reply request =
     (let reply = [0, request ! 1, 0, 0] @ drop 4 request in put_checksum 2 (checksum reply) reply)"

text \<open>An Ethernet frame around an IPv4 packet, in a buffer that held \<open>buf\<close>.\<close>

definition ipv4_frame :: "bytes \<Rightarrow> u64 \<Rightarrow> u64 \<Rightarrow> bytes \<Rightarrow> bytes \<Rightarrow> u8 \<Rightarrow> bytes \<Rightarrow> bytes" where
  "ipv4_frame buf dstMAC srcMAC src dst proto packet =
     buildEthernetHeader buf dstMAC srcMAC etherTypeIPv4 @ buildIPv4Header src dst proto (length packet) @ packet"

section \<open>The checksum as arithmetic\<close>

fun word_total :: "bytes \<Rightarrow> nat" where
  "word_total [] = 0"
| "word_total [b] = 256 * unat b"
| "word_total (a # b # bs) = 256 * unat a + unat b + word_total bs"

lemma unat_u8_lt: "unat (b :: u8) < 256"
  using unsigned_less [of b, where 'a = nat] by simp

lemma unat_be_word2: "unat (be_word [a, b] :: u16) = 256 * unat a + unat b"
proof -
  have "unat a < 256" "unat b < 256" using unat_u8_lt [of a] unat_u8_lt [of b] by simp_all
  moreover have "(be_word [a, b] :: u16) = of_nat (256 * unat a + unat b)"
  proof -
    have "(be_word [a, b] :: u16) = ucast b OR push_bit 8 (ucast a)" by (simp add: be_word_def)
    also have "\<dots> = push_bit 8 (ucast a) + ucast b"
      by (subst disjunctive_add) (auto simp: bit_simps or.commute dest: bit_imp_le_length)
    finally show ?thesis by (simp add: push_bit_eq_mult)
  qed
  ultimately show ?thesis by (simp only: unat_of_nat) simp
qed

lemma word_total_le: "word_total bs \<le> 65535 * ((length bs + 1) div 2)"
proof (induction bs rule: word_total.induct)
  case (2 b)
  then show ?case using unat_u8_lt [of b] by simp
next
  case (3 a b bs)
  then show ?case using unat_u8_lt [of a] unat_u8_lt [of b] by simp
qed simp

lemma unat_add_words:
  "unat s + word_total bs < 2 ^ 32 \<Longrightarrow> unat (add_words bs s) = unat s + word_total bs"
proof (induction bs s rule: add_words.induct)
  case (2 b s)
  have "unat (push_bit 8 (ucast b) :: u32) = 256 * unat b"
    using unat_u8_lt [of b] by (simp add: push_bit_eq_mult unat_word_ariths unat_ucast_up)
  then show ?case using 2 by (simp add: unat_add_lt)
next
  case (3 a b bs s)
  have u: "unat (ucast (be_word [a, b] :: u16) :: u32) = 256 * unat a + unat b" by (simp add: unat_ucast_up unat_be_word2)
  then have "unat (s + ucast (be_word [a, b] :: u16)) = unat s + (256 * unat a + unat b)" using 3 by (subst unat_add_lt) simp_all
  then show ?case using 3 by simp
qed simp

text \<open>Folding is reduction modulo \<open>2 ^ 16 - 1\<close>, with the representative \<open>2 ^ 16 - 1\<close> for a sum that is not zero.\<close>

definition ones_sum :: "nat \<Rightarrow> nat" where
  "ones_sum n = (if n = 0 then 0 else Suc ((n - 1) mod 65535))"

lemma ones_sum_fold: "ones_sum (n mod 65536 + n div 65536) = ones_sum n"
proof (cases "n = 0")
  case False
  let ?m = "n mod 65536 + n div 65536"
  have "n = 65536 * (n div 65536) + n mod 65536" by simp
  then have n: "n = ?m + 65535 * (n div 65536)" by linarith
  have "?m \<noteq> 0" using False n by auto
  then have "(n - 1) mod 65535 = (?m - 1 + 65535 * (n div 65536)) mod 65535" using n by (metis Nat.add_diff_assoc2 One_nat_def Suc_leI gr0I)
  then have "(n - 1) mod 65535 = (?m - 1) mod 65535" by (simp only: mod_mult_self2)
  then show ?thesis using False \<open>?m \<noteq> 0\<close> by (simp add: ones_sum_def)
qed simp

lemma unat_fold_sum: "unat (fold_sum s) = ones_sum (unat s)"
proof (induction s rule: fold_sum.induct)
  case (1 s)
  show ?case
  proof (cases "drop_bit 16 s = 0")
    case True
    then have "unat s < 65536" using above_ffff [of s] by (simp add: word_less_nat_alt)
    then have "ones_sum (unat s) = unat s" by (auto simp: ones_sum_def)
    then show ?thesis using True by (subst fold_sum.simps) simp
  next
    case False
    then show ?thesis using 1 fold_decreases [OF False] by (subst fold_sum.simps) (simp add: ones_sum_fold)
  qed
qed

lemma ipv4_fold_eq: "ipv4_fold s = fold_sum s"
proof (induction s rule: ipv4_fold.induct)
  case (1 s)
  then show ?case by (subst ipv4_fold.simps, subst fold_sum.simps) (auto simp: above_ffff add.commute)
qed

lemma ipv4Checksum_eq: "ipv4Checksum data = checksum data"
  by (simp add: ipv4Checksum_def checksum_def ipv4_fold_eq)

lemma checksum_eq: "checksum data = checksumWithInitial data 0"
  by (simp add: checksum_def checksumWithInitial_def)

lemma ones_sum_le: "ones_sum n \<le> 65535"
  by (simp add: ones_sum_def Suc_le_eq)

lemma unat_checksum:
  assumes "unat i + word_total data < 2 ^ 32"
  shows "unat (checksumWithInitial data i) = 65535 - ones_sum (unat i + word_total data)"
proof -
  let ?f = "fold_sum (add_words data i)"
  have f: "unat ?f = ones_sum (unat i + word_total data)" using unat_add_words [OF assms] by (simp add: unat_fold_sum)
  then have "unat ?f < 2 ^ 16" using ones_sum_le [of "unat i + word_total data"] by simp
  then have "unat (ucast ?f :: u16) = unat ?f" by (simp add: unsigned_ucast_eq take_bit_nat_eq_self)
  moreover have "unat (NOT (w :: u16)) = 65535 - unat w" for w
  proof -
    have "NOT w = - 1 - w" "unat (- 1 :: u16) = 65535" by (simp_all add: not_eq_complement unsigned_minus_1_eq_mask mask_eq_exp_minus_1)
    then show ?thesis using unat_minus_le [of w "- 1"] by (simp only:) simp
  qed
  ultimately show ?thesis using f by (simp add: checksumWithInitial_def)
qed

section \<open>A stored checksum verifies\<close>

lemma word_total_append: "even (length xs) \<Longrightarrow> word_total (xs @ ys) = word_total xs + word_total ys"
  by (induction xs rule: word_total.induct) auto

lemma be_bytes2: "be_bytes 2 (c :: u16) = [ucast (drop_bit 8 c), ucast c]"
  by (simp add: be_bytes_def le_bytes_def upt_rec numeral_2_eq_2)

lemma word_total_be_bytes: "word_total (be_bytes 2 (c :: u16)) = unat c"
proof -
  have "be_word (be_bytes 2 c) = c" by (simp add: be_word_be_bytes)
  then show ?thesis using unat_be_word2 [of "ucast (drop_bit 8 c)" "ucast c"] by (simp add: be_bytes2)
qed

lemma put_checksum_at:
  "length xs = off \<Longrightarrow> put_checksum off c (xs @ [a, b] @ ys) = xs @ be_bytes 2 c @ ys"
  by (simp add: put_checksum_def)

lemma stored_checksum_verifies:
  assumes "even (length xs)" "unat i + word_total (xs @ [0, 0] @ ys) + 65535 < 2 ^ 32"
    "c = checksumWithInitial (xs @ [0, 0] @ ys) i"
  shows "checksumWithInitial (xs @ be_bytes 2 c @ ys) i = 0"
proof -
  let ?n = "unat i + word_total (xs @ [0, 0] @ ys)"
  have c: "unat c = 65535 - ones_sum ?n" using assms(2,3) by (simp add: unat_checksum)
  have t: "unat i + word_total (xs @ be_bytes 2 c @ ys) = ?n + unat c"
    using assms(1) by (simp add: word_total_append word_total_be_bytes)
  have "ones_sum (?n + unat c) = 65535"
  proof (cases "?n = 0")
    case True
    then show ?thesis using c by (simp add: ones_sum_def)
  next
    case False
    define N where "N = ?n"
    define m where "m = N - 1"
    have N: "N = Suc m" using False by (simp add: N_def m_def)
    have "unat c = 65534 - m mod 65535" using c N unfolding N_def [symmetric] by (simp add: ones_sum_def)
    moreover have "m = 65535 * (m div 65535) + m mod 65535" "m mod 65535 < 65535" by simp_all
    ultimately have "N + unat c - 1 = 65535 * (m div 65535) + 65534" using N by linarith
    then have "?n + unat c - 1 = 65535 * (m div 65535) + 65534" by (simp only: N_def)
    then have "(?n + unat c - 1) mod 65535 = 65534" by simp
    then show ?thesis using False by (auto simp: ones_sum_def)
  qed
  then have "unat (checksumWithInitial (xs @ be_bytes 2 c @ ys) i) = 0"
    using unat_checksum [of i "xs @ be_bytes 2 c @ ys"] t assms(2) c by simp
  then show ?thesis by (simp add: unat_eq_0)
qed

lemma pseudo_le: "n \<le> 70000 \<Longrightarrow> unat (pseudoHeaderChecksum src dst p n) \<le> 400000"
proof -
  assume n: "n \<le> 70000"
  have w: "unat (ucast (x :: u16) :: u32) \<le> 65535" for x using unsigned_less [of x, where 'a = nat] by (simp add: unat_ucast_up)
  have p: "unat (ucast p :: u32) \<le> 255" using unat_u8_lt [of p] by (simp add: unat_ucast_up)
  have o: "unat (of_nat n :: u32) \<le> 70000" using n by (simp add: unat_of_nat)
  have plus: "unat (a + b :: u32) \<le> unat a + unat b" for a b by (simp add: unat_word_ariths)
  show ?thesis unfolding pseudoHeaderChecksum_def
    by (rule order_trans [OF plus order_trans [OF add_mono [OF order_trans [OF plus add_mono [OF order_trans [OF plus
        add_mono [OF order_trans [OF plus add_mono [OF order_trans [OF plus add_mono [OF w w]] w]] w]] p]] o]]]) simp
qed

lemma transport_checksum_verifies:
  assumes "even (length xs)" "length xs + length ys \<le> 69998"
    "c = checksumWithInitial (xs @ [0, 0] @ ys) (pseudoHeaderChecksum src dst p (length (xs @ [0, 0] @ ys)))"
  shows "checksumWithInitial (xs @ be_bytes 2 c @ ys) (pseudoHeaderChecksum src dst p (length (xs @ be_bytes 2 c @ ys))) = 0"
proof -
  let ?l = "length (xs @ [0, 0 :: u8] @ ys)"
  have "word_total (xs @ [0, 0] @ ys) \<le> 65535 * ((?l + 1) div 2)" by (rule word_total_le)
  also have "\<dots> \<le> 65535 * 35001" using assms(2) by simp
  finally have "unat (pseudoHeaderChecksum src dst p ?l) + word_total (xs @ [0, 0] @ ys) + 65535 < 2 ^ 32"
    using pseudo_le [of ?l src dst p] assms(2) by simp
  from stored_checksum_verifies [OF assms(1) this assms(3)] show ?thesis by simp
qed

section \<open>Headers read back\<close>

lemma ipv4_header_layout:
  assumes "length src = 4" "length dst = 4"
  obtains c :: u16 where "buildIPv4Header src dst proto n =
      [0x45, 0] @ be_bytes 2 (of_nat (20 + n) :: u16) @ [0, 0, 0, 0, 64, proto] @ be_bytes 2 c @ src @ dst"
    "ipv4Checksum (buildIPv4Header src dst proto n) = 0"
proof -
  let ?h = "[0x45, 0] @ be_bytes 2 (of_nat (20 + n) :: u16) @ [0, 0, 0, 0, 64, proto]"
  let ?c = "ipv4Checksum (?h @ [0, 0] @ src @ dst)"
  have h: "length ?h = 10" by simp
  have b: "buildIPv4Header src dst proto n = ?h @ be_bytes 2 ?c @ src @ dst"
    using put_checksum_at [OF h, of ?c 0 0 "src @ dst"] by (simp add: buildIPv4Header_def Let_def)
  have "word_total (?h @ [0, 0] @ src @ dst) \<le> 65535 * 10"
    using word_total_le [of "?h @ [0, 0] @ src @ dst"] assms by simp
  then have "checksumWithInitial (?h @ be_bytes 2 ?c @ src @ dst) 0 = 0"
    by (intro stored_checksum_verifies) (simp_all add: ipv4Checksum_eq checksum_eq)
  then show ?thesis using b by (intro that [of ?c]) (simp_all add: ipv4Checksum_eq checksum_eq)
qed

lemma ipv4_header_facts:
  assumes "length src = 4" "length dst = 4"
  shows "length (buildIPv4Header src dst proto n) = 20" "ipv4Checksum (buildIPv4Header src dst proto n) = 0"
proof -
  obtain c :: u16 where "buildIPv4Header src dst proto n =
      [0x45, 0] @ be_bytes 2 (of_nat (20 + n) :: u16) @ [0, 0, 0, 0, 64, proto] @ be_bytes 2 c @ src @ dst"
    "ipv4Checksum (buildIPv4Header src dst proto n) = 0"
    by (rule ipv4_header_layout [OF assms])
  then show "length (buildIPv4Header src dst proto n) = 20" "ipv4Checksum (buildIPv4Header src dst proto n) = 0"
    using assms by simp_all
qed

lemma parse_built_ipv4:
  assumes "length src = 4" "length dst = 4"
  shows "\<exists>h. parseIPv4Header (buildIPv4Header src dst proto n @ packet) = Inr h \<and> isrc h = src \<and> idst h = dst
    \<and> protocol h = proto \<and> ilength h = of_nat (20 + n) \<and> ipayload h = packet \<and> ioptions h = [] \<and> ihl h = 5"
proof -
  obtain c :: u16 where c: "buildIPv4Header src dst proto n =
      [0x45, 0] @ be_bytes 2 (of_nat (20 + n) :: u16) @ [0, 0, 0, 0, 64, proto] @ be_bytes 2 c @ src @ dst"
    using ipv4_header_layout [OF assms] by metis
  have e: "be_word [ucast (drop_bit 8 (x :: u16)), ucast x] = x" for x using be_word_be_bytes [of 2 x] by (simp add: be_bytes2)
  have v: "drop_bit 4 (0x45 :: u8) = 4" "(0x45 :: u8) AND 0x0f = 5" by code_simp+
  show ?thesis using assms unfolding c parseIPv4Header_def be_bytes2 Let_def by (simp add: v e)
qed

lemma data_offset:
  assumes "20 \<le> n" "n \<le> 60" "n mod 4 = 0"
  shows "unat (drop_bit 4 (push_bit 4 (of_nat (n div 4)) :: u8) * 4) = n"
proof -
  have "list_all (\<lambda>k. unat (drop_bit 4 (push_bit 4 (of_nat k) :: u8) * 4) = k * 4) [0..<16]" by code_simp
  moreover have "n div 4 < 16" using assms(2) by simp
  ultimately have "unat (drop_bit 4 (push_bit 4 (of_nat (n div 4)) :: u8) * 4) = n div 4 * 4" by (simp add: list_all_iff)
  then show ?thesis using assms(3) by presburger
qed

lemma length_pad_options: "length options \<le> 40 \<Longrightarrow> length (pad_options options) \<le> 40 \<and> length (pad_options options) mod 4 = 0"
  by (auto simp: pad_options_def)

lemma tcp_packet_layout:
  assumes "length options \<le> 40" "length payload \<le> 65535"
  obtains c :: u16 where "tcp_packet local key sq ak flags payload options =
      be_bytes 2 (kdstPort key) @ be_bytes 2 (ksrcPort key) @ be_bytes 4 sq @ be_bytes 4 ak
        @ [push_bit 4 (of_nat ((20 + length (pad_options options)) div 4)), ucast flags] @ be_bytes 2 (0xffff :: u16)
        @ be_bytes 2 c @ [0, 0] @ pad_options options @ payload"
    "tcpChecksum local (ksrcIP key) (tcp_packet local key sq ak flags payload options) = 0"
proof -
  let ?h = "be_bytes 2 (kdstPort key) @ be_bytes 2 (ksrcPort key) @ be_bytes 4 sq @ be_bytes 4 ak
      @ [push_bit 4 (of_nat ((20 + length (pad_options options)) div 4)), ucast flags] @ be_bytes 2 (0xffff :: u16)"
  let ?t = "[0, 0] @ pad_options options @ payload"
  let ?c = "tcpChecksum local (ksrcIP key) (?h @ [0, 0] @ ?t)"
  have h: "length ?h = 16" by simp
  have b: "tcp_packet local key sq ak flags payload options = ?h @ be_bytes 2 ?c @ ?t"
    using put_checksum_at [OF h, of ?c 0 0 ?t] by (simp add: tcp_packet_def Let_def)
  have l: "length ?h + length ?t \<le> 69998" using length_pad_options [OF assms(1)] assms(2) by simp
  have "tcpChecksum local (ksrcIP key) (?h @ be_bytes 2 ?c @ ?t) = 0"
    unfolding tcpChecksum_def
    by (rule transport_checksum_verifies [OF _ l refl]) simp
  then show ?thesis using b by (intro that [of ?c]) simp_all
qed

lemma parse_built_tcp:
  assumes "length options \<le> 40" "length payload \<le> 65535"
  shows "\<exists>t. parseTCPHeader (tcp_packet local key sq ak flags payload options) = Inr t \<and> srcPort t = kdstPort key
    \<and> dstPort t = ksrcPort key \<and> hseq t = sq \<and> hack t = ak \<and> hflags t = flags AND 0xff \<and> hwindow t = 0xffff
    \<and> hoptions t = pad_options options \<and> hpayload t = payload"
proof -
  let ?o = "pad_options options"
  obtain c :: u16 where c: "tcp_packet local key sq ak flags payload options =
      be_bytes 2 (kdstPort key) @ be_bytes 2 (ksrcPort key) @ be_bytes 4 sq @ be_bytes 4 ak
        @ [push_bit 4 (of_nat ((20 + length ?o) div 4)), ucast flags] @ be_bytes 2 (0xffff :: u16)
        @ be_bytes 2 c @ [0, 0] @ ?o @ payload"
    using tcp_packet_layout [OF assms] by metis
  have o: "length ?o \<le> 40" "length ?o mod 4 = 0" using length_pad_options [OF assms(1)] by auto
  then have "(20 + length ?o) mod 4 = 0" by presburger
  then have d: "unat (drop_bit 4 (push_bit 4 (of_nat ((20 + length ?o) div 4)) :: u8) * 4) = 20 + length ?o"
    using o(1) by (intro data_offset) simp_all
  have w: "be_word (be_bytes 2 (x :: u16)) = x" "be_word (be_bytes 4 (y :: u32)) = y" for x y by (simp_all add: be_word_be_bytes)
  have f: "ucast (ucast flags :: u8) = flags AND 0xff"
  proof -
    have m: "(0xff :: u16) = mask 8" by (simp add: mask_eq_exp_minus_1)
    show ?thesis unfolding m by (rule bit_word_eqI) (auto simp: bit_simps)
  qed
  have n: "tcp_packet local key sq ak flags payload options ! 12 = push_bit 4 (of_nat ((20 + length ?o) div 4))"
    "tcp_packet local key sq ak flags payload options ! 13 = ucast flags"
    by (simp_all add: c nth_append)
  have l: "\<not> length (tcp_packet local key sq ak flags payload options) < 20 + length ?o" by (simp add: c)
  have dr: "drop (20 + length ?o) (tcp_packet local key sq ak flags payload options) = payload"
  proof -
    let ?h = "be_bytes 2 (kdstPort key) @ be_bytes 2 (ksrcPort key) @ be_bytes 4 sq @ be_bytes 4 ak
        @ [push_bit 4 (of_nat ((20 + length ?o) div 4)), ucast flags] @ be_bytes 2 (0xffff :: u16) @ be_bytes 2 c @ [0, 0] @ ?o"
    have "tcp_packet local key sq ak flags payload options = ?h @ payload" "length ?h = 20 + length ?o" by (simp_all add: c)
    then show ?thesis by (metis append_eq_conv_conj)
  qed
  show ?thesis unfolding parseTCPHeader_def n d Let_def dr using l by (auto simp: c w f)
qed

text \<open>
  C12. What the stack sends is what a receiver reads: a TCP segment in its Ethernet frame parses to the
  addresses, ports, sequence numbers, flags, options and payload it was built from, its length field is
  exact, and both the header checksum and the segment checksum verify.
\<close>

theorem tcp_frame_round_trip:
  assumes "length local = 4" "length (ksrcIP key) = 4" "length options \<le> 40" "length payload \<le> 65000"
    "length buf = 14" "macIsSet dmac" "macIsSet smac"
    "frame = ipv4_frame buf dmac smac local (ksrcIP key) 6 (tcp_packet local key sq ak flags payload options)"
  shows "take 6 frame = mac_bytes dmac \<and> take 6 (drop 6 frame) = mac_bytes smac
    \<and> be_word (take 2 (drop 12 frame)) = etherTypeIPv4 \<and> ipv4Checksum (take 20 (drop 14 frame)) = 0
    \<and> (\<exists>h t. parseIPv4Header (drop 14 frame) = Inr h \<and> isrc h = local \<and> idst h = ksrcIP key \<and> protocol h = 6
        \<and> unat (ilength h) = length frame - 14 \<and> tcpChecksum local (ksrcIP key) (ipayload h) = 0
        \<and> parseTCPHeader (ipayload h) = Inr t \<and> srcPort t = kdstPort key \<and> dstPort t = ksrcPort key
        \<and> hseq t = sq \<and> hack t = ak \<and> hflags t = flags AND 0xff \<and> hoptions t = pad_options options \<and> hpayload t = payload)"
proof -
  let ?p = "tcp_packet local key sq ak flags payload options"
  let ?ip = "buildIPv4Header local (ksrcIP key) 6 (length ?p)"
  have len: "length payload \<le> 65535" using assms(4) by simp
  note ip = ipv4_header_facts [OF assms(1,2), of 6 "length ?p"]
  have eth: "buildEthernetHeader buf dmac smac etherTypeIPv4 = mac_bytes dmac @ mac_bytes smac @ be_bytes 2 etherTypeIPv4"
    using assms(5-7) by (simp add: buildEthernetHeader_def writeMAC_def)
  have m: "length (mac_bytes x) = 6" for x by (simp add: mac_bytes_def)
  have fr: "frame = mac_bytes dmac @ mac_bytes smac @ be_bytes 2 etherTypeIPv4 @ ?ip @ ?p"
    by (simp add: assms(8) ipv4_frame_def eth)
  have pl: "length ?p = 20 + length (pad_options options) + length payload" "tcpChecksum local (ksrcIP key) ?p = 0"
    by (rule tcp_packet_layout [OF assms(3) len, of local key sq ak flags], simp)+
  obtain h where h: "parseIPv4Header (?ip @ ?p) = Inr h" "isrc h = local" "idst h = ksrcIP key" "protocol h = 6"
      "ilength h = of_nat (20 + length ?p)" "ipayload h = ?p"
    using parse_built_ipv4 [OF assms(1,2), of 6 "length ?p" ?p] by auto
  have "20 + length ?p < 2 ^ 16" using pl(1) length_pad_options [OF assms(3)] assms(4) by simp
  then have "unat (ilength h) = 20 + length ?p" unfolding h(5) unat_of_nat by simp
  moreover have "drop 14 frame = ?ip @ ?p" "length frame = 34 + length ?p" using ip(1) by (simp_all add: fr m)
  moreover have "take 6 frame = mac_bytes dmac" "take 6 (drop 6 frame) = mac_bytes smac"
      "be_word (take 2 (drop 12 frame)) = etherTypeIPv4"
    by (simp_all add: fr m be_word_be_bytes)
  moreover note h pl(2) ip parse_built_tcp [OF assms(3) len, of local key sq ak flags]
  ultimately show ?thesis by auto
qed

definition demo_key :: tcpFourTuple where
  "demo_key = \<lparr>ksrcIP = [10, 42, 0, 2], kdstIP = [10, 42, 0, 1], ksrcPort = 40000, kdstPort = 80\<rparr>"

theorem tcp_frame_round_trip_witness:
  "ipv4Checksum (take 20 (drop 14 (ipv4_frame (replicate 14 0) 0x020000000002 0x020000000001 [10, 42, 0, 1] [10, 42, 0, 2] 6
     (tcp_packet [10, 42, 0, 1] demo_key 7 9 0x18 [104, 105] [])))) = 0"
  using tcp_frame_round_trip [where local = "[10, 42, 0, 1]" and key = demo_key and options = "[]" and payload = "[104, 105]"
      and buf = "replicate 14 0" and dmac = "0x020000000002" and smac = "0x020000000001" and sq = 7 and ak = 9 and flags = "0x18", OF _ _ _ _ _ _ _ refl]
  by (simp add: demo_key_def macIsSet_def)

lemma udp_packet_facts:
  assumes "length payload \<le> 65000"
  shows "\<exists>c :: u16. udp_packet sport dport src dst payload =
      be_bytes 2 sport @ be_bytes 2 dport @ be_bytes 2 (of_nat (8 + length payload) :: u16) @ be_bytes 2 c @ payload
    \<and> udpChecksum src dst (udp_packet sport dport src dst payload) = 0"
proof -
  let ?h = "be_bytes 2 sport @ be_bytes 2 dport @ be_bytes 2 (of_nat (8 + length payload) :: u16)"
  let ?c = "udpChecksum src dst (?h @ [0, 0] @ payload)"
  have h: "length ?h = 6" by simp
  have b: "udp_packet sport dport src dst payload = ?h @ be_bytes 2 ?c @ payload"
    using put_checksum_at [OF h, of ?c 0 0 payload] by (simp add: udp_packet_def Let_def)
  have l: "length ?h + length payload \<le> 69998" using assms by simp
  have "udpChecksum src dst (?h @ be_bytes 2 ?c @ payload) = 0"
    unfolding udpChecksum_def by (rule transport_checksum_verifies [OF _ l refl]) simp
  then show ?thesis using b by (intro exI [of _ ?c]) simp
qed

lemma icmp_reply_facts:
  assumes "8 \<le> length request" "length request \<le> 65535"
  shows "length (icmp_reply request) = length request \<and> icmp_reply request ! 0 = 0 \<and> drop 4 (icmp_reply request) = drop 4 request
    \<and> checksum (icmp_reply request) = 0"
proof -
  let ?h = "[0, request ! 1]" and ?t = "drop 4 request"
  let ?c = "checksum (?h @ [0, 0] @ ?t)"
  have b: "icmp_reply request = ?h @ be_bytes 2 ?c @ ?t"
    using put_checksum_at [of ?h 2 ?c 0 0 ?t] by (simp add: icmp_reply_def Let_def)
  have "word_total (?h @ [0, 0] @ ?t) \<le> 65535 * 32769"
    using word_total_le [of "?h @ [0, 0] @ ?t"] assms by (simp add: le_trans [OF _ mult_le_mono2])
  then have "checksumWithInitial (?h @ be_bytes 2 ?c @ ?t) 0 = 0"
    by (intro stored_checksum_verifies) (simp_all add: checksum_eq)
  then show ?thesis using b assms(1) by (simp add: checksum_eq be_bytes2)
qed

end
