(* ===== verification/TcpConn.thy ===== *)
theory TcpConn
  imports TcpBuffers NetPackets
begin

text \<open>
  A TCP connection of the user-space network stack (\<^verbatim>\<open>tcpConn\<close> in \<^verbatim>\<open>netstack/netstack.go\<close>). A call runs to its
  end in one step, except that \<^verbatim>\<open>Write\<close> is split where it sends a packet, since the reply may come in before
  the packet is queued for retransmission. What the connection sends, and what it tells its listener, is
  logged; whether sending fails is a function of what was sent before. A result \<open>None\<close> is a call that does
  not return: it panics, or runs for ever in the option parser. Deadlines, tracing and the debug
  snapshot are left out, and the buffers that are set when a connection is made are taken to be there.
\<close>

section \<open>State\<close>

datatype tcpState = SynRcvd | SynSent | Established | FinWait | Closed

datatype dial_state = NoDial | Dialing | Dialed bool

datatype conn_event = Accepted | Callback | Removed

record sent_packet =
  pseq :: u32
  pack :: u32
  pflags :: u16
  ppayload :: bytes
  poptions :: bytes

record tcpConn =
  state :: tcpState
  guestSeq :: u32
  hostSeq :: u32
  sendAcked :: u32
  peerWnd :: u16
  recvBuf :: "bytes option list"
  readPending :: bytes
  closed :: bool
  writeClosed :: bool
  sendBuf :: tcpSendBuffer
  rttEst :: tcpRTTEstimator
  retxTimer :: "int option"
  retxCount :: nat
  oooRecvBuf :: tcpRecvBuffer
  mss :: u16
  peerMSS :: u16
  peerWndScale :: u8
  ourWndScale :: u8
  wndScaleOK :: bool
  congCtrl :: tcpCongestionControl
  dupAcks :: nat
  nagleEnabled :: bool
  nagleBuf :: bytes
  dial :: dial_state
  listener :: "bool option"
  onEstablished :: bool
  sent :: "sent_packet list"
  sendFails :: "sent_packet list \<Rightarrow> sent_packet \<Rightarrow> bool"
  events :: "conn_event list"

abbreviation (input) FIN :: u16 where "FIN \<equiv> 0x01"
abbreviation (input) SYN :: u16 where "SYN \<equiv> 0x02"
abbreviation (input) RST :: u16 where "RST \<equiv> 0x04"
abbreviation (input) PSH :: u16 where "PSH \<equiv> 0x08"
abbreviation (input) ACK :: u16 where "ACK \<equiv> 0x10"
abbreviation (input) defaultMSS :: u16 where "defaultMSS \<equiv> 1460"
abbreviation (input) recvBufCap :: nat where "recvBufCap \<equiv> 512"

text \<open>
  \<open>lis\<close> is whether there is a listener and if so whether it takes the connection, rather than being closed;
  \<open>cb\<close> whether there is a callback for the established connection.
\<close>

definition newTCPConn :: "u32 \<Rightarrow> u16 \<Rightarrow> u32 \<Rightarrow> bool option \<Rightarrow> bool \<Rightarrow> (sent_packet list \<Rightarrow> sent_packet \<Rightarrow> bool) \<Rightarrow> tcpConn" where
  "newTCPConn gseq wnd initialSeq lis cb fails =
     \<lparr>state = SynRcvd, guestSeq = gseq + 1, hostSeq = initialSeq, sendAcked = initialSeq,
      peerWnd = (if wnd = 0 then 0xffff else wnd), recvBuf = [], readPending = [], closed = False, writeClosed = False,
      sendBuf = newTCPSendBuffer 262144, rttEst = newTCPRTTEstimator, retxTimer = None, retxCount = 0,
      oooRecvBuf = newTCPRecvBuffer 16, mss = defaultMSS, peerMSS = defaultMSS, peerWndScale = 0, ourWndScale = 0,
      wndScaleOK = False, congCtrl = newTCPCongestionControl defaultMSS, dupAcks = 0, nagleEnabled = False, nagleBuf = [],
      dial = NoDial, listener = lis, onEstablished = cb, sent = [], sendFails = fails, events = []\<rparr>"

section \<open>Sending\<close>

text \<open>\<^verbatim>\<open>sendTCPPacketWithOptions\<close>: whether it went out, and the connection.\<close>

definition sendTCPPacket :: "sent_packet \<Rightarrow> tcpConn \<Rightarrow> bool \<times> tcpConn" where
  "sendTCPPacket p c = (\<not> sendFails c (sent c) p, c\<lparr>sent := sent c @ [p]\<rparr>)"

definition segment_packet :: "u32 \<Rightarrow> u32 \<Rightarrow> u16 \<Rightarrow> bytes \<Rightarrow> bytes \<Rightarrow> sent_packet" where
  "segment_packet sq ak fl pl opts = \<lparr>pseq = sq, pack = ak, pflags = fl, ppayload = pl, poptions = opts\<rparr>"

definition sendAck :: "tcpConn \<Rightarrow> tcpConn" where
  "sendAck c = snd (sendTCPPacket (segment_packet (hostSeq c) (guestSeq c) ACK [] []) c)"

definition sendFin :: "tcpConn \<Rightarrow> tcpConn" where
  "sendFin c = snd (sendTCPPacket (segment_packet (hostSeq c) (guestSeq c) (FIN OR ACK) [] []) (c\<lparr>hostSeq := hostSeq c + 1\<rparr>))"

definition sendSyn :: "tcpConn \<Rightarrow> bool \<times> tcpConn" where
  "sendSyn c = sendTCPPacket (segment_packet (hostSeq c) 0 SYN [] (buildSynAckOptions defaultMSS 7 True)) (c\<lparr>hostSeq := hostSeq c + 1\<rparr>)"

definition retransmitSyn :: "tcpConn \<Rightarrow> bool \<times> tcpConn" where
  "retransmitSyn c =
     (if closed c \<or> state c \<noteq> SynSent then (False, c)
      else sendTCPPacket (segment_packet (hostSeq c - 1) 0 SYN [] (buildSynAckOptions defaultMSS 7 True)) c)"

definition sendSynAck :: "tcpConn \<Rightarrow> tcpConn" where
  "sendSynAck c = snd (sendTCPPacket (segment_packet (hostSeq c) (guestSeq c) (SYN OR ACK) []
     (buildSynAckOptions defaultMSS (ourWndScale c) (wndScaleOK c))) (c\<lparr>hostSeq := hostSeq c + 1\<rparr>))"

section \<open>Timers, closing and the queue to the reader\<close>

definition startRetxTimer :: "tcpConn \<Rightarrow> tcpConn" where
  "startRetxTimer c = (if retxTimer c \<noteq> None then c else c\<lparr>retxTimer := Some (rto (rttEst c))\<rparr>)"

definition restartRetxTimer :: "tcpConn \<Rightarrow> tcpConn" where
  "restartRetxTimer c = c\<lparr>retxTimer := Some (rto (rttEst c))\<rparr>"

definition stopRetxTimer :: "tcpConn \<Rightarrow> tcpConn" where
  "stopRetxTimer c = c\<lparr>retxTimer := None\<rparr>"

definition completeDial :: "bool \<Rightarrow> tcpConn \<Rightarrow> tcpConn" where
  "completeDial ok c = (if dial c = Dialing then c\<lparr>dial := Dialed ok\<rparr> else c)"

definition conn_Close :: "tcpConn \<Rightarrow> tcpConn" where
  "conn_Close c =
     (if closed c then c
      else let needFin = (state c = Established \<and> \<not> writeClosed c);
               c1 = completeDial False (c\<lparr>state := Closed, closed := True\<rparr>);
               c2 = stopRetxTimer (c1\<lparr>readPending := []\<rparr>);
               c3 = c2\<lparr>sendBuf := send_clear (sendBuf c2), oooRecvBuf := recv_clear (oooRecvBuf c2)\<rparr>;
               c4 = (if needFin then sendFin c3 else c3) in
           c4\<lparr>events := events c4 @ [Removed]\<rparr>)"

datatype close_result = CloseOk | CloseErr

definition CloseWrite :: "tcpConn \<Rightarrow> close_result \<times> tcpConn" where
  "CloseWrite c =
     (if closed c \<or> writeClosed c then (CloseOk, c)
      else if state c \<noteq> Established then (CloseErr, c)
      else (CloseOk, sendFin (c\<lparr>writeClosed := True\<rparr>)))"

text \<open>A payload, or \<open>None\<close> for the end of the stream, goes to the reader's queue, or is dropped when it is full.\<close>

definition enqueueData :: "bytes option \<Rightarrow> tcpConn \<Rightarrow> tcpConn" where
  "enqueueData d c =
     (if closed c then c else if length (recvBuf c) < recvBufCap then c\<lparr>recvBuf := recvBuf c @ [d]\<rparr> else c)"

datatype read_result = ReadData bytes | ReadEOF | ReadClosed | ReadBlocks

definition conn_Read :: "nat \<Rightarrow> tcpConn \<Rightarrow> read_result \<times> tcpConn" where
  "conn_Read n c =
     (if readPending c \<noteq> [] then (ReadData (take n (readPending c)), c\<lparr>readPending := drop n (readPending c)\<rparr>)
      else case recvBuf c of
        [] \<Rightarrow> ((if closed c then ReadClosed else ReadBlocks), c)
      | None # ds \<Rightarrow> (ReadEOF, c\<lparr>recvBuf := ds\<rparr>)
      | Some d # ds \<Rightarrow>
          let c1 = c\<lparr>recvBuf := ds\<rparr> in
          (ReadData (take n d), if n < length d \<and> \<not> closed c1 then c1\<lparr>readPending := drop n d\<rparr> else c1))"

definition nextReadPayload :: "tcpConn \<Rightarrow> read_result \<times> tcpConn" where
  "nextReadPayload c =
     (if readPending c \<noteq> [] then (ReadData (readPending c), c\<lparr>readPending := []\<rparr>)
      else case recvBuf c of
        [] \<Rightarrow> ((if closed c then ReadClosed else ReadBlocks), c)
      | None # ds \<Rightarrow> (ReadEOF, c\<lparr>recvBuf := ds\<rparr>)
      | Some d # ds \<Rightarrow> (ReadData d, c\<lparr>recvBuf := ds\<rparr>))"

section \<open>Segments from the guest\<close>

definition applyPeerOptionsLocked :: "tcpOptions \<Rightarrow> tcpConn \<Rightarrow> tcpConn" where
  "applyPeerOptionsLocked opts c =
     (let c1 = (if hasMSS opts then c\<lparr>peerMSS := omss opts\<rparr> else c) in
      if hasWndScale opts then c1\<lparr>peerWndScale := owndScale opts, wndScaleOK := True, ourWndScale := 7\<rparr> else c1)"

definition has_flag :: "u16 \<Rightarrow> tcpHeader \<Rightarrow> bool" where
  "has_flag f hdr \<longleftrightarrow> hflags hdr AND f \<noteq> 0"

text \<open>An acknowledgement of new data.\<close>

definition new_ack :: "int \<Rightarrow> tcpHeader \<Rightarrow> tcpConn \<Rightarrow> tcpConn option" where
  "new_ack now hdr c =
     (case onAck (hack hdr - sendAcked c) (congCtrl c) of None \<Rightarrow> None
      | Some cc \<Rightarrow>
          (case send_ack (hack hdr) now (sendBuf c) of ((_, sample), sb) \<Rightarrow>
             let c1 = c\<lparr>sendAcked := hack hdr, dupAcks := 0, congCtrl := cc, sendBuf := sb\<rparr>;
                 c2 = (case sample of None \<Rightarrow> c1 | Some t \<Rightarrow> c1\<lparr>rttEst := resetBackoff (rtt_update t (rttEst c1))\<rparr>) in
             if segments sb \<noteq> [] then Some (restartRetxTimer c2)
             else let c3 = stopRetxTimer c2 in
               if nagleBuf c3 \<noteq> [] then
                 Some (snd (sendTCPPacket (segment_packet (hostSeq c3) (guestSeq c3) (ACK OR PSH) (nagleBuf c3) [])
                   (c3\<lparr>nagleBuf := [], hostSeq := hostSeq c3 + of_nat (length (nagleBuf c3))\<rparr>)))
               else Some c3))"

text \<open>The same number again, with nothing else in the segment.\<close>

definition duplicate_ack :: "tcpConn \<Rightarrow> tcpConn" where
  "duplicate_ack c =
     (case onDupAck (congCtrl c) of (fast, cc) \<Rightarrow>
        let c1 = c\<lparr>dupAcks := dupAcks c + 1, congCtrl := cc\<rparr> in
        case (if fast then oldest (sendBuf c1) else None) of None \<Rightarrow> c1
        | Some seg \<Rightarrow> snd (sendTCPPacket (segment_packet (seqStart seg) (guestSeq c1) ACK (spayload seg) []) c1))"

definition ack_part :: "int \<Rightarrow> tcpHeader \<Rightarrow> tcpConn \<Rightarrow> tcpConn option" where
  "ack_part now hdr c =
     (if \<not> has_flag ACK hdr then Some c
      else let oldWnd = peerWnd c; c1 = c\<lparr>peerWnd := hwindow hdr\<rparr> in
        case (if sendAcked c1 < hack hdr then new_ack now hdr c1
              else if hack hdr = sendAcked c1 \<and> segments (sendBuf c1) \<noteq> [] \<and> hpayload hdr = []
                \<and> \<not> has_flag (SYN OR FIN OR RST) hdr \<and> hwindow hdr = oldWnd then Some (duplicate_ack c1)
              else Some c1) of
          None \<Rightarrow> None
        | Some c2 \<Rightarrow> Some (if hostSeq c2 < hack hdr then c2\<lparr>hostSeq := hack hdr, sendAcked := hack hdr\<rparr> else c2))"

text \<open>The end of the stream: it is queued, acknowledged, and our side is closed too.\<close>

definition peer_closed :: "tcpConn \<Rightarrow> tcpConn" where
  "peer_closed c = (let c1 = sendAck (enqueueData None c) in if writeClosed c then c1 else sendFin c1)"

definition established_data :: "tcpHeader \<Rightarrow> tcpConn \<Rightarrow> tcpConn" where
  "established_data hdr c =
     (if hseq hdr \<noteq> guestSeq c then
        let c1 = (if seqGT (hseq hdr) (guestSeq c)
                  then c\<lparr>oooRecvBuf := snd (recv_insert \<lparr>ostart = hseq hdr, oend = hseq hdr + of_nat (length (hpayload hdr)),
                         opayload = hpayload hdr\<rparr> (oooRecvBuf c))\<rparr> else c) in
        sendAck c1
      else case collectContiguous (guestSeq c + of_nat (length (hpayload hdr))) (oooRecvBuf c) of ((contiguous, n), rb) \<Rightarrow>
        let c1 = c\<lparr>guestSeq := n, oooRecvBuf := rb\<rparr>;
            c2 = (if has_flag FIN hdr then c1\<lparr>guestSeq := guestSeq c1 + 1, state := FinWait\<rparr> else c1);
            c3 = fold (enqueueData \<circ> Some) (hpayload hdr # contiguous) c2 in
        if has_flag FIN hdr then peer_closed c3 else sendAck c3)"

text \<open>
  One pass of \<^verbatim>\<open>handleSegment\<close>; the last component is that the pass ends in the call of itself by which
  a new connection handles the data of its first segment.
\<close>

definition segment_pass :: "int \<Rightarrow> tcpHeader \<Rightarrow> tcpConn \<Rightarrow> (neterr option \<times> tcpConn \<times> bool) option" where
  "segment_pass now hdr c0 =
     (if closed c0 then Some (Some ConnClosed, c0, False)
      else case ack_part now hdr c0 of None \<Rightarrow> None
      | Some c \<Rightarrow>
          (case state c of
             SynSent \<Rightarrow>
               if has_flag RST hdr then Some (None, conn_Close (completeDial False (c\<lparr>state := Closed\<rparr>)), False)
               else if hflags hdr AND (SYN OR ACK) = SYN OR ACK \<and> hack hdr = hostSeq c then
                 (case parseTCPOptions (hoptions hdr) of None \<Rightarrow> None
                  | Some opts \<Rightarrow>
                      let c1 = (applyPeerOptionsLocked opts c)\<lparr>guestSeq := hseq hdr + 1, peerWnd := hwindow hdr, state := Established\<rparr> in
                      Some (None, completeDial True (sendAck c1), False))
               else Some (None, c, False)
           | SynRcvd \<Rightarrow>
               if has_flag ACK hdr then
                 if hack hdr \<noteq> hostSeq c then Some (None, c, False)
                 else let c1 = c\<lparr>state := Established\<rparr>;
                          c2 = (case listener c1 of
                                  Some takes \<Rightarrow> if takes then c1\<lparr>events := events c1 @ [Accepted]\<rparr> else conn_Close c1
                                | None \<Rightarrow> if onEstablished c1 then c1\<lparr>events := events c1 @ [Callback]\<rparr> else c1) in
                   Some (None, c2, hpayload hdr \<noteq> [] \<or> has_flag (FIN OR RST) hdr)
               else Some (None, c, False)
           | Established \<Rightarrow>
               if hpayload hdr \<noteq> [] then Some (None, established_data hdr c, False)
               else if has_flag FIN hdr then
                 Some (None, peer_closed (c\<lparr>guestSeq := guestSeq c + 1, state := FinWait\<rparr>), False)
               else Some (None, if has_flag RST hdr then conn_Close c else c, False)
           | FinWait \<Rightarrow>
               Some (None, if has_flag ACK hdr then conn_Close (c\<lparr>state := Closed\<rparr>) else c, False)
           | Closed \<Rightarrow> Some (None, c, False)))"

definition handleSegment :: "int \<Rightarrow> tcpHeader \<Rightarrow> tcpConn \<Rightarrow> (neterr option \<times> tcpConn) option" where
  "handleSegment now hdr c =
     (case segment_pass now hdr c of None \<Rightarrow> None
      | Some (e, c1, again) \<Rightarrow>
          if again then map_option (\<lambda>(e', c2, _). (e', c2)) (segment_pass now hdr c1) else Some (e, c1))"

section \<open>Data to the guest\<close>

definition send_window :: "tcpConn \<Rightarrow> u32" where
  "send_window c = (if wndScaleOK c then push_bit (unat (peerWndScale c)) (ucast (peerWnd c)) else ucast (peerWnd c))"

datatype write_step = WriteClosed | WriteBlocks | WriteNagled nat | WriteChunk sent_packet

text \<open>The part of \<^verbatim>\<open>Write\<close> under the lock: the next piece of \<open>b\<close> after \<open>written\<close> bytes.\<close>

definition write_select :: "bytes \<Rightarrow> nat \<Rightarrow> tcpConn \<Rightarrow> write_step \<times> tcpConn" where
  "write_select b written c =
     (if closed c \<or> writeClosed c then (WriteClosed, c)
      else let flight = hostSeq c - sendAcked c; wnd = send_window c in
        if 0 < wnd \<and> flight < wnd then
          let maxChunk = min 1460 (unat (wnd - flight)); chunk = take maxChunk (drop written b) in
          if nagleEnabled c \<and> length chunk < 1460 \<and> 0 < flight then
            (WriteNagled (length chunk), c\<lparr>nagleBuf := nagleBuf c @ chunk\<rparr>)
          else let full = nagleBuf c @ chunk;
                   out = (if nagleBuf c \<noteq> [] then take maxChunk full else chunk);
                   c1 = (if nagleBuf c \<noteq> [] then c\<lparr>nagleBuf := drop maxChunk full\<rparr> else c);
                   flags = (if written + length out = length b \<and> nagleBuf c1 = [] then ACK OR PSH else ACK) in
            (WriteChunk (segment_packet (hostSeq c1) (guestSeq c1) flags out []), c1\<lparr>hostSeq := hostSeq c1 + of_nat (length out)\<rparr>)
        else (WriteBlocks, c))"

text \<open>The part after the packet is sent: \<open>None\<close> is a queue that stays full, until which it waits.\<close>

definition write_record :: "int \<Rightarrow> sent_packet \<Rightarrow> tcpConn \<Rightarrow> neterr option option \<times> tcpConn" where
  "write_record now p c =
     (let seg = \<lparr>seqStart = pseq p, seqEnd = pseq p + of_nat (length (ppayload p)), spayload = ppayload p, sentAt = now, retx = 0\<rparr>;
          finish = (\<lambda>sb. let sb1 = snd (send_ack (sendAcked c) now sb); c1 = c\<lparr>sendBuf := sb1\<rparr> in
                      (Some None, if segments sb1 \<noteq> [] then startRetxTimer c1 else c1)) in
      case send_append seg (sendBuf c) of
        (True, sb) \<Rightarrow> finish sb
      | (False, _) \<Rightarrow>
          if closed c then (Some (Some ConnClosed), c)
          else let sb = snd (send_ack (sendAcked c) now (sendBuf c)) in
            case send_append seg sb of (True, sb') \<Rightarrow> finish sb' | (False, _) \<Rightarrow> (None, c\<lparr>sendBuf := sb\<rparr>))"

definition onRetxTimeout :: "int \<Rightarrow> tcpConn \<Rightarrow> tcpConn" where
  "onRetxTimeout now c =
     (if closed c then c
      else case oldestCoalesced (if mss c = 0 then 1460 else unat (mss c)) (sendBuf c) of
        None \<Rightarrow> c\<lparr>retxTimer := None\<rparr>
      | Some (seg, n) \<Rightarrow>
          let age = now - sentAt seg in
          if age < rto (rttEst c) sdiv 2 then c\<lparr>retxTimer := Some (rto (rttEst c) - age)\<rparr>
          else if 10 \<le> retx seg then conn_Close c
          else let c1 = (if 0 < retx seg then c\<lparr>congCtrl := onTimeout (congCtrl c)\<rparr> else c);
                   c2 = c1\<lparr>rttEst := rtt_backoff (rttEst c1), retxCount := retxCount c1 + 1\<rparr>;
                   c3 = c2\<lparr>sendBuf := markRetransmittedN n now (sendBuf c2)\<rparr>;
                   c4 = snd (sendTCPPacket (segment_packet (seqStart seg) (guestSeq c3) ACK (spayload seg) []) c3) in
               c4\<lparr>retxTimer := Some (rto (rttEst c4))\<rparr>)"

section \<open>The receiving side\<close>

text \<open>The fields the receiving side is made of; sending and acknowledging leave them alone.\<close>

definition rx :: "tcpConn \<Rightarrow> tcpState \<times> u32 \<times> bytes option list \<times> bytes \<times> bool \<times> tcpRecvBuffer" where
  "rx c = (state c, guestSeq c, recvBuf c, readPending c, closed c, oooRecvBuf c)"

lemma rx_frames [simp]:
  "rx (snd (sendTCPPacket p c)) = rx c" "rx (sendAck c) = rx c" "rx (sendFin c) = rx c" "rx (startRetxTimer c) = rx c"
  "rx (restartRetxTimer c) = rx c" "rx (stopRetxTimer c) = rx c" "rx (completeDial ok c) = rx c" "rx (sendSynAck c) = rx c"
  "rx (snd (sendSyn c)) = rx c" "rx (snd (retransmitSyn c)) = rx c" "rx (applyPeerOptionsLocked opts c) = rx c"
  "rx (duplicate_ack c) = rx c" "rx (snd (write_record now p c)) = rx c" "rx (snd (write_select b n c)) = rx c"
  by (auto simp: rx_def sendTCPPacket_def sendAck_def sendFin_def startRetxTimer_def restartRetxTimer_def stopRetxTimer_def completeDial_def
      sendSynAck_def sendSyn_def retransmitSyn_def applyPeerOptionsLocked_def duplicate_ack_def write_record_def write_select_def Let_def
      split: prod.splits option.splits bool.splits)

lemma rx_new_ack: "new_ack now hdr c = Some c' \<Longrightarrow> rx c' = rx c"
  by (auto simp: new_ack_def Let_def rx_def sendTCPPacket_def restartRetxTimer_def stopRetxTimer_def split: option.splits prod.splits if_splits)

lemma rx_ack_part: "ack_part now hdr c = Some c' \<Longrightarrow> rx c' = rx c"
proof -
  assume a: "ack_part now hdr c = Some c'"
  let ?c = "c\<lparr>peerWnd := hwindow hdr\<rparr>"
  have w: "rx ?c = rx c" by (simp add: rx_def)
  have h: "rx (c2\<lparr>hostSeq := x, sendAcked := y\<rparr>) = rx c2" for c2 x y by (simp add: rx_def)
  show "rx c' = rx c"
    using a rx_new_ack [of now hdr ?c] rx_frames(12) [of ?c]
    by (auto simp: ack_part_def Let_def w h split: if_splits option.splits)
qed

lemma rx_fields:
  "rx c' = rx c \<Longrightarrow> state c' = state c \<and> guestSeq c' = guestSeq c \<and> recvBuf c' = recvBuf c \<and> readPending c' = readPending c
    \<and> closed c' = closed c \<and> oooRecvBuf c' = oooRecvBuf c"
  by (simp add: rx_def)

text \<open>
  The stream the guest sends is \<open>S\<close>, its first byte has number \<open>isn\<close>, and \<open>bs\<close> is what the reader has got.
  A segment of the guest carries a piece of the stream, or none.
\<close>

definition carries :: "u32 \<Rightarrow> bytes \<Rightarrow> tcpHeader \<Rightarrow> bool" where
  "carries isn S hdr \<longleftrightarrow> (has_flag SYN hdr \<longrightarrow> hseq hdr + 1 = isn)
     \<and> piece isn S \<lparr>ostart = hseq hdr, oend = hseq hdr + of_nat (length (hpayload hdr)), opayload = hpayload hdr\<rparr>"

text \<open>What is on its way to the reader.\<close>

definition unread :: "tcpConn \<Rightarrow> bytes" where
  "unread c = readPending c @ concat (map the (recvBuf c))"

definition opening_ok :: "tcpConn \<Rightarrow> bytes \<Rightarrow> bool" where
  "opening_ok c bs \<longleftrightarrow> \<not> closed c \<and> bs = [] \<and> recvBuf c = [] \<and> readPending c = [] \<and> osegments (oooRecvBuf c) = []"

definition open_ok :: "u32 \<Rightarrow> bytes \<Rightarrow> tcpConn \<Rightarrow> bytes \<Rightarrow> bool" where
  "open_ok isn S c bs \<longleftrightarrow> \<not> closed c \<and> None \<notin> set (recvBuf c) \<and> (\<forall>seg \<in> set (osegments (oooRecvBuf c)). piece isn S seg)
     \<and> (\<exists>n \<le> length S. guestSeq c = isn + of_nat n \<and> bs @ unread c = take n S)"

definition stream_ok :: "u32 \<Rightarrow> bytes \<Rightarrow> tcpConn \<Rightarrow> bytes \<Rightarrow> bool" where
  "stream_ok isn S c bs \<longleftrightarrow> length (osegments (oooRecvBuf c)) \<le> maxGaps (oooRecvBuf c) \<and> maxGaps (oooRecvBuf c) = 16
     \<and> (case state c of
          SynRcvd \<Rightarrow> opening_ok c bs \<and> guestSeq c = isn
        | SynSent \<Rightarrow> opening_ok c bs
        | Established \<Rightarrow> open_ok isn S c bs
        | _ \<Rightarrow> True)"

lemma stream_ok_rx: "rx c' = rx c \<Longrightarrow> stream_ok isn S c' bs = stream_ok isn S c bs"
  by (drule rx_fields) (cases "state c", simp_all add: stream_ok_def opening_ok_def open_ok_def unread_def)

lemma enqueue_all:
  "\<not> closed c \<Longrightarrow> length (recvBuf c) + length ds \<le> 512 \<Longrightarrow>
     fold (enqueueData \<circ> Some) ds c = c\<lparr>recvBuf := recvBuf c @ map Some ds\<rparr>"
  by (induction ds arbitrary: c) (simp_all add: enqueueData_def)

lemma enqueueData_rx:
  "state (enqueueData d c) = state c" "oooRecvBuf (enqueueData d c) = oooRecvBuf c" "guestSeq (enqueueData d c) = guestSeq c"
  by (simp_all add: enqueueData_def)

lemma peer_closed_rx: "state (peer_closed c) = state c" "oooRecvBuf (peer_closed c) = oooRecvBuf c"
  using rx_fields [OF rx_frames(2) [of "enqueueData None c"]] rx_fields [OF rx_frames(3) [of "sendAck (enqueueData None c)"]]
  by (simp_all add: peer_closed_def Let_def enqueueData_rx)

lemma stream_finished:
  "state c \<in> {FinWait, Closed} \<Longrightarrow> length (osegments (oooRecvBuf c)) \<le> maxGaps (oooRecvBuf c) \<Longrightarrow> maxGaps (oooRecvBuf c) = 16 \<Longrightarrow>
     stream_ok isn S c bs"
  by (auto simp: stream_ok_def)

lemma close_rx: "\<not> closed c \<Longrightarrow> state (conn_Close c) = Closed \<and> maxGaps (oooRecvBuf (conn_Close c)) = maxGaps (oooRecvBuf c)
    \<and> osegments (oooRecvBuf (conn_Close c)) = []"
  by (simp add: conn_Close_def Let_def completeDial_def stopRetxTimer_def recv_clear_def sendFin_def sendTCPPacket_def)

lemma close_ok: "stream_ok isn S c bs \<Longrightarrow> stream_ok isn S (conn_Close c) bs"
proof (cases "closed c")
  case False
  then show "stream_ok isn S c bs \<Longrightarrow> ?thesis" using close_rx [of c] by (intro stream_finished) (auto simp: stream_ok_def)
qed (simp add: conn_Close_def)

lemma established_in_order:
  assumes "open_ok isn S c bs" "length S < 2 ^ 32" "length (osegments (oooRecvBuf c)) \<le> 16" "carries isn S hdr"
    "hseq hdr = guestSeq c" "length (recvBuf c) + 17 \<le> 512"
    "collectContiguous (guestSeq c + of_nat (length (hpayload hdr))) (oooRecvBuf c) = ((got, n), rb)"
  shows "open_ok isn S (fold (enqueueData \<circ> Some) (hpayload hdr # got) (c\<lparr>guestSeq := n, oooRecvBuf := rb\<rparr>)) bs
    \<and> length (osegments rb) \<le> 16 \<and> maxGaps rb = maxGaps (oooRecvBuf c)"
proof -
  let ?p = "hpayload hdr" and ?segs = "osegments (oooRecvBuf c)"
  obtain k where k: "k \<le> length S" "guestSeq c = isn + of_nat k" "bs @ unread c = take k S"
    and o: "\<not> closed c" "None \<notin> set (recvBuf c)" "\<forall>seg \<in> set ?segs. piece isn S seg"
    using assms(1) by (auto simp: open_ok_def)
  have p: "k + length ?p \<le> length S" "?p = stretch S k (k + length ?p)"
    using piece_at [of isn S "\<lparr>ostart = hseq hdr, oend = hseq hdr + of_nat (length ?p), opayload = ?p\<rparr>" k] assms(2,4,5) k(1,2)
    by (simp_all add: carries_def)
  obtain keep where r: "collect ?segs (isn + of_nat (k + length ?p)) = (got, n, keep)" "rb = (oooRecvBuf c)\<lparr>osegments := keep\<rparr>"
    using assms(7) k(2) by (auto simp: collectContiguous_def add.assoc split: prod.splits)
  obtain m where m: "k + length ?p \<le> m" "m \<le> length S" "n = isn + of_nat m" "concat got = stretch S (k + length ?p) m" "set keep \<subseteq> set ?segs"
    using collect_collects [OF o(3) p(1) assms(2)] unfolding r(1) collects_def by auto
  have l: "length got + length keep = length ?segs" by (rule collect_length [OF r(1)])
  have e: "fold (enqueueData \<circ> Some) (?p # got) (c\<lparr>guestSeq := n, oooRecvBuf := rb\<rparr>) =
      c\<lparr>guestSeq := n, oooRecvBuf := rb, recvBuf := recvBuf c @ map Some (?p # got)\<rparr>"
    using o(1) assms(3,6) l by (subst enqueue_all) simp_all
  have "take k S @ ?p @ concat got = take m S"
    using take_stretch [of k m S] stretch_append [of k "k + length ?p" m S] p(2) m(1,4) by simp
  moreover have "map (the \<circ> Some) got = got" by simp
  ultimately have "(bs @ unread c) @ ?p @ concat got = take m S" using k(3) by simp
  then show ?thesis using o m l assms(3) unfolding e open_ok_def
    by (auto simp: unread_def r(2) comp_def intro!: exI [of _ m])
qed

lemma established_data_ok:
  assumes "stream_ok isn S c bs" "state c = Established" "length S < 2 ^ 32" "carries isn S hdr" "length (recvBuf c) + 17 \<le> 512"
  shows "stream_ok isn S (established_data hdr c) bs"
proof -
  have o: "open_ok isn S c bs" "length (osegments (oooRecvBuf c)) \<le> 16" "maxGaps (oooRecvBuf c) = 16"
    using assms(1,2) by (simp_all add: stream_ok_def)
  show ?thesis
  proof (cases "hseq hdr = guestSeq c")
    case False
    let ?seg = "\<lparr>ostart = hseq hdr, oend = hseq hdr + of_nat (length (hpayload hdr)), opayload = hpayload hdr\<rparr>"
    let ?c = "if seqGT (hseq hdr) (guestSeq c) then c\<lparr>oooRecvBuf := snd (recv_insert ?seg (oooRecvBuf c))\<rparr> else c"
    have "piece isn S ?seg" using assms(4) by (simp add: carries_def)
    then have "open_ok isn S ?c bs" using o(1) recv_insert_set [of ?seg "oooRecvBuf c"] by (auto simp: open_ok_def unread_def)
    then have "stream_ok isn S ?c bs" using assms(2) o recv_insert_bound [of "oooRecvBuf c" ?seg] by (auto simp: stream_ok_def)
    then have "stream_ok isn S (sendAck ?c) bs" using stream_ok_rx [OF rx_frames(2)] by blast
    then show ?thesis using False by (simp add: established_data_def Let_def)
  next
    case True
    obtain got n rb where r: "collectContiguous (guestSeq c + of_nat (length (hpayload hdr))) (oooRecvBuf c) = ((got, n), rb)"
      by (metis prod.exhaust)
    let ?c1 = "c\<lparr>guestSeq := n, oooRecvBuf := rb\<rparr>"
    let ?c3 = "fold (enqueueData \<circ> Some) (hpayload hdr # got) ?c1"
    note g = established_in_order [OF o(1) assms(3) o(2) assms(4) True assms(5) r]
    have f: "state (fold (enqueueData \<circ> Some) ds x) = state x" "oooRecvBuf (fold (enqueueData \<circ> Some) ds x) = oooRecvBuf x" for ds x
      by (induction ds arbitrary: x) (simp_all add: enqueueData_rx)
    show ?thesis
    proof (cases "has_flag FIN hdr")
      case False
      have "stream_ok isn S ?c3 bs" using g o assms(2) f [of "hpayload hdr # got" ?c1] by (auto simp: stream_ok_def)
      then have "stream_ok isn S (sendAck ?c3) bs" using stream_ok_rx [OF rx_frames(2)] by blast
      then show ?thesis using True False r by (simp add: established_data_def Let_def)
    next
      case fin: True
      let ?c2 = "?c1\<lparr>guestSeq := guestSeq ?c1 + 1, state := FinWait\<rparr>"
      let ?f = "fold (enqueueData \<circ> Some) (hpayload hdr # got) ?c2"
      have "stream_ok isn S (peer_closed ?f) bs"
        using f [of "hpayload hdr # got" ?c2] g o by (intro stream_finished) (simp_all add: peer_closed_rx)
      then show ?thesis using True fin r by (simp add: established_data_def Let_def)
    qed
  qed
qed

lemma opening_to_open:
  assumes "opening_ok c bs" "rx c' = (Established, isn, recvBuf c, readPending c, closed c, oooRecvBuf c)"
    "length (osegments (oooRecvBuf c)) \<le> maxGaps (oooRecvBuf c)" "maxGaps (oooRecvBuf c) = 16"
  shows "stream_ok isn S c' bs"
  using assms by (auto simp: stream_ok_def opening_ok_def open_ok_def unread_def rx_def intro: exI [of _ 0])

lemma syn_flag: "hflags hdr AND (SYN OR ACK) = SYN OR ACK \<Longrightarrow> has_flag SYN hdr"
proof -
  assume a: "hflags hdr AND (SYN OR ACK) = SYN OR ACK"
  have s: "SYN = (SYN OR ACK) AND SYN" by code_simp
  have "hflags hdr AND SYN = (hflags hdr AND (SYN OR ACK)) AND SYN" by (subst s) (simp only: and.assoc)
  also have "\<dots> = SYN" using a s by simp
  finally show "has_flag SYN hdr" by (simp add: has_flag_def)
qed

lemma segment_pass_ok:
  assumes "stream_ok isn S c0 bs" "length S < 2 ^ 32" "carries isn S hdr" "length (recvBuf c0) + 17 \<le> 512"
    "segment_pass now hdr c0 = Some (e, c', again)"
  shows "stream_ok isn S c' bs \<and> (again \<longrightarrow> length (recvBuf c') + 17 \<le> 512)"
proof (cases "closed c0")
  case True
  then show ?thesis using assms(1,5) by (auto simp: segment_pass_def)
next
  case False
  then obtain c where a: "ack_part now hdr c0 = Some c" using assms(5) by (auto simp: segment_pass_def split: option.splits)
  note r = rx_ack_part [OF a]
  have ok: "stream_ok isn S c bs" using stream_ok_rx [OF r] assms(1) by simp
  have q: "\<not> closed c" "recvBuf c = recvBuf c0" using rx_fields [OF r] False by auto
  have gaps: "length (osegments (oooRecvBuf c)) \<le> maxGaps (oooRecvBuf c)" "maxGaps (oooRecvBuf c) = 16"
    using ok by (simp_all add: stream_ok_def)
  have fin: "stream_ok isn S (c\<lparr>state := Closed\<rparr>) bs" using gaps by (intro stream_finished) simp_all
  show ?thesis
  proof (cases "state c")
    case SynRcvd
    have o: "opening_ok c bs" "guestSeq c = isn" using ok SynRcvd by (simp_all add: stream_ok_def)
    let ?c1 = "c\<lparr>state := Established\<rparr>"
    have est: "stream_ok isn S (?c1\<lparr>events := ev\<rparr>) bs" for ev
      by (rule opening_to_open [OF o(1) _ gaps]) (simp add: rx_def o(2))
    have "stream_ok isn S ?c1 bs" using est [of "events ?c1"] by simp
    then have "stream_ok isn S (conn_Close ?c1) bs" by (rule close_ok)
    moreover have "recvBuf (conn_Close ?c1) = recvBuf c"
      using q(1) by (simp add: conn_Close_def Let_def completeDial_def stopRetxTimer_def sendFin_def sendTCPPacket_def)
    ultimately show ?thesis using assms(5) SynRcvd False a ok est \<open>stream_ok isn S ?c1 bs\<close> o
      by (auto simp: segment_pass_def Let_def opening_ok_def split: if_splits option.splits)
  next
    case SynSent
    have o: "opening_ok c bs" using ok SynSent by (simp add: stream_ok_def)
    have "stream_ok isn S (conn_Close (completeDial False (c\<lparr>state := Closed\<rparr>))) bs"
      using fin stream_ok_rx [OF rx_frames(7)] close_ok by blast
    moreover have "stream_ok isn S (completeDial True (sendAck
        ((applyPeerOptionsLocked opts c)\<lparr>guestSeq := hseq hdr + 1, peerWnd := w, state := Established\<rparr>))) bs"
      if "hflags hdr AND (SYN OR ACK) = SYN OR ACK" for opts w
    proof -
      have "hseq hdr + 1 = isn" using syn_flag [OF that] assms(3) by (simp add: carries_def)
      moreover note rx_fields [OF rx_frames(11) [of opts c]]
      ultimately show ?thesis by (intro opening_to_open [OF o _ gaps]) (simp only: rx_frames, simp add: rx_def)
    qed
    ultimately show ?thesis using assms(5) SynSent False a ok
      by (auto simp: segment_pass_def Let_def split: if_splits option.splits)
  next
    case Established
    have d: "stream_ok isn S (established_data hdr c) bs"
      using established_data_ok [OF ok Established assms(2,3)] q(2) assms(4) by simp
    have "stream_ok isn S (peer_closed (c\<lparr>guestSeq := guestSeq c + 1, state := FinWait\<rparr>)) bs"
      using gaps by (intro stream_finished) (simp_all add: peer_closed_rx)
    then show ?thesis using assms(5) Established False a ok d close_ok [OF ok]
      by (auto simp: segment_pass_def split: if_splits)
  next
    case FinWait
    then show ?thesis using assms(5) False a ok close_ok [OF fin] by (auto simp: segment_pass_def split: if_splits)
  next
    case Closed
    then show ?thesis using assms(5) False a ok by (auto simp: segment_pass_def)
  qed
qed

lemma handleSegment_ok:
  assumes "stream_ok isn S c bs" "length S < 2 ^ 32" "carries isn S hdr" "length (recvBuf c) + 17 \<le> 512"
    "handleSegment now hdr c = Some (e, c')"
  shows "stream_ok isn S c' bs"
proof -
  obtain e1 c1 again where p: "segment_pass now hdr c = Some (e1, c1, again)"
    using assms(5) by (auto simp: handleSegment_def split: option.splits)
  note s = segment_pass_ok [OF assms(1-4) p]
  show ?thesis
  proof (cases again)
    case True
    then obtain e2 b where "segment_pass now hdr c1 = Some (e2, c', b)" using assms(5) p by (auto simp: handleSegment_def)
    then show ?thesis using segment_pass_ok [of isn S c1 bs hdr now e2 c' b] s True assms(2,3) by simp
  next
    case False
    then show ?thesis using assms(5) p s by (auto simp: handleSegment_def)
  qed
qed

text \<open>What a read took off the front.\<close>

definition taken :: "read_result \<Rightarrow> bytes" where
  "taken r = (case r of ReadData d \<Rightarrow> d | _ \<Rightarrow> [])"

lemma reader_step:
  assumes "stream_ok isn S c bs" "rx c' = (state c, guestSeq c, recvBuf c', readPending c', closed c, oooRecvBuf c)"
    "set (recvBuf c') \<subseteq> set (recvBuf c)" "\<not> closed c \<Longrightarrow> None \<notin> set (recvBuf c) \<Longrightarrow> d @ unread c' = unread c"
    "recvBuf c = [] \<Longrightarrow> readPending c = [] \<Longrightarrow> recvBuf c' = [] \<and> readPending c' = [] \<and> d = []"
  shows "stream_ok isn S c' (bs @ d)"
  using assms by (cases "state c") (auto simp: stream_ok_def opening_ok_def open_ok_def rx_def)

lemma read_ok:
  assumes "stream_ok isn S c bs" "conn_Read n c = (r, c')"
  shows "stream_ok isn S c' (bs @ taken r)"
  using assms(2)
  by (intro reader_step [OF assms(1)])
    (auto simp: conn_Read_def taken_def unread_def rx_def Let_def split: if_splits list.splits option.splits)

lemma next_payload_ok:
  assumes "stream_ok isn S c bs" "nextReadPayload c = (r, c')"
  shows "stream_ok isn S c' (bs @ taken r)"
  using assms(2)
  by (intro reader_step [OF assms(1)])
    (auto simp: nextReadPayload_def taken_def unread_def rx_def split: if_splits list.splits option.splits)

lemma timeout_ok: "stream_ok isn S c bs \<Longrightarrow> stream_ok isn S (onRetxTimeout now c) bs"
proof -
  assume ok: "stream_ok isn S c bs"
  have "onRetxTimeout now c = conn_Close c \<or> rx (onRetxTimeout now c) = rx c"
  proof (cases "oldestCoalesced (if mss c = 0 then 1460 else unat (mss c)) (sendBuf c)")
    case None
    then show ?thesis by (simp add: onRetxTimeout_def rx_def)
  next
    case (Some a)
    have "rx (x\<lparr>retxTimer := t\<rparr>) = rx x" "rx (x\<lparr>sendBuf := sb\<rparr>) = rx x" "rx (x\<lparr>rttEst := re, retxCount := n\<rparr>) = rx x"
      "rx (x\<lparr>congCtrl := cc\<rparr>) = rx x" for x t sb re n cc by (simp_all add: rx_def)
    then show ?thesis using Some by (simp add: onRetxTimeout_def Let_def split_beta del: tcpConn.update_convs)
  qed
  then show ?thesis using ok close_ok [OF ok] stream_ok_rx [of "onRetxTimeout now c" c isn S bs] by metis
qed

section \<open>Sessions\<close>

text \<open>
  The life of a connection, opened from either side: segments of the guest in any order, repeated or
  overlapping, with whatever acknowledgements; reads and writes of the host; timeouts; and closing. A
  segment finds room for itself and the sixteen segments that may have waited for it.
\<close>

inductive tcp_session :: "u32 \<Rightarrow> bytes \<Rightarrow> tcpConn \<Rightarrow> bytes \<Rightarrow> bool" for isn S where
  accept: "tcp_session isn S (newTCPConn (isn - 1) wnd iss lis cb fails) []"
| dial: "tcp_session isn S ((newTCPConn 0 0xffff iss None False fails)\<lparr>state := SynSent, guestSeq := 0, dial := Dialing\<rparr>) []"
| peer_options: "tcp_session isn S c bs \<Longrightarrow> tcp_session isn S (applyPeerOptionsLocked opts c) bs"
| syn_ack: "tcp_session isn S c bs \<Longrightarrow> tcp_session isn S (sendSynAck c) bs"
| syn: "tcp_session isn S c bs \<Longrightarrow> tcp_session isn S (snd (sendSyn c)) bs"
| syn_again: "tcp_session isn S c bs \<Longrightarrow> tcp_session isn S (snd (retransmitSyn c)) bs"
| segment: "tcp_session isn S c bs \<Longrightarrow> carries isn S hdr \<Longrightarrow> length (recvBuf c) + 17 \<le> 512 \<Longrightarrow>
    handleSegment now hdr c = Some (e, c') \<Longrightarrow> tcp_session isn S c' bs"
| read: "tcp_session isn S c bs \<Longrightarrow> conn_Read n c = (r, c') \<Longrightarrow> tcp_session isn S c' (bs @ taken r)"
| read_payload: "tcp_session isn S c bs \<Longrightarrow> nextReadPayload c = (r, c') \<Longrightarrow> tcp_session isn S c' (bs @ taken r)"
| select: "tcp_session isn S c bs \<Longrightarrow> tcp_session isn S (snd (write_select b n c)) bs"
| send: "tcp_session isn S c bs \<Longrightarrow> tcp_session isn S (snd (sendTCPPacket p c)) bs"
| recorded: "tcp_session isn S c bs \<Longrightarrow> tcp_session isn S (snd (write_record now p c)) bs"
| timeout: "tcp_session isn S c bs \<Longrightarrow> tcp_session isn S (onRetxTimeout now c) bs"
| close_write: "tcp_session isn S c bs \<Longrightarrow> tcp_session isn S (snd (CloseWrite c)) bs"
| close: "tcp_session isn S c bs \<Longrightarrow> tcp_session isn S (conn_Close c) bs"

lemma session_stream:
  assumes "tcp_session isn S c bs" "length S < 2 ^ 32"
  shows "stream_ok isn S c bs"
  using assms(1)
proof (induction rule: tcp_session.induct)
  case (segment c bs hdr now e c')
  then show ?case using handleSegment_ok assms(2) by blast
next
  case (close_write c bs)
  have "rx (sendFin (c\<lparr>writeClosed := True\<rparr>)) = rx c" by (simp only: rx_frames) (simp add: rx_def)
  from stream_ok_rx [OF this] have "stream_ok isn S (sendFin (c\<lparr>writeClosed := True\<rparr>)) bs" using close_write by simp
  then show ?case using close_write by (simp add: CloseWrite_def)
qed (auto simp: stream_ok_rx [OF rx_frames(1)] stream_ok_rx [OF rx_frames(8)] stream_ok_rx [OF rx_frames(9)] stream_ok_rx [OF rx_frames(10)]
      stream_ok_rx [OF rx_frames(11)] stream_ok_rx [OF rx_frames(13)] stream_ok_rx [OF rx_frames(14)]
      intro: read_ok next_payload_ok timeout_ok close_ok,
    simp_all add: stream_ok_def opening_ok_def newTCPConn_def newTCPRecvBuffer_def)

text \<open>
  C1. The reader gets the guest's stream: whatever the order in which its segments arrive, however often
  they are repeated and however they overlap, as long as the receive queue has room for them, in an
  established connection the bytes handed to the reader and those still queued for it are exactly the
  first bytes of the stream, up to the number the connection acknowledges.
\<close>

theorem tcp_stream_delivered:
  assumes "tcp_session isn S c bs" "length S < 2 ^ 32" "state c = Established"
  shows "\<exists>n \<le> length S. guestSeq c = isn + of_nat n \<and> bs @ unread c = take n S"
  using session_stream [OF assms(1,2)] assms(3) by (simp add: stream_ok_def open_ok_def)

definition demo_header :: "u32 \<Rightarrow> u32 \<Rightarrow> bytes \<Rightarrow> tcpHeader" where
  "demo_header sq ak d = \<lparr>srcPort = 40000, dstPort = 80, hseq = sq, hack = ak, dataOff = 0x50, hflags = ACK, hwindow = 0xffff, hchecksum = 0,
     urgent = 0, hoptions = [], hpayload = d\<rparr>"

definition demo_open :: tcpConn where
  "demo_open = snd (the (handleSegment 0 (demo_header 100 8 []) (sendSynAck (newTCPConn 99 0xffff 7 None False (\<lambda>_ _. False)))))"

definition demo_later :: tcpConn where
  "demo_later = snd (the (handleSegment 0 (demo_header 102 8 [3, 4]) demo_open))"

definition demo_done :: tcpConn where
  "demo_done = snd (the (handleSegment 0 (demo_header 100 8 [1, 2]) demo_later))"

lemma demo_carries: "carries 100 [1, 2, 3, 4] (demo_header 100 ak [])" "carries 100 [1, 2, 3, 4] (demo_header 102 ak [3, 4])"
    "carries 100 [1, 2, 3, 4] (demo_header 100 ak [1, 2])"
  by (auto simp: carries_def piece_def demo_header_def has_flag_def intro: exI [of _ 0] exI [of _ 2])

lemma demo_session: "tcp_session 100 [1, 2, 3, 4] demo_done [] \<and> tcp_session 100 [1, 2, 3, 4] demo_later []"
proof -
  let ?c = "sendSynAck (newTCPConn 99 0xffff 7 None False (\<lambda>_ _. False))"
  have r: "recvBuf ?c = []" "recvBuf demo_open = []" "recvBuf demo_later = []"
    "handleSegment 0 (demo_header 100 8 []) ?c \<noteq> None" "handleSegment 0 (demo_header 102 8 [3, 4]) demo_open \<noteq> None"
    "handleSegment 0 (demo_header 100 8 [1, 2]) demo_later \<noteq> None" by code_simp+
  have s: "tcp_session 100 [1, 2, 3, 4] ?c []"
    using tcp_session.syn_ack [OF tcp_session.accept [of 100 "[1, 2, 3, 4]" "0xffff" 7 None False "\<lambda>_ _. False"]] by simp
  have step: "tcp_session 100 [1, 2, 3, 4] (snd (the (handleSegment 0 h c))) []"
    if a: "tcp_session 100 [1, 2, 3, 4] c []" "carries 100 [1, 2, 3, 4] h" "recvBuf c = []" "handleSegment 0 h c \<noteq> None" for h c
  proof -
    obtain e c' where "handleSegment 0 h c = Some (e, c')" using a(4) by auto
    then show ?thesis using tcp_session.segment [OF a(1,2)] a(3) by simp
  qed
  have o: "tcp_session 100 [1, 2, 3, 4] demo_open []" unfolding demo_open_def by (rule step [OF s demo_carries(1) r(1,4)])
  have l: "tcp_session 100 [1, 2, 3, 4] demo_later []" unfolding demo_later_def by (rule step [OF o demo_carries(2) r(2,5)])
  then show ?thesis using step [OF l demo_carries(3) r(3,6)] by (simp add: demo_done_def)
qed

theorem tcp_stream_delivered_witness:
  "(\<exists>n \<le> length [1, 2, 3, 4 :: u8]. guestSeq demo_done = 100 + of_nat n \<and> [] @ unread demo_done = take n [1, 2, 3, 4])
   \<and> unread demo_done = [1, 2, 3, 4] \<and> unread demo_later = []"
proof -
  have "state demo_done = Established" "unread demo_done = [1, 2, 3, 4]" "unread demo_later = []" by code_simp+
  then show ?thesis using tcp_stream_delivered [of 100 "[1, 2, 3, 4]" demo_done "[]"] demo_session by simp
qed

end
