(* ===== verification/TcpSend.thy ===== *)
theory TcpSend
  imports TcpConn
begin

text \<open>
  The host's direction of a guest TCP connection of \<^verbatim>\<open>internal/core/netstack/netstack.go\<close>: that the
  handler of a segment always returns, the bounds on the send queue and the retransmission time, the
  order and window of what is written, and the cases in which the connection breaks the stream.
\<close>

section \<open>The sending side\<close>

text \<open>The fields the sending side's estimates are made of.\<close>

definition tx :: "tcpConn \<Rightarrow> tcpCongestionControl \<times> tcpRTTEstimator \<times> tcpSendBuffer" where
  "tx c = (congCtrl c, rttEst c, sendBuf c)"

definition healthy :: "tcpConn \<Rightarrow> bool" where
  "healthy c \<longleftrightarrow> congestion_ok (congCtrl c) \<and> rtt_ok (rttEst c) \<and> send_ok (sendBuf c) \<and> capacity (sendBuf c) = 262144"

lemma healthy_tx: "tx c' = tx c \<Longrightarrow> healthy c' = healthy c"
  by (simp add: tx_def healthy_def)

lemma tx_frames [simp]:
  "tx (snd (sendTCPPacket p c)) = tx c" "tx (sendAck c) = tx c" "tx (sendFin c) = tx c" "tx (startRetxTimer c) = tx c"
  "tx (restartRetxTimer c) = tx c" "tx (stopRetxTimer c) = tx c" "tx (completeDial ok c) = tx c" "tx (sendSynAck c) = tx c"
  "tx (snd (sendSyn c)) = tx c" "tx (snd (retransmitSyn c)) = tx c" "tx (applyPeerOptionsLocked opts c) = tx c"
  "tx (enqueueData d c) = tx c" "tx (snd (conn_Read n c)) = tx c" "tx (snd (nextReadPayload c)) = tx c"
  "tx (snd (write_select b n c)) = tx c"
  by (auto simp: tx_def sendTCPPacket_def sendAck_def sendFin_def startRetxTimer_def restartRetxTimer_def stopRetxTimer_def completeDial_def
      sendSynAck_def sendSyn_def retransmitSyn_def applyPeerOptionsLocked_def enqueueData_def conn_Read_def nextReadPayload_def
      write_select_def Let_def split: list.splits option.splits)

lemma tx_updates [simp]:
  "tx (c\<lparr>state := st\<rparr>) = tx c" "tx (c\<lparr>guestSeq := g\<rparr>) = tx c" "tx (c\<lparr>oooRecvBuf := rb\<rparr>) = tx c" "tx (c\<lparr>events := ev\<rparr>) = tx c"
  "tx (c\<lparr>writeClosed := w\<rparr>) = tx c" "tx (c\<lparr>hostSeq := h\<rparr>) = tx c" "tx (c\<lparr>sendAcked := h\<rparr>) = tx c" "tx (c\<lparr>peerWnd := pw\<rparr>) = tx c"
  "tx (c\<lparr>retxTimer := t\<rparr>) = tx c" "tx (c\<lparr>nagleBuf := nb\<rparr>) = tx c"
  by (simp_all add: tx_def)

lemma tx_enqueue_all [simp]: "tx (fold (enqueueData \<circ> Some) ds c) = tx c"
  by (induction ds arbitrary: c) simp_all

lemma tx_peer_closed [simp]: "tx (peer_closed c) = tx c"
  by (simp add: peer_closed_def Let_def)

lemma tx_established_data [simp]: "tx (established_data hdr c) = tx c"
  by (auto simp: established_data_def Let_def simp del: fold_simps split: prod.splits)

lemma healthy_close: "healthy c \<Longrightarrow> healthy (conn_Close c)"
proof -
  assume h: "healthy c"
  let ?c2 = "stopRetxTimer ((completeDial False (c\<lparr>state := Closed, closed := True\<rparr>))\<lparr>readPending := []\<rparr>)"
  let ?c3 = "?c2\<lparr>sendBuf := send_clear (sendBuf ?c2), oooRecvBuf := recv_clear (oooRecvBuf ?c2)\<rparr>"
  have "congCtrl ?c3 = congCtrl c" "rttEst ?c3 = rttEst c" "sendBuf ?c3 = send_clear (sendBuf c)"
    by (simp_all add: stopRetxTimer_def completeDial_def)
  then have "healthy ?c3" using h clear_ok by (simp add: healthy_def send_clear_def)
  moreover have "healthy (sendFin ?c3)" using calculation healthy_tx [OF tx_frames(3)] by blast
  moreover have "healthy (x\<lparr>events := ev\<rparr>) = healthy x" for x ev by (rule healthy_tx) simp
  ultimately show ?thesis using h by (simp add: conn_Close_def Let_def)
qed

lemma capacity_ops:
  "capacity (snd (send_append seg sb)) = capacity sb" "capacity (snd (send_ack a now sb)) = capacity sb"
  "capacity (markRetransmittedN n now sb) = capacity sb"
  by (auto simp: send_append_def send_ack_def markRetransmittedN_def split: prod.splits)

lemma new_ack_healthy:
  assumes "healthy c"
  obtains c' where "new_ack now hdr c = Some c'" "healthy c'"
proof -
  obtain cc where cc: "onAck (hack hdr - sendAcked c) (congCtrl c) = Some cc" "congestion_ok cc"
    using onAck_ok assms by (metis healthy_def)
  obtain n t sb where sb: "send_ack (hack hdr) now (sendBuf c) = ((n, t), sb)" by (metis prod.exhaust)
  have s: "send_ok sb" "capacity sb = 262144"
    using assms send_ack_ok [of "sendBuf c" "hack hdr" now] capacity_ops(2) [of "hack hdr" now "sendBuf c"] sb by (simp_all add: healthy_def)
  let ?c1 = "c\<lparr>sendAcked := hack hdr, dupAcks := 0, congCtrl := cc, sendBuf := sb\<rparr>"
  let ?c2 = "case t of None \<Rightarrow> ?c1 | Some x \<Rightarrow> ?c1\<lparr>rttEst := resetBackoff (rtt_update x (rttEst ?c1))\<rparr>"
  have h: "healthy ?c2" using assms cc(2) s by (simp add: healthy_def resetBackoff_ok rtt_update_ok split: option.splits)
  have f: "tx (snd (sendTCPPacket p (x\<lparr>nagleBuf := nb, hostSeq := y\<rparr>))) = tx x" for p x nb y by (simp add: tx_def sendTCPPacket_def)
  have "\<exists>c'. new_ack now hdr c = Some c' \<and> tx c' = tx ?c2"
    by (cases t) (simp_all add: new_ack_def cc(1) sb Let_def f)
  then show ?thesis using that h healthy_tx by blast
qed

lemma duplicate_ack_healthy: "healthy c \<Longrightarrow> healthy (duplicate_ack c)"
proof -
  assume w: "healthy c"
  obtain f cc where o: "onDupAck (congCtrl c) = (f, cc)" by (rule prod.exhaust)
  then have "congestion_ok cc" using onDupAck_ok [of "congCtrl c"] w by (simp add: healthy_def)
  then have "healthy (c\<lparr>dupAcks := dupAcks c + 1, congCtrl := cc\<rparr>)" using w by (simp add: healthy_def)
  then show ?thesis using o healthy_tx [OF tx_frames(1)] by (simp add: duplicate_ack_def Let_def split: option.splits)
qed

lemma ack_part_healthy:
  assumes "healthy c"
  obtains c' where "ack_part now hdr c = Some c'" "healthy c'"
proof -
  let ?c = "c\<lparr>peerWnd := hwindow hdr\<rparr>"
  have w: "healthy ?c" using assms healthy_tx [of ?c c] by simp
  obtain c1 where n: "new_ack now hdr ?c = Some c1" "healthy c1" by (rule new_ack_healthy [OF w])
  have h: "healthy (x\<lparr>hostSeq := y, sendAcked := z\<rparr>) = healthy x" for x y z by (rule healthy_tx) (simp add: tx_def)
  have "\<exists>c'. ack_part now hdr c = Some c' \<and> healthy c'"
    using assms w n duplicate_ack_healthy [OF w] duplicate_ack_healthy [OF assms] by (simp add: ack_part_def Let_def h)
  then show ?thesis using that by blast
qed

lemma segment_pass_healthy:
  assumes "healthy c0"
  shows "case segment_pass now hdr c0 of None \<Rightarrow> parseTCPOptions (hoptions hdr) = None | Some (e, c', again) \<Rightarrow> healthy c'"
proof (cases "closed c0")
  case True
  then show ?thesis using assms by (auto simp: segment_pass_def)
next
  case False
  obtain c where a: "ack_part now hdr c0 = Some c" "healthy c" by (rule ack_part_healthy [OF assms])
  have u: "healthy (x\<lparr>events := ev\<rparr>) = healthy x" "healthy (x\<lparr>state := st\<rparr>) = healthy x" for x ev st by (rule healthy_tx, simp)+
  have "healthy (conn_Close (completeDial False (c\<lparr>state := Closed\<rparr>)))"
    using a(2) by (intro healthy_close) (simp add: healthy_tx [OF tx_frames(7)] u)
  moreover have "healthy (completeDial True (sendAck ((applyPeerOptionsLocked opts c)\<lparr>guestSeq := g, peerWnd := w, state := st\<rparr>)))" for opts g w st
  proof -
    have "tx ((applyPeerOptionsLocked opts c)\<lparr>guestSeq := g, peerWnd := w, state := st\<rparr>) = tx c"
      using tx_frames(11) [of opts c] by (simp add: tx_def)
    then show ?thesis by (intro iffD2 [OF healthy_tx a(2)]) simp
  qed
  moreover have "healthy (established_data hdr c)" using a(2) healthy_tx [OF tx_established_data] by blast
  moreover have "healthy (peer_closed (c\<lparr>guestSeq := g, state := st\<rparr>))" for g st
    by (intro iffD2 [OF healthy_tx a(2)]) simp
  moreover have "healthy (conn_Close (c\<lparr>state := st\<rparr>))" for st using a(2) u by (intro healthy_close) simp
  ultimately show ?thesis using False a healthy_close [OF a(2)] unfolding segment_pass_def Let_def
    by (cases "state c") (simp_all add: u split: option.split)
qed

lemma handleSegment_healthy:
  assumes "healthy c"
  shows "case handleSegment now hdr c of None \<Rightarrow> parseTCPOptions (hoptions hdr) = None | Some (e, c') \<Rightarrow> healthy c'"
proof (cases "segment_pass now hdr c")
  case None
  then show ?thesis using segment_pass_healthy [OF assms, of hdr now] by (simp add: handleSegment_def)
next
  case (Some r)
  obtain e c1 again where r: "r = (e, c1, again)" by (rule prod_cases3)
  then have "healthy c1" using segment_pass_healthy [OF assms, of hdr now] Some by simp
  then show ?thesis using segment_pass_healthy [of c1 hdr now] Some r
    by (cases again) (auto simp: handleSegment_def split: option.splits)
qed

lemma write_record_healthy: "healthy c \<Longrightarrow> healthy (snd (write_record now p c))"
proof -
  assume h: "healthy c"
  have f: "healthy (c\<lparr>sendBuf := snd (send_ack a now sb)\<rparr>)" if "send_ok sb" "capacity sb = 262144" for a sb
    using h that send_ack_ok [of sb a now] capacity_ops(2) [of a now sb] by (simp add: healthy_def)
  have g: "healthy (startRetxTimer x) = healthy x" for x by (rule healthy_tx) simp
  have s: "send_ok sb' \<and> capacity sb' = 262144" if "send_append seg sb = (ok, sb')" "send_ok sb" "capacity sb = 262144" for seg sb ok sb'
    using send_append_ok [OF that(2), of seg] capacity_ops(1) [of seg sb] that by simp
  have a: "send_ok (snd (send_ack n now (sendBuf c)))" "capacity (snd (send_ack n now (sendBuf c))) = 262144" for n
    using h send_ack_ok capacity_ops(2) by (simp_all add: healthy_def)
  show ?thesis using h f [of "sendBuf c"] unfolding write_record_def Let_def
    by (auto simp: g healthy_def [of c] a dest: s intro!: f split: prod.split bool.split)
qed

lemma timeout_healthy: "healthy c \<Longrightarrow> healthy (onRetxTimeout now c)"
proof (cases "oldestCoalesced (if mss c = 0 then 1460 else unat (mss c)) (sendBuf c)")
  case None
  assume "healthy c"
  then show ?thesis using None by (simp add: onRetxTimeout_def healthy_def)
next
  case (Some a)
  assume h: "healthy c"
  have f: "healthy (x\<lparr>retxTimer := t\<rparr>) = healthy x" "healthy (snd (sendTCPPacket p x)) = healthy x" for x t p by (rule healthy_tx, simp)+
  have "healthy (c\<lparr>rttEst := rtt_backoff (rttEst c), retxCount := n, sendBuf := markRetransmittedN k now (sendBuf c)\<rparr>)" 
    "healthy (c\<lparr>congCtrl := onTimeout (congCtrl c), rttEst := rtt_backoff (rttEst c), retxCount := n, sendBuf := markRetransmittedN k now (sendBuf c)\<rparr>)"
    for n k using h by (simp_all add: healthy_def rtt_backoff_ok mark_ok onTimeout_ok capacity_ops)
  then show ?thesis using Some h healthy_close [OF h] by (simp add: onRetxTimeout_def Let_def split_beta f)
qed

lemma session_healthy: "tcp_session isn S c bs \<Longrightarrow> healthy c"
proof (induction rule: tcp_session.induct)
  case (segment c bs hdr now e c')
  then show ?case using handleSegment_healthy [of c hdr now] by simp
next
  case (close_write c bs)
  have "healthy (sendFin (c\<lparr>writeClosed := True\<rparr>)) = healthy c" by (rule healthy_tx) simp
  then show ?case using close_write by (simp add: CloseWrite_def)
next
  case (read c bs n r c')
  then show ?case using healthy_tx [OF tx_frames(13) [of n c]] by simp
next
  case (read_payload c bs r c')
  then show ?case using healthy_tx [OF tx_frames(14) [of c]] by simp
qed (simp_all add: healthy_close timeout_healthy write_record_healthy healthy_tx [OF tx_frames(1)] healthy_tx [OF tx_frames(8)]
      healthy_tx [OF tx_frames(9)] healthy_tx [OF tx_frames(10)] healthy_tx [OF tx_frames(11)] healthy_tx [OF tx_frames(15)],
    simp_all add: healthy_def newTCPConn_def congestion_new_ok rtt_new_ok new_send_ok, simp_all add: newTCPSendBuffer_def)



text \<open>
  C19. What waits for an acknowledgement is counted exactly and never exceeds the 256 KiB of the send
  queue, and the retransmission time stays between 50 ms and a minute, through any session.
\<close>

theorem tcp_send_bounds:
  assumes "tcp_session isn S c bs"
  shows "used (sendBuf c) = int (payload_bytes (segments (sendBuf c))) \<and> used (sendBuf c) \<le> 262144
    \<and> 50000000 \<le> rto (rttEst c) \<and> rto (rttEst c) \<le> 60000000000"
  using session_healthy [OF assms] by (simp add: healthy_def send_ok_def rtt_ok_def)

theorem tcp_send_bounds_witness:
  "used (sendBuf demo_done) = int (payload_bytes (segments (sendBuf demo_done))) \<and> used (sendBuf demo_done) \<le> 262144
   \<and> 50000000 \<le> rto (rttEst demo_done) \<and> rto (rttEst demo_done) \<le> 60000000000"
  using tcp_send_bounds [of 100 "[1, 2, 3, 4]" demo_done "[]"] demo_session by simp

lemma window_room:
  fixes w f :: u32
  assumes "f < w" "n \<le> unat (w - f)"
  shows "unat (f + of_nat n) \<le> unat w"
proof -
  have b: "unat x < 4294967296" for x :: u32 using unsigned_less [of x, where 'a = nat] by simp
  have "unat (w - f) = unat w - unat f" using assms(1) by (intro unat_sub) simp
  moreover have "unat (of_nat n :: u32) = n" using assms(2) b [of "w - f"] by (simp add: unat_of_nat)
  ultimately show ?thesis using assms b [of w] by (simp add: word_less_nat_alt unat_word_ariths)
qed

lemma write_count: "(w::nat) < l \<Longrightarrow> min (w + min (k + min (l - w) m) m) l = w + min (l - w) m"
  by (cases "l - w \<le> m") (auto simp: min_def)

text \<open>
  C17. Writing sends the caller's bytes in order and inside the window. A chunk has the next sequence
  number, at most 1460 bytes, and does not reach past what the guest has room for; it and what stays
  in the Nagle buffer are what was in that buffer and the next bytes of the caller, of which the count
  that \<^verbatim>\<open>Write\<close> keeps is right, although the chunk can contain bytes of an earlier call.
\<close>

theorem tcp_write_in_order:
  assumes "written < length b" "write_select b written c = (step, c')"
  shows "case step of
      WriteClosed \<Rightarrow> c' = c \<and> (closed c \<or> writeClosed c)
    | WriteBlocks \<Rightarrow> c' = c \<and> (send_window c = 0 \<or> send_window c \<le> hostSeq c - sendAcked c)
    | WriteNagled n \<Rightarrow> 0 < n \<and> written + n \<le> length b \<and> c' = c\<lparr>nagleBuf := nagleBuf c @ take n (drop written b)\<rparr>
    | WriteChunk p \<Rightarrow> pseq p = hostSeq c \<and> hostSeq c' = hostSeq c + of_nat (length (ppayload p))
        \<and> 0 < length (ppayload p) \<and> length (ppayload p) \<le> 1460
        \<and> unat (hostSeq c' - sendAcked c') \<le> unat (send_window c)
        \<and> (\<exists>k > 0. ppayload p @ nagleBuf c' = nagleBuf c @ take k (drop written b)
             \<and> min (written + length (ppayload p)) (length b) = written + k)"
proof -
  let ?f = "hostSeq c - sendAcked c" and ?w = "send_window c"
  let ?m = "min 1460 (unat (?w - ?f))"
  let ?chunk = "take ?m (drop written b)"
  consider (shut) "closed c \<or> writeClosed c" | (full) "\<not> closed c" "\<not> writeClosed c" "\<not> (0 < ?w \<and> ?f < ?w)"
    | (room) "\<not> closed c" "\<not> writeClosed c" "0 < ?w" "?f < ?w" by blast
  then show ?thesis
  proof cases
    case shut
    then show ?thesis using assms(2) by (auto simp: write_select_def)
  next
    case full
    then have "write_select b written c = (WriteBlocks, c)" by (simp only: write_select_def Let_def simp_thms if_False)
    then show ?thesis using assms(2) full(3) by (auto simp: not_less)
  next
    case room
    have "?w - ?f \<noteq> 0" using room(4) by auto
    then have m: "0 < ?m" by (simp add: unat_gt_0)
    have tk: "take (length ?chunk) (drop written b) = ?chunk" by (simp add: min_def)
    have l: "0 < length ?chunk" "written + length ?chunk \<le> length b" using m assms(1) by auto
    show ?thesis
    proof (cases "nagleEnabled c \<and> length ?chunk < 1460 \<and> 0 < ?f")
      case True
      then have "write_select b written c = (WriteNagled (length ?chunk), c\<lparr>nagleBuf := nagleBuf c @ ?chunk\<rparr>)"
        using room by (simp only: write_select_def Let_def simp_thms if_False if_True)
      then show ?thesis using assms(2) l tk by auto
    next
      case False
      let ?out = "if nagleBuf c \<noteq> [] then take ?m (nagleBuf c @ ?chunk) else ?chunk"
      have o: "0 < length ?out" using l m by auto
      have o2: "length ?out \<le> ?m" by (cases "nagleBuf c = []") (simp_all only: length_take min.cobounded2 if_True if_False simp_thms not_False_eq_True)
      let ?c1 = "if nagleBuf c \<noteq> [] then c\<lparr>nagleBuf := drop ?m (nagleBuf c @ ?chunk)\<rparr> else c"
      let ?fl = "if written + length ?out = length b \<and> nagleBuf ?c1 = [] then ACK OR PSH else ACK"
      have e: "step = WriteChunk (segment_packet (hostSeq ?c1) (guestSeq ?c1) ?fl ?out [])" "c' = ?c1\<lparr>hostSeq := hostSeq ?c1 + of_nat (length ?out)\<rparr>"
        using assms(2) room False by (simp_all only: write_select_def Let_def simp_thms if_False if_True prod.inject)
      have h: "hostSeq ?c1 = hostSeq c" "guestSeq ?c1 = guestSeq c" "sendAcked ?c1 = sendAcked c"
        "nagleBuf ?c1 = (if nagleBuf c \<noteq> [] then drop ?m (nagleBuf c @ ?chunk) else [])" by (simp_all del: drop_append)
      have u: "hostSeq (x\<lparr>hostSeq := y\<rparr>) = y" "sendAcked (x\<lparr>hostSeq := y\<rparr>) = sendAcked x" "nagleBuf (x\<lparr>hostSeq := y\<rparr>) = nagleBuf x"
        for x :: tcpConn and y by simp_all
      have s: "step = WriteChunk (segment_packet (hostSeq c) (guestSeq c) ?fl ?out [])" "hostSeq c' = hostSeq c + of_nat (length ?out)"
        "sendAcked c' = sendAcked c" "nagleBuf c' = (if nagleBuf c \<noteq> [] then drop ?m (nagleBuf c @ ?chunk) else [])"
        by (simp_all only: e u h)
      have w: "unat (hostSeq c' - sendAcked c') \<le> unat ?w"
        using window_room [OF room(4), of "length ?out"] o2 s(2,3) by (simp add: algebra_simps)
      have "?out @ nagleBuf c' = nagleBuf c @ take (length ?chunk) (drop written b)"
        unfolding tk s(4) by (simp del: take_append drop_append)
      moreover have "length ?out = min (length (nagleBuf c) + min (length b - written) ?m) ?m"
        by (cases "nagleBuf c = []")
          (simp_all only: if_True if_False simp_thms not_False_eq_True length_take length_append length_drop list.size add_0 min.assoc min.idem)
      moreover from this have "min (written + length ?out) (length b) = written + length ?chunk"
        using write_count [OF assms(1)] by (simp only: length_take length_drop)
      ultimately have k: "\<exists>k > 0. ?out @ nagleBuf c' = nagleBuf c @ take k (drop written b)
          \<and> min (written + length ?out) (length b) = written + k" using l(1) by blast
      have "length ?out \<le> 1460" using o2 by simp
      then show ?thesis using k o w s(2) unfolding s(1) write_step.case segment_packet_def sent_packet.simps by blast
    qed
  qed
qed

theorem tcp_write_in_order_witness:
  "\<exists>p c'. write_select [5, 6, 7] 1 demo_open = (WriteChunk p, c') \<and> pseq p = hostSeq demo_open \<and> ppayload p = [6, 7]
     \<and> unat (hostSeq c' - sendAcked c') \<le> unat (send_window demo_open)"
proof -
  obtain st c' where w: "write_select [5, 6, 7] 1 demo_open = (st, c')" by (rule prod.exhaust)
  have d: "hostSeq demo_open = 8" "sendAcked demo_open = 8" "guestSeq demo_open = 100" "nagleBuf demo_open = []" "peerWnd demo_open = 0xffff"
    "\<not> wndScaleOK demo_open" "\<not> closed demo_open" "\<not> writeClosed demo_open" by code_simp+
  then have st: "st = WriteChunk (segment_packet 8 100 (ACK OR PSH) [6, 7] [])" using w by (auto simp: write_select_def send_window_def)
  note d
  moreover note tcp_write_in_order [OF _ w, unfolded st, simplified write_step.case]
  ultimately show ?thesis using w unfolding st by (auto simp: segment_packet_def)
qed

section \<open>Where the stream breaks\<close>

lemma established_pass:
  assumes "state c = Established" "\<not> closed c" "handleSegment now hdr c = Some (e, c')"
  obtains c1 where "ack_part now hdr c = Some c1" "rx c1 = rx c"
    "c' = (if hpayload hdr \<noteq> [] then established_data hdr c1
       else if has_flag FIN hdr then peer_closed (c1\<lparr>guestSeq := guestSeq c1 + 1, state := FinWait\<rparr>)
       else if has_flag RST hdr then conn_Close c1 else c1)"
proof -
  obtain c1 where a: "ack_part now hdr c = Some c1" using assms(2,3) by (auto simp: handleSegment_def segment_pass_def split: option.splits)
  moreover note r = rx_ack_part [OF a]
  moreover have "state c1 = Established" using rx_fields [OF r] assms(1) by simp
  ultimately show ?thesis using assms(2,3) that by (auto simp: handleSegment_def segment_pass_def split: if_splits)
qed

text \<open>
  C36. A full receive queue makes a hole in the stream: the next bytes in order are acknowledged to the
  guest, which will not send them again, but they are not kept for the reader.
\<close>

theorem tcp_full_queue_loses_data:
  assumes "state c = Established" "\<not> closed c" "512 \<le> length (recvBuf c)" "osegments (oooRecvBuf c) = []"
    "hseq hdr = guestSeq c" "hpayload hdr \<noteq> []" "\<not> has_flag FIN hdr" "handleSegment now hdr c = Some (e, c')"
  shows "guestSeq c' = guestSeq c + of_nat (length (hpayload hdr)) \<and> unread c' = unread c
    \<and> pack (last (sent c')) = guestSeq c'"
proof -
  obtain c1 where a: "rx c1 = rx c" "c' = established_data hdr c1" using established_pass [OF assms(1,2,8)] assms(6) by metis
  have "c' = sendAck (c1\<lparr>guestSeq := guestSeq c + of_nat (length (hpayload hdr)), oooRecvBuf := (oooRecvBuf c)\<lparr>osegments := []\<rparr>\<rparr>)"
    using rx_fields [OF a(1)] assms unfolding a(2) established_data_def
    by (simp add: collectContiguous_def collect.simps Let_def enqueueData_def)
  then show ?thesis using rx_fields [OF a(1)] by (simp add: sendAck_def sendTCPPacket_def segment_packet_def unread_def)
qed

lemma demo_open_fields:
  "state demo_open = Established" "\<not> closed demo_open" "osegments (oooRecvBuf demo_open) = []" "guestSeq demo_open = 100" "recvBuf demo_open = []"
  "nagleBuf demo_open = []"
  by code_simp+

lemma demo_open_healthy: "healthy demo_open"
proof -
  have "healthy (newTCPConn 99 0xffff 7 None False (\<lambda>_ _. False))"
    using session_healthy [OF tcp_session.accept [of 100 "[]"]] by simp
  then have "healthy (sendSynAck (newTCPConn 99 0xffff 7 None False (\<lambda>_ _. False)))" using healthy_tx [OF tx_frames(8)] by blast
  from handleSegment_healthy [OF this, of "demo_header 100 8 []" 0] show ?thesis
    by (simp add: demo_open_def demo_header_def parseTCPOptions_def parse_options.simps split: option.splits prod.splits)
qed

lemma demo_handled:
  assumes "healthy c" "hoptions hdr = []"
  shows "\<exists>e c'. handleSegment 0 hdr c = Some (e, c')"
  using handleSegment_healthy [OF assms(1), of hdr 0] assms(2) by (auto simp: parseTCPOptions_def parse_options.simps split: option.splits)

lemma demo_options: "hoptions (demo_header sq ak d) = []" "hoptions ((demo_header sq ak d)\<lparr>hflags := fl\<rparr>) = []"
  by (simp_all add: demo_header_def)

theorem tcp_full_queue_loses_data_witness:
  "\<exists>e c'. handleSegment 0 (demo_header 100 8 [1, 2]) (demo_open\<lparr>recvBuf := replicate 512 (Some [0])\<rparr>) = Some (e, c')
     \<and> guestSeq c' = 102 \<and> unread c' = unread (demo_open\<lparr>recvBuf := replicate 512 (Some [0])\<rparr>)"
proof -
  let ?c = "demo_open\<lparr>recvBuf := replicate 512 (Some [0])\<rparr>"
  have "healthy ?c" using demo_open_healthy by (simp add: healthy_def)
  then obtain e c' where h: "handleSegment 0 (demo_header 100 8 [1, 2]) ?c = Some (e, c')"
    using demo_handled [of ?c, OF _ demo_options(1)] by blast
  then show ?thesis using tcp_full_queue_loses_data [OF _ _ _ _ _ _ _ h] demo_open_fields by (simp add: demo_header_def has_flag_def)
qed



text \<open>
  C38. Sequence numbers are compared without their wrap-around: once what the host sends has passed
  \<open>2 ^ 32\<close>, an ordinary acknowledgement of data before that point sets the next sequence number back to it,
  so numbers of data that is still in flight are given to other data.
\<close>

theorem tcp_ack_before_wrap_rewinds:
  assumes "state c = Established" "\<not> closed c" "nagleBuf c = []" "hpayload hdr = []" "has_flag ACK hdr" "\<not> has_flag FIN hdr" "\<not> has_flag RST hdr"
    "sendAcked c < hack hdr" "hostSeq c < hack hdr" "seqLT (hack hdr) (hostSeq c)" "handleSegment now hdr c = Some (e, c')"
  shows "hostSeq c' = hack hdr \<and> seqLT (hostSeq c') (hostSeq c)"
proof -
  obtain c1 where a: "ack_part now hdr c = Some c1" "c' = c1" using established_pass [OF assms(1,2,11)] assms(4,6,7) by metis
  let ?c = "c\<lparr>peerWnd := hwindow hdr\<rparr>"
  obtain c2 where n: "new_ack now hdr ?c = Some c2" using a(1) assms(5,8) by (auto simp: ack_part_def Let_def split: option.splits if_splits)
  then have "hostSeq c2 = hostSeq c" using assms(3)
    by (auto simp: new_ack_def Let_def restartRetxTimer_def stopRetxTimer_def split: option.splits prod.splits if_splits)
  then have "hostSeq c' = hack hdr" using a n assms(5,8,9) by (auto simp: ack_part_def Let_def)
  then show ?thesis using assms(10) by simp
qed

theorem tcp_ack_before_wrap_rewinds_witness:
  "\<exists>e c'. handleSegment 0 (demo_header 100 0xffffffc0 []) (demo_open\<lparr>sendAcked := 0xffffff80, hostSeq := 0x40\<rparr>) = Some (e, c')
     \<and> hostSeq c' = 0xffffffc0"
proof -
  let ?c = "demo_open\<lparr>sendAcked := 0xffffff80, hostSeq := 0x40\<rparr>"
  have "healthy ?c" using demo_open_healthy by (simp add: healthy_def)
  then obtain e c' where h: "handleSegment 0 (demo_header 100 0xffffffc0 []) ?c = Some (e, c')"
    using demo_handled [of ?c, OF _ demo_options(1)] by blast
  then show ?thesis using tcp_ack_before_wrap_rewinds [OF _ _ _ _ _ _ _ _ _ _ h] demo_open_fields
    by (simp add: demo_header_def has_flag_def seqLT_def)
qed

end
