(* ===== verification/NetSource.thy ===== *)
theory NetSource
  imports NetPackets
begin

text \<open>
  Source validation of guest frames (\<^verbatim>\<open>internal/core/netstack/source_validation.go\<close>): a frame is tied
  to the hardware address and the IPv4 address of its guest. Go's \<^verbatim>\<open>net.IP\<close> is a byte list with the two
  forms of an IPv4 address, and a missing hardware address is the empty list. The property says exactly
  which frames pass.
\<close>

section \<open>Addresses\<close>

definition v4InV6Prefix :: bytes where
  "v4InV6Prefix = replicate 10 0 @ [0xff, 0xff]"

definition to4 :: "bytes \<Rightarrow> bytes option" where
  "to4 ip = (if length ip = 4 then Some ip
     else if length ip = 16 \<and> take 12 ip = v4InV6Prefix then Some (drop 12 ip) else None)"

definition ip_Equal :: "bytes \<Rightarrow> bytes \<Rightarrow> bool" where
  "ip_Equal a b =
     (if length a = length b then a = b
      else if length a = 4 \<and> length b = 16 then take 12 b = v4InV6Prefix \<and> a = drop 12 b
      else if length a = 16 \<and> length b = 4 then take 12 a = v4InV6Prefix \<and> drop 12 a = b
      else False)"

definition IPv4zero :: bytes where
  "IPv4zero = v4InV6Prefix @ [0, 0, 0, 0]"

definition ipEqual :: "bytes \<Rightarrow> bytes \<Rightarrow> bool" where
  "ipEqual a b \<longleftrightarrow> length a = length b \<and> list_all2 (=) a b"

definition isHostLocalIPv4 :: "bytes \<Rightarrow> bool" where
  "isHostLocalIPv4 ip =
     (case to4 ip of None \<Rightarrow> False
      | Some ip4 \<Rightarrow>
          ip4 ! 0 = 0 \<or> ip4 ! 0 = 10 \<or> (ip4 ! 0 = 100 \<and> ip4 ! 1 AND 0xc0 = 0x40) \<or> ip4 ! 0 = 127
          \<or> (ip4 ! 0 = 169 \<and> ip4 ! 1 = 254) \<or> (ip4 ! 0 = 172 \<and> ip4 ! 1 AND 0xf0 = 16) \<or> (ip4 ! 0 = 192 \<and> ip4 ! 1 = 168)
          \<or> 224 \<le> ip4 ! 0)"

section \<open>Validation\<close>

datatype SourceViolation =
    SourceValid
  | SourceMalformed
  | SourceMACViolation
  | SourceARPViolation
  | SourceIPv4Violation
  | SourceUnsupportedProtocol

definition equalHardwareAddr :: "bytes \<Rightarrow> bytes \<Rightarrow> bool" where
  "equalHardwareAddr a b \<longleftrightarrow> length a = 6 \<and> length b = 6 \<and> list_all (\<lambda>i. a ! i = b ! i) [0..<6]"

definition u16_at :: "nat \<Rightarrow> bytes \<Rightarrow> u16" where
  "u16_at off packet = be_word (take 2 (drop off packet))"

definition validateARPSource :: "bytes \<Rightarrow> bytes \<Rightarrow> bytes \<Rightarrow> SourceViolation" where
  "validateARPSource packet expectedMAC expectedIPv4 =
     (if length packet < 28 \<or> u16_at 0 packet \<noteq> 1 \<or> u16_at 2 packet \<noteq> 0x0800 \<or> packet ! 4 \<noteq> 6 \<or> packet ! 5 \<noteq> 4 then SourceMalformed
      else if \<not> equalHardwareAddr (take 6 (drop 8 packet)) expectedMAC then SourceARPViolation
      else let senderIP = take 4 (drop 14 packet) in
        if ip_Equal senderIP expectedIPv4 then SourceValid
        else if ip_Equal senderIP IPv4zero \<and> ip_Equal (take 4 (drop 24 packet)) expectedIPv4 then SourceValid
        else SourceARPViolation)"

definition validateIPv4Source :: "bytes \<Rightarrow> bytes \<Rightarrow> SourceViolation" where
  "validateIPv4Source packet expectedIPv4 =
     (if length packet < 20 \<or> drop_bit 4 (packet ! 0) \<noteq> 4 then SourceMalformed
      else let headerLen = unat (packet ! 0 AND 0x0f) * 4 in
        if headerLen < 20 \<or> length packet < headerLen then SourceMalformed
        else let sourceIP = take 4 (drop 12 packet) in
          if ip_Equal sourceIP expectedIPv4 then SourceValid
          else if \<not> ip_Equal sourceIP IPv4zero \<or> packet ! 9 \<noteq> udpProtocolNumber \<or> length packet < headerLen + 8 then SourceIPv4Violation
          else let udp = drop headerLen packet in
            if u16_at 0 udp = 68 \<and> u16_at 2 udp = 67 then SourceValid else SourceIPv4Violation)"

definition ValidateGuestSource :: "bytes \<Rightarrow> bytes \<Rightarrow> bytes \<Rightarrow> SourceViolation" where
  "ValidateGuestSource frame expectedMAC expectedIPv4 =
     (if length frame < 14 \<or> length expectedMAC \<noteq> 6 then SourceMalformed
      else case to4 expectedIPv4 of None \<Rightarrow> SourceMalformed
      | Some ip4 \<Rightarrow>
          if \<not> equalHardwareAddr (take 6 (drop 6 frame)) expectedMAC then SourceMACViolation
          else if u16_at 12 frame = etherTypeARP then validateARPSource (drop 14 frame) expectedMAC ip4
          else if u16_at 12 frame = etherTypeIPv4 then validateIPv4Source (drop 14 frame) ip4
          else if u16_at 12 frame = etherTypeIPv6 then SourceUnsupportedProtocol
          else SourceValid)"

section \<open>What passes\<close>

text \<open>The sender that a frame claims: its IPv4 source, when it says one, and whether it is one of the two exceptions.\<close>

definition arp_from :: "bytes \<Rightarrow> bytes \<Rightarrow> bytes \<Rightarrow> bool" where
  "arp_from mac ip packet \<longleftrightarrow> 28 \<le> length packet \<and> take 6 packet = [0, 1, 8, 0, 6, 4]
     \<and> take 6 (drop 8 packet) = mac
     \<and> (take 4 (drop 14 packet) = ip \<or> take 4 (drop 14 packet) = [0, 0, 0, 0] \<and> take 4 (drop 24 packet) = ip)"

definition ipv4_from :: "bytes \<Rightarrow> bytes \<Rightarrow> bool" where
  "ipv4_from ip packet \<longleftrightarrow>
     (\<exists>h. parseIPv4Header packet = Inr h \<and> 5 \<le> ihl h
        \<and> (isrc h = ip \<or> isrc h = [0, 0, 0, 0] \<and> protocol h = 17 \<and> 8 \<le> length (ipayload h)
             \<and> take 4 (ipayload h) = be_bytes 2 (68 :: u16) @ be_bytes 2 (67 :: u16)))"

lemma equalHardwareAddr_iff: "equalHardwareAddr a b \<longleftrightarrow> length a = 6 \<and> a = b"
  by (auto simp: equalHardwareAddr_def list_all_iff intro!: nth_equalityI)

lemma u16_at_iff: "off + 2 \<le> length packet \<Longrightarrow> u16_at off packet = w \<longleftrightarrow> take 2 (drop off packet) = be_bytes 2 w"
proof -
  assume "off + 2 \<le> length packet"
  then have l: "length (take 2 (drop off packet)) = 2" by simp
  have "be_bytes 2 (be_word (take 2 (drop off packet)) :: u16) = take 2 (drop off packet)"
    using be_bytes_be_word [of "take 2 (drop off packet)", where 'a = 16] l by simp
  then show ?thesis using be_word_be_bytes [of 2 w] by (auto simp: u16_at_def)
qed

lemma ip_Equal_four: "length a = 4 \<Longrightarrow> length b = 4 \<Longrightarrow> ip_Equal a b \<longleftrightarrow> a = b"
  by (simp add: ip_Equal_def)

lemma ip_Equal_zero: "length a = 4 \<Longrightarrow> ip_Equal a IPv4zero \<longleftrightarrow> a = [0, 0, 0, 0]"
  by (simp add: ip_Equal_def IPv4zero_def v4InV6Prefix_def)

lemma take_two_two: "2 \<le> length p \<Longrightarrow> 2 \<le> length q \<Longrightarrow> take 4 p = q2 @ q4 \<longleftrightarrow> take 2 p = q2 \<and> take 2 (drop 2 p) = q4"
  if "length q2 = 2" "length q4 = 2" for p q q2 q4 :: bytes
  using that by (metis (no_types, lifting) append_eq_append_conv append_take_drop_id length_take min.absorb2 numeral_Bit0 take_add)

lemma six_bytes: "6 \<le> length p \<Longrightarrow> \<exists>a b c d e f rest. p = a # b # c # d # e # f # rest"
  by (auto simp: numeral_eq_Suc Suc_le_length_iff)

lemma validateARPSource_valid:
  assumes "length mac = 6" "length ip = 4"
  shows "validateARPSource packet mac ip = SourceValid \<longleftrightarrow> arp_from mac ip packet"
proof (cases "28 \<le> length packet")
  case True
  then obtain a b c d e f rest where p: "packet = a # b # c # d # e # f # rest"
    using six_bytes [of packet] by auto
  have "be_bytes 2 (1 :: u16) = [0, 1]" "be_bytes 2 (0x0800 :: u16) = [8, 0]" by code_simp+
  then have "u16_at 0 packet = 1 \<longleftrightarrow> a = 0 \<and> b = 1" "u16_at 2 packet = 0x0800 \<longleftrightarrow> c = 8 \<and> d = 0"
    using True u16_at_iff [of 0 packet 1] u16_at_iff [of 2 packet "0x0800"] by (simp_all add: p)
  then show ?thesis using True assms
    by (auto simp: validateARPSource_def arp_from_def Let_def equalHardwareAddr_iff ip_Equal_four ip_Equal_zero p)
next
  case False
  then show ?thesis by (simp add: validateARPSource_def arp_from_def)
qed

lemma validateIPv4Source_valid:
  assumes "length ip = 4"
  shows "validateIPv4Source packet ip = SourceValid \<longleftrightarrow> ipv4_from ip packet"
proof (cases "length packet < 20 \<or> drop_bit 4 (packet ! 0) \<noteq> 4 \<or> length packet < unat (packet ! 0 AND 0x0f) * 4")
  case True
  then show ?thesis by (auto simp: validateIPv4Source_def ipv4_from_def parseIPv4Header_def Let_def)
next
  case False
  let ?n = "unat (packet ! 0 AND 0x0f) * 4"
  have l: "length (take 4 (drop 12 packet)) = 4" using False by simp linarith
  obtain h where h: "parseIPv4Header packet = Inr h" "ihl h = packet ! 0 AND 0x0f" "isrc h = take 4 (drop 12 packet)"
      "protocol h = packet ! 9" "ipayload h = drop ?n packet"
    using False by (simp add: parseIPv4Header_def Let_def)
  have five: "5 \<le> ihl h \<longleftrightarrow> 20 \<le> ?n" unfolding h(2) word_le_nat_alt by simp
  have "u16_at 0 (drop ?n packet) = 68 \<and> u16_at 2 (drop ?n packet) = 67 \<longleftrightarrow>
      take 4 (ipayload h) = be_bytes 2 (68 :: u16) @ be_bytes 2 (67 :: u16)" if "?n + 8 \<le> length packet"
    using that u16_at_iff [of 0 "drop ?n packet" 68] u16_at_iff [of 2 "drop ?n packet" 67]
      take_two_two [of "be_bytes 2 (68 :: u16)" "be_bytes 2 (67 :: u16)" "drop ?n packet" "drop ?n packet"] h(5) by simp
  then show ?thesis using False assms h(1,3,4,5) five l
    by (auto simp: validateIPv4Source_def ipv4_from_def Let_def ip_Equal_four ip_Equal_zero)
qed

text \<open>
  C11. Source validation is exact: a frame passes if and only if it comes from the guest's hardware
  address, is not IPv6, and, if it is ARP or IPv4, names the guest's address as its sender, an address
  probe for the guest's own address and a DHCP request being the only frames without one.
\<close>

theorem source_validation_exact:
  assumes "length mac = 6" "length ip = 4"
  shows "ValidateGuestSource frame mac ip = SourceValid \<longleftrightarrow>
    14 \<le> length frame \<and> take 6 (drop 6 frame) = mac \<and> u16_at 12 frame \<noteq> etherTypeIPv6
    \<and> (u16_at 12 frame = etherTypeARP \<longrightarrow> arp_from mac ip (drop 14 frame))
    \<and> (u16_at 12 frame = etherTypeIPv4 \<longrightarrow> ipv4_from ip (drop 14 frame))"
  using assms validateARPSource_valid [OF assms, of "drop 14 frame"] validateIPv4Source_valid [OF assms(2), of "drop 14 frame"]
  by (auto simp: ValidateGuestSource_def to4_def equalHardwareAddr_iff)

definition demo_probe :: bytes where
  "demo_probe = replicate 6 0xff @ [2, 0, 0, 0, 0, 2] @ [8, 6] @ [0, 1, 8, 0, 6, 4, 0, 1] @ [2, 0, 0, 0, 0, 2] @ [0, 0, 0, 0]
     @ replicate 6 0 @ [10, 42, 0, 2]"

theorem source_validation_exact_witness:
  "ValidateGuestSource demo_probe [2, 0, 0, 0, 0, 2] [10, 42, 0, 2] = SourceValid \<and> arp_from [2, 0, 0, 0, 0, 2] [10, 42, 0, 2] (drop 14 demo_probe)
   \<and> ValidateGuestSource demo_probe [2, 0, 0, 0, 0, 2] [10, 42, 0, 3] \<noteq> SourceValid"
proof -
  have "ValidateGuestSource demo_probe [2, 0, 0, 0, 0, 2] [10, 42, 0, 2] = SourceValid" "u16_at 12 demo_probe = etherTypeARP"
    "ValidateGuestSource demo_probe [2, 0, 0, 0, 0, 2] [10, 42, 0, 3] = SourceARPViolation" by code_simp+
  then show ?thesis using source_validation_exact [of "[2, 0, 0, 0, 0, 2]" "[10, 42, 0, 2]" demo_probe] by simp
qed

end
