(* ===== verification/NetStack.thy ===== *)
theory NetStack
  imports TcpConn NetSource
begin

text \<open>
  The user-space network stack of a guest (\<^verbatim>\<open>internal/core/netstack/netstack.go\<close>): its addresses and
  switches, the interface to the guest, and the handlers of the guest's frames from Ethernet to ARP,
  ICMP, UDP and TCP, with the two proxies. What is outside is a log and an answer to each call: the
  backend that takes frames, the host's sockets that the proxies open and write to, the random numbers,
  and the old contents of the pooled frame buffers. A handler that may wait for ever is \<open>None\<close> then.
\<close>

section \<open>State\<close>

record udpProxyKey =
  usrcIP :: bytes
  usrcPort :: u16
  udstPort :: u16

datatype proxy_kind = LocalListener | ServiceProxy | OutboundProxy | DialedGuest

record stack_conn =
  localIPv4 :: bytes
  proxied :: proxy_kind
  tcp :: tcpConn

text \<open>A socket is a queue of at most 32 datagrams with their senders, or a callback.\<close>

datatype udp_socket = UdpQueue "(bytes \<times> bytes \<times> u16) list" | UdpCallback

datatype host_dial = DialService u16 | DialOutbound bytes u16 | DialUDP u16

record netStack =
  hostMAC :: u64
  guestMAC :: u64
  observedGuestMAC :: u64
  hostIPv4 :: bytes
  guestIPv4 :: bytes
  serviceIPv4 :: bytes
  hostDNSName :: bytes
  serviceProxyEnabled :: bool
  hostAccessEnabled :: bool
  allowInternet :: bool
  validateChecksums :: bool
  serviceProxyPorts :: "u16 set"
  iface :: "bool option"
  packetDump :: "bytes list option"
  tcpListen :: "u16 \<Rightarrow> bool option"
  tcpConns :: "tcpFourTuple \<Rightarrow> stack_conn option"
  udpSockets :: "u16 \<Rightarrow> udp_socket option"
  udpServiceProxies :: "udpProxyKey set"
  udpRxPackets :: u64
  udpTxPackets :: u64
  sourceViolations :: "SourceViolation \<Rightarrow> u64"
  stackClosed :: bool
  frames :: "bytes list"
  dials :: "host_dial list"
  udpWrites :: "(udpProxyKey \<times> bytes) list"
  callbacks :: "(u16 \<times> bytes \<times> bytes \<times> u16) list"
  draws :: nat
  backendFails :: "bytes list \<Rightarrow> bool"
  dialFails :: "host_dial list \<Rightarrow> bool"
  writeFails :: "(udpProxyKey \<times> bytes) list \<Rightarrow> bool"
  random :: "nat \<Rightarrow> u32"
  pooled :: "bytes list \<Rightarrow> nat \<Rightarrow> u8"

definition defaultHostIPv4 :: bytes where "defaultHostIPv4 = [10, 42, 0, 1]"
definition defaultGuestIPv4 :: bytes where "defaultGuestIPv4 = [10, 42, 0, 2]"
definition defaultServiceIPv4 :: bytes where "defaultServiceIPv4 = [10, 42, 0, 100]"

definition newNetStack :: "(bytes list \<Rightarrow> bool) \<Rightarrow> (host_dial list \<Rightarrow> bool) \<Rightarrow> ((udpProxyKey \<times> bytes) list \<Rightarrow> bool)
    \<Rightarrow> (nat \<Rightarrow> u32) \<Rightarrow> (bytes list \<Rightarrow> nat \<Rightarrow> u8) \<Rightarrow> netStack" where
  "newNetStack bf df uf rnd old =
     \<lparr>hostMAC = macUnset, guestMAC = macUnset, observedGuestMAC = macUnset,
      hostIPv4 = defaultHostIPv4, guestIPv4 = defaultGuestIPv4, serviceIPv4 = defaultServiceIPv4,
      hostDNSName = ascii ''host.containers.internal'', serviceProxyEnabled = True, hostAccessEnabled = True, allowInternet = True,
      validateChecksums = False, serviceProxyPorts = {}, iface = None, packetDump = None,
      tcpListen = (\<lambda>_. None), tcpConns = (\<lambda>_. None), udpSockets = (\<lambda>_. None), udpServiceProxies = {},
      udpRxPackets = 0, udpTxPackets = 0, sourceViolations = (\<lambda>_. 0), stackClosed = False,
      frames = [], dials = [], udpWrites = [], callbacks = [], draws = 0,
      backendFails = bf, dialFails = df, writeFails = uf, random = rnd, pooled = old\<rparr>"

section \<open>Configuration\<close>

definition SetGuestMAC :: "bytes option \<Rightarrow> netStack \<Rightarrow> neterr option \<times> netStack" where
  "SetGuestMAC mac ns =
     (case mac of None \<Rightarrow> (None, ns\<lparr>guestMAC := macUnset\<rparr>)
      | Some m \<Rightarrow>
          if length m \<noteq> 6 then (Some (InvalidMAC (length m)), ns)
          else case macToUint64 m of None \<Rightarrow> (Some (InvalidMAC (length m)), ns) | Some v \<Rightarrow> (None, ns\<lparr>guestMAC := v\<rparr>))"

definition SetHostMAC :: "bytes \<Rightarrow> netStack \<Rightarrow> neterr option \<times> netStack" where
  "SetHostMAC m ns =
     (if length m \<noteq> 6 then (Some (InvalidMAC (length m)), ns)
      else if isBroadcast m \<or> m ! 0 AND 1 \<noteq> 0 then (Some NotUnicast, ns)
      else case macToUint64 m of None \<Rightarrow> (Some (InvalidMAC (length m)), ns) | Some v \<Rightarrow> (None, ns\<lparr>hostMAC := v\<rparr>))"

definition SetGuestIPv4 :: "bytes \<Rightarrow> netStack \<Rightarrow> neterr option \<times> netStack" where
  "SetGuestIPv4 ip ns = (case to4 ip of None \<Rightarrow> (Some NotIPv4, ns) | Some ip4 \<Rightarrow> (None, ns\<lparr>guestIPv4 := ip4\<rparr>))"

definition SetAllowedServiceProxyPorts :: "int list \<Rightarrow> netStack \<Rightarrow> netStack" where
  "SetAllowedServiceProxyPorts ports ns =
     ns\<lparr>serviceProxyPorts := set (map of_int (filter (\<lambda>port. \<not> (port \<le> 0 \<or> 65535 < port)) ports))\<rparr>"

definition AllowServiceProxyPort :: "int \<Rightarrow> netStack \<Rightarrow> netStack" where
  "AllowServiceProxyPort port ns =
     (if port \<le> 0 \<or> 65535 < port then ns else ns\<lparr>serviceProxyPorts := insert (of_int port) (serviceProxyPorts ns)\<rparr>)"

definition SetServiceProxyEnabled :: "bool \<Rightarrow> netStack \<Rightarrow> netStack" where
  "SetServiceProxyEnabled enabled ns = ns\<lparr>serviceProxyEnabled := enabled\<rparr>"

definition SetHostAccessEnabled :: "bool \<Rightarrow> netStack \<Rightarrow> netStack" where
  "SetHostAccessEnabled enabled ns = ns\<lparr>hostAccessEnabled := enabled\<rparr>"

definition SetInternetAccessEnabled :: "bool \<Rightarrow> netStack \<Rightarrow> netStack" where
  "SetInternetAccessEnabled enabled ns = ns\<lparr>allowInternet := enabled\<rparr>"

definition SetChecksumValidationEnabled :: "bool \<Rightarrow> netStack \<Rightarrow> netStack" where
  "SetChecksumValidationEnabled enabled ns = ns\<lparr>validateChecksums := enabled\<rparr>"

text \<open>\<open>rnd\<close> is what the random source gives for the host's address.\<close>

definition AttachNetworkInterface :: "bytes option \<Rightarrow> netStack \<Rightarrow> neterr option \<times> netStack" where
  "AttachNetworkInterface rnd ns =
     (if iface ns \<noteq> None then (Some AlreadyAttached, ns)
      else if \<not> macIsSet (guestMAC ns) then (Some GuestMACUnknown, ns)
      else if \<not> macIsSet (hostMAC ns) then
        case rnd of None \<Rightarrow> (Some HostMACUnknown, ns)
        | Some m \<Rightarrow>
            let m1 = m[0 := (m ! 0 OR 2) AND NOT 1] in
            (None, ns\<lparr>hostMAC := (case macToUint64 m1 of None \<Rightarrow> 0 | Some v \<Rightarrow> v), iface := Some False\<rparr>)
      else (None, ns\<lparr>iface := Some False\<rparr>))"

definition AttachVirtioBackend :: "bool \<Rightarrow> netStack \<Rightarrow> netStack" where
  "AttachVirtioBackend handler ns = (case iface ns of None \<Rightarrow> ns | Some _ \<Rightarrow> ns\<lparr>iface := Some handler\<rparr>)"

definition stack_Close :: "netStack \<Rightarrow> netStack" where
  "stack_Close ns =
     (if stackClosed ns then ns
      else ns\<lparr>stackClosed := True, iface := None, tcpListen := (\<lambda>_. None), tcpConns := (\<lambda>_. None), udpSockets := (\<lambda>_. None),
        udpServiceProxies := {}, packetDump := None\<rparr>)"

section \<open>Frames to the guest\<close>

definition writePacketCapture :: "bytes \<Rightarrow> netStack \<Rightarrow> netStack" where
  "writePacketCapture data ns = (case packetDump ns of None \<Rightarrow> ns | Some ps \<Rightarrow> ns\<lparr>packetDump := Some (ps @ [data])\<rparr>)"

definition sendFrame :: "bytes \<Rightarrow> netStack \<Rightarrow> neterr option \<times> netStack" where
  "sendFrame frame ns =
     (case iface ns of None \<Rightarrow> (Some NotAttached, ns)
      | Some False \<Rightarrow> (Some NotAttached, ns)
      | Some True \<Rightarrow>
          let ns1 = writePacketCapture frame ns; ns2 = ns1\<lparr>frames := frames ns1 @ [frame]\<rparr> in
          (if backendFails ns2 (frames ns2) then Some BackendError else None, ns2))"

definition getEthernetFrameBuffer :: "nat \<Rightarrow> netStack \<Rightarrow> bytes" where
  "getEthernetFrameBuffer payloadLen ns =
     (if 262158 < 14 + payloadLen then replicate (14 + payloadLen) 0 else map (pooled ns (frames ns)) [0..<14 + payloadLen])"

definition guestMACForTransmit :: "netStack \<Rightarrow> u64" where
  "guestMACForTransmit ns =
     (if macIsSet (observedGuestMAC ns) then observedGuestMAC ns else if macIsSet (guestMAC ns) then guestMAC ns else macUnset)"

definition sendTCPPacketWithOptions :: "bytes \<Rightarrow> tcpFourTuple \<Rightarrow> sent_packet \<Rightarrow> netStack \<Rightarrow> neterr option \<times> netStack" where
  "sendTCPPacketWithOptions local key p ns =
     (let packet = tcp_packet local key (pseq p) (pack p) (pflags p) (ppayload p) (poptions p);
          buf = getEthernetFrameBuffer (20 + length packet) ns; dstMAC = guestMACForTransmit ns in
      if \<not> macIsSet dstMAC then (Some GuestMACUnknown, ns)
      else sendFrame (ipv4_frame buf dstMAC (hostMAC ns) local (ksrcIP key) tcpProtocolNumber packet) ns)"

definition sendRST :: "ipv4Header \<Rightarrow> tcpHeader \<Rightarrow> netStack \<Rightarrow> neterr option \<times> netStack" where
  "sendRST h hdr ns =
     (let key = \<lparr>ksrcIP = isrc h, kdstIP = idst h, ksrcPort = srcPort hdr, kdstPort = dstPort hdr\<rparr>;
          local = (case to4 (idst h) of Some dst \<Rightarrow> dst | None \<Rightarrow> hostIPv4 ns) in
      sendTCPPacketWithOptions local key (segment_packet (hack hdr) (hseq hdr + 1) (RST OR ACK) [] []) ns)"

text \<open>\<open>buf\<close> has room for the headers, then the payload, and whatever follows it.\<close>

definition sendUDP :: "bytes \<Rightarrow> u16 \<Rightarrow> u16 \<Rightarrow> bytes \<Rightarrow> bytes \<Rightarrow> nat \<Rightarrow> netStack \<Rightarrow> neterr option \<times> netStack" where
  "sendUDP buf sport dport srcIP dstIP payloadLen ns =
     (if length buf < 42 + payloadLen then (Some BufferTooSmall, ns)
      else let packet = udp_packet sport dport srcIP dstIP (take payloadLen (drop 42 buf)); dstMAC = guestMACForTransmit ns in
        if \<not> macIsSet dstMAC then (Some GuestMACUnknown, ns)
        else if \<not> macIsSet (hostMAC ns) then (Some HostMACUnknown, ns)
        else case sendFrame (ipv4_frame buf dstMAC (hostMAC ns) srcIP dstIP udpProtocolNumber packet @ drop (42 + payloadLen) buf) ns of
          (Some e, ns1) \<Rightarrow> (Some e, ns1)
        | (None, ns1) \<Rightarrow> (None, ns1\<lparr>udpTxPackets := udpTxPackets ns1 + 1\<rparr>))"

definition sendICMPEchoReply :: "bytes \<Rightarrow> bytes \<Rightarrow> bytes \<Rightarrow> netStack \<Rightarrow> neterr option \<times> netStack" where
  "sendICMPEchoReply src dst request ns =
     (let reply = icmp_reply request; buf = getEthernetFrameBuffer (20 + length request) ns; dstMAC = guestMACForTransmit ns in
      if \<not> macIsSet dstMAC then (Some GuestMACUnknown, ns)
      else sendFrame (ipv4_frame buf dstMAC (hostMAC ns) src dst icmpProtocol reply) ns)"

section \<open>ARP, ICMP and the custom protocol\<close>

definition shouldProxyService :: "netStack \<Rightarrow> bytes \<Rightarrow> bool" where
  "shouldProxyService ns ip = (case to4 ip of None \<Rightarrow> False | Some ip4 \<Rightarrow> ipEqual ip4 (serviceIPv4 ns))"

definition serviceProxyAllowed :: "netStack \<Rightarrow> bytes \<Rightarrow> u16 \<Rightarrow> bool" where
  "serviceProxyAllowed ns ip port =
     (if \<not> shouldProxyService ns ip then False else if hostAccessEnabled ns then True else port \<in> serviceProxyPorts ns)"

definition serviceARPEnabled :: "netStack \<Rightarrow> bool" where
  "serviceARPEnabled ns \<longleftrightarrow> hostAccessEnabled ns \<or> serviceProxyPorts ns \<noteq> {}"

definition sendARPReply :: "bytes \<Rightarrow> bytes \<Rightarrow> bytes \<Rightarrow> bytes \<Rightarrow> netStack \<Rightarrow> neterr option \<times> netStack" where
  "sendARPReply dstMAC senderMAC senderIP targetIP ns =
     (let host = writeMAC (replicate 6 0) (hostMAC ns) in
      sendFrame (dstMAC @ host @ be_bytes 2 etherTypeARP @ be_bytes 2 (1 :: u16) @ be_bytes 2 (0x0800 :: u16) @ [6, 4]
        @ be_bytes 2 (2 :: u16) @ host @ targetIP @ senderMAC @ senderIP) ns)"

definition handleARP :: "bytes \<Rightarrow> bytes \<Rightarrow> netStack \<Rightarrow> neterr option \<times> netStack" where
  "handleARP srcMAC payload ns =
     (if length payload < 28 then (Some (PacketTooShort (length payload)), ns)
      else if u16_at 0 payload \<noteq> 1 \<or> u16_at 2 payload \<noteq> 0x0800 \<or> payload ! 4 \<noteq> 6 \<or> payload ! 5 \<noteq> 4 then (None, ns)
      else if u16_at 6 payload \<noteq> 1 then (None, ns)
      else let targetIP = take 4 (drop 24 payload) in
        if ipEqual targetIP (hostIPv4 ns) \<or> (serviceARPEnabled ns \<and> ipEqual targetIP (serviceIPv4 ns))
        then sendARPReply srcMAC (take 6 (drop 8 payload)) (take 4 (drop 14 payload)) targetIP ns
        else (None, ns))"

definition handleCustom :: "bytes \<Rightarrow> bytes \<Rightarrow> netStack \<Rightarrow> neterr option \<times> netStack" where
  "handleCustom srcMAC payload ns =
     (let host = (case macFromUint64 (hostMAC ns) of None \<Rightarrow> replicate 6 0 | Some m \<Rightarrow> m) in
      sendFrame (srcMAC @ host @ be_bytes 2 etherTypeCustom @ payload) ns)"

definition handleICMP :: "ipv4Header \<Rightarrow> bytes \<Rightarrow> netStack \<Rightarrow> neterr option \<times> netStack" where
  "handleICMP h payload ns =
     (if length payload < 8 then (None, ns)
      else if payload ! 0 \<noteq> 8 then (None, ns)
      else if validateChecksums ns \<and> u16_at 2 payload \<noteq> checksum (put_checksum 2 0 payload) then (None, ns)
      else sendICMPEchoReply (idst h) (isrc h) payload ns)"

section \<open>UDP\<close>

definition enqueue :: "bytes \<Rightarrow> bytes \<Rightarrow> u16 \<Rightarrow> u16 \<Rightarrow> netStack \<Rightarrow> netStack option" where
  "enqueue data ip sport port ns =
     (case udpSockets ns port of None \<Rightarrow> Some ns
      | Some UdpCallback \<Rightarrow> Some (ns\<lparr>callbacks := callbacks ns @ [(port, data, ip, sport)]\<rparr>)
      | Some (UdpQueue q) \<Rightarrow>
          if length q < 32 then Some (ns\<lparr>udpSockets := (udpSockets ns)(port \<mapsto> UdpQueue (q @ [(data, ip, sport)]))\<rparr>) else None)"

definition getUDPServiceProxy :: "udpProxyKey \<Rightarrow> netStack \<Rightarrow> neterr option \<times> netStack" where
  "getUDPServiceProxy key ns =
     (if key \<in> udpServiceProxies ns then (None, ns)
      else let ns1 = ns\<lparr>dials := dials ns @ [DialUDP (udstPort key)]\<rparr> in
        if dialFails ns1 (dials ns1) then (Some DialFailed, ns1)
        else (None, ns1\<lparr>udpServiceProxies := insert key (udpServiceProxies ns1)\<rparr>))"

definition proxyServiceUDP :: "bytes \<Rightarrow> u16 \<Rightarrow> u16 \<Rightarrow> bytes \<Rightarrow> netStack \<Rightarrow> neterr option \<times> netStack" where
  "proxyServiceUDP srcIP sport dport payload ns =
     (let key = \<lparr>usrcIP = srcIP, usrcPort = sport, udstPort = dport\<rparr> in
      case getUDPServiceProxy key ns of
        (Some e, ns1) \<Rightarrow> (Some e, ns1)
      | (None, ns1) \<Rightarrow>
          let ns2 = ns1\<lparr>udpWrites := udpWrites ns1 @ [(key, payload)]\<rparr> in
          if writeFails ns2 (udpWrites ns2) then (Some BackendError, ns2)
          else (None, ns2\<lparr>udpRxPackets := udpRxPackets ns2 + 1\<rparr>))"

definition handleUDPWithReuse :: "ipv4Header \<Rightarrow> bytes \<Rightarrow> netStack \<Rightarrow> (neterr option \<times> netStack) option" where
  "handleUDPWithReuse h payload ns =
     (if length payload < 8 then Some (Some (PacketTooShort (length payload)), ns)
      else let sport = u16_at 0 payload; dport = u16_at 2 payload; len = u16_at 4 payload in
        if len < 8 then Some (Some (UDPLength len), ns)
        else if length payload < unat len then Some (Some (UDPLength len), ns)
        else if validateChecksums ns \<and> u16_at 6 payload \<noteq> 0 \<and> udpChecksum (isrc h) (idst h) (take (unat len) payload) \<noteq> 0 then Some (None, ns)
        else let data = drop 8 (take (unat len) payload); dstIP = idst h in
          if shouldProxyService ns dstIP then
            if \<not> serviceProxyEnabled ns \<or> \<not> serviceProxyAllowed ns dstIP dport then Some (None, ns)
            else Some (proxyServiceUDP (isrc h) sport dport data ns)
          else if udpSockets ns dport = None then Some (None, ns)
          else case enqueue data (isrc h) sport dport ns of None \<Rightarrow> None
            | Some ns1 \<Rightarrow> Some (None, ns1\<lparr>udpRxPackets := udpRxPackets ns1 + 1\<rparr>))"

text \<open>One datagram read by \<^verbatim>\<open>readLoop\<close> of a service proxy; on an error the proxy ends.\<close>

definition proxy_reply :: "udpProxyKey \<Rightarrow> bytes \<Rightarrow> netStack \<Rightarrow> netStack" where
  "proxy_reply key data ns =
     (if key \<notin> udpServiceProxies ns then ns
      else let n = length data; buf = getEthernetFrameBuffer (42 + n) ns in
        case sendUDP (take 42 buf @ data @ drop (42 + n) buf) (udstPort key) (usrcPort key) (serviceIPv4 ns) (usrcIP key) n ns of
          (None, ns1) \<Rightarrow> ns1
        | (Some _, ns1) \<Rightarrow> ns1\<lparr>udpServiceProxies := udpServiceProxies ns1 - {key}\<rparr>)"

definition proxy_done :: "udpProxyKey \<Rightarrow> netStack \<Rightarrow> netStack" where
  "proxy_done key ns = ns\<lparr>udpServiceProxies := udpServiceProxies ns - {key}\<rparr>"

definition udp_ReadFrom :: "nat \<Rightarrow> u16 \<Rightarrow> netStack \<Rightarrow> (bytes \<times> bytes \<times> u16) option \<times> netStack" where
  "udp_ReadFrom n port ns =
     (case udpSockets ns port of
        Some (UdpQueue ((data, ip, sport) # q)) \<Rightarrow> (Some (take n data, ip, sport), ns\<lparr>udpSockets := (udpSockets ns)(port \<mapsto> UdpQueue q)\<rparr>)
      | _ \<Rightarrow> (None, ns))"

definition udp_WriteTo :: "bytes \<Rightarrow> bytes \<Rightarrow> u16 \<Rightarrow> u16 \<Rightarrow> netStack \<Rightarrow> neterr option \<times> netStack" where
  "udp_WriteTo b ip dport port ns =
     (if udpSockets ns port = None then (Some ConnClosed, ns)
      else sendUDP (replicate 42 0 @ b) port dport (hostIPv4 ns) ip (length b) ns)"

definition udp_Close :: "u16 \<Rightarrow> netStack \<Rightarrow> netStack" where
  "udp_Close port ns = ns\<lparr>udpSockets := (udpSockets ns)(port := None)\<rparr>"

definition bind_udp :: "u16 \<Rightarrow> udp_socket \<Rightarrow> netStack \<Rightarrow> neterr option \<times> netStack" where
  "bind_udp port ep ns =
     (if udpSockets ns port \<noteq> None then (Some (AddressInUse port), ns)
      else (None, ns\<lparr>udpSockets := (udpSockets ns)(port \<mapsto> ep)\<rparr>))"

section \<open>TCP\<close>

definition emit :: "bytes \<Rightarrow> tcpFourTuple \<Rightarrow> sent_packet list \<Rightarrow> netStack \<Rightarrow> netStack" where
  "emit local key ps ns = fold (\<lambda>p. snd \<circ> sendTCPPacketWithOptions local key p) ps ns"

text \<open>The dial with which a proxy starts, \<^verbatim>\<open>startServiceProxy\<close> or \<^verbatim>\<open>startOutboundTCPProxy\<close>.\<close>

definition proxy_dial :: "tcpFourTuple \<Rightarrow> proxy_kind \<Rightarrow> host_dial list" where
  "proxy_dial key kind =
     (case kind of ServiceProxy \<Rightarrow> [DialService (kdstPort key)]
      | OutboundProxy \<Rightarrow> [DialOutbound (kdstIP key) (kdstPort key)]
      | _ \<Rightarrow> [])"

text \<open>
  What the stack sees of a step of a connection from \<open>tcp sc\<close> to \<open>c\<close>: its packets, the start of its proxy,
  and its removal from the table.
\<close>

definition conn_update :: "tcpFourTuple \<Rightarrow> stack_conn \<Rightarrow> tcpConn \<Rightarrow> netStack \<Rightarrow> netStack" where
  "conn_update key sc c ns =
     (let news = drop (length (events (tcp sc))) (events c);
          ns1 = ns\<lparr>tcpConns := (if Removed \<in> set news then (tcpConns ns)(key := None) else (tcpConns ns)(key \<mapsto> sc\<lparr>tcp := c\<rparr>))\<rparr>;
          ns2 = (if Callback \<in> set news then ns1\<lparr>dials := dials ns1 @ proxy_dial key (proxied sc)\<rparr> else ns1) in
      emit (localIPv4 sc) key (drop (length (sent (tcp sc))) (sent c)) ns2)"

definition initial_seq :: "netStack \<Rightarrow> u32" where
  "initial_seq ns = random ns (draws ns) AND 0x7fffffff"

text \<open>A connection for a SYN of the guest, answered with a SYN and ACK.\<close>

definition open_conn :: "tcpFourTuple \<Rightarrow> tcpHeader \<Rightarrow> tcpOptions \<Rightarrow> bytes \<Rightarrow> proxy_kind \<Rightarrow> bool option \<Rightarrow> netStack \<Rightarrow> netStack" where
  "open_conn key hdr opts local kind lis ns =
     (let c = applyPeerOptionsLocked opts (newTCPConn (hseq hdr) (hwindow hdr) (initial_seq ns) lis (lis = None) (\<lambda>_ _. False));
          sc = \<lparr>localIPv4 = local, proxied = kind, tcp = c\<rparr> in
      conn_update key sc (sendSynAck c) (ns\<lparr>draws := draws ns + 1, tcpConns := (tcpConns ns)(key \<mapsto> sc)\<rparr>))"

definition new_connection :: "ipv4Header \<Rightarrow> tcpHeader \<Rightarrow> tcpFourTuple \<Rightarrow> tcpOptions \<Rightarrow> netStack \<Rightarrow> neterr option \<times> netStack" where
  "new_connection h hdr key opts ns =
     (let dstIP = idst h; allowServiceProxy = serviceProxyAllowed ns dstIP (dstPort hdr) in
      case tcpListen ns (dstPort hdr) of
        Some takes \<Rightarrow> (None, open_conn key hdr opts (hostIPv4 ns) LocalListener (Some takes) ns)
      | None \<Rightarrow>
          if \<not> hostAccessEnabled ns \<and> isHostLocalIPv4 dstIP \<and> \<not> allowServiceProxy then sendRST h hdr ns
          else if shouldProxyService ns dstIP then
            if \<not> serviceProxyEnabled ns \<or> (\<not> hostAccessEnabled ns \<and> \<not> allowServiceProxy) then sendRST h hdr ns
            else (None, open_conn key hdr opts (serviceIPv4 ns) ServiceProxy None ns)
          else if \<not> allowInternet ns \<and> \<not> ipEqual dstIP (hostIPv4 ns) then sendRST h hdr ns
          else if \<not> ipEqual dstIP (hostIPv4 ns) \<and> \<not> ipEqual dstIP (serviceIPv4 ns) then
            (None, open_conn key hdr opts dstIP OutboundProxy None ns)
          else sendRST h hdr ns)"

definition handleTCP :: "int \<Rightarrow> ipv4Header \<Rightarrow> bytes \<Rightarrow> netStack \<Rightarrow> (neterr option \<times> netStack) option" where
  "handleTCP now h payload ns =
     (if validateChecksums ns \<and> tcpChecksum (isrc h) (idst h) payload \<noteq> 0 then Some (None, ns)
      else case parseTCPHeader payload of Inl e \<Rightarrow> Some (Some e, ns)
      | Inr hdr \<Rightarrow>
          let key = \<lparr>ksrcIP = isrc h, kdstIP = idst h, ksrcPort = srcPort hdr, kdstPort = dstPort hdr\<rparr> in
          case tcpConns ns key of
            None \<Rightarrow>
              if \<not> has_flag SYN hdr then Some (None, ns)
              else (case parseTCPOptions (hoptions hdr) of None \<Rightarrow> None
                    | Some opts \<Rightarrow> Some (new_connection h hdr key opts ns))
          | Some sc \<Rightarrow>
              (case handleSegment now hdr (tcp sc) of None \<Rightarrow> None
               | Some (e, c) \<Rightarrow> Some (if e = Some ConnClosed then None else e, conn_update key sc c ns)))"

text \<open>An operation of the host's side on a connection of the table: its reader, its writer, its timer.\<close>

definition conn_step :: "(tcpConn \<Rightarrow> tcpConn) \<Rightarrow> tcpFourTuple \<Rightarrow> netStack \<Rightarrow> netStack" where
  "conn_step f key ns = (case tcpConns ns key of None \<Rightarrow> ns | Some sc \<Rightarrow> conn_update key sc (f (tcp sc)) ns)"

definition listen_tcp :: "u16 \<Rightarrow> bool \<Rightarrow> netStack \<Rightarrow> neterr option \<times> netStack" where
  "listen_tcp port takes ns =
     (if tcpListen ns port \<noteq> None then (Some (AddressInUse port), ns)
      else (None, ns\<lparr>tcpListen := (tcpListen ns)(port \<mapsto> takes)\<rparr>))"

definition listener_Close :: "u16 \<Rightarrow> netStack \<Rightarrow> netStack" where
  "listener_Close port ns = ns\<lparr>tcpListen := (tcpListen ns)(port := None)\<rparr>"

definition dial_key :: "bytes \<Rightarrow> u16 \<Rightarrow> u16 \<Rightarrow> netStack \<Rightarrow> tcpFourTuple" where
  "dial_key dstIP dport port ns = \<lparr>ksrcIP = dstIP, kdstIP = hostIPv4 ns, ksrcPort = dport, kdstPort = port\<rparr>"

definition ephemeral :: "nat \<Rightarrow> nat \<Rightarrow> u16" where
  "ephemeral start i = of_nat (49152 + (start - 49152 + i) mod 16384)"

text \<open>\<open>start\<close> is where the random source makes the search begin.\<close>

definition allocateTCPSourcePortLocked :: "nat \<Rightarrow> bytes \<Rightarrow> u16 \<Rightarrow> netStack \<Rightarrow> u16" where
  "allocateTCPSourcePortLocked start dstIP dport ns =
     (case find (\<lambda>i. tcpConns ns (dial_key dstIP dport (ephemeral start i) ns) = None) [0..<16384] of
        Some i \<Rightarrow> ephemeral start i | None \<Rightarrow> of_nat start)"

text \<open>\<^verbatim>\<open>DialInternalContext\<close> up to its first SYN; a failure to send it closes the connection.\<close>

definition dial_guest :: "nat \<Rightarrow> bytes \<Rightarrow> u16 \<Rightarrow> netStack \<Rightarrow> neterr option \<times> netStack" where
  "dial_guest start guestIP port ns =
     (let key = dial_key guestIP port (allocateTCPSourcePortLocked start guestIP port ns) ns;
          c = (newTCPConn 0 0xffff (initial_seq ns) None False (\<lambda>_ _. False))\<lparr>state := SynSent, guestSeq := 0, dial := Dialing\<rparr>;
          c1 = snd (sendSyn c); sc = \<lparr>localIPv4 = hostIPv4 ns, proxied = DialedGuest, tcp = c1\<rparr>;
          ns1 = ns\<lparr>draws := draws ns + 1, tcpConns := (tcpConns ns)(key \<mapsto> sc)\<rparr> in
      case sendTCPPacketWithOptions (hostIPv4 ns) key (last (sent c1)) ns1 of
        (None, ns2) \<Rightarrow> (None, ns2)
      | (Some e, ns2) \<Rightarrow> (Some e, conn_step conn_Close key ns2))"

section \<open>Frames from the guest\<close>

definition handleIPv4Internal :: "int \<Rightarrow> bytes \<Rightarrow> netStack \<Rightarrow> (neterr option \<times> netStack) option" where
  "handleIPv4Internal now payload ns =
     (case parseIPv4Header payload of Inl e \<Rightarrow> Some (Some e, ns)
      | Inr h \<Rightarrow>
          if validateChecksums ns \<and> unat (ihl h) * 4 \<le> length payload \<and> ipv4Checksum (take (unat (ihl h) * 4) payload) \<noteq> 0 then Some (None, ns)
          else if to4 (idst h) = None then Some (None, ns)
          else if protocol h = udpProtocolNumber then handleUDPWithReuse h (ipayload h) ns
          else if protocol h = tcpProtocolNumber then handleTCP now h (ipayload h) ns
          else if protocol h = icmpProtocol then Some (handleICMP h (ipayload h) ns)
          else Some (None, ns))"

definition recordSourceViolation :: "SourceViolation \<Rightarrow> netStack \<Rightarrow> netStack" where
  "recordSourceViolation v ns =
     (if v = SourceValid then ns else ns\<lparr>sourceViolations := (sourceViolations ns)(v := sourceViolations ns v + 1)\<rparr>)"

definition recordGuestMAC :: "bytes \<Rightarrow> netStack \<Rightarrow> netStack" where
  "recordGuestMAC mac ns =
     (if length mac \<noteq> 6 \<or> isBroadcast mac then ns
      else case macToUint64 mac of None \<Rightarrow> ns
      | Some v \<Rightarrow>
          if macIsSet (hostMAC ns) \<and> v = hostMAC ns AND macMask then ns
          else if observedGuestMAC ns = v then ns
          else ns\<lparr>observedGuestMAC := v\<rparr>)"

definition handleEthernetFrameWithReuse :: "int \<Rightarrow> bytes \<Rightarrow> netStack \<Rightarrow> (neterr option \<times> netStack) option" where
  "handleEthernetFrameWithReuse now frame ns =
     (let dst = take 6 frame; src = take 6 (drop 6 frame); etherType = u16_at 12 frame; payload = drop 14 frame;
          expectedMAC = (case macFromUint64 (guestMAC ns) of None \<Rightarrow> [] | Some m \<Rightarrow> m);
          violation = ValidateGuestSource frame expectedMAC (guestIPv4 ns) in
      if violation \<noteq> SourceValid then
        Some (None, if violation \<noteq> SourceUnsupportedProtocol then recordSourceViolation violation ns else ns)
      else let ns1 = recordGuestMAC src ns in
        if macIsSet (guestMAC ns1) \<and> \<not> isBroadcast dst \<and> \<not> macEqualUint64 dst (hostMAC ns1) \<and> \<not> macEqualUint64 dst (guestMAC ns1)
        then Some (None, ns1)
        else if etherType = etherTypeARP then Some (handleARP src payload ns1)
        else if etherType = etherTypeIPv4 then handleIPv4Internal now payload ns1
        else if etherType = etherTypeCustom then Some (handleCustom src payload ns1)
        else Some (None, ns1))"

definition DeliverGuestPacket :: "int \<Rightarrow> bytes \<Rightarrow> netStack \<Rightarrow> (neterr option \<times> netStack) option" where
  "DeliverGuestPacket now packet ns =
     (if length packet < 14 then Some (Some (PacketTooShort (length packet)), ns)
      else handleEthernetFrameWithReuse now packet (writePacketCapture packet ns))"

end
