(* ===== verification/NetPolicy.thy ===== *)
theory NetPolicy
  imports NetStack
begin

text \<open>
  What the network stack of a guest guarantees over any run: which host sockets it opens for the guest,
  from whom the traffic it accepts comes, and to whom the frames it sends go. The runs start in any
  configured stack without connections and consist of frames of the guest and of operations of the
  host's side in any order.
\<close>

section \<open>Policy\<close>

definition service_ok :: "netStack \<Rightarrow> u16 \<Rightarrow> bool" where
  "service_ok ns port \<longleftrightarrow> serviceProxyEnabled ns \<and> (hostAccessEnabled ns \<or> port \<in> serviceProxyPorts ns)"

definition outbound_ok :: "netStack \<Rightarrow> bytes \<Rightarrow> bool" where
  "outbound_ok ns ip \<longleftrightarrow> allowInternet ns \<and> ip \<noteq> hostIPv4 ns \<and> ip \<noteq> serviceIPv4 ns \<and> (hostAccessEnabled ns \<or> \<not> isHostLocalIPv4 ip)"

definition dial_ok :: "netStack \<Rightarrow> host_dial \<Rightarrow> bool" where
  "dial_ok ns d = (case d of DialService port \<Rightarrow> service_ok ns port | DialUDP port \<Rightarrow> service_ok ns port | DialOutbound ip _ \<Rightarrow> outbound_ok ns ip)"

definition settings :: "netStack \<Rightarrow> (u64 \<times> u64 \<times> bytes \<times> bytes \<times> bytes) \<times> bool \<times> bool \<times> bool \<times> u16 set" where
  "settings ns = ((hostMAC ns, guestMAC ns, hostIPv4 ns, guestIPv4 ns, serviceIPv4 ns),
     serviceProxyEnabled ns, hostAccessEnabled ns, allowInternet ns, serviceProxyPorts ns)"

lemma settings_ok:
  "settings ns' = settings ns \<Longrightarrow> service_ok ns' = service_ok ns" "settings ns' = settings ns \<Longrightarrow> outbound_ok ns' = outbound_ok ns"
  "settings ns' = settings ns \<Longrightarrow> dial_ok ns' = dial_ok ns"
  by (auto simp: settings_def service_ok_def outbound_ok_def dial_ok_def fun_eq_iff split: host_dial.splits)

definition policy :: "netStack \<Rightarrow> netStack \<Rightarrow> bool" where
  "policy ns0 ns \<longleftrightarrow> settings ns = settings ns0 \<and> list_all (dial_ok ns0) (dials ns)
     \<and> (\<forall>key sc. tcpConns ns key = Some sc \<longrightarrow> list_all (dial_ok ns0) (proxy_dial key (proxied sc)))"

text \<open>What the policy is about.\<close>

definition pol :: "netStack \<Rightarrow> ((u64 \<times> u64 \<times> bytes \<times> bytes \<times> bytes) \<times> bool \<times> bool \<times> bool \<times> u16 set) \<times> host_dial list \<times> (tcpFourTuple \<Rightarrow> proxy_kind option)" where
  "pol ns = (settings ns, dials ns, \<lambda>key. map_option proxied (tcpConns ns key))"

lemma policy_pol: "pol ns' = pol ns \<Longrightarrow> policy ns0 ns' = policy ns0 ns"
proof -
  assume p: "pol ns' = pol ns"
  have c: "map_option proxied (tcpConns ns' key) = map_option proxied (tcpConns ns key)" for key
    using p by (simp add: pol_def fun_eq_iff)
  have "(\<forall>sc. tcpConns ns' key = Some sc \<longrightarrow> list_all (dial_ok ns0) (proxy_dial key (proxied sc)))
      = (\<forall>sc. tcpConns ns key = Some sc \<longrightarrow> list_all (dial_ok ns0) (proxy_dial key (proxied sc)))" for key
    using c [of key] by (cases "tcpConns ns' key"; cases "tcpConns ns key") auto
  then show ?thesis using p by (simp add: policy_def pol_def)
qed

lemma pol_frames [simp]:
  "pol (writePacketCapture d ns) = pol ns" "pol (snd (sendFrame fr ns)) = pol ns" "pol (snd (sendTCPPacketWithOptions l k p ns)) = pol ns"
  "pol (snd (sendRST h hdr ns)) = pol ns" "pol (snd (sendICMPEchoReply s d r ns)) = pol ns" "pol (snd (sendARPReply a b c d ns)) = pol ns"
  "pol (snd (sendUDP buf sp dp si di n ns)) = pol ns"
proof -
  show c: "pol (writePacketCapture d ns) = pol ns" for d ns by (simp add: pol_def settings_def writePacketCapture_def split: option.splits)
  have u: "pol (ns\<lparr>frames := fs\<rparr>) = pol ns" "pol (ns\<lparr>udpTxPackets := n\<rparr>) = pol ns" for ns fs n by (simp_all add: pol_def settings_def)
  show f: "pol (snd (sendFrame fr ns)) = pol ns" for fr ns
    by (simp add: sendFrame_def Let_def u c split: option.splits bool.splits)
  show t: "pol (snd (sendTCPPacketWithOptions l k p ns)) = pol ns" for l k p ns by (simp add: sendTCPPacketWithOptions_def Let_def f)
  show "pol (snd (sendRST h hdr ns)) = pol ns" by (simp add: sendRST_def Let_def t)
  show "pol (snd (sendICMPEchoReply s d r ns)) = pol ns" by (simp add: sendICMPEchoReply_def Let_def f)
  show "pol (snd (sendARPReply a b c d ns)) = pol ns" by (simp add: sendARPReply_def Let_def f)
  show "pol (snd (sendUDP buf sp dp si di n ns)) = pol ns"
  proof -
    have "pol ns1 = pol ns" if "sendFrame x ns = (e, ns1)" for x e ns1 using f [of x ns] that by simp
    then show ?thesis by (auto simp: sendUDP_def Let_def u split: prod.splits option.splits)
  qed
qed

lemma pol_emit [simp]: "pol (emit l k ps ns) = pol ns"
  unfolding emit_def by (induction ps arbitrary: ns) simp_all

lemma policy_connection:
  assumes "policy ns0 ns" "list_all (dial_ok ns0) (proxy_dial key (proxied sc))"
  shows "policy ns0 (conn_update key sc c ns)"
proof -
  let ?news = "drop (length (events (tcp sc))) (events c)"
  let ?ns1 = "ns\<lparr>tcpConns := (if Removed \<in> set ?news then (tcpConns ns)(key := None) else (tcpConns ns)(key \<mapsto> sc\<lparr>tcp := c\<rparr>))\<rparr>"
  let ?ns2 = "if Callback \<in> set ?news then ?ns1\<lparr>dials := dials ?ns1 @ proxy_dial key (proxied sc)\<rparr> else ?ns1"
  have "policy ns0 ?ns1" using assms unfolding policy_def by (auto simp: settings_def)
  then have "policy ns0 ?ns2" using assms(2) unfolding policy_def by (simp add: settings_def)
  then show ?thesis using policy_pol [OF pol_emit] by (simp add: conn_update_def Let_def)
qed

lemma policy_open_conn:
  assumes "policy ns0 ns" "list_all (dial_ok ns0) (proxy_dial key kind)"
  shows "policy ns0 (open_conn key hdr opts l kind lis ns)"
proof -
  let ?c = "applyPeerOptionsLocked opts (newTCPConn (hseq hdr) (hwindow hdr) (initial_seq ns) lis (lis = None) (\<lambda>_ _. False))"
  let ?sc = "\<lparr>localIPv4 = l, proxied = kind, tcp = ?c\<rparr>"
  let ?ns = "ns\<lparr>draws := draws ns + 1, tcpConns := (tcpConns ns)(key \<mapsto> ?sc)\<rparr>"
  have "policy ns0 ?ns" using assms unfolding policy_def by (auto simp: settings_def)
  moreover have "list_all (dial_ok ns0) (proxy_dial key (proxied ?sc))" using assms(2) by simp
  ultimately have "policy ns0 (conn_update key ?sc (sendSynAck ?c) ?ns)" by (rule policy_connection)
  then show ?thesis by (simp add: open_conn_def Let_def)
qed

lemma policy_same: "policy ns0 ns \<Longrightarrow> service_ok ns0 = service_ok ns" "policy ns0 ns \<Longrightarrow> outbound_ok ns0 = outbound_ok ns"
  using settings_ok(1) [of ns ns0] settings_ok(2) [of ns ns0] by (simp_all add: policy_def)

lemma ipEqual_iff: "ipEqual a b \<longleftrightarrow> a = b"
  by (auto simp: ipEqual_def list_all2_eq [symmetric])

lemma policy_new_connection:
  assumes "policy ns0 ns" "length (idst h) = 4" "kdstIP key = idst h" "kdstPort key = dstPort hdr"
  shows "policy ns0 (snd (new_connection h hdr key opts ns))"
proof -
  note pol = assms(1) policy_pol [OF pol_frames(4)]
  have f: "to4 (idst h) = Some (idst h)" using assms(2) by (simp add: to4_def)
  have l: "policy ns0 (open_conn key hdr opts l LocalListener lis ns)" for l lis by (rule policy_open_conn [OF assms(1)]) (simp add: proxy_dial_def)
  have p: "policy ns0 (open_conn key hdr opts l ServiceProxy lis ns)" if "service_ok ns (dstPort hdr)" for l lis
    using that assms(4) by (intro policy_open_conn [OF assms(1)]) (simp add: proxy_dial_def dial_ok_def policy_same [OF assms(1)])
  have o: "policy ns0 (open_conn key hdr opts l OutboundProxy lis ns)" if "outbound_ok ns (idst h)" for l lis
    using that assms(3) by (intro policy_open_conn [OF assms(1)]) (simp add: proxy_dial_def dial_ok_def policy_same [OF assms(1)])
  show ?thesis
    using pol l by (auto simp: new_connection_def Let_def shouldProxyService_def serviceProxyAllowed_def f ipEqual_iff
        service_ok_def outbound_ok_def intro!: p o split: option.split)
qed

lemma policy_handleTCP:
  assumes "policy ns0 ns" "length (idst h) = 4" "handleTCP now h payload ns = Some (e, ns')"
  shows "policy ns0 ns'"
proof (cases "validateChecksums ns \<and> tcpChecksum (isrc h) (idst h) payload \<noteq> 0")
  case False
  note unbad = this
  show ?thesis
  proof (cases "parseTCPHeader payload")
    case (Inr hdr)
    let ?key = "\<lparr>ksrcIP = isrc h, kdstIP = idst h, ksrcPort = srcPort hdr, kdstPort = dstPort hdr\<rparr>"
    show ?thesis
    proof (cases "tcpConns ns ?key")
      case None
      have "policy ns0 (snd (new_connection h hdr ?key opts ns))" for opts by (rule policy_new_connection [OF assms(1,2)]) simp_all
      then have "policy ns0 ns1" if "new_connection h hdr ?key opts ns = (e1, ns1)" for opts e1 ns1 using that by (metis snd_conv)
      then show ?thesis using assms(1,3) None Inr unbad by (auto simp: handleTCP_def Let_def split: if_splits option.splits)
    next
      case (Some sc)
      have "policy ns0 (conn_update ?key sc c ns)" for c
        using assms(1) Some by (intro policy_connection) (auto simp: policy_def)
      then show ?thesis using assms(3) Some Inr unbad by (auto simp: handleTCP_def Let_def split: option.splits)
    qed
  qed (use assms(1,3) False in \<open>auto simp: handleTCP_def\<close>)
qed (use assms(1,3) in \<open>auto simp: handleTCP_def\<close>)

lemma policy_handleUDP:
  assumes "policy ns0 ns" "length (idst h) = 4" "handleUDPWithReuse h payload ns = Some (e, ns')"
  shows "policy ns0 ns'"
proof -
  have u: "pol (x\<lparr>udpRxPackets := n\<rparr>) = pol x" "pol (x\<lparr>udpWrites := ws\<rparr>) = pol x" "pol (x\<lparr>udpServiceProxies := ps\<rparr>) = pol x"
    "pol (x\<lparr>callbacks := cs\<rparr>) = pol x" "pol (x\<lparr>udpSockets := us\<rparr>) = pol x" for x n ws ps cs us by (simp_all add: pol_def settings_def)
  note q = policy_pol [OF u(1)] policy_pol [OF u(2)] policy_pol [OF u(3)] policy_pol [OF u(4)] policy_pol [OF u(5)]
  have g: "policy ns0 ns1" if "getUDPServiceProxy k ns = (e1, ns1)" "service_ok ns (udstPort k)" for k e1 ns1
  proof -
    have "policy ns0 (ns\<lparr>dials := dials ns @ [DialUDP (udstPort k)]\<rparr>)"
      using assms(1) that(2) policy_same(1) [OF assms(1)] unfolding policy_def by (simp add: dial_ok_def settings_def)
    then show ?thesis using that(1) assms(1) by (auto simp: getUDPServiceProxy_def Let_def q split: if_splits)
  qed
  have x: "policy ns0 ns1" if "proxyServiceUDP ip sp dp d ns = (e1, ns1)" "service_ok ns dp" for ip sp dp d e1 ns1
  proof -
    let ?k = "\<lparr>usrcIP = ip, usrcPort = sp, udstPort = dp\<rparr>"
    obtain e2 ns2 where g2: "getUDPServiceProxy ?k ns = (e2, ns2)" by (rule prod.exhaust)
    then have "policy ns0 ns2" using g that(2) by simp
    then show ?thesis using that(1) g2 by (cases e2) (auto simp: proxyServiceUDP_def Let_def q split: if_splits)
  qed
  have f: "to4 (idst h) = Some (idst h)" using assms(2) by (simp add: to4_def)
  have n: "policy ns0 ns1" if "enqueue d ip sp dp ns = Some ns1" for d ip sp dp ns1
    using that assms(1) by (auto simp: enqueue_def q split: option.splits udp_socket.splits if_splits)
  have "service_ok ns (u16_at 2 payload)" if "serviceProxyEnabled ns" "serviceProxyAllowed ns (idst h) (u16_at 2 payload)"
    using that by (auto simp: service_ok_def serviceProxyAllowed_def split: if_splits)
  then show ?thesis using assms(1,3)
    by (auto simp: handleUDPWithReuse_def Let_def q dest: n x split: if_splits option.splits)
qed

lemma policy_deliver:
  assumes "policy ns0 ns" "DeliverGuestPacket now packet ns = Some (e, ns')"
  shows "policy ns0 ns'"
proof (cases "length packet < 14")
  case False
  have u: "pol (recordSourceViolation v x) = pol x" "pol (recordGuestMAC m x) = pol x" for v m x
    by (auto simp: recordSourceViolation_def recordGuestMAC_def pol_def settings_def split: option.splits)
  note q = policy_pol [OF u(1)] policy_pol [OF u(2)] policy_pol [OF pol_frames(1)] policy_pol [OF pol_frames(2)] policy_pol [OF pol_frames(5)]
    policy_pol [OF pol_frames(6)]
  have a: "policy ns0 (snd (handleARP m p x)) = policy ns0 x" "policy ns0 (snd (handleCustom m p x)) = policy ns0 x" "policy ns0 (snd (handleICMP h p x)) = policy ns0 x"
    for m p x h by (simp_all add: handleARP_def handleCustom_def handleICMP_def Let_def q)
  have b: "handleARP m p x = (e1, y) \<Longrightarrow> policy ns0 x \<Longrightarrow> policy ns0 y" "handleCustom m p x = (e1, y) \<Longrightarrow> policy ns0 x \<Longrightarrow> policy ns0 y"
    "handleICMP h p x = (e1, y) \<Longrightarrow> policy ns0 x \<Longrightarrow> policy ns0 y" for m p x h e1 y
    using a(1) [of m p x] a(2) [of m p x] a(3) [of h p x] by simp_all
  have i: "policy ns0 y" if "policy ns0 x" "handleIPv4Internal now p x = Some (e1, y)" for p x e1 y
  proof -
    consider (bad) e2 where "parseIPv4Header p = Inl e2" | (good) h where "parseIPv4Header p = Inr h" by (cases "parseIPv4Header p") auto
    then show ?thesis
    proof cases
      case (good h)
      then have l: "length (idst h) = 4" by (auto simp: parseIPv4Header_def Let_def split: if_splits)
      show ?thesis using that good policy_handleTCP [OF that(1) l] policy_handleUDP [OF that(1) l]
        by (auto simp: handleIPv4Internal_def dest: b(3) split: if_splits)
    qed (use that in \<open>auto simp: handleIPv4Internal_def\<close>)
  qed
  let ?x = "recordGuestMAC (take 6 (drop 6 packet)) (writePacketCapture packet ns)"
  have "policy ns0 ?x" using assms(1) q by simp
  then show ?thesis using assms False i [of ?x]
    by (auto simp: DeliverGuestPacket_def handleEthernetFrameWithReuse_def Let_def q dest: b(1,2) split: if_splits)
qed (use assms in \<open>simp add: DeliverGuestPacket_def\<close>)

section \<open>Runs\<close>

inductive stack_run :: "netStack \<Rightarrow> netStack \<Rightarrow> bool" for ns0 where
  start: "stack_run ns0 ns0"
| deliver: "stack_run ns0 ns \<Longrightarrow> DeliverGuestPacket now packet ns = Some (e, ns') \<Longrightarrow> stack_run ns0 ns'"
| connection: "stack_run ns0 ns \<Longrightarrow> stack_run ns0 (conn_step f key ns)"
| dial_in: "stack_run ns0 ns \<Longrightarrow> stack_run ns0 (snd (dial_guest st ip port ns))"
| listen: "stack_run ns0 ns \<Longrightarrow> stack_run ns0 (snd (listen_tcp port takes ns))"
| unlisten: "stack_run ns0 ns \<Longrightarrow> stack_run ns0 (listener_Close port ns)"
| bind: "stack_run ns0 ns \<Longrightarrow> ep \<in> {UdpQueue [], UdpCallback} \<Longrightarrow> stack_run ns0 (snd (bind_udp port ep ns))"
| udp_read: "stack_run ns0 ns \<Longrightarrow> stack_run ns0 (snd (udp_ReadFrom n port ns))"
| udp_write: "stack_run ns0 ns \<Longrightarrow> stack_run ns0 (snd (udp_WriteTo b ip dport port ns))"
| udp_close: "stack_run ns0 ns \<Longrightarrow> stack_run ns0 (udp_Close port ns)"
| reply: "stack_run ns0 ns \<Longrightarrow> stack_run ns0 (proxy_reply k data ns)"
| ended: "stack_run ns0 ns \<Longrightarrow> stack_run ns0 (proxy_done k ns)"
| backend: "stack_run ns0 ns \<Longrightarrow> stack_run ns0 (AttachVirtioBackend handler ns)"
| shutdown: "stack_run ns0 ns \<Longrightarrow> stack_run ns0 (stack_Close ns)"

text \<open>The operations that neither open a socket of the host nor enter a connection of the guest.\<close>

lemma pol_updates:
  "pol (x\<lparr>udpSockets := us\<rparr>) = pol x" "pol (x\<lparr>udpServiceProxies := ps\<rparr>) = pol x" "pol (x\<lparr>tcpListen := ls\<rparr>) = pol x" "pol (x\<lparr>iface := i\<rparr>) = pol x"
  by (simp_all add: pol_def settings_def)

lemma pol_plain:
  "pol (snd (listen_tcp port takes ns)) = pol ns" "pol (listener_Close port ns) = pol ns" "pol (snd (bind_udp port ep ns)) = pol ns"
  "pol (snd (udp_ReadFrom n port ns)) = pol ns" "pol (snd (udp_WriteTo b ip dport port ns)) = pol ns" "pol (udp_Close port ns) = pol ns"
  "pol (proxy_reply k data ns) = pol ns" "pol (proxy_done k ns) = pol ns" "pol (AttachVirtioBackend handler ns) = pol ns"
proof -
  have "pol ns1 = pol ns" if "sendUDP a b c d e f ns = (r, ns1)" for a b c d e f r ns1 using pol_frames(7) [of a b c d e f ns] that by simp
  then show "pol (proxy_reply k data ns) = pol ns" by (auto simp: proxy_reply_def Let_def pol_updates split: prod.splits option.splits)
qed (simp_all add: listen_tcp_def listener_Close_def bind_udp_def udp_ReadFrom_def udp_WriteTo_def udp_Close_def proxy_done_def AttachVirtioBackend_def
    pol_updates split: option.splits udp_socket.splits list.splits)

lemma policy_conn_step: "policy ns0 ns \<Longrightarrow> policy ns0 (conn_step f key ns)"
  by (auto simp: conn_step_def intro!: policy_connection split: option.splits) (simp add: policy_def)

lemma policy_dial_guest: "policy ns0 ns \<Longrightarrow> policy ns0 (snd (dial_guest st ip port ns))"
proof -
  assume p: "policy ns0 ns"
  let ?key = "dial_key ip port (allocateTCPSourcePortLocked st ip port ns) ns"
  let ?c = "snd (sendSyn ((newTCPConn 0 0xffff (initial_seq ns) None False (\<lambda>_ _. False))\<lparr>state := SynSent, guestSeq := 0, dial := Dialing\<rparr>))"
  let ?sc = "\<lparr>localIPv4 = hostIPv4 ns, proxied = DialedGuest, tcp = ?c\<rparr>"
  let ?ns = "ns\<lparr>draws := draws ns + 1, tcpConns := (tcpConns ns)(?key \<mapsto> ?sc)\<rparr>"
  have "policy ns0 ?ns" using p unfolding policy_def by (auto simp: proxy_dial_def settings_def)
  then have "policy ns0 x" if "sendTCPPacketWithOptions l k q ?ns = (e, x)" for l k q e x
    using policy_pol [OF pol_frames(3) [of l k q ?ns]] that by simp
  then show ?thesis unfolding dial_guest_def Let_def by (auto intro: policy_conn_step split: prod.split option.split)
qed

lemma policy_close: "policy ns0 ns \<Longrightarrow> policy ns0 (stack_Close ns)"
  by (simp add: stack_Close_def policy_def settings_def)

text \<open>What is kept by every operation holds throughout a run.\<close>

locale stack_invariant =
  fixes P :: "netStack \<Rightarrow> bool"
  assumes keeps_deliver: "P ns \<Longrightarrow> DeliverGuestPacket now packet ns = Some (e, ns') \<Longrightarrow> P ns'"
    and keeps_connection: "P ns \<Longrightarrow> P (conn_step f key ns)"
    and keeps_dial_in: "P ns \<Longrightarrow> P (snd (dial_guest st ip port ns))"
    and keeps_listen: "P ns \<Longrightarrow> P (snd (listen_tcp port takes ns))" "P ns \<Longrightarrow> P (listener_Close port ns)"
    and keeps_sockets: "P ns \<Longrightarrow> ep \<in> {UdpQueue [], UdpCallback} \<Longrightarrow> P (snd (bind_udp port ep ns))"
      "P ns \<Longrightarrow> P (snd (udp_ReadFrom n port ns))" "P ns \<Longrightarrow> P (snd (udp_WriteTo b ip dport port ns))" "P ns \<Longrightarrow> P (udp_Close port ns)"
    and keeps_proxy: "P ns \<Longrightarrow> P (proxy_reply k data ns)" "P ns \<Longrightarrow> P (proxy_done k ns)"
    and keeps_life: "P ns \<Longrightarrow> P (AttachVirtioBackend handler ns)" "P ns \<Longrightarrow> P (stack_Close ns)"
begin

lemma run_keeps: "stack_run ns0 ns \<Longrightarrow> P ns0 \<Longrightarrow> P ns"
  by (induction rule: stack_run.induct)
    (auto intro: keeps_deliver keeps_connection keeps_dial_in keeps_listen keeps_sockets keeps_proxy keeps_life)

end

lemma policy_plain:
  assumes "policy ns0 ns"
  shows "policy ns0 (snd (listen_tcp port takes ns))" "policy ns0 (listener_Close port ns)" "policy ns0 (snd (bind_udp port ep ns))"
    "policy ns0 (snd (udp_ReadFrom n port ns))" "policy ns0 (snd (udp_WriteTo b ip dport port ns))" "policy ns0 (udp_Close port ns)"
    "policy ns0 (proxy_reply k data ns)" "policy ns0 (proxy_done k ns)" "policy ns0 (AttachVirtioBackend handler ns)"
  by (rule iffD2 [OF policy_pol assms], rule pol_plain)+

interpretation policy_inv: stack_invariant "policy ns0" for ns0
  by unfold_locales (auto intro: policy_deliver policy_conn_step policy_dial_guest policy_close policy_plain)

text \<open>
  C2. The stack opens a socket of the host for the guest only when it may: a connection into the
  network only with internet access, never to the stack's own addresses, and without host access only
  to an address outside the private, loopback, link-local and multicast ranges; a connection to a
  service of the host only with the service proxy enabled, and without host access only to an allowed port.
\<close>

theorem network_policy_enforced:
  assumes "stack_run ns0 ns" "dials ns0 = []" "\<forall>key. tcpConns ns0 key = None" "d \<in> set (dials ns)"
  shows "case d of
      DialOutbound ip port \<Rightarrow> allowInternet ns0 \<and> ip \<noteq> hostIPv4 ns0 \<and> ip \<noteq> serviceIPv4 ns0
        \<and> (hostAccessEnabled ns0 \<or> \<not> isHostLocalIPv4 ip)
    | DialService port \<Rightarrow> serviceProxyEnabled ns0 \<and> (hostAccessEnabled ns0 \<or> port \<in> serviceProxyPorts ns0)
    | DialUDP port \<Rightarrow> serviceProxyEnabled ns0 \<and> (hostAccessEnabled ns0 \<or> port \<in> serviceProxyPorts ns0)"
proof -
  have "policy ns0 ns0" using assms(2,3) by (simp add: policy_def)
  then have "policy ns0 ns" by (rule policy_inv.run_keeps [OF assms(1)])
  then have "dial_ok ns0 d" using assms(4) by (simp add: policy_def list_all_iff)
  then show ?thesis by (auto simp: dial_ok_def service_ok_def outbound_ok_def split: host_dial.splits)
qed

definition demo_stack :: netStack where
  "demo_stack = AttachVirtioBackend True (snd (AttachNetworkInterface None (snd (SetHostMAC [2, 0, 0, 0, 0, 1] (snd (SetGuestMAC (Some [2, 0, 0, 0, 0, 2])
     (AllowServiceProxyPort 53 (SetHostAccessEnabled False (newNetStack (\<lambda>_. False) (\<lambda>_. False) (\<lambda>_. False) (\<lambda>_. 7) (\<lambda>_ _. 0xaa))))))))))"

definition demo_query :: bytes where
  "demo_query = [2, 0, 0, 0, 0, 1] @ [2, 0, 0, 0, 0, 2] @ [8, 0] @ [0x45, 0, 0, 30, 0, 0, 0, 0, 64, 17, 0, 0, 10, 42, 0, 2, 10, 42, 0, 100]
     @ [15, 160, 0, 53, 0, 10, 0, 0, 1, 2]"

definition demo_asked :: netStack where
  "demo_asked = snd (the (DeliverGuestPacket 0 demo_query demo_stack))"

lemma demo_asked_run: "stack_run demo_stack demo_asked"
proof -
  have "DeliverGuestPacket 0 demo_query demo_stack \<noteq> None" by code_simp
  then obtain e ns where "DeliverGuestPacket 0 demo_query demo_stack = Some (e, ns)" by auto
  then show ?thesis using stack_run.deliver [OF stack_run.start] by (simp add: demo_asked_def)
qed

theorem network_policy_enforced_witness:
  "dials demo_asked = [DialUDP 53] \<and> serviceProxyEnabled demo_stack \<and> (hostAccessEnabled demo_stack \<or> 53 \<in> serviceProxyPorts demo_stack)"
proof -
  have d: "dials demo_asked = [DialUDP 53]" "dials demo_stack = []" by code_simp+
  have "\<forall>key. tcpConns demo_stack key = None"
    by (simp add: demo_stack_def AttachVirtioBackend_def AttachNetworkInterface_def SetHostMAC_def SetGuestMAC_def AllowServiceProxyPort_def
        SetHostAccessEnabled_def newNetStack_def macToUint64_def split: option.splits)
  from network_policy_enforced [OF demo_asked_run d(2) this, of "DialUDP 53"] show ?thesis using d(1) by simp
qed

end
