(* ===== verification/NetGuest.thy ===== *)
theory NetGuest
  imports NetPolicy
begin

text \<open>
  Who the network stack talks to: everything it accepts from its guest carries the guest's address,
  and every frame it sends goes from the host's hardware address to the guest's.
\<close>

section \<open>Accepted traffic\<close>

definition from_guest :: "netStack \<Rightarrow> bytes \<Rightarrow> u16 \<Rightarrow> u16 \<Rightarrow> bool" where
  "from_guest ns ip sport dport \<longleftrightarrow> ip = guestIPv4 ns \<or> ip = [0, 0, 0, 0] \<and> sport = 68 \<and> dport = 67"

definition genuine :: "netStack \<Rightarrow> netStack \<Rightarrow> bool" where
  "genuine ns0 ns \<longleftrightarrow> settings ns = settings ns0
     \<and> (\<forall>key sc. tcpConns ns key = Some sc \<longrightarrow> proxied sc = DialedGuest \<or> ksrcIP key = guestIPv4 ns0)
     \<and> (\<forall>k \<in> udpServiceProxies ns. from_guest ns0 (usrcIP k) (usrcPort k) (udstPort k))
     \<and> (\<forall>(k, data) \<in> set (udpWrites ns). from_guest ns0 (usrcIP k) (usrcPort k) (udstPort k))
     \<and> (\<forall>port q. udpSockets ns port = Some (UdpQueue q) \<longrightarrow> (\<forall>(data, ip, sport) \<in> set q. from_guest ns0 ip sport port))
     \<and> (\<forall>(port, data, ip, sport) \<in> set (callbacks ns). from_guest ns0 ip sport port)"

text \<open>The fields it is about, but for the connections.\<close>

definition gen_rest :: "netStack \<Rightarrow> (((u64 \<times> u64 \<times> bytes \<times> bytes \<times> bytes) \<times> bool \<times> bool \<times> bool \<times> u16 set)
    \<times> udpProxyKey set \<times> (udpProxyKey \<times> bytes) list \<times> (u16 \<Rightarrow> udp_socket option) \<times> (u16 \<times> bytes \<times> bytes \<times> u16) list)" where
  "gen_rest ns = (settings ns, udpServiceProxies ns, udpWrites ns, udpSockets ns, callbacks ns)"

lemma genuine_rest: "gen_rest ns' = gen_rest ns \<Longrightarrow> tcpConns ns' = tcpConns ns \<Longrightarrow> genuine ns0 ns' = genuine ns0 ns"
  by (simp add: genuine_def gen_rest_def)

lemma gen_sendFrame: "gen_rest (snd (sendFrame fr ns)) = gen_rest ns" "tcpConns (snd (sendFrame fr ns)) = tcpConns ns"
  by (simp_all add: gen_rest_def settings_def sendFrame_def writePacketCapture_def Let_def split: option.splits bool.splits)

lemma genuine_sendFrame [simp]: "genuine ns0 (snd (sendFrame fr ns)) = genuine ns0 ns"
  by (rule genuine_rest [OF gen_sendFrame])

lemma genuine_sends [simp]:
  "genuine ns0 (snd (sendTCPPacketWithOptions l k p ns)) = genuine ns0 ns" "genuine ns0 (snd (sendICMPEchoReply s d r ns)) = genuine ns0 ns"
  "genuine ns0 (snd (sendARPReply a b c d ns)) = genuine ns0 ns"
  by (simp_all add: sendTCPPacketWithOptions_def sendICMPEchoReply_def sendARPReply_def Let_def)

lemma genuine_sendRST [simp]: "genuine ns0 (snd (sendRST h hdr ns)) = genuine ns0 ns"
  by (simp add: sendRST_def Let_def)

lemma genuine_emit [simp]: "genuine ns0 (emit l k ps ns) = genuine ns0 ns"
  unfolding emit_def by (induction ps arbitrary: ns) simp_all

lemma genuine_updates [simp]:
  "genuine ns0 (x\<lparr>udpRxPackets := n\<rparr>) = genuine ns0 x" "genuine ns0 (x\<lparr>udpTxPackets := n\<rparr>) = genuine ns0 x" "genuine ns0 (x\<lparr>dials := ds\<rparr>) = genuine ns0 x"
  "genuine ns0 (x\<lparr>tcpListen := ls\<rparr>) = genuine ns0 x" "genuine ns0 (x\<lparr>iface := i\<rparr>) = genuine ns0 x"
  "genuine ns0 (x\<lparr>sourceViolations := sv\<rparr>) = genuine ns0 x" "genuine ns0 (x\<lparr>observedGuestMAC := m\<rparr>) = genuine ns0 x"
  by (rule genuine_rest; simp add: gen_rest_def settings_def)+

lemma genuine_sendUDP [simp]: "genuine ns0 (snd (sendUDP buf sp dp si di n ns)) = genuine ns0 ns"
proof -
  have "genuine ns0 ns1 = genuine ns0 ns" if "sendFrame x ns = (e, ns1)" for x e ns1 using genuine_sendFrame [of ns0 x ns] that by simp
  then show ?thesis by (auto simp: sendUDP_def Let_def split: prod.splits option.splits)
qed

lemma genuine_connection:
  assumes "genuine ns0 ns" "proxied sc = DialedGuest \<or> ksrcIP key = guestIPv4 ns0"
  shows "genuine ns0 (conn_update key sc c ns)"
proof -
  let ?news = "drop (length (events (tcp sc))) (events c)"
  let ?ns1 = "ns\<lparr>tcpConns := (if Removed \<in> set ?news then (tcpConns ns)(key := None) else (tcpConns ns)(key \<mapsto> sc\<lparr>tcp := c\<rparr>))\<rparr>"
  have "genuine ns0 ?ns1" using assms by (auto simp: genuine_def settings_def)
  then show ?thesis by (simp add: conn_update_def Let_def)
qed

lemma genuine_open_conn:
  assumes "genuine ns0 ns" "ksrcIP key = guestIPv4 ns0"
  shows "genuine ns0 (open_conn key hdr opts l kind lis ns)"
proof -
  let ?c = "applyPeerOptionsLocked opts (newTCPConn (hseq hdr) (hwindow hdr) (initial_seq ns) lis (lis = None) (\<lambda>_ _. False))"
  let ?sc = "\<lparr>localIPv4 = l, proxied = kind, tcp = ?c\<rparr>"
  have "genuine ns0 (ns\<lparr>draws := draws ns + 1, tcpConns := (tcpConns ns)(key \<mapsto> ?sc)\<rparr>)" using assms by (auto simp: genuine_def settings_def)
  from genuine_connection [OF this, of ?sc key "sendSynAck ?c"] show ?thesis using assms(2) by (simp add: open_conn_def Let_def)
qed

lemma genuine_handleTCP:
  assumes "genuine ns0 ns" "isrc h = guestIPv4 ns0" "handleTCP now h payload ns = Some (e, ns')"
  shows "genuine ns0 ns'"
proof -
  have n: "genuine ns0 ns1" if "new_connection h hdr key opts ns = (e1, ns1)" "ksrcIP key = guestIPv4 ns0" for hdr key opts e1 ns1
  proof -
    have "genuine ns0 (snd (new_connection h hdr key opts ns))"
      using assms(1) that(2) by (simp add: new_connection_def Let_def genuine_open_conn split: option.split)
    then show ?thesis using that(1) by simp
  qed
  have c: "genuine ns0 (conn_update key sc c ns)" if "tcpConns ns key = Some sc" for key sc c
    using assms(1) that by (intro genuine_connection) (auto simp: genuine_def)
  show ?thesis using assms by (auto simp: handleTCP_def Let_def intro: c dest!: n split: if_splits option.splits sum.splits)
qed

lemma genuine_proxyServiceUDP:
  assumes "genuine ns0 ns" "from_guest ns0 ip sp dp"
  shows "genuine ns0 (snd (proxyServiceUDP ip sp dp d ns))"
proof -
  let ?k = "\<lparr>usrcIP = ip, usrcPort = sp, udstPort = dp\<rparr>"
  obtain e ns1 where g: "getUDPServiceProxy ?k ns = (e, ns1)" by (rule prod.exhaust)
  have i: "genuine ns0 (x\<lparr>udpServiceProxies := insert ?k ps\<rparr>)" if "genuine ns0 (x\<lparr>udpServiceProxies := ps\<rparr>)" for x ps
    using that assms(2) by (auto simp: genuine_def settings_def)
  have "genuine ns0 ns1" using assms(1) g i [of "udpServiceProxies ns" "ns\<lparr>dials := dials ns @ [DialUDP dp]\<rparr>"]
    by (auto simp: getUDPServiceProxy_def Let_def split: if_splits)
  moreover from this have "genuine ns0 (ns1\<lparr>udpWrites := udpWrites ns1 @ [(?k, d)]\<rparr>)"
    using assms(2) by (auto simp: genuine_def settings_def)
  ultimately show ?thesis by (simp add: proxyServiceUDP_def g Let_def split: option.splits)
qed

lemma genuine_enqueue:
  assumes "genuine ns0 ns" "from_guest ns0 ip sp dp" "enqueue d ip sp dp ns = Some ns'"
  shows "genuine ns0 ns'"
proof -
  have "genuine ns0 (ns\<lparr>udpSockets := (udpSockets ns)(dp \<mapsto> UdpQueue (q @ [(d, ip, sp)]))\<rparr>)" if "udpSockets ns dp = Some (UdpQueue q)" for q
    using assms(1,2) that by (auto simp: genuine_def settings_def)
  moreover have "genuine ns0 (ns\<lparr>callbacks := callbacks ns @ [(dp, d, ip, sp)]\<rparr>)"
    using assms(1,2) by (auto simp: genuine_def settings_def)
  ultimately show ?thesis using assms(1,3) by (auto simp: enqueue_def split: option.splits udp_socket.splits if_splits)
qed

lemma genuine_handleUDP:
  assumes "genuine ns0 ns" "8 \<le> length payload \<Longrightarrow> from_guest ns0 (isrc h) (u16_at 0 payload) (u16_at 2 payload)"
    "handleUDPWithReuse h payload ns = Some (e, ns')"
  shows "genuine ns0 ns'"
proof -
  have p: "genuine ns0 ns1" if "proxyServiceUDP (isrc h) (u16_at 0 payload) (u16_at 2 payload) d ns = (e1, ns1)" "8 \<le> length payload" for d e1 ns1
    using genuine_proxyServiceUDP [OF assms(1) assms(2) [OF that(2)], of d] that(1) by simp
  show ?thesis using assms
    by (auto simp: handleUDPWithReuse_def Let_def not_less dest: p genuine_enqueue [rotated 2] split: if_splits option.splits)
qed

lemma valid_source:
  assumes "settings ns = settings ns0" "length (guestIPv4 ns0) = 4"
    "ValidateGuestSource frame (case macFromUint64 (guestMAC ns) of None \<Rightarrow> [] | Some m \<Rightarrow> m) (guestIPv4 ns) = SourceValid"
  obtains "14 \<le> length frame" "macIsSet (guestMAC ns0)" "take 6 (drop 6 frame) = mac_bytes (guestMAC ns0 AND macMask)"
    "u16_at 12 frame = etherTypeIPv4 \<Longrightarrow> ipv4_from (guestIPv4 ns0) (drop 14 frame)"
proof -
  have s: "guestMAC ns = guestMAC ns0" "guestIPv4 ns = guestIPv4 ns0" using assms(1) by (simp_all add: settings_def)
  obtain m where m: "macFromUint64 (guestMAC ns0) = Some m"
    using assms(3) s by (cases "macFromUint64 (guestMAC ns0)") (auto simp: ValidateGuestSource_def)
  then have "m = mac_bytes (guestMAC ns0 AND macMask)" "macIsSet (guestMAC ns0)" by (simp_all add: macFromUint64_def macIsSet_def split: if_splits)
  moreover have "length m = 6" using calculation(1) by (simp add: mac_bytes_def)
  ultimately show ?thesis using that assms(2,3) source_validation_exact [of m "guestIPv4 ns0" frame] s m by simp
qed

lemma ipv4_from_source:
  assumes "ipv4_from (guestIPv4 ns) packet" "parseIPv4Header packet = Inr h"
  shows "isrc h = guestIPv4 ns \<or> protocol h = udpProtocolNumber \<and> from_guest ns (isrc h) (u16_at 0 (ipayload h)) (u16_at 2 (ipayload h))"
proof -
  have "u16_at 0 p = 68 \<and> u16_at 2 p = 67" if "take 4 p = be_bytes 2 (68 :: u16) @ be_bytes 2 (67 :: u16)" "8 \<le> length p" for p
    using that u16_at_iff [of 0 p 68] u16_at_iff [of 2 p 67]
      take_two_two [of "be_bytes 2 (68 :: u16)" "be_bytes 2 (67 :: u16)" p p] by simp
  then show ?thesis using assms by (auto simp: ipv4_from_def from_guest_def)
qed

lemma genuine_capture [simp]: "genuine ns0 (writePacketCapture d ns) = genuine ns0 ns"
  by (rule genuine_rest) (simp_all add: writePacketCapture_def gen_rest_def settings_def split: option.splits)

lemma genuine_deliver:
  assumes "genuine ns0 ns" "length (guestIPv4 ns0) = 4" "DeliverGuestPacket now packet ns = Some (e, ns')"
  shows "genuine ns0 ns'"
proof -
  let ?x = "writePacketCapture packet ns"
  let ?y = "recordGuestMAC (take 6 (drop 6 packet)) ?x"
  let ?v = "ValidateGuestSource packet (case macFromUint64 (guestMAC ?x) of None \<Rightarrow> [] | Some m \<Rightarrow> m) (guestIPv4 ?x)"
  have x: "genuine ns0 ?x" using assms(1) by simp
  then have st: "settings ?x = settings ns0" by (simp add: genuine_def)
  have y: "genuine ns0 ?y" using x by (simp add: recordGuestMAC_def split: option.splits)
  have small: "genuine ns0 (snd (handleARP m p ?y))" "genuine ns0 (snd (handleCustom m p ?y))" "genuine ns0 (snd (handleICMP h p ?y))" for m p h
    using y by (simp_all add: handleARP_def handleCustom_def handleICMP_def Let_def)
  have ip: "genuine ns0 z" if "handleIPv4Internal now (drop 14 packet) ?y = Some (e1, z)" "ipv4_from (guestIPv4 ns0) (drop 14 packet)" for e1 z
  proof (cases "parseIPv4Header (drop 14 packet)")
    case (Inr h)
    note src = ipv4_from_source [OF that(2) Inr]
    have t: "isrc h = guestIPv4 ns0" if "protocol h \<noteq> udpProtocolNumber" using src that by simp
    have u: "from_guest ns0 (isrc h) (u16_at 0 (ipayload h)) (u16_at 2 (ipayload h))" if "protocol h = udpProtocolNumber"
      using src by (auto simp: from_guest_def)
    show ?thesis using that(1) Inr y small(3) [of h "ipayload h"] t genuine_handleTCP [OF y, of h now "ipayload h"]
        genuine_handleUDP [OF y, of "ipayload h" h, OF u]
      by (auto simp: handleIPv4Internal_def split: if_splits)
  qed (use that y in \<open>auto simp: handleIPv4Internal_def\<close>)
  show ?thesis
  proof (cases "14 \<le> length packet \<and> ?v = SourceValid")
    case True
    then have "u16_at 12 packet = etherTypeIPv4 \<Longrightarrow> ipv4_from (guestIPv4 ns0) (drop 14 packet)" using valid_source [OF st assms(2)] by metis
    then show ?thesis using assms(3) True ip y small(1) [of "take 6 (drop 6 packet)" "drop 14 packet"] small(2) [of "take 6 (drop 6 packet)" "drop 14 packet"]
      by (auto simp: DeliverGuestPacket_def handleEthernetFrameWithReuse_def Let_def split: if_splits)
  next
    case False
    then show ?thesis using assms(1,3) x
      by (auto simp: DeliverGuestPacket_def handleEthernetFrameWithReuse_def Let_def recordSourceViolation_def split: if_splits)
  qed
qed

lemma genuine_conn_step: "genuine ns0 ns \<Longrightarrow> genuine ns0 (conn_step f key ns)"
  by (auto simp: conn_step_def intro!: genuine_connection split: option.splits) (auto simp: genuine_def)

lemma genuine_dial_guest: "genuine ns0 ns \<Longrightarrow> genuine ns0 (snd (dial_guest st ip port ns))"
proof -
  assume g: "genuine ns0 ns"
  have "genuine ns0 (ns\<lparr>draws := n, tcpConns := (tcpConns ns)(key \<mapsto> \<lparr>localIPv4 = l, proxied = DialedGuest, tcp = c\<rparr>)\<rparr>)" for n key l c
    using g by (auto simp: genuine_def settings_def)
  then have "genuine ns0 x" if "sendTCPPacketWithOptions l k q (ns\<lparr>draws := n, tcpConns := (tcpConns ns)(key \<mapsto> \<lparr>localIPv4 = l', proxied = DialedGuest, tcp = c\<rparr>)\<rparr>) = (e, x)"
    for l k q n key l' c e x using genuine_sends(1) that by (metis snd_conv)
  then show ?thesis unfolding dial_guest_def Let_def by (auto intro: genuine_conn_step split: prod.split option.split)
qed

lemma genuine_plain:
  assumes "genuine ns0 ns"
  shows "genuine ns0 (snd (listen_tcp port takes ns))" "genuine ns0 (listener_Close port ns)"
    "ep \<in> {UdpQueue [], UdpCallback} \<Longrightarrow> genuine ns0 (snd (bind_udp port ep ns))" "genuine ns0 (snd (udp_ReadFrom n port ns))"
    "genuine ns0 (snd (udp_WriteTo b ip dport port ns))" "genuine ns0 (udp_Close port ns)" "genuine ns0 (proxy_reply k data ns)"
    "genuine ns0 (proxy_done k ns)" "genuine ns0 (AttachVirtioBackend handler ns)" "genuine ns0 (stack_Close ns)"
proof -
  have d: "genuine ns0 (x\<lparr>udpServiceProxies := udpServiceProxies x - {k}\<rparr>)" if "genuine ns0 x" for x
    using that by (auto simp: genuine_def settings_def)
  then show "genuine ns0 (proxy_done k ns)" using assms by (simp add: proxy_done_def)
  have "genuine ns0 ns1" if "sendUDP a b c d e f ns = (r, ns1)" for a b c d e f r ns1
    using genuine_sendUDP [of ns0 a b c d e f ns] that assms by simp
  then show "genuine ns0 (proxy_reply k data ns)" using assms by (auto simp: proxy_reply_def Let_def intro: d split: prod.splits option.splits)
  show "genuine ns0 (stack_Close ns)" using assms by (auto simp: stack_Close_def genuine_def settings_def)
  show "genuine ns0 (udp_Close port ns)" using assms by (auto simp: udp_Close_def genuine_def settings_def)
  show "genuine ns0 (snd (bind_udp port ep ns))" if "ep \<in> {UdpQueue [], UdpCallback}"
    using assms that by (auto simp: bind_udp_def genuine_def settings_def)
  show "genuine ns0 (snd (udp_ReadFrom n port ns))"
    using assms by (auto simp: udp_ReadFrom_def genuine_def settings_def split: option.splits udp_socket.splits list.splits)
qed (use assms in \<open>simp_all add: listen_tcp_def listener_Close_def udp_WriteTo_def AttachVirtioBackend_def split: option.splits\<close>)

interpretation genuine_inv: stack_invariant "\<lambda>ns. genuine ns0 ns \<and> length (guestIPv4 ns0) = 4" for ns0
  by unfold_locales (auto intro: genuine_deliver genuine_conn_step genuine_dial_guest genuine_plain)

text \<open>
  C5. The stack accepts nothing but the guest's own traffic: every connection the guest opened has the
  guest's address, and so has every datagram handed to a socket, to a callback or to a service of the
  host, but for requests from the DHCP client's to the DHCP server's port.
\<close>

theorem guest_traffic_genuine:
  assumes "stack_run ns0 ns" "length (guestIPv4 ns0) = 4" "\<forall>key. tcpConns ns0 key = None" "\<forall>port. udpSockets ns0 port = None"
    "udpServiceProxies ns0 = {}" "udpWrites ns0 = []" "callbacks ns0 = []"
  shows "(\<forall>key sc. tcpConns ns key = Some sc \<longrightarrow> proxied sc = DialedGuest \<or> ksrcIP key = guestIPv4 ns0)
    \<and> (\<forall>port q data ip sport. udpSockets ns port = Some (UdpQueue q) \<and> (data, ip, sport) \<in> set q \<longrightarrow>
         ip = guestIPv4 ns0 \<or> ip = [0, 0, 0, 0] \<and> sport = 68 \<and> port = 67)
    \<and> (\<forall>port data ip sport. (port, data, ip, sport) \<in> set (callbacks ns) \<longrightarrow>
         ip = guestIPv4 ns0 \<or> ip = [0, 0, 0, 0] \<and> sport = 68 \<and> port = 67)
    \<and> (\<forall>k data. (k, data) \<in> set (udpWrites ns) \<longrightarrow>
         usrcIP k = guestIPv4 ns0 \<or> usrcIP k = [0, 0, 0, 0] \<and> usrcPort k = 68 \<and> udstPort k = 67)"
proof -
  have "genuine ns0 ns0" using assms(3-7) by (simp add: genuine_def)
  then have "genuine ns0 ns" using genuine_inv.run_keeps [OF assms(1), of ns0] assms(2) by simp
  then show ?thesis by (force simp: genuine_def from_guest_def)
qed

lemma demo_stack_empty: "tcpConns demo_stack = (\<lambda>_. None)" "udpSockets demo_stack = (\<lambda>_. None)"
  by (simp_all add: demo_stack_def AttachVirtioBackend_def AttachNetworkInterface_def SetHostMAC_def SetGuestMAC_def AllowServiceProxyPort_def
      SetHostAccessEnabled_def newNetStack_def macToUint64_def split: option.splits)

theorem guest_traffic_genuine_witness:
  "udpWrites demo_asked = [(\<lparr>usrcIP = [10, 42, 0, 2], usrcPort = 4000, udstPort = 53\<rparr>, [1, 2])] \<and> guestIPv4 demo_stack = [10, 42, 0, 2]"
proof -
  have w: "map (\<lambda>(k, d). (usrcPort k, udstPort k, d)) (udpWrites demo_asked) = [(4000, 53, [1, 2])]"
    and g: "guestIPv4 demo_stack = [10, 42, 0, 2]" "udpServiceProxies demo_stack = {}" "udpWrites demo_stack = []" "callbacks demo_stack = []"
    by code_simp+
  obtain k where k: "udpWrites demo_asked = [(k, [1, 2])]" "usrcPort k = 4000" "udstPort k = 53" using w by (auto simp: map_eq_Cons_conv)
  have "usrcIP k = [10, 42, 0, 2]"
    using guest_traffic_genuine [OF demo_asked_run _ _ _ g(2-4)] k g(1) by (simp add: demo_stack_empty)
  then show ?thesis using k g(1) by (cases k) simp
qed

section \<open>Sent frames\<close>

lemma mac_bytes_mask: "mac_bytes (v AND macMask) = mac_bytes v"
proof -
  have m: "macMask = mask 48" by (simp add: mask_eq_exp_minus_1)
  have "ucast (drop_bit (8 * i) (v AND macMask)) = (ucast (drop_bit (8 * i) v) :: u8)" if "i < 6" for i
    using that unfolding m by (intro bit_word_eqI) (auto simp: bit_simps)
  then show ?thesis by (simp add: mac_bytes_def be_bytes_def le_bytes_def)
qed

definition to_guest :: "netStack \<Rightarrow> bytes \<Rightarrow> bool" where
  "to_guest ns frame \<longleftrightarrow> take 6 frame = mac_bytes (guestMAC ns) \<and> take 6 (drop 6 frame) = mac_bytes (hostMAC ns)"

definition addressed :: "netStack \<Rightarrow> netStack \<Rightarrow> bool" where
  "addressed ns0 ns \<longleftrightarrow> settings ns = settings ns0 \<and> macIsSet (guestMAC ns0) \<and> macIsSet (hostMAC ns0)
     \<and> (\<not> macIsSet (observedGuestMAC ns) \<or> mac_bytes (observedGuestMAC ns) = mac_bytes (guestMAC ns0))
     \<and> list_all (to_guest ns0) (frames ns)"

lemma length_mac_bytes [simp]: "length (mac_bytes v) = 6"
  by (simp add: mac_bytes_def)

lemma addressed_sendFrame: "addressed ns0 ns \<Longrightarrow> to_guest ns0 fr \<Longrightarrow> addressed ns0 (snd (sendFrame fr ns))"
  by (simp add: addressed_def settings_def sendFrame_def writePacketCapture_def Let_def split: option.splits bool.splits)

lemma ipv4_frame_to_guest:
  assumes "addressed ns0 ns" "14 \<le> length buf"
  shows "macIsSet (guestMACForTransmit ns)" "to_guest ns0 (ipv4_frame buf (guestMACForTransmit ns) (hostMAC ns) src dst proto packet @ rest)"
proof -
  have s: "guestMAC ns = guestMAC ns0" "hostMAC ns = hostMAC ns0" using assms(1) by (simp_all add: addressed_def settings_def)
  show t: "macIsSet (guestMACForTransmit ns)" using assms(1) s by (simp add: guestMACForTransmit_def addressed_def)
  have "mac_bytes (guestMACForTransmit ns) = mac_bytes (guestMAC ns0)" using assms(1) s by (auto simp: guestMACForTransmit_def addressed_def)
  moreover have "macIsSet (hostMAC ns)" using assms(1) s by (simp add: addressed_def)
  ultimately show "to_guest ns0 (ipv4_frame buf (guestMACForTransmit ns) (hostMAC ns) src dst proto packet @ rest)"
    using assms(2) t s by (simp add: to_guest_def ipv4_frame_def buildEthernetHeader_def writeMAC_def)
qed

lemma length_frame_buffer [simp]: "length (getEthernetFrameBuffer n ns) = 14 + n"
  by (simp add: getEthernetFrameBuffer_def)

lemma addressed_sends:
  assumes "addressed ns0 ns"
  shows "addressed ns0 (snd (sendTCPPacketWithOptions l k p ns))" "addressed ns0 (snd (sendICMPEchoReply s d r ns))"
    "addressed ns0 (snd (sendUDP buf sp dp si di n ns))"
proof -
  note f = ipv4_frame_to_guest(2) [OF assms, where rest = "[]", simplified] and g = ipv4_frame_to_guest(2) [OF assms]
  show "addressed ns0 (snd (sendTCPPacketWithOptions l k p ns))" "addressed ns0 (snd (sendICMPEchoReply s d r ns))"
    using assms by (auto simp: sendTCPPacketWithOptions_def sendICMPEchoReply_def Let_def intro!: addressed_sendFrame f)
  have u: "addressed ns0 (x\<lparr>udpTxPackets := m\<rparr>) = addressed ns0 x" for x m by (simp add: addressed_def settings_def)
  have "addressed ns0 ns1" if "sendFrame (ipv4_frame buf (guestMACForTransmit ns) (hostMAC ns) si di pr pk @ rest) ns = (e, ns1)" "14 \<le> length buf"
    for pr pk rest e ns1
    using addressed_sendFrame [OF assms g [OF that(2)], of si di pr pk rest] that(1) by simp
  then show "addressed ns0 (snd (sendUDP buf sp dp si di n ns))"
    using assms by (auto simp: sendUDP_def Let_def u split: prod.split option.split)
qed

lemma addressed_emit: "addressed ns0 ns \<Longrightarrow> addressed ns0 (emit l k ps ns)"
  unfolding emit_def by (induction ps arbitrary: ns) (simp_all add: addressed_sends(1))

lemma addressed_updates [simp]:
  "addressed ns0 (x\<lparr>tcpConns := cs\<rparr>) = addressed ns0 x" "addressed ns0 (x\<lparr>dials := ds\<rparr>) = addressed ns0 x" "addressed ns0 (x\<lparr>draws := n\<rparr>) = addressed ns0 x"
  "addressed ns0 (x\<lparr>udpRxPackets := m\<rparr>) = addressed ns0 x" "addressed ns0 (x\<lparr>udpWrites := ws\<rparr>) = addressed ns0 x"
  "addressed ns0 (x\<lparr>udpServiceProxies := ps\<rparr>) = addressed ns0 x" "addressed ns0 (x\<lparr>udpSockets := us\<rparr>) = addressed ns0 x"
  "addressed ns0 (x\<lparr>callbacks := cb\<rparr>) = addressed ns0 x" "addressed ns0 (x\<lparr>sourceViolations := sv\<rparr>) = addressed ns0 x"
  "addressed ns0 (x\<lparr>tcpListen := ls\<rparr>) = addressed ns0 x" "addressed ns0 (x\<lparr>iface := i\<rparr>) = addressed ns0 x"
  "addressed ns0 (writePacketCapture d x) = addressed ns0 x"
  by (simp_all add: addressed_def settings_def writePacketCapture_def split: option.splits)

lemma addressed_conn_update: "addressed ns0 ns \<Longrightarrow> addressed ns0 (conn_update key sc c ns)"
  by (simp add: conn_update_def Let_def addressed_emit)

lemma addressed_open_conn: "addressed ns0 ns \<Longrightarrow> addressed ns0 (open_conn key hdr opts l kind lis ns)"
  unfolding open_conn_def Let_def by (rule addressed_conn_update) simp

lemma addressed_handleTCP: "addressed ns0 ns \<Longrightarrow> handleTCP now h payload ns = Some (e, ns') \<Longrightarrow> addressed ns0 ns'"
proof -
  assume a: "addressed ns0 ns" and t: "handleTCP now h payload ns = Some (e, ns')"
  have "addressed ns0 (snd (sendRST h hdr ns))" for hdr using addressed_sends(1) [OF a] by (simp add: sendRST_def Let_def)
  then have "addressed ns0 (snd (new_connection h hdr key opts ns))" for hdr key opts
    using a by (simp add: new_connection_def Let_def addressed_open_conn split: option.split)
  then have "addressed ns0 ns1" if "new_connection h hdr key opts ns = (e1, ns1)" for hdr key opts e1 ns1 using that by (metis snd_conv)
  then show ?thesis using a t by (auto simp: handleTCP_def Let_def addressed_conn_update split: if_splits option.splits sum.splits)
qed

lemma addressed_handleUDP: "addressed ns0 ns \<Longrightarrow> handleUDPWithReuse h payload ns = Some (e, ns') \<Longrightarrow> addressed ns0 ns'"
proof -
  assume a: "addressed ns0 ns" and t: "handleUDPWithReuse h payload ns = Some (e, ns')"
  have g: "addressed ns0 ns1" if "getUDPServiceProxy k ns = (e1, ns1)" for k e1 ns1
    using that a by (auto simp: getUDPServiceProxy_def Let_def split: if_splits)
  have "addressed ns0 ns1" if "proxyServiceUDP ip sp dp d ns = (e1, ns1)" for ip sp dp d e1 ns1
    using that g by (auto simp: proxyServiceUDP_def Let_def split: if_splits prod.splits option.splits)
  moreover have "addressed ns0 ns1" if "enqueue d ip sp dp ns = Some ns1" for d ip sp dp ns1
    using that a by (auto simp: enqueue_def split: option.splits udp_socket.splits if_splits)
  ultimately show ?thesis using a t by (auto simp: handleUDPWithReuse_def Let_def split: if_splits option.splits)
qed

lemma addressed_record:
  assumes "addressed ns0 ns" "take 6 (drop 6 frame) = mac_bytes (guestMAC ns0)"
  shows "addressed ns0 (recordGuestMAC (take 6 (drop 6 frame)) ns)"
proof -
  have "mac_bytes (be_word (mac_bytes v)) = mac_bytes v" for v :: u64
    using be_bytes_be_word [of "mac_bytes v", where 'a = 64] by (simp add: mac_bytes_def [of "be_word _"])
  then show ?thesis using assms by (auto simp: recordGuestMAC_def macToUint64_def addressed_def settings_def)
qed

lemma addressed_deliver:
  assumes "addressed ns0 ns" "length (guestIPv4 ns0) = 4" "DeliverGuestPacket now packet ns = Some (e, ns')"
  shows "addressed ns0 ns'"
proof -
  let ?x = "writePacketCapture packet ns" and ?src = "take 6 (drop 6 packet)"
  let ?y = "recordGuestMAC ?src ?x"
  let ?v = "ValidateGuestSource packet (case macFromUint64 (guestMAC ?x) of None \<Rightarrow> [] | Some m \<Rightarrow> m) (guestIPv4 ?x)"
  have x: "addressed ns0 ?x" using assms(1) by simp
  then have st: "settings ?x = settings ns0" by (simp add: addressed_def)
  show ?thesis
  proof (cases "14 \<le> length packet \<and> ?v = SourceValid")
    case True
    then have src: "?src = mac_bytes (guestMAC ns0)" using valid_source [OF st assms(2)] mac_bytes_mask by metis
    have y: "addressed ns0 ?y" by (rule addressed_record [OF x src])
    have h: "hostMAC ?y = hostMAC ns0" "macIsSet (hostMAC ns0)" using y by (simp_all add: addressed_def settings_def)
    have f: "to_guest ns0 (?src @ mac_bytes (hostMAC ns0) @ rest)" for rest using src by (simp add: to_guest_def)
    have "to_guest ns0 (?src @ (case macFromUint64 (hostMAC ?y) of None \<Rightarrow> replicate 6 0 | Some m \<Rightarrow> m) @ rest)" for rest
      using f [of rest] h by (simp add: macFromUint64_def macIsSet_def mac_bytes_mask)
    then have c: "addressed ns0 (snd (handleCustom ?src p ?y))" for p
      unfolding handleCustom_def Let_def by (intro addressed_sendFrame [OF y]) simp
    have a: "addressed ns0 (snd (handleARP ?src p ?y))" for p
      using y h f by (auto simp: handleARP_def sendARPReply_def Let_def writeMAC_def intro!: addressed_sendFrame)
    have i: "addressed ns0 (snd (handleICMP hd p ?y))" for hd p using y addressed_sends(2) [OF y] by (simp add: handleICMP_def)
    have ip: "addressed ns0 z" if "handleIPv4Internal now p ?y = Some (e1, z)" for p e1 z
    proof (cases "parseIPv4Header p")
      case (Inr hd)
      then show ?thesis using that y addressed_handleTCP [OF y] addressed_handleUDP [OF y] i [of hd "ipayload hd"]
        by (auto simp: handleIPv4Internal_def split: if_splits)
    qed (use that y in \<open>auto simp: handleIPv4Internal_def\<close>)
    show ?thesis using assms(3) True y ip a [of "drop 14 packet"] c [of "drop 14 packet"]
      by (auto simp: DeliverGuestPacket_def handleEthernetFrameWithReuse_def Let_def split: if_splits)
  next
    case False
    then show ?thesis using assms(1,3)
      by (auto simp: DeliverGuestPacket_def handleEthernetFrameWithReuse_def Let_def recordSourceViolation_def split: if_splits)
  qed
qed

lemma addressed_conn_step: "addressed ns0 ns \<Longrightarrow> addressed ns0 (conn_step f key ns)"
  by (simp add: conn_step_def addressed_conn_update split: option.splits)

lemma addressed_dial_guest: "addressed ns0 ns \<Longrightarrow> addressed ns0 (snd (dial_guest st ip port ns))"
proof -
  assume a: "addressed ns0 ns"
  have "addressed ns0 x" if "sendTCPPacketWithOptions l k q (ns\<lparr>draws := n, tcpConns := cs\<rparr>) = (e, x)" for l k q n cs e x
    using addressed_sends(1) [of ns0 "ns\<lparr>draws := n, tcpConns := cs\<rparr>" l k q] a that by simp
  then show ?thesis unfolding dial_guest_def Let_def by (auto intro: addressed_conn_step split: prod.split option.split)
qed

lemma addressed_plain:
  assumes "addressed ns0 ns"
  shows "addressed ns0 (snd (listen_tcp port takes ns))" "addressed ns0 (listener_Close port ns)"
    "addressed ns0 (snd (bind_udp port ep ns))" "addressed ns0 (snd (udp_ReadFrom n port ns))"
    "addressed ns0 (snd (udp_WriteTo b ip dport port ns))" "addressed ns0 (udp_Close port ns)" "addressed ns0 (proxy_reply k data ns)"
    "addressed ns0 (proxy_done k ns)" "addressed ns0 (AttachVirtioBackend handler ns)" "addressed ns0 (stack_Close ns)"
proof -
  have "addressed ns0 ns1" if "sendUDP a b c d e f ns = (r, ns1)" for a b c d e f r ns1
    using addressed_sends(3) [OF assms, of a b c d e f] that by simp
  then show "addressed ns0 (proxy_reply k data ns)" using assms by (auto simp: proxy_reply_def Let_def split: prod.splits option.splits)
  show "addressed ns0 (stack_Close ns)" using assms by (auto simp: stack_Close_def addressed_def settings_def)
qed (use assms addressed_sends(3) [OF assms] in \<open>simp_all add: listen_tcp_def listener_Close_def bind_udp_def udp_ReadFrom_def udp_WriteTo_def
    udp_Close_def proxy_done_def AttachVirtioBackend_def split: option.splits udp_socket.splits list.splits\<close>)

interpretation addressed_inv: stack_invariant "\<lambda>ns. addressed ns0 ns \<and> length (guestIPv4 ns0) = 4" for ns0
  by unfold_locales (auto intro: addressed_deliver addressed_conn_step addressed_dial_guest addressed_plain)

text \<open>
  C16. Every frame the stack sends, whatever the guest does, goes to the guest's configured hardware
  address and comes from the host's.
\<close>

theorem frames_reach_the_guest_only:
  assumes "stack_run ns0 ns" "length (guestIPv4 ns0) = 4" "macIsSet (guestMAC ns0)" "macIsSet (hostMAC ns0)"
    "observedGuestMAC ns0 = macUnset" "frames ns0 = []" "frame \<in> set (frames ns)"
  shows "take 6 frame = mac_bytes (guestMAC ns0) \<and> take 6 (drop 6 frame) = mac_bytes (hostMAC ns0)"
proof -
  have "addressed ns0 ns0" using assms(3-6) by (simp add: addressed_def macIsSet_def)
  then have "addressed ns0 ns" using addressed_inv.run_keeps [OF assms(1), of ns0] assms(2) by simp
  then show ?thesis using assms(7) by (simp add: addressed_def list_all_iff to_guest_def)
qed

definition demo_arp :: bytes where
  "demo_arp = replicate 6 0xff @ [2, 0, 0, 0, 0, 2] @ [8, 6] @ [0, 1, 8, 0, 6, 4, 0, 1] @ [2, 0, 0, 0, 0, 2] @ [10, 42, 0, 2] @ replicate 6 0 @ [10, 42, 0, 1]"

definition demo_resolved :: netStack where
  "demo_resolved = snd (the (DeliverGuestPacket 0 demo_arp demo_stack))"

theorem frames_reach_the_guest_only_witness:
  "\<exists>frame. frames demo_resolved = [frame] \<and> take 6 frame = mac_bytes (guestMAC demo_stack) \<and> take 6 (drop 6 frame) = mac_bytes (hostMAC demo_stack)"
proof -
  have f: "length (frames demo_resolved) = 1" "DeliverGuestPacket 0 demo_arp demo_stack \<noteq> None" by code_simp+
  have i: "length (guestIPv4 demo_stack) = 4" "macIsSet (guestMAC demo_stack)" "macIsSet (hostMAC demo_stack)"
    "observedGuestMAC demo_stack = macUnset" "frames demo_stack = []" by code_simp+
  have "stack_run demo_stack demo_resolved"
    using f(2) stack_run.deliver [OF stack_run.start, of 0 demo_arp demo_stack] by (auto simp: demo_resolved_def)
  moreover obtain frame where "frames demo_resolved = [frame]" using f(1) by (auto simp: length_Suc_conv)
  ultimately show ?thesis using frames_reach_the_guest_only [OF _ i, of demo_resolved frame] by simp
qed

end
