(* ===== verification/NetServices.thy ===== *)
theory NetServices
  imports NetPolicy
begin

text \<open>
  Services of the network stack for the host's side: source ports for connections into the guest, and
  the replies of a service of the host to the guest's datagrams, whose frames carry bytes of earlier ones.
\<close>

section \<open>Source ports\<close>

lemma ephemeral_range: "49152 \<le> ephemeral start i"
proof -
  have "unat (of_nat n :: u16) = n" if "n < 65536" for n using that by (simp add: unat_of_nat take_bit_nat_eq_self)
  moreover have "49152 + (start - 49152 + i) mod 16384 < 65536" by simp
  ultimately have "unat (ephemeral start i) = 49152 + (start - 49152 + i) mod 16384" unfolding ephemeral_def by blast
  then show ?thesis by (simp add: word_le_nat_alt)
qed

lemma ephemeral_covers:
  assumes "49152 \<le> port" "49152 \<le> start" "start \<le> 65535"
  shows "\<exists>i < 16384. ephemeral start i = port"
proof -
  let ?p = "unat port - 49152" and ?s = "start - 49152"
  have "unat port < 2 ^ 16" using unsigned_less [of port, where 'a = nat] by simp
  then have p: "49152 \<le> unat port" "?p < 16384" "?s < 16384" using assms by (simp_all add: word_le_nat_alt)
  have "(?s + (?p + 16384 - ?s) mod 16384) mod 16384 = ?p"
  proof -
    have e: "?s + (?p + 16384 - ?s) = ?p + 16384" using p(3) by linarith
    have "(?s + (?p + 16384 - ?s) mod 16384) mod 16384 = (?s + (?p + 16384 - ?s)) mod 16384" by (rule mod_add_right_eq)
    also have "\<dots> = ?p" unfolding e using p(2) by simp
    finally show ?thesis .
  qed
  then have "ephemeral start ((?p + 16384 - ?s) mod 16384) = of_nat (49152 + ?p)" by (simp add: ephemeral_def)
  then have "ephemeral start ((?p + 16384 - ?s) mod 16384) = port" using p(1) by simp
  then show ?thesis by (intro exI [of _ "(?p + 16384 - ?s) mod 16384"]) simp
qed

text \<open>
  The source port of a connection into the guest is a free one of the ephemeral range, wherever
  the search starts, as long as one is free.
\<close>

theorem dial_port_is_free:
  assumes "49152 \<le> start" "start \<le> 65535" "49152 \<le> port" "tcpConns ns (dial_key ip dport port ns) = None"
  shows "tcpConns ns (dial_key ip dport (allocateTCPSourcePortLocked start ip dport ns) ns) = None
    \<and> 49152 \<le> allocateTCPSourcePortLocked start ip dport ns"
proof -
  let ?P = "\<lambda>i. tcpConns ns (dial_key ip dport (ephemeral start i) ns) = None"
  obtain i where "i < 16384" "ephemeral start i = port" using ephemeral_covers [OF assms(3,1,2)] by blast
  then have "find ?P [0..<16384] \<noteq> None" using assms(4) by (auto simp: find_None_iff)
  then obtain j where j: "find ?P [0..<16384] = Some j" by auto
  then have "?P j" by (auto simp: find_Some_iff)
  then show ?thesis using j ephemeral_range by (simp add: allocateTCPSourcePortLocked_def)
qed

definition demo_busy :: netStack where
  "demo_busy = demo_stack\<lparr>tcpConns := (\<lambda>_. None)(dial_key [10, 42, 0, 2] 80 50000 demo_stack \<mapsto>
     \<lparr>localIPv4 = [10, 42, 0, 1], proxied = DialedGuest, tcp = newTCPConn 0 0 0 None False (\<lambda>_ _. False)\<rparr>)\<rparr>"

theorem dial_port_is_free_witness:
  "tcpConns demo_busy (dial_key [10, 42, 0, 2] 80 50000 demo_busy) \<noteq> None
   \<and> tcpConns demo_busy (dial_key [10, 42, 0, 2] 80 (allocateTCPSourcePortLocked 50000 [10, 42, 0, 2] 80 demo_busy) demo_busy) = None"
proof -
  have k: "dial_key ip dp port demo_busy = dial_key ip dp port demo_stack" for ip dp port by (simp add: dial_key_def demo_busy_def)
  have "tcpConns demo_busy (dial_key [10, 42, 0, 2] 80 50001 demo_busy) = None" unfolding k by (simp add: demo_busy_def dial_key_def)
  from dial_port_is_free [OF _ _ _ this, of 50000] show ?thesis by (simp add: k) (simp add: demo_busy_def)
qed

section \<open>Replies of a service\<close>

lemma length_udp_packet: "length (udp_packet sp dp si di payload) = 8 + length payload"
  by (simp add: udp_packet_def put_checksum_def Let_def)

lemma length_ipv4_frame:
  "14 \<le> length buf \<Longrightarrow> length src = 4 \<Longrightarrow> length dst = 4 \<Longrightarrow> length (ipv4_frame buf dm sm src dst proto packet) = 34 + length packet"
  by (simp add: ipv4_frame_def buildEthernetHeader_def writeMAC_def mac_bytes_def buildIPv4Header_def put_checksum_def Let_def)

text \<open>
  C39. A datagram that a service of the host sends back is followed, in the frame the guest gets, by
  fourteen bytes of whatever the frame buffer held before, such as a frame to another guest: the buffer
  is allocated with the Ethernet header counted twice, and all of it is sent.
\<close>

theorem udp_reply_leaks_buffer:
  assumes "key \<in> udpServiceProxies ns" "iface ns = Some True" "macIsSet (guestMACForTransmit ns)" "macIsSet (hostMAC ns)"
    "length data \<le> 65507" "length (usrcIP key) = 4" "length (serviceIPv4 ns) = 4"
  shows "\<exists>frame. frames (proxy_reply key data ns) = frames ns @ [frame] \<and> length frame = 56 + length data
    \<and> drop (42 + length data) frame = map (pooled ns (frames ns)) [42 + length data..<56 + length data]"
proof -
  let ?n = "length data" and ?b = "getEthernetFrameBuffer (42 + length data) ns"
  let ?buf = "take 42 ?b @ data @ drop (42 + ?n) ?b"
  have b: "?b = map (pooled ns (frames ns)) [0..<56 + ?n]" using assms(5) by (simp add: getEthernetFrameBuffer_def)
  have lb: "length ?b = 56 + ?n" "length ?buf = 56 + ?n" by (simp_all add: b)
  let ?fr = "ipv4_frame ?buf (guestMACForTransmit ns) (hostMAC ns) (serviceIPv4 ns) (usrcIP key) udpProtocolNumber
      (udp_packet (udstPort key) (usrcPort key) (serviceIPv4 ns) (usrcIP key) (take ?n (drop 42 ?buf)))"
  let ?tail = "drop (42 + ?n) ?buf"
  have t: "?tail = map (pooled ns (frames ns)) [42 + ?n..<56 + ?n]" by (simp add: b drop_map)
  have lf: "length ?fr = 42 + ?n" using lb assms(6,7) by (simp add: length_ipv4_frame length_udp_packet)
  have "frames (snd (sendUDP ?buf (udstPort key) (usrcPort key) (serviceIPv4 ns) (usrcIP key) ?n ns)) = frames ns @ [?fr @ ?tail]"
    using assms(2-4) lb
    by (auto simp: sendUDP_def sendFrame_def writePacketCapture_def Let_def simp del: drop_append take_append split: option.split)
  then have "frames (proxy_reply key data ns) = frames ns @ [?fr @ ?tail]"
    using assms(1) by (simp add: proxy_reply_def Let_def split_beta del: drop_append take_append split: option.split prod.split)
  moreover have "drop (42 + ?n) (?fr @ ?tail) = ?tail" by (metis lf append_eq_conv_conj)
  moreover have "length (?fr @ ?tail) = 56 + ?n" unfolding length_append lf t by simp
  ultimately show ?thesis unfolding t by blast
qed

theorem udp_reply_leaks_buffer_witness:
  "\<exists>frame. frames (proxy_reply \<lparr>usrcIP = [10, 42, 0, 2], usrcPort = 4000, udstPort = 53\<rparr> [1, 2, 3] demo_asked) = frames demo_asked @ [frame]
     \<and> length frame = 59 \<and> drop 45 frame = replicate 14 0xaa"
proof -
  let ?k = "\<lparr>usrcIP = [10, 42, 0, 2], usrcPort = 4000, udstPort = 53\<rparr> :: udpProxyKey"
  have i: "?k \<in> udpServiceProxies demo_asked" "iface demo_asked = Some True" "macIsSet (guestMACForTransmit demo_asked)" "macIsSet (hostMAC demo_asked)"
    "length (serviceIPv4 demo_asked) = 4" "map (pooled demo_asked (frames demo_asked)) [45..<59] = replicate 14 0xaa"
    subgoal by code_simp
    subgoal by code_simp
    subgoal by code_simp
    subgoal by code_simp
    subgoal by code_simp
    subgoal by code_simp
    done
  then show ?thesis using udp_reply_leaks_buffer [OF i(1-4), of "[1, 2, 3]"] by simp
qed

end
