(* ===== verification/Dns.thy ===== *)
theory Dns
  imports NetPolicy
begin

text \<open>
  The name server inside the network stack (\<^verbatim>\<open>internal/core/netstack/dns.go\<close> and the DNS part of
  \<^verbatim>\<open>netstack.go\<close>): parsing of questions, the answers for the stack's own names, the questions passed on to
  the host's resolver, and the encoding of the response. Names are byte lists. The host's resolver is a
  parameter, and so is the Unicode table behind \<^verbatim>\<open>strings.ToLower\<close>. An address that the source passes on as text is passed on as its four bytes; \<^verbatim>\<open>net.ParseIP\<close>
  reads what \<^verbatim>\<open>net.IP.String\<close> writes. A write outside a buffer is \<open>None\<close>, where Go panics.
\<close>

section \<open>Names\<close>

abbreviation (input) dot :: u8 where "dot \<equiv> 46"

definition lower :: "u8 \<Rightarrow> u8" where
  "lower c = (if 65 \<le> c \<and> c \<le> 90 then c + 32 else c)"

text \<open>\<^verbatim>\<open>strings.ToLower\<close> maps ASCII text bytewise; for other text it is what the Unicode tables \<open>uni\<close> say.\<close>

definition ToLower :: "(bytes \<Rightarrow> bytes) \<Rightarrow> bytes \<Rightarrow> bytes" where
  "ToLower uni name = (if list_all (\<lambda>c. c < 128) name then map lower name else uni name)"

definition trim_suffix :: "bytes \<Rightarrow> bytes" where
  "trim_suffix name = (if name \<noteq> [] \<and> last name = dot then butlast name else name)"

definition trim_dots :: "bytes \<Rightarrow> bytes" where
  "trim_dots name = rev (dropWhile (\<lambda>c. c = dot) (rev (dropWhile (\<lambda>c. c = dot) name)))"

fun split_dots :: "bytes \<Rightarrow> bytes list" where
  "split_dots [] = [[]]"
| "split_dots (c # cs) =
     (if c = dot then [] # split_dots cs
      else case split_dots cs of [] \<Rightarrow> [[c]] | l # ls \<Rightarrow> (c # l) # ls)"

definition splitDNSLabels :: "bytes \<Rightarrow> bytes list" where
  "splitDNSLabels name = (let n = trim_dots name in if n = [] then [] else split_dots n)"

definition encodedDNSNameLen :: "bytes \<Rightarrow> nat" where
  "encodedDNSNameLen name =
     (if trim_dots name = [] then 1 else fold (\<lambda>label size. size + (1 + length label)) (splitDNSLabels name) 1)"

text \<open>A copy into a buffer at an offset.\<close>

definition put :: "bytes \<Rightarrow> nat \<Rightarrow> bytes \<Rightarrow> bytes option" where
  "put data off buf = (if length buf < off + length data then None else Some (take off buf @ data @ drop (off + length data) buf))"

fun append_labels :: "bytes list \<Rightarrow> nat \<Rightarrow> bytes \<Rightarrow> (nat \<times> bytes) option" where
  "append_labels [] off buf = Some (off, buf)"
| "append_labels (label # labels) off buf =
     (case put [of_nat (length label)] off buf of None \<Rightarrow> None
      | Some buf1 \<Rightarrow>
          (case put label (off + 1) buf1 of None \<Rightarrow> None
           | Some buf2 \<Rightarrow> append_labels labels (off + 1 + length label) buf2))"

definition appendDNSName :: "bytes \<Rightarrow> nat \<Rightarrow> bytes \<Rightarrow> (nat \<times> bytes) option" where
  "appendDNSName name off buf =
     (case append_labels (splitDNSLabels name) off buf of None \<Rightarrow> None
      | Some (off1, buf1) \<Rightarrow> map_option (\<lambda>b. (off1 + 1, b)) (put [0] off1 buf1))"

text \<open>\<open>None\<close> is a panic, \<open>Some None\<close> the error for a bad label.\<close>

definition encodeDNSName :: "bytes \<Rightarrow> bytes option option" where
  "encodeDNSName name =
     (if trim_dots name = [] then Some (Some [0])
      else let labels = splitDNSLabels name in
        if list_ex (\<lambda>label. length label = 0 \<or> 63 < length label) labels then Some None
        else map_option (Some \<circ> snd) (appendDNSName name 0 (replicate (fold (\<lambda>label size. size + (1 + length label)) labels 1) 0)))"

section \<open>Questions\<close>

record dnsQuestion =
  qnameStart :: nat
  qnameEnd :: nat
  qname :: bytes
  qtype :: u16
  qclass :: u16

record dnsResource =
  rname :: bytes
  rnameStart :: "nat option"
  rtyp :: u16
  rclass :: u16
  rttl :: u32
  rdata :: bytes

datatype dnserr = NameExceeds | Compressed | BadLabel | Truncated

text \<open>The loop over the labels of a name.\<close>

function parse_name :: "bytes \<Rightarrow> nat \<Rightarrow> bytes \<Rightarrow> dnserr + (bytes \<times> nat)" where
  "parse_name msg off b =
     (if length msg \<le> off then Inl NameExceeds
      else let labelLen = unat (msg ! off); off1 = off + 1 in
        if labelLen = 0 then Inr (b, off1)
        else if msg ! off AND 0xc0 \<noteq> 0 then Inl Compressed
        else if 63 < labelLen \<or> length msg < off1 + labelLen then Inl BadLabel
        else parse_name msg (off1 + labelLen) ((if b \<noteq> [] then b @ [dot] else b) @ map lower (take labelLen (drop off1 msg))))"
  by pat_completeness auto
termination by (relation "measure (\<lambda>(msg, off, b). length msg - off)") auto

declare parse_name.simps [simp del]

definition parseDNSQuestion :: "bytes \<Rightarrow> nat \<Rightarrow> dnserr + (dnsQuestion \<times> nat)" where
  "parseDNSQuestion msg start =
     (case parse_name msg start [] of Inl e \<Rightarrow> Inl e
      | Inr (name, off) \<Rightarrow>
          if length msg < off + 4 then Inl Truncated
          else Inr (\<lparr>qnameStart = start, qnameEnd = off, qname = name, qtype = u16_at off msg, qclass = u16_at (off + 2) msg\<rparr>, off + 4))"

fun parse_questions :: "nat \<Rightarrow> bytes \<Rightarrow> nat \<Rightarrow> dnserr + (dnsQuestion list \<times> nat)" where
  "parse_questions 0 msg off = Inr ([], off)"
| "parse_questions (Suc n) msg off =
     (case parseDNSQuestion msg off of Inl e \<Rightarrow> Inl e
      | Inr (q, next) \<Rightarrow>
          (case parse_questions n msg next of Inl e \<Rightarrow> Inl e | Inr (qs, off1) \<Rightarrow> Inr (q # qs, off1)))"

section \<open>Responses\<close>

definition encodedDNSResourceNameLen :: "dnsResource \<Rightarrow> nat" where
  "encodedDNSResourceNameLen res = (case rnameStart res of Some _ \<Rightarrow> 2 | None \<Rightarrow> encodedDNSNameLen (rname res))"

definition encodedDNSResourcesLen :: "dnsResource list \<Rightarrow> nat" where
  "encodedDNSResourcesLen rs = fold (\<lambda>res size. size + (encodedDNSResourceNameLen res + 10 + length (rdata res))) rs 0"

definition appendDNSResource :: "dnsResource \<Rightarrow> nat \<times> bytes \<Rightarrow> (nat \<times> bytes) option" where
  "appendDNSResource res st =
     (case st of (off, resp) \<Rightarrow>
        (case (case rnameStart res of
                 Some start \<Rightarrow> map_option (\<lambda>b. (off + 2, b)) (put (be_bytes 2 (0xc000 OR of_nat start :: u16)) off resp)
               | None \<Rightarrow> appendDNSName (rname res) off resp) of
           None \<Rightarrow> None
         | Some (off1, resp1) \<Rightarrow>
             map_option (\<lambda>b. (off1 + 10 + length (rdata res), b))
               (put (be_bytes 2 (rtyp res) @ be_bytes 2 (rclass res) @ be_bytes 4 (rttl res) @ be_bytes 2 (of_nat (length (rdata res)) :: u16)
                  @ rdata res) off1 resp1)))"

fun append_resources :: "dnsResource list \<Rightarrow> nat \<times> bytes \<Rightarrow> (nat \<times> bytes) option" where
  "append_resources [] st = Some st"
| "append_resources (res # rs) st = (case appendDNSResource res st of None \<Rightarrow> None | Some st1 \<Rightarrow> append_resources rs st1)"

definition response_flags :: "bytes \<Rightarrow> u16 \<Rightarrow> u16" where
  "response_flags query rcode = (0x8080 OR rcode) OR (if u16_at 2 query AND 0x0100 \<noteq> 0 then 0x0100 else 0)"

definition buildDNSError :: "bytes \<Rightarrow> u16 \<Rightarrow> bytes" where
  "buildDNSError query rcode = take 2 query @ be_bytes 2 (response_flags query (rcode AND 0x000f)) @ replicate 8 0"

text \<open>
  The loop over the questions: answers, additional records and the response code so far. The server always
  has a lookup function and a resolver.
\<close>

type_synonym dns_resolver = "dnsQuestion \<Rightarrow> (dnsResource list \<times> dnsResource list) option"

definition address_answer :: "dnsQuestion \<Rightarrow> bytes \<Rightarrow> dnsResource" where
  "address_answer q ip4 = \<lparr>rname = [], rnameStart = Some (qnameStart q), rtyp = 1, rclass = 1, rttl = 30, rdata = ip4\<rparr>"

definition answer_question :: "(bytes \<Rightarrow> bytes option) \<Rightarrow> dns_resolver \<Rightarrow> dnsQuestion
    \<Rightarrow> dnsResource list \<times> dnsResource list \<times> u16 \<Rightarrow> dnsResource list \<times> dnsResource list \<times> u16" where
  "answer_question lookup resolve q st =
     (case st of (answers, extras, rcode) \<Rightarrow>
        if qclass q \<noteq> 1 then st
        else case (if qtype q = 1 then lookup (qname q) else None) of
          Some ip4 \<Rightarrow> (answers @ [address_answer q ip4], extras, rcode)
        | None \<Rightarrow>
            let rcode1 = (if qtype q = 1 then 3 else rcode) in
            (case resolve q of None \<Rightarrow> (answers, extras, 3)
             | Some (resolved, extra) \<Rightarrow> (answers @ resolved, extras @ extra, rcode1)))"

definition buildDNSResponse :: "bytes \<Rightarrow> (bytes \<Rightarrow> bytes option) \<Rightarrow> dns_resolver \<Rightarrow> bytes option" where
  "buildDNSResponse query lookup resolve =
     (if length query < 12 then Some []
      else let qdCount = unat (u16_at 4 query) in
        if qdCount = 0 then Some (buildDNSError query 1)
        else case parse_questions qdCount query 12 of Inl _ \<Rightarrow> Some (buildDNSError query 1)
        | Inr (questions, off) \<Rightarrow>
            (case fold (answer_question lookup resolve) questions ([], [], 0) of (answers, extras, rcode0) \<Rightarrow>
               let rcode = (if answers \<noteq> [] then 0 else rcode0);
                   size = off + encodedDNSResourcesLen answers + encodedDNSResourcesLen extras;
                   head = take 2 query @ be_bytes 2 (response_flags query rcode) @ take 2 (drop 4 query)
                     @ be_bytes 2 (of_nat (length answers) :: u16) @ [0, 0] @ be_bytes 2 (of_nat (length extras) :: u16);
                   resp = head @ drop 12 (take off query) @ replicate (size - off) 0 in
               case append_resources answers (off, resp) of None \<Rightarrow> None
               | Some st \<Rightarrow> map_option snd (append_resources extras st)))"

section \<open>The stack's names and the host's resolver\<close>

definition lookupDNSName :: "(bytes \<Rightarrow> bytes) \<Rightarrow> netStack \<Rightarrow> bytes \<Rightarrow> bytes option" where
  "lookupDNSName uni ns name =
     (let n = trim_suffix (ToLower uni name) in
      if n = hostDNSName ns \<or> n = ascii ''host.internal'' then (if \<not> hostAccessEnabled ns then None else Some (hostIPv4 ns))
      else if n = ascii ''guest.internal'' then Some (guestIPv4 ns)
      else if n = ascii ''service.internal'' then (if \<not> hostAccessEnabled ns then None else Some (serviceIPv4 ns))
      else None)"

definition resource :: "bytes \<Rightarrow> nat option \<Rightarrow> u16 \<Rightarrow> bytes \<Rightarrow> dnsResource" where
  "resource name start typ d = \<lparr>rname = name, rnameStart = start, rtyp = typ, rclass = 1, rttl = 30, rdata = d\<rparr>"

text \<open>\<open>ip\<close> resolves a name for a network, \<open>ip4\<close>, \<open>ip6\<close> or any; an address has four or sixteen bytes.\<close>

datatype ip_network = NetIP4 | NetIP6 | NetAny

definition resolveIPDNSQuestion :: "(ip_network \<Rightarrow> bytes \<Rightarrow> bytes list option) \<Rightarrow> ip_network \<Rightarrow> dns_resolver" where
  "resolveIPDNSQuestion ip network q =
     map_option (\<lambda>ips. (concat (map (\<lambda>x. case to4 x of
          Some x4 \<Rightarrow> if network = NetIP4 then [resource [] (Some (qnameStart q)) 1 x4] else []
        | None \<Rightarrow> if length x = 16 \<and> network = NetIP6 then [resource [] (Some (qnameStart q)) 28 x] else []) ips), []))
       (ip network (trim_suffix (qname q)))"

definition resolveAdditionalAddressRecords :: "(ip_network \<Rightarrow> bytes \<Rightarrow> bytes list option) \<Rightarrow> bytes \<Rightarrow> dnsResource list" where
  "resolveAdditionalAddressRecords ip name =
     (case ip NetAny (trim_suffix name) of None \<Rightarrow> []
      | Some ips \<Rightarrow> concat (map (\<lambda>x. case to4 x of Some x4 \<Rightarrow> [resource name None 1 x4]
          | None \<Rightarrow> if length x = 16 then [resource name None 28 x] else []) ips))"

definition strip_underscore :: "bytes \<Rightarrow> bytes option" where
  "strip_underscore label = (case label of c # cs \<Rightarrow> if c = 95 then Some cs else None | [] \<Rightarrow> None)"

fun join_dots :: "bytes list \<Rightarrow> bytes" where
  "join_dots [] = []"
| "join_dots [l] = l"
| "join_dots (l # ls) = l @ dot # join_dots ls"

definition splitSRVQueryName :: "bytes \<Rightarrow> bytes \<times> bytes \<times> bytes" where
  "splitSRVQueryName name =
     (case split_dots (trim_dots name) of
        s # p # rest \<Rightarrow>
          (case (strip_underscore s, strip_underscore p) of
             (Some s1, Some p1) \<Rightarrow> if rest = [] then ([], [], name) else (s1, p1, join_dots rest)
           | _ \<Rightarrow> ([], [], name))
      | _ \<Rightarrow> ([], [], name))"

record srv_record =
  target :: bytes
  priority :: u16
  weight :: u16
  sport :: u16

text \<open>The loop over the records: answers, additional records, and the names already resolved.\<close>

definition srv_step :: "(bytes \<Rightarrow> bytes) \<Rightarrow> (ip_network \<Rightarrow> bytes \<Rightarrow> bytes list option) \<Rightarrow> dnsQuestion \<Rightarrow> srv_record
    \<Rightarrow> (dnsResource list \<times> dnsResource list \<times> bytes list) \<Rightarrow> (dnsResource list \<times> dnsResource list \<times> bytes list)" where
  "srv_step uni ip q rec st =
     (case st of (answers, extras, added) \<Rightarrow>
        let targetName = trim_suffix (ToLower uni (target rec)) in
        case encodeDNSName targetName of
          Some (Some name) \<Rightarrow>
            let answers1 = answers @ [resource [] (Some (qnameStart q)) 33
                  (be_bytes 2 (priority rec) @ be_bytes 2 (weight rec) @ be_bytes 2 (sport rec) @ name)] in
            if targetName \<in> set added then (answers1, extras, added)
            else (answers1, extras @ resolveAdditionalAddressRecords ip targetName, targetName # added)
        | _ \<Rightarrow> st)"

definition resolveSRVDNSQuestion :: "(bytes \<Rightarrow> bytes) \<Rightarrow> (ip_network \<Rightarrow> bytes \<Rightarrow> bytes list option) \<Rightarrow> (bytes \<times> bytes \<times> bytes \<Rightarrow> srv_record list option) \<Rightarrow> dns_resolver" where
  "resolveSRVDNSQuestion uni ip srv q =
     (case splitSRVQueryName (qname q) of (service, proto, name) \<Rightarrow>
        map_option (\<lambda>records. case fold (srv_step uni ip q) records ([], [], []) of (answers, extras, _) \<Rightarrow> (answers, extras))
          (srv (service, proto, trim_suffix name)))"

definition resolveDNSQuestion :: "(bytes \<Rightarrow> bytes) \<Rightarrow> (ip_network \<Rightarrow> bytes \<Rightarrow> bytes list option) \<Rightarrow> (bytes \<times> bytes \<times> bytes \<Rightarrow> srv_record list option) \<Rightarrow> netStack \<Rightarrow> dns_resolver" where
  "resolveDNSQuestion uni ip srv ns q =
     (if \<not> allowInternet ns then None
      else if qtype q = 1 then resolveIPDNSQuestion ip NetIP4 q
      else if qtype q = 28 then resolveIPDNSQuestion ip NetIP6 q
      else if qtype q = 33 then resolveSRVDNSQuestion uni ip srv q
      else Some ([], []))"

text \<open>One turn of \<^verbatim>\<open>serve\<close>: a datagram of at most 1500 bytes is read from port 53 and answered.\<close>

definition serve_step :: "(bytes \<Rightarrow> bytes) \<Rightarrow> (ip_network \<Rightarrow> bytes \<Rightarrow> bytes list option) \<Rightarrow> (bytes \<times> bytes \<times> bytes \<Rightarrow> srv_record list option) \<Rightarrow> netStack \<Rightarrow> netStack option" where
  "serve_step uni ip srv ns =
     (case udp_ReadFrom 1500 53 ns of
        (None, ns1) \<Rightarrow> Some ns1
      | (Some (query, addr, port), ns1) \<Rightarrow>
          map_option (\<lambda>resp. if resp = [] then ns1 else snd (udp_WriteTo resp addr port 53 ns1))
            (buildDNSResponse query (lookupDNSName uni ns1) (resolveDNSQuestion uni ip srv ns1)))"

text \<open>Whether there is a server, and the stack.\<close>

type_synonym dns_state = "bool \<times> netStack"

definition StartDNSServer :: "dns_state \<Rightarrow> neterr option \<times> dns_state" where
  "StartDNSServer st =
     (case st of (running, ns) \<Rightarrow>
        if running then (None, st)
        else case bind_udp 53 (UdpQueue []) ns of
          (Some e, ns1) \<Rightarrow> (Some e, running, ns1)
        | (None, ns1) \<Rightarrow> (None, True, ns1))"

definition StopDNSServer :: "dns_state \<Rightarrow> dns_state" where
  "StopDNSServer st = (case st of (running, ns) \<Rightarrow> if \<not> running then st else (False, udp_Close 53 ns))"

section \<open>The bytes of a response\<close>

definition encode_name :: "bytes list \<Rightarrow> bytes" where
  "encode_name labels = concat (map (\<lambda>l. of_nat (length l) # l) labels) @ [0]"

definition encode_resource :: "dnsResource \<Rightarrow> bytes" where
  "encode_resource res =
     (case rnameStart res of Some start \<Rightarrow> be_bytes 2 (0xc000 OR of_nat start :: u16) | None \<Rightarrow> encode_name (splitDNSLabels (rname res)))
     @ be_bytes 2 (rtyp res) @ be_bytes 2 (rclass res) @ be_bytes 4 (rttl res) @ be_bytes 2 (of_nat (length (rdata res)) :: u16) @ rdata res"

definition dns_response :: "bytes \<Rightarrow> (bytes \<Rightarrow> bytes option) \<Rightarrow> dns_resolver \<Rightarrow> bytes" where
  "dns_response query lookup resolve =
     (if length query < 12 then []
      else case (if u16_at 4 query = 0 then Inl Truncated else parse_questions (unat (u16_at 4 query)) query 12) of
        Inl _ \<Rightarrow> take 2 query @ be_bytes 2 (response_flags query 1) @ replicate 8 0
      | Inr (questions, off) \<Rightarrow>
          (case fold (answer_question lookup resolve) questions ([], [], 0) of (answers, extras, rcode) \<Rightarrow>
             take 2 query @ be_bytes 2 (response_flags query (if answers = [] then rcode else 0)) @ take 2 (drop 4 query)
             @ be_bytes 2 (of_nat (length answers) :: u16) @ [0, 0] @ be_bytes 2 (of_nat (length extras) :: u16)
             @ drop 12 (take off query) @ concat (map encode_resource answers) @ concat (map encode_resource extras)))"

lemma put_fresh: "length data \<le> n \<Longrightarrow> put data (length a) (a @ replicate n 0) = Some ((a @ data) @ replicate (n - length data) 0)"
  by (simp add: put_def)

lemma append_labels_fresh:
  "length (concat (map (\<lambda>l. of_nat (length l) # l) labels)) \<le> n \<Longrightarrow>
     append_labels labels (length a) (a @ replicate n 0) =
       Some (length (a @ concat (map (\<lambda>l. of_nat (length l) # l) labels)),
         (a @ concat (map (\<lambda>l. of_nat (length l) # l) labels)) @ replicate (n - length (concat (map (\<lambda>l. (of_nat (length l) :: u8) # l) labels))) 0)"
proof (induction labels arbitrary: a n)
  case (Cons l ls)
  let ?e = "\<lambda>l :: bytes. of_nat (length l) # l"
  let ?a = "a @ [of_nat (length l)]"
  have n: "1 \<le> n" "length l \<le> n - 1" "length (concat (map ?e ls)) \<le> n - 1 - length l" using Cons.prems by simp_all
  have "append_labels ls (length (?a @ l)) ((?a @ l) @ replicate (n - 1 - length l) 0) =
      Some (length ((?a @ l) @ concat (map ?e ls)), ((?a @ l) @ concat (map ?e ls)) @ replicate (n - 1 - length l - length (concat (map ?e ls))) 0)"
    by (rule Cons.IH [OF n(3)])
  moreover have "put [of_nat (length l)] (length a) (a @ replicate n 0) = Some (?a @ replicate (n - 1) 0)"
    using put_fresh [of "[of_nat (length l)]" n a] n(1) by simp
  moreover have "put l (length a + 1) (?a @ replicate (n - 1) 0) = Some ((?a @ l) @ replicate (n - 1 - length l) 0)"
    using put_fresh [OF n(2), of ?a] by simp
  ultimately show ?case by simp
qed simp

lemma appendDNSName_fresh:
  assumes "length (encode_name (splitDNSLabels name)) \<le> n"
  shows "appendDNSName name (length a) (a @ replicate n 0) =
    Some (length (a @ encode_name (splitDNSLabels name)),
      (a @ encode_name (splitDNSLabels name)) @ replicate (n - length (encode_name (splitDNSLabels name))) 0)"
proof -
  let ?c = "concat (map (\<lambda>l. of_nat (length l) # l) (splitDNSLabels name)) :: bytes"
  have n: "length ?c \<le> n" "1 \<le> n - length ?c" using assms by (simp_all add: encode_name_def)
  have "put [0] (length (a @ ?c)) ((a @ ?c) @ replicate (n - length ?c) 0) = Some (((a @ ?c) @ [0]) @ replicate (n - length ?c - 1) 0)"
    using put_fresh [of "[0]" "n - length ?c" "a @ ?c"] n(2) by simp
  then show ?thesis using append_labels_fresh [OF n(1), of a] by (simp add: appendDNSName_def encode_name_def)
qed

lemma fold_sizes: "fold (\<lambda>label size. size + (1 + length label)) labels n = n + length (concat (map (\<lambda>l. (of_nat (length l) :: u8) # l) labels))"
  by (induction labels arbitrary: n) simp_all

lemma encodedDNSNameLen_eq: "encodedDNSNameLen name = length (encode_name (splitDNSLabels name))"
  unfolding encodedDNSNameLen_def fold_sizes by (simp add: encode_name_def splitDNSLabels_def Let_def)

lemma encodedDNSResourceLen: "encodedDNSResourceNameLen res + 10 + length (rdata res) = length (encode_resource res)"
  by (simp add: encodedDNSResourceNameLen_def encode_resource_def encodedDNSNameLen_eq split: option.split)

lemma encodedDNSResourcesLen_eq: "encodedDNSResourcesLen rs = length (concat (map encode_resource rs))"
proof -
  have "fold (\<lambda>res size. size + (encodedDNSResourceNameLen res + 10 + length (rdata res))) rs n = n + length (concat (map encode_resource rs))" for n
    unfolding encodedDNSResourceLen by (induction rs arbitrary: n) simp_all
  then show ?thesis by (simp add: encodedDNSResourcesLen_def)
qed

lemma appendDNSResource_fresh:
  assumes "length (encode_resource res) \<le> n"
  shows "appendDNSResource res (length a, a @ replicate n 0) =
    Some (length (a @ encode_resource res), (a @ encode_resource res) @ replicate (n - length (encode_resource res)) 0)"
proof -
  let ?name = "case rnameStart res of Some start \<Rightarrow> be_bytes 2 (0xc000 OR of_nat start :: u16) | None \<Rightarrow> encode_name (splitDNSLabels (rname res))"
  let ?rest = "be_bytes 2 (rtyp res) @ be_bytes 2 (rclass res) @ be_bytes 4 (rttl res) @ be_bytes 2 (of_nat (length (rdata res)) :: u16) @ rdata res"
  have e: "encode_resource res = ?name @ ?rest" by (simp add: encode_resource_def)
  have n: "length ?name \<le> n" "length ?rest \<le> n - length ?name" using assms unfolding e by simp_all
  have "(case rnameStart res of
          Some start \<Rightarrow> map_option (\<lambda>b. (length a + 2, b)) (put (be_bytes 2 (0xc000 OR of_nat start :: u16)) (length a) (a @ replicate n 0))
        | None \<Rightarrow> appendDNSName (rname res) (length a) (a @ replicate n 0)) =
      Some (length (a @ ?name), (a @ ?name) @ replicate (n - length ?name) 0)"
    using n(1) appendDNSName_fresh [of "rname res" n a] by (auto simp: put_fresh split: option.split)
  moreover have "put ?rest (length (a @ ?name)) ((a @ ?name) @ replicate (n - length ?name) 0) =
      Some (((a @ ?name) @ ?rest) @ replicate (n - length ?name - length ?rest) 0)"
    by (rule put_fresh [OF n(2)])
  ultimately show ?thesis unfolding appendDNSResource_def e by simp
qed

lemma append_resources_fresh:
  "length (concat (map encode_resource rs)) \<le> n \<Longrightarrow>
     append_resources rs (length a, a @ replicate n 0) =
       Some (length (a @ concat (map encode_resource rs)),
         (a @ concat (map encode_resource rs)) @ replicate (n - length (concat (map encode_resource rs))) 0)"
proof (induction rs arbitrary: a n)
  case (Cons r rs)
  have n: "length (encode_resource r) \<le> n" "length (concat (map encode_resource rs)) \<le> n - length (encode_resource r)"
    using Cons.prems by simp_all
  show ?case using appendDNSResource_fresh [OF n(1), of a] Cons.IH [OF n(2), of "a @ encode_resource r"] by simp
qed simp

lemma parse_name_bounds: "parse_name msg off b = Inr (name, off') \<Longrightarrow> off < off' \<and> off' \<le> length msg"
proof (induction msg off b rule: parse_name.induct)
  case (1 msg off b)
  note parse = 1(2) [unfolded parse_name.simps [of msg off b]]
  show ?case
  proof (cases "length msg \<le> off \<or> unat (msg ! off) = 0 \<or> msg ! off AND 0xc0 \<noteq> 0 \<or> 63 < unat (msg ! off) \<or> length msg < off + 1 + unat (msg ! off)")
    case True
    then show ?thesis using parse by (auto simp: Let_def split: if_splits)
  next
    case False
    then have "off + 1 + unat (msg ! off) < off' \<and> off' \<le> length msg" using parse by (intro 1(1)) (auto simp: Let_def)
    then show ?thesis by simp
  qed
qed

lemma parse_question_bounds: "parseDNSQuestion msg off = Inr (q, off') \<Longrightarrow> off \<le> off' \<and> off' \<le> length msg"
  by (auto simp: parseDNSQuestion_def split: sum.splits if_splits dest!: parse_name_bounds)

lemma parse_questions_bounds: "parse_questions n msg off = Inr (qs, off') \<Longrightarrow> off \<le> length msg \<Longrightarrow> off \<le> off' \<and> off' \<le> length msg"
proof (induction n arbitrary: off qs off')
  case (Suc n)
  then obtain q after qs' where "parseDNSQuestion msg off = Inr (q, after)" "parse_questions n msg after = Inr (qs', off')"
    by (auto split: sum.splits)
  then show ?case using Suc.IH parse_question_bounds by fastforce
qed simp

text \<open>
  C20. A response is built without ever writing outside its buffer, and it is the header, the questions
  as they were asked, and the records, each with a pointer to its question or its name in full; a query
  that cannot be parsed gets a bare error.
\<close>

theorem dns_response_exact: "buildDNSResponse query lookup resolve = Some (dns_response query lookup resolve)"
proof (cases "length query < 12 \<or> u16_at 4 query = 0")
  case True
  then show ?thesis by (auto simp: buildDNSResponse_def dns_response_def buildDNSError_def unat_eq_0)
next
  case False
  then have n: "12 \<le> length query" "unat (u16_at 4 query) \<noteq> 0" by (simp_all add: unat_eq_0)
  show ?thesis
  proof (cases "parse_questions (unat (u16_at 4 query)) query 12")
    case (Inl e)
    then show ?thesis using False n by (simp add: buildDNSResponse_def dns_response_def buildDNSError_def)
  next
    case (Inr r)
    obtain qs off where r: "r = (qs, off)" by (rule prod.exhaust)
    have off: "12 \<le> off" "off \<le> length query" using parse_questions_bounds Inr r n(1) by simp_all
    obtain answers extras rcode where f: "fold (answer_question lookup resolve) qs ([], [], 0) = (answers, extras, rcode)" by (rule prod_cases3)
    let ?h = "take 2 query @ be_bytes 2 (response_flags query (if answers \<noteq> [] then 0 else rcode)) @ take 2 (drop 4 query)
        @ be_bytes 2 (of_nat (length answers) :: u16) @ [0, 0] @ be_bytes 2 (of_nat (length extras) :: u16)"
    let ?a = "concat (map encode_resource answers)" and ?x = "concat (map encode_resource extras)"
    let ?q = "?h @ drop 12 (take off query)"
    have l: "length ?q = off" using off n(1) by simp
    have a: "append_resources answers (off, ?q @ replicate (length ?a + length ?x) 0) = Some (length (?q @ ?a), (?q @ ?a) @ replicate (length ?x) 0)"
      using append_resources_fresh [of answers "length ?a + length ?x" ?q] unfolding l by simp
    have x: "append_resources extras (length (?q @ ?a), (?q @ ?a) @ replicate (length ?x) 0) = Some (length ((?q @ ?a) @ ?x), (?q @ ?a) @ ?x)"
      using append_resources_fresh [of extras "length ?x" "?q @ ?a"] by simp
    have b: "buildDNSResponse query lookup resolve =
        (case append_resources answers (off, ?q @ replicate (length ?a + length ?x) 0) of None \<Rightarrow> None
         | Some st \<Rightarrow> map_option snd (append_resources extras st))"
      using n Inr r f by (simp add: buildDNSResponse_def encodedDNSResourcesLen_eq Let_def)
    have "buildDNSResponse query lookup resolve = Some ((?q @ ?a) @ ?x)" unfolding b a option.case x by simp
    then show ?thesis using False n Inr r f by (simp add: dns_response_def)
  qed
qed

section \<open>The server in a run of the stack\<close>

text \<open>Starting, stopping and serving are steps of the stack, so whatever holds in every run holds with the server.\<close>

lemma dns_start_run: "stack_run ns0 ns \<Longrightarrow> StartDNSServer (running, ns) = (e, running', ns') \<Longrightarrow> stack_run ns0 ns'"
  using stack_run.bind [of ns0 ns "UdpQueue []" 53] by (auto simp: StartDNSServer_def split: if_splits prod.splits option.splits)

lemma dns_stop_run: "stack_run ns0 ns \<Longrightarrow> StopDNSServer (running, ns) = (running', ns') \<Longrightarrow> stack_run ns0 ns'"
  by (auto simp: StopDNSServer_def split: if_splits intro: stack_run.udp_close)

lemma dns_serve_run:
  assumes "stack_run ns0 ns" "serve_step uni ip srv ns = Some ns'"
  shows "stack_run ns0 ns'"
proof (cases "udp_ReadFrom 1500 53 ns")
  case (Pair r ns1)
  have "stack_run ns0 ns1" using stack_run.udp_read [OF assms(1), of 1500 53] Pair by simp
  then show ?thesis using assms(2) Pair by (auto simp: serve_step_def split: option.splits prod.splits intro: stack_run.udp_write)
qed

section \<open>Names through the wire\<close>

lemma encodeDNSName_exact:
  "encodeDNSName name = Some (if list_ex (\<lambda>l. length l = 0 \<or> 63 < length l) (splitDNSLabels name) then None
     else Some (encode_name (splitDNSLabels name)))"
proof (cases "trim_dots name = []")
  case True
  then show ?thesis by (simp add: encodeDNSName_def splitDNSLabels_def encode_name_def Let_def)
next
  case False
  then show ?thesis using appendDNSName_fresh [of name "length (encode_name (splitDNSLabels name))" "[]"]
    unfolding encodeDNSName_def Let_def fold_sizes by (simp add: encode_name_def)
qed

lemma join_split_dots: "join_dots (split_dots cs) = cs"
proof (induction cs)
  case (Cons c cs)
  have "split_dots cs \<noteq> []" by (cases cs) (auto split: list.splits)
  then obtain l ls where s: "split_dots cs = l # ls" by (cases "split_dots cs") auto
  then show ?case using Cons by (cases ls) auto
qed simp

lemma join_splitDNSLabels: "join_dots (splitDNSLabels name) = trim_dots name"
  by (simp add: splitDNSLabels_def join_split_dots Let_def)

text \<open>What the loop collects after \<open>b\<close>.\<close>

fun joined :: "bytes \<Rightarrow> bytes list \<Rightarrow> bytes" where
  "joined b [] = b"
| "joined b (l # ls) = joined ((if b \<noteq> [] then b @ [dot] else b) @ map lower l) ls"

lemma joined_join: "list_all (\<lambda>l. l \<noteq> []) ls \<Longrightarrow> joined b ls = (if b = [] then map lower (join_dots ls)
    else if ls = [] then b else b @ dot # map lower (join_dots ls))"
proof (induction b ls rule: joined.induct)
  case (2 b l ls)
  have "lower dot = dot" by (simp add: lower_def)
  then show ?case using 2 by (cases ls) auto
qed simp

lemma small_label: "(w :: u8) \<le> 63 \<Longrightarrow> w AND 0xc0 = 0"
proof -
  have "list_all (\<lambda>k. (of_nat k :: u8) AND 0xc0 = 0) [0..<64]" by code_simp
  then have "(of_nat (unat w) :: u8) AND 0xc0 = 0" if "unat w < 64" using that by (auto simp only: list_all_iff set_upt atLeastLessThan_iff)
  then show "w \<le> 63 \<Longrightarrow> w AND 0xc0 = 0" by (simp add: word_le_nat_alt)
qed

lemma parse_encoded_name:
  assumes "list_all (\<lambda>l. l \<noteq> [] \<and> length l \<le> 63) labels"
  shows "parse_name (pre @ encode_name labels @ post) (length pre) b = Inr (joined b labels, length pre + length (encode_name labels))"
  using assms
proof (induction labels arbitrary: pre b)
  case Nil
  then show ?case by (subst parse_name.simps) (simp add: encode_name_def nth_append)
next
  case (Cons l ls)
  let ?n = "of_nat (length l) :: u8"
  define msg where "msg = pre @ encode_name (l # ls) @ post"
  have len: "length l \<noteq> 0" "length l \<le> 63" using Cons.prems by simp_all
  then have n: "unat ?n = length l" by (simp add: unat_of_nat take_bit_nat_eq_self)
  have "?n \<le> 63" using n len(2) by (simp add: word_le_nat_alt)
  then have c: "?n AND 0xc0 = 0" by (rule small_label)
  have m: "msg = (pre @ [?n] @ l) @ encode_name ls @ post" by (simp add: msg_def encode_name_def)
  have at: "msg ! length pre = ?n" "length pre < length msg" "\<not> length msg < length pre + 1 + length l"
    "take (length l) (drop (length pre + 1) msg) = l" by (simp_all add: m nth_append)
  have "parse_name msg (length pre) b = parse_name msg (length (pre @ [?n] @ l)) ((if b \<noteq> [] then b @ [dot] else b) @ map lower l)"
    using at n c len by (subst parse_name.simps) (simp add: Let_def del: drop_drop)
  also have "\<dots> = Inr (joined b (l # ls), length pre + length (encode_name (l # ls)))"
    using Cons.IH [of "pre @ [?n] @ l"] Cons.prems unfolding m by (simp add: encode_name_def)
  finally show ?case unfolding msg_def .
qed

lemma encoded_labels:
  assumes "encodeDNSName name = Some (Some bs)"
  shows "list_all (\<lambda>l. l \<noteq> [] \<and> length l \<le> 63) (splitDNSLabels name) \<and> bs = encode_name (splitDNSLabels name)"
  using assms by (auto simp: encodeDNSName_exact list_ex_iff list_all_iff not_less split: if_splits)

text \<open>
  C34. A name that the encoder accepts is read back by the parser from any place in a message, in lower
  case and without its outer dots, with the type and class that follow it.
\<close>

theorem dns_question_round_trip:
  assumes "encodeDNSName name = Some (Some bs)"
  shows "parseDNSQuestion (pre @ bs @ be_bytes 2 t @ be_bytes 2 c @ post) (length pre) =
    Inr (\<lparr>qnameStart = length pre, qnameEnd = length pre + length bs, qname = map lower (trim_dots name), qtype = t, qclass = c\<rparr>,
      length pre + length bs + 4)"
proof -
  have l: "list_all (\<lambda>l. l \<noteq> [] \<and> length l \<le> 63) (splitDNSLabels name)" and bs: "bs = encode_name (splitDNSLabels name)"
    using encoded_labels [OF assms] by simp_all
  have "list_all (\<lambda>l. l \<noteq> []) (splitDNSLabels name)" using l by (simp add: list_all_iff)
  then have j: "joined [] (splitDNSLabels name) = map lower (trim_dots name)" by (simp add: joined_join join_splitDNSLabels)
  have "u16_at (length pre + length bs) (pre @ bs @ be_bytes 2 t @ be_bytes 2 c @ post) = t"
    "u16_at (length pre + length bs + 2) (pre @ bs @ be_bytes 2 t @ be_bytes 2 c @ post) = c"
    by (simp_all add: u16_at_def be_word_be_bytes)
  then show ?thesis using parse_encoded_name [OF l, of pre "be_bytes 2 t @ be_bytes 2 c @ post" "[]"] j
    by (simp add: parseDNSQuestion_def flip: bs)
qed

theorem dns_question_round_trip_witness:
  "encodeDNSName (ascii ''Db.Example.'') = Some (Some (2 # ascii ''Db'' @ 7 # ascii ''Example'' @ [0])) \<and>
   parseDNSQuestion (replicate 12 0 @ (2 # ascii ''Db'' @ 7 # ascii ''Example'' @ [0]) @ be_bytes 2 (28 :: u16) @ be_bytes 2 (1 :: u16) @ [7]) (length (replicate 12 (0 :: u8))) =
    Inr (\<lparr>qnameStart = length (replicate 12 (0 :: u8)), qnameEnd = length (replicate 12 (0 :: u8)) + length (2 # ascii ''Db'' @ 7 # ascii ''Example'' @ [0]),
      qname = map lower (trim_dots (ascii ''Db.Example.'')), qtype = 28, qclass = 1\<rparr>,
      length (replicate 12 (0 :: u8)) + length (2 # ascii ''Db'' @ 7 # ascii ''Example'' @ [0]) + 4)"
proof -
  have e: "encodeDNSName (ascii ''Db.Example.'') = Some (Some (2 # ascii ''Db'' @ 7 # ascii ''Example'' @ [0]))" by code_simp
  show ?thesis by (rule conjI [OF e dns_question_round_trip [OF e]])
qed

end
