(* ===== verification/Fdt.thy ===== *)
theory Fdt
  imports Prelude "HOL-Library.List_Lexorder"
begin

text \<open>
  The builder of flattened device trees (\<^verbatim>\<open>internal/core/fdt\<close>), with which a guest is told its
  hardware, and a reader for the format that gets the tree back. A Go map of properties is an association
  list with distinct keys; the builder sorts the keys.
\<close>

section \<open>Trees\<close>

record Property =
  Strings :: "bytes list"
  U32 :: "u32 list"
  U64 :: "u64 list"
  Bytes :: bytes
  Flag :: bool

datatype prop_kind = KindStrings | KindU32 | KindU64 | KindBytes | KindFlag | KindNone

definition Kind :: "Property \<Rightarrow> prop_kind" where
  "Kind p =
     (if Strings p \<noteq> [] then KindStrings
      else if U32 p \<noteq> [] then KindU32
      else if U64 p \<noteq> [] then KindU64
      else if Bytes p \<noteq> [] then KindBytes
      else if Flag p then KindFlag
      else KindNone)"

definition DefinedCount :: "Property \<Rightarrow> nat" where
  "DefinedCount p =
     (if Strings p \<noteq> [] then 1 else 0) + (if U32 p \<noteq> [] then 1 else 0) + (if U64 p \<noteq> [] then 1 else 0)
     + (if Bytes p \<noteq> [] then 1 else 0) + (if Flag p then 1 else 0)"

datatype Node = Node (Name: bytes) (Properties: "(bytes \<times> Property) list") (Children: "Node list")

section \<open>The builder\<close>

datatype fdterr = NoValues bytes | MultipleKinds bytes | UnsupportedKind bytes

record builder =
  structBuf :: bytes
  stringTab :: bytes
  stringsOff :: "bytes \<rightharpoonup> u32"

definition beginNodeToken :: u32 where "beginNodeToken = 1"
definition endNodeToken :: u32 where "endNodeToken = 2"
definition propToken :: u32 where "propToken = 3"
definition endToken :: u32 where "endToken = 9"

definition pad4 :: "nat \<Rightarrow> bytes" where
  "pad4 n = replicate ((4 - n mod 4) mod 4) 0"

definition padStruct :: "builder \<Rightarrow> builder" where
  "padStruct b = b\<lparr>structBuf := structBuf b @ pad4 (length (structBuf b))\<rparr>"

definition writeToken :: "u32 \<Rightarrow> builder \<Rightarrow> builder" where
  "writeToken token b = b\<lparr>structBuf := structBuf b @ be_bytes 4 token\<rparr>"

definition stringOffset :: "bytes \<Rightarrow> builder \<Rightarrow> u32 \<times> builder" where
  "stringOffset name b =
     (case stringsOff b name of Some off \<Rightarrow> (off, b)
      | None \<Rightarrow>
          let off = of_nat (length (stringTab b)) in
          (off, b\<lparr>stringTab := stringTab b @ name @ [0], stringsOff := (stringsOff b)(name \<mapsto> off)\<rparr>))"

definition beginNode :: "bytes \<Rightarrow> builder \<Rightarrow> builder" where
  "beginNode name b =
     (let b1 = writeToken beginNodeToken b in padStruct (b1\<lparr>structBuf := structBuf b1 @ name @ [0]\<rparr>))"

definition endNode :: "builder \<Rightarrow> builder" where
  "endNode b = writeToken endNodeToken b"

definition property :: "bytes \<Rightarrow> bytes \<Rightarrow> builder \<Rightarrow> builder" where
  "property name val b =
     (let b1 = writeToken propToken b;
          b2 = b1\<lparr>structBuf := structBuf b1 @ be_bytes 4 (of_nat (length val) :: u32)\<rparr> in
      case stringOffset name b2 of (off, b3) \<Rightarrow>
        padStruct (b3\<lparr>structBuf := structBuf b3 @ be_bytes 4 off @ val\<rparr>))"

definition property_data :: "Property \<Rightarrow> bytes" where
  "property_data p =
     (case Kind p of
        KindStrings \<Rightarrow> concat (map (\<lambda>v. v @ [0]) (Strings p))
      | KindU32 \<Rightarrow> concat (map (be_bytes 4) (U32 p))
      | KindU64 \<Rightarrow> concat (map (be_bytes 8) (U64 p))
      | KindBytes \<Rightarrow> Bytes p
      | _ \<Rightarrow> [])"

definition emitProperty :: "bytes \<Rightarrow> Property \<Rightarrow> builder \<Rightarrow> fdterr + builder" where
  "emitProperty name p b =
     (if DefinedCount p = 0 then Inl (NoValues name)
      else if 1 < DefinedCount p then Inl (MultipleKinds name)
      else if Kind p = KindNone then Inl (UnsupportedKind name)
      else Inr (property name (property_data p) b))"

fun emit_properties :: "(bytes \<times> Property) list \<Rightarrow> builder \<Rightarrow> fdterr + builder" where
  "emit_properties [] b = Inr b"
| "emit_properties ((name, p) # ps) b =
     (case emitProperty name p b of Inl e \<Rightarrow> Inl e | Inr b1 \<Rightarrow> emit_properties ps b1)"

definition sorted_properties :: "(bytes \<times> Property) list \<Rightarrow> (bytes \<times> Property) list" where
  "sorted_properties ps = map (\<lambda>name. (name, the (map_of ps name))) (sort (map fst ps))"

fun emitNode :: "Node \<Rightarrow> builder \<Rightarrow> fdterr + builder"
  and emitNodes :: "Node list \<Rightarrow> builder \<Rightarrow> fdterr + builder" where
  "emitNode (Node name ps children) b =
     (case emit_properties (sorted_properties ps) (beginNode name b) of
        Inl e \<Rightarrow> Inl e
      | Inr b1 \<Rightarrow> (case emitNodes children b1 of Inl e \<Rightarrow> Inl e | Inr b2 \<Rightarrow> Inr (endNode b2)))"
| "emitNodes [] b = Inr b"
| "emitNodes (n # ns) b = (case emitNode n b of Inl e \<Rightarrow> Inl e | Inr b1 \<Rightarrow> emitNodes ns b1)"

definition finish :: "builder \<Rightarrow> bytes" where
  "finish b0 =
     (let b = padStruct (writeToken endToken b0);
          offMemReserve = 40; offStruct = offMemReserve + 16;
          offStrings = offStruct + length (structBuf b); totalSize = offStrings + length (stringTab b) in
      be_bytes 4 (0xd00dfeed :: u32) @ be_bytes 4 (of_nat totalSize :: u32) @ be_bytes 4 (of_nat offStruct :: u32)
      @ be_bytes 4 (of_nat offStrings :: u32) @ be_bytes 4 (of_nat offMemReserve :: u32) @ be_bytes 4 (17 :: u32)
      @ be_bytes 4 (16 :: u32) @ be_bytes 4 (0 :: u32) @ be_bytes 4 (of_nat (length (stringTab b)) :: u32)
      @ be_bytes 4 (of_nat (length (structBuf b)) :: u32)
      @ replicate 16 0 @ structBuf b @ stringTab b)"

definition fdt_Build :: "Node \<Rightarrow> fdterr + bytes" where
  "fdt_Build root =
     (case emitNode root \<lparr>structBuf = [], stringTab = [], stringsOff = Map.empty\<rparr> of
        Inl e \<Rightarrow> Inl e
      | Inr b \<Rightarrow> Inr (finish b))"

section \<open>Reading a device tree\<close>

datatype token = BeginNode bytes | Prop bytes bytes | EndNode

definition padded :: "nat \<Rightarrow> nat" where
  "padded n = n + (4 - n mod 4) mod 4"

text \<open>The tokens of a structure block; names of properties are offsets into the strings block.\<close>

function read_tokens :: "bytes \<Rightarrow> bytes \<Rightarrow> token list option" where
  "read_tokens strs s =
     (if length s < 4 then None
      else let t = be_word (take 4 s) :: u32; s1 = drop 4 s in
        if t = 9 then Some []
        else if t = 2 then map_option (Cons EndNode) (read_tokens strs s1)
        else if t = 1 then
          let name = takeWhile (\<lambda>c. c \<noteq> 0) s1 in
          map_option (Cons (BeginNode name)) (read_tokens strs (drop (padded (length name + 1)) s1))
        else if t = 3 then
          let n = unat (be_word (take 4 s1) :: u32); off = unat (be_word (take 4 (drop 4 s1)) :: u32); s2 = drop 8 s1 in
          map_option (Cons (Prop (takeWhile (\<lambda>c. c \<noteq> 0) (drop off strs)) (take n s2))) (read_tokens strs (drop (padded n) s2))
        else None)"
  by pat_completeness auto
termination by (relation "measure (\<lambda>(strs, s). length s)") auto

declare read_tokens.simps [simp del]

datatype dtree = DTree bytes "(bytes \<times> bytes) list" "dtree list"

text \<open>The tokens nest: a stack of the nodes that are open, each with what it has so far.\<close>

fun nest :: "(bytes \<times> (bytes \<times> bytes) list \<times> dtree list) list \<Rightarrow> token list \<Rightarrow> dtree option" where
  "nest st (BeginNode name # ts) = nest ((name, [], []) # st) ts"
| "nest ((name, ps, cs) # st) (Prop k v # ts) = (if cs = [] then nest ((name, ps @ [(k, v)], []) # st) ts else None)"
| "nest [(name, ps, cs)] [EndNode] = Some (DTree name ps cs)"
| "nest ((name, ps, cs) # (name', ps', cs') # st) (EndNode # ts) = nest ((name', ps', cs' @ [DTree name ps cs]) # st) ts"
| "nest _ _ = None"

definition read_tree :: "bytes \<Rightarrow> dtree option" where
  "read_tree blob =
     (let field = \<lambda>i. unat (be_word (take 4 (drop (4 * i) blob)) :: u32) in
      if length blob < 40 \<or> field 0 \<noteq> 0xd00dfeed \<or> field 1 \<noteq> length blob then None
      else Option.bind (read_tokens (take (field 8) (drop (field 3) blob)) (take (field 9) (drop (field 2) blob))) (nest []))"

text \<open>What a tree says to its reader.\<close>

fun dtree_of :: "Node \<Rightarrow> dtree" where
  "dtree_of (Node name ps children) =
     DTree name (map (\<lambda>(k, p). (k, property_data p)) (sorted_properties ps)) (map dtree_of children)"

fun tokens_of :: "Node \<Rightarrow> token list" where
  "tokens_of (Node name ps children) =
     BeginNode name # map (\<lambda>(k, p). Prop k (property_data p)) (sorted_properties ps) @ concat (map tokens_of children) @ [EndNode]"

text \<open>Names are text without a zero byte, and the keys of a map are distinct.\<close>

definition name_ok :: "bytes \<Rightarrow> bool" where
  "name_ok name \<longleftrightarrow> 0 \<notin> set name"

fun tree_ok :: "Node \<Rightarrow> bool" where
  "tree_ok (Node name ps children) \<longleftrightarrow>
     name_ok name \<and> distinct (map fst ps) \<and> list_all (\<lambda>(k, p). name_ok k) ps \<and> list_all tree_ok children"

fun values_ok :: "Node \<Rightarrow> bool" where
  "values_ok (Node name ps children) \<longleftrightarrow>
     list_all (\<lambda>(k, p). DefinedCount p = 1) ps \<and> list_all values_ok children"

section \<open>What the reader finds\<close>

lemma padded_eq: "padded n = n + length (pad4 n)"
  by (simp add: pad4_def padded_def)

lemma padded_mod: "padded n mod 4 = 0"
proof -
  have "n mod 4 \<in> {0, 1, 2, 3}" by auto
  then have "(n mod 4 + (4 - n mod 4) mod 4) mod 4 = 0" by auto
  then show ?thesis by (simp only: padded_def mod_add_left_eq)
qed

lemma pad4_aligned: "a mod 4 = 0 \<Longrightarrow> m = a + n \<Longrightarrow> pad4 m = pad4 n"
  by (simp add: pad4_def mod_add_eq [symmetric, of a n])

lemma takeWhile_name: "name_ok name \<Longrightarrow> takeWhile (\<lambda>c. c \<noteq> 0) (name @ 0 # rest) = name"
  by (subst takeWhile_append2) (auto simp: name_ok_def)

lemma read_begin:
  assumes "name_ok name"
  shows "read_tokens strs (be_bytes 4 beginNodeToken @ name @ [0] @ pad4 (length name + 1) @ rest) =
    map_option (Cons (BeginNode name)) (read_tokens strs rest)"
proof -
  have "drop (padded (length name + 1)) (name @ [0] @ pad4 (length name + 1) @ rest) = rest"
    unfolding padded_eq by simp
  then show ?thesis using takeWhile_name [OF assms, of "pad4 (length name + 1) @ rest"]
    by (subst read_tokens.simps) (simp add: beginNodeToken_def be_word_be_bytes Let_def)
qed

lemma read_end: "read_tokens strs (be_bytes 4 endNodeToken @ rest) = map_option (Cons EndNode) (read_tokens strs rest)"
  by (subst read_tokens.simps) (simp add: endNodeToken_def be_word_be_bytes Let_def)

lemma read_prop:
  assumes "length val < 2 ^ 32" "takeWhile (\<lambda>c. c \<noteq> 0) (drop (unat off) strs) = name"
  shows "read_tokens strs (be_bytes 4 propToken @ be_bytes 4 (of_nat (length val) :: u32) @ be_bytes 4 (off :: u32) @ val @ pad4 (length val) @ rest) =
    map_option (Cons (Prop name val)) (read_tokens strs rest)"
proof -
  have "unat (of_nat (length val) :: u32) = length val" using assms(1) by (simp add: unat_of_nat take_bit_nat_eq_self)
  moreover have "drop (padded (length val)) (val @ pad4 (length val) @ rest) = rest" unfolding padded_eq by simp
  ultimately show ?thesis using assms(2)
    by (subst read_tokens.simps) (simp add: propToken_def be_word_be_bytes Let_def)
qed

text \<open>A builder whose structure block is aligned and whose table of names is right, unless a block has outgrown its offsets.\<close>

definition small :: "builder \<Rightarrow> bool" where
  "small b \<longleftrightarrow> length (structBuf b) < 2 ^ 32 \<and> length (stringTab b) < 2 ^ 32"

definition names_at :: "bytes \<Rightarrow> u32 \<Rightarrow> bytes \<Rightarrow> bool" where
  "names_at tab off name \<longleftrightarrow> (\<exists>rest. drop (unat off) tab = name @ 0 # rest)"

definition sane :: "builder \<Rightarrow> bool" where
  "sane b \<longleftrightarrow> length (structBuf b) mod 4 = 0
     \<and> (small b \<longrightarrow> (\<forall>name off. stringsOff b name = Some off \<longrightarrow> names_at (stringTab b) off name))"

definition emits :: "builder \<Rightarrow> token list \<Rightarrow> builder \<Rightarrow> bool" where
  "emits b ts b' \<longleftrightarrow> sane b' \<and> (\<exists>bs ext. structBuf b' = structBuf b @ bs \<and> stringTab b' = stringTab b @ ext
     \<and> (small b' \<longrightarrow> (\<forall>strs rest. read_tokens (stringTab b' @ strs) (bs @ rest) =
          map_option (\<lambda>x. ts @ x) (read_tokens (stringTab b' @ strs) rest))))"

lemma names_at_append: "names_at tab off name \<Longrightarrow> names_at (tab @ strs) off name"
proof -
  assume "names_at tab off name"
  then obtain rest where r: "drop (unat off) tab = name @ 0 # rest" by (auto simp: names_at_def)
  then have "unat off \<le> length tab" by (metis append_is_Nil_conv drop_all list.distinct(1) nat_le_linear)
  then show ?thesis using r by (simp add: names_at_def)
qed

lemma names_at_read: "names_at tab off name \<Longrightarrow> name_ok name \<Longrightarrow> takeWhile (\<lambda>c. c \<noteq> 0) (drop (unat off) tab) = name"
  by (auto simp: names_at_def takeWhile_name)

lemma emits_trans:
  assumes "emits b ts b1" "emits b1 ts' b2"
  shows "emits b (ts @ ts') b2"
proof -
  obtain bs ext where 1: "structBuf b1 = structBuf b @ bs" "stringTab b1 = stringTab b @ ext"
    "small b1 \<Longrightarrow> read_tokens (stringTab b1 @ strs) (bs @ rest) = map_option (\<lambda>x. ts @ x) (read_tokens (stringTab b1 @ strs) rest)" for strs rest
    using assms(1) by (auto simp: emits_def)
  obtain bs' ext' where 2: "structBuf b2 = structBuf b1 @ bs'" "stringTab b2 = stringTab b1 @ ext'"
    "small b2 \<Longrightarrow> read_tokens (stringTab b2 @ strs) (bs' @ rest) = map_option (\<lambda>x. ts' @ x) (read_tokens (stringTab b2 @ strs) rest)" for strs rest
    using assms(2) by (auto simp: emits_def)
  have "small b2 \<Longrightarrow> small b1" using 2 by (simp add: small_def)
  then have "small b2 \<Longrightarrow> read_tokens (stringTab b2 @ strs) ((bs @ bs') @ rest) = map_option (\<lambda>x. (ts @ ts') @ x) (read_tokens (stringTab b2 @ strs) rest)"
    for strs rest using 1(3) [of "ext' @ strs" "bs' @ rest"] 2 by (simp add: option.map_comp o_def)
  moreover have "structBuf b2 = structBuf b @ (bs @ bs')" "stringTab b2 = stringTab b @ (ext @ ext')" using 1 2 by simp_all
  ultimately show ?thesis using assms(2) unfolding emits_def by blast
qed

lemma emits_refl: "sane b \<Longrightarrow> emits b [] b"
  by (auto simp: emits_def option.map_ident)

lemma emitsI:
  assumes "sane b" "structBuf b' = structBuf b @ bs" "length bs mod 4 = 0" "stringTab b' = stringTab b @ ext"
    "small b' \<Longrightarrow> \<forall>name off. stringsOff b' name = Some off \<longrightarrow> names_at (stringTab b') off name"
    "\<And>strs rest. small b' \<Longrightarrow> read_tokens (stringTab b' @ strs) (bs @ rest) = map_option (\<lambda>x. ts @ x) (read_tokens (stringTab b' @ strs) rest)"
  shows "emits b ts b'"
proof -
  have "length (structBuf b') mod 4 = 0" using assms(1-3) by (simp add: sane_def mod_add_eq [symmetric])
  then have "sane b'" using assms(5) by (simp add: sane_def)
  then show ?thesis using assms(2,4,6) unfolding emits_def by blast
qed

lemma emits_begin:
  assumes "sane b" "name_ok name"
  shows "emits b [BeginNode name] (beginNode name b)"
proof (rule emitsI [OF assms(1)])
  let ?bs = "be_bytes 4 beginNodeToken @ name @ [0] @ pad4 (length name + 1)"
  have a: "length (structBuf b) mod 4 = 0" using assms(1) by (simp add: sane_def)
  have "pad4 (length ((structBuf b @ be_bytes 4 beginNodeToken) @ name @ [0])) = pad4 (length name + 1)"
    by (rule pad4_aligned [where a = "length (structBuf b) + 4"]) (use a in \<open>simp_all add: mod_add_eq [symmetric]\<close>)
  then show b: "structBuf (beginNode name b) = structBuf b @ ?bs"
    by (simp add: beginNode_def writeToken_def padStruct_def Let_def add_ac)
  have "length ?bs = 4 + padded (length name + 1)" by (simp add: padded_eq)
  then show "length ?bs mod 4 = 0" using padded_mod [of "length name + 1"] by presburger
  show t: "stringTab (beginNode name b) = stringTab b @ []" by (simp add: beginNode_def writeToken_def padStruct_def Let_def)
  have "stringsOff (beginNode name b) = stringsOff b" by (simp add: beginNode_def writeToken_def padStruct_def Let_def)
  moreover have "small (beginNode name b) \<Longrightarrow> small b" using b t by (simp add: small_def)
  ultimately show "small (beginNode name b) \<Longrightarrow> \<forall>name' off. stringsOff (beginNode name b) name' = Some off \<longrightarrow> names_at (stringTab (beginNode name b)) off name'"
    using assms(1) t by (simp add: sane_def)
  show "read_tokens (stringTab (beginNode name b) @ strs) (?bs @ rest) =
      map_option (\<lambda>x. [BeginNode name] @ x) (read_tokens (stringTab (beginNode name b) @ strs) rest)" for strs rest
    using read_begin [OF assms(2)] by simp
qed

lemma emits_end: "sane b \<Longrightarrow> emits b [EndNode] (endNode b)"
  by (rule emitsI [where ext = "[]"]) (auto simp: endNode_def writeToken_def sane_def small_def read_end)

lemma property_fields:
  assumes "length (structBuf b) mod 4 = 0"
  shows "structBuf (property name val b) = structBuf b @ be_bytes 4 propToken @ be_bytes 4 (of_nat (length val) :: u32)
      @ be_bytes 4 (fst (stringOffset name b)) @ val @ pad4 (length val)"
    "stringTab (property name val b) = stringTab (snd (stringOffset name b))"
    "stringsOff (property name val b) = stringsOff (snd (stringOffset name b))"
proof -
  have "pad4 (length (structBuf b @ be_bytes 4 propToken @ be_bytes 4 (of_nat (length val) :: u32) @ be_bytes 4 off @ val)) = pad4 (length val)" for off :: u32
    by (rule pad4_aligned [where a = "length (structBuf b) + 12"]) (use assms in \<open>simp_all add: mod_add_eq [symmetric]\<close>)
  then show "structBuf (property name val b) = structBuf b @ be_bytes 4 propToken @ be_bytes 4 (of_nat (length val) :: u32)
      @ be_bytes 4 (fst (stringOffset name b)) @ val @ pad4 (length val)"
    "stringTab (property name val b) = stringTab (snd (stringOffset name b))"
    "stringsOff (property name val b) = stringsOff (snd (stringOffset name b))"
    by (auto simp: property_def writeToken_def padStruct_def stringOffset_def Let_def add_ac split: option.splits)
qed

lemma stringOffset_table:
  assumes "sane b" "small b" "stringOffset name b = (off, b1)" "length (stringTab b1) < 2 ^ 32"
  shows "names_at (stringTab b1) off name" "\<forall>name' off'. stringsOff b1 name' = Some off' \<longrightarrow> names_at (stringTab b1) off' name'"
proof -
  have t: "\<And>name' off'. stringsOff b name' = Some off' \<Longrightarrow> names_at (stringTab b) off' name'" using assms(1,2) by (simp add: sane_def)
  have n: "names_at (stringTab b @ name @ [0]) (of_nat (length (stringTab b))) name" if "length (stringTab b) < 2 ^ 32"
    using that by (simp add: names_at_def unat_of_nat take_bit_nat_eq_self)
  show "names_at (stringTab b1) off name" "\<forall>name' off'. stringsOff b1 name' = Some off' \<longrightarrow> names_at (stringTab b1) off' name'"
    using assms(3,4) t n by (auto simp: stringOffset_def Let_def names_at_append split: option.splits if_splits)
qed

lemma emits_property:
  assumes "sane b" "name_ok name"
  shows "emits b [Prop name val] (property name val b)"
proof (rule emitsI [OF assms(1)])
  let ?off = "fst (stringOffset name b)" and ?b1 = "snd (stringOffset name b)"
  let ?bs = "be_bytes 4 propToken @ be_bytes 4 (of_nat (length val) :: u32) @ be_bytes 4 ?off @ val @ pad4 (length val)"
  have o: "stringOffset name b = (?off, ?b1)" by simp
  note f = property_fields [of b name val]
  have a: "length (structBuf b) mod 4 = 0" using assms(1) by (simp add: sane_def)
  show b: "structBuf (property name val b) = structBuf b @ ?bs" using f(1) [OF a] .
  have "length ?bs = 12 + padded (length val)" by (simp add: padded_eq)
  then show "length ?bs mod 4 = 0" using padded_mod [of "length val"] by presburger
  have e: "stringTab ?b1 = stringTab b @ drop (length (stringTab b)) (stringTab ?b1)" by (auto simp: stringOffset_def Let_def split: option.splits)
  then show "stringTab (property name val b) = stringTab b @ drop (length (stringTab b)) (stringTab ?b1)" unfolding f(2) [OF a] .
  have "length (stringTab b) \<le> length (stringTab ?b1)" by (subst e) simp
  then have s: "small b" "length val < 2 ^ 32" "length (stringTab ?b1) < 2 ^ 32" if "small (property name val b)"
    using that b f(2) [OF a] by (auto simp: small_def)
  show "small (property name val b) \<Longrightarrow> \<forall>name' off'. stringsOff (property name val b) name' = Some off' \<longrightarrow> names_at (stringTab (property name val b)) off' name'"
    using stringOffset_table(2) [OF assms(1) s(1) o s(3)] f(2,3) [OF a] by simp
  show "small (property name val b) \<Longrightarrow> read_tokens (stringTab (property name val b) @ strs) (?bs @ rest) =
      map_option (\<lambda>x. [Prop name val] @ x) (read_tokens (stringTab (property name val b) @ strs) rest)" for strs rest
    using read_prop [OF s(2), of ?off "stringTab ?b1 @ strs" name rest] f(2) [OF a]
      names_at_read [OF names_at_append [OF stringOffset_table(1) [OF assms(1) s(1) o s(3)]] assms(2)] by simp
qed

lemma emits_sane: "emits b ts b' \<Longrightarrow> sane b'"
  by (simp add: emits_def)

lemma emits_properties:
  assumes "emit_properties ps b = Inr b'" "sane b" "list_all (\<lambda>(k, p). name_ok k) ps"
  shows "emits b (map (\<lambda>(k, p). Prop k (property_data p)) ps) b'"
  using assms
proof (induction ps b rule: emit_properties.induct)
  case (2 name p ps b)
  then obtain b1 where b1: "emitProperty name p b = Inr b1" "emit_properties ps b1 = Inr b'" by (auto split: sum.splits)
  then have "b1 = property name (property_data p) b" by (auto simp: emitProperty_def split: if_splits)
  then have e: "emits b [Prop name (property_data p)] b1" using emits_property 2 by simp
  from emits_trans [OF e] show ?case using 2 b1 emits_sane [OF e] by fastforce
qed (simp add: emits_refl)

lemma sorted_properties_ok: "list_all (\<lambda>(k, p). name_ok k) ps \<Longrightarrow> list_all (\<lambda>(k, p). name_ok k) (sorted_properties ps)"
  by (auto simp: list_all_iff sorted_properties_def)

lemma emits_node:
  "emitNode n b = Inr b' \<Longrightarrow> sane b \<Longrightarrow> tree_ok n \<Longrightarrow> emits b (tokens_of n) b'"
  "emitNodes ns b = Inr b' \<Longrightarrow> sane b \<Longrightarrow> list_all tree_ok ns \<Longrightarrow> emits b (concat (map tokens_of ns)) b'"
proof (induction n b and ns b arbitrary: b' and b' rule: emitNode_emitNodes.induct)
  case (1 name ps children b)
  then obtain b1 b2 where s: "emit_properties (sorted_properties ps) (beginNode name b) = Inr b1" "emitNodes children b1 = Inr b2" "b' = endNode b2"
    by (auto split: sum.splits)
  have e1: "emits b [BeginNode name] (beginNode name b)" using emits_begin 1 by simp
  have e2: "emits (beginNode name b) (map (\<lambda>(k, p). Prop k (property_data p)) (sorted_properties ps)) b1"
    using emits_properties [OF s(1) emits_sane [OF e1]] sorted_properties_ok 1 by simp
  have e3: "emits b1 (concat (map tokens_of children)) b2" using 1 s(1,2) emits_sane [OF e2] by simp
  have e4: "emits b2 [EndNode] b'" using emits_end emits_sane [OF e3] s(3) by simp
  show ?case using emits_trans [OF e1 emits_trans [OF e2 emits_trans [OF e3 e4]]] by simp
next
  case (3 n ns b)
  then obtain b1 where s: "emitNode n b = Inr b1" "emitNodes ns b1 = Inr b'" by (auto split: sum.splits)
  have e1: "emits b (tokens_of n) b1" using 3 s(1) by simp
  have e2: "emits b1 (concat (map tokens_of ns)) b'" using 3 s emits_sane [OF e1] by simp
  show ?case using emits_trans [OF e1 e2] by simp
qed (simp add: emits_refl)

lemma nest_properties:
  "nest ((name, ps, []) # st) (map (\<lambda>(k, p). Prop k (property_data p)) qs @ ts) =
     nest ((name, ps @ map (\<lambda>(k, p). (k, property_data p)) qs, []) # st) ts"
  by (induction qs arbitrary: ps) auto

lemma nest_node:
  "nest ((name, ps, cs) # st) (tokens_of n @ ts) = nest ((name, ps, cs @ [dtree_of n]) # st) ts"
proof (induction n arbitrary: name ps cs st ts)
  case (Node nm qs children)
  have c: "nest ((a, p, c) # s) (concat (map tokens_of ns) @ ts) = nest ((a, p, c @ map dtree_of ns) # s) ts" if "set ns \<subseteq> set children" for a p c s ns ts
    using that by (induction ns arbitrary: c) (simp_all add: Node.IH)
  show ?case by (simp add: nest_properties c)
qed

lemma nest_root: "nest [] (tokens_of n) = Some (dtree_of n)"
proof (cases n)
  case (Node nm qs children)
  have c: "nest [(a, p, c)] (concat (map tokens_of ns) @ ts) = nest [(a, p, c @ map dtree_of ns)] ts" for a p c ns ts
    by (induction ns arbitrary: c) (simp_all add: nest_node)
  show ?thesis by (simp add: Node nest_properties c)
qed

section \<open>Blobs\<close>

lemma nth_word_field:
  assumes "i < length ws"
  shows "be_word (take 4 (drop (4 * i) (concat (map (be_bytes 4) ws) @ rest))) = (ws ! i :: u32)"
proof -
  have "take 4 (drop (4 * i) (concat (map (be_bytes 4) ws) @ rest)) = be_bytes 4 (ws ! i)" by (rule nth_chunk) (use assms in simp_all)
  then show ?thesis by (simp only:) (simp add: be_word_be_bytes)
qed

lemma middle:
  "length x = n \<Longrightarrow> take (length y) (drop n (x @ y @ z)) = y"
  "length x + length y = n \<Longrightarrow> take (length z) (drop n (x @ y @ z)) = z"
  by auto

lemma length_words: "length (concat (map (be_bytes 4) ws)) = 4 * length (ws :: u32 list)"
  by (rule length_chunks) simp

lemma read_tree_Build:
  assumes "fdt_Build root = Inr blob" "tree_ok root" "length blob < 2 ^ 32"
  shows "read_tree blob = Some (dtree_of root)"
proof -
  let ?b0 = "\<lparr>structBuf = [], stringTab = [], stringsOff = Map.empty\<rparr> :: builder"
  obtain b where b: "emitNode root ?b0 = Inr b" "blob = finish b" using assms(1) by (auto simp: fdt_Build_def split: sum.splits)
  have "sane ?b0" by (simp add: sane_def)
  then have e: "emits ?b0 (tokens_of root) b" using emits_node(1) b(1) assms(2) by blast
  then have a: "length (structBuf b) mod 4 = 0" by (simp add: emits_def sane_def)
  let ?s = "structBuf b @ be_bytes 4 endToken" and ?t = "stringTab b"
  have "pad4 (length ?s) = []" using a by (simp add: pad4_def mod_add_eq [symmetric])
  define ws where "ws = [0xd00dfeed, of_nat (56 + length ?s + length ?t), 56, of_nat (56 + length ?s), 40, 17, 16, 0, of_nat (length ?t), of_nat (length ?s) :: u32]"
  have blob: "blob = concat (map (be_bytes 4) ws) @ replicate 16 0 @ ?s @ ?t"
    using \<open>pad4 (length ?s) = []\<close> by (simp add: b(2) finish_def writeToken_def padStruct_def Let_def ws_def add_ac)
  have n: "length blob = 56 + length ?s + length ?t" unfolding blob length_append length_words by (simp add: ws_def)
  then have sz: "56 + length ?s + length ?t < 2 ^ 32" using assms(3) by simp
  have f: "be_word (take 4 (drop (4 * i) blob)) = ws ! i" if "i < 10" for i
    unfolding blob by (rule nth_word_field) (use that in \<open>simp add: ws_def\<close>)
  have u: "unat (of_nat k :: u32) = k" if "k < 2 ^ 32" for k using that by (simp add: unat_of_nat take_bit_nat_eq_self)
  have w: "unat (ws ! 0) = 0xd00dfeed" "unat (ws ! 1) = length blob" "unat (ws ! 2) = 56" "unat (ws ! 3) = 56 + length ?s"
    "unat (ws ! 8) = length ?t" "unat (ws ! 9) = length ?s"
    using sz u [of "56 + length ?s + length ?t"] u [of "56 + length ?s"] u [of "length ?t"] u [of "length ?s"] n by (simp_all add: ws_def)
  have blob2: "blob = (concat (map (be_bytes 4) ws) @ replicate 16 0) @ ?s @ ?t" "length (concat (map (be_bytes 4) ws) @ replicate 16 (0 :: u8)) = 56"
    unfolding blob length_append length_words by (simp_all add: ws_def)
  have sl: "take (length ?t) (drop (56 + length ?s) blob) = ?t" "take (length ?s) (drop 56 blob) = ?s"
    unfolding blob2(1) by (rule middle(2) middle(1), use blob2(2) in \<open>simp only: length_append\<close>)+
  have "small b" using sz by (simp add: small_def)
  then have "\<forall>strs rest. read_tokens (?t @ strs) (structBuf b @ rest) = map_option (\<lambda>x. tokens_of root @ x) (read_tokens (?t @ strs) rest)"
    using e unfolding emits_def by auto
  then have "read_tokens (?t @ []) (structBuf b @ be_bytes 4 endToken) = map_option (\<lambda>x. tokens_of root @ x) (read_tokens (?t @ []) (be_bytes 4 endToken))" by blast
  also have "read_tokens (?t @ []) (be_bytes 4 endToken) = Some []" by (subst read_tokens.simps) (simp add: endToken_def be_word_be_bytes)
  finally have r: "read_tokens ?t ?s = Some (tokens_of root)" by simp
  have "40 \<le> length blob" using n by simp
  then show ?thesis using f [of 0] f [of 1] f [of 2] f [of 3] f [of 8] f [of 9] w sl r nest_root [of root]
    by (simp add: read_tree_def Let_def)
qed

definition demo_tree :: Node where
  "demo_tree = Node [] [(ascii ''model'', \<lparr>Strings = [ascii ''m''], U32 = [], U64 = [], Bytes = [], Flag = False\<rparr>),
      (ascii ''cells'', \<lparr>Strings = [], U32 = [2], U64 = [], Bytes = [], Flag = False\<rparr>)]
    [Node (ascii ''memory'') [(ascii ''model'', \<lparr>Strings = [], U32 = [], U64 = [0x40000000], Bytes = [], Flag = False\<rparr>)] []]"

lemma emit_properties_succeeds: "(\<exists>b'. emit_properties ps b = Inr b') \<longleftrightarrow> list_all (\<lambda>(k, p). DefinedCount p = 1) ps"
proof (induction ps b rule: emit_properties.induct)
  case (2 name p ps b)
  have "DefinedCount p \<noteq> 0 \<Longrightarrow> Kind p \<noteq> KindNone" by (simp add: DefinedCount_def Kind_def split: if_splits)
  then show ?case using 2 by (auto simp: emitProperty_def)
qed simp

lemma sorted_properties_count:
  assumes "distinct (map fst ps)"
  shows "list_all (\<lambda>(k, p). DefinedCount p = 1) (sorted_properties ps) \<longleftrightarrow> list_all (\<lambda>(k, p). DefinedCount p = 1) ps"
proof -
  have "(\<lambda>name. (name, the (map_of ps name))) ` set (map fst ps) = set ps" using assms by (force simp: image_iff map_of_eq_Some_iff)
  then show ?thesis by (simp add: list_all_iff sorted_properties_def image_image)
qed

text \<open>A tree is refused exactly when some property has no value or values of several kinds.\<close>

lemma emitNode_succeeds:
  "tree_ok n \<Longrightarrow> (\<exists>b'. emitNode n b = Inr b') \<longleftrightarrow> values_ok n"
  "list_all tree_ok ns \<Longrightarrow> (\<exists>b'. emitNodes ns b = Inr b') \<longleftrightarrow> list_all values_ok ns"
proof (induction n b and ns b rule: emitNode_emitNodes.induct)
  case (1 name ps children b)
  then show ?case using emit_properties_succeeds [of "sorted_properties ps" "beginNode name b"] sorted_properties_count [of ps]
    by (auto split: sum.splits)
next
  case (3 n ns b)
  then show ?case by (auto split: sum.splits)
qed simp

lemma fdt_Build_succeeds: "tree_ok root \<Longrightarrow> (\<exists>blob. fdt_Build root = Inr blob) \<longleftrightarrow> values_ok root"
  using emitNode_succeeds(1) [of root "\<lparr>structBuf = [], stringTab = [], stringsOff = Map.empty\<rparr>"]
  by (auto simp: fdt_Build_def split: sum.splits)

text \<open>A bound for the size of a blob.\<close>

fun node_size :: "Node \<Rightarrow> nat" where
  "node_size (Node name ps children) =
     length name + 12 + sum_list (map (\<lambda>(k, p). length k + length (property_data p) + 16) ps) + sum_list (map node_size children)"

definition built :: "builder \<Rightarrow> nat" where
  "built b = length (structBuf b) + length (stringTab b)"

lemma pad4_short: "length (pad4 n) \<le> 3"
proof -
  have "(4 - n mod 4) mod 4 < 4" by (rule mod_less_divisor) simp
  then show ?thesis unfolding pad4_def length_replicate by linarith
qed

lemma built_steps:
  "built (beginNode name b) \<le> built b + length name + 8" "built (endNode b) = built b + 4"
  "built (property name val b) \<le> built b + length name + length val + 16"
proof -
  show "built (beginNode name b) \<le> built b + length name + 8"
    using pad4_short [of "Suc (length (structBuf b) + (4 + length name))"]
    by (simp add: built_def beginNode_def writeToken_def padStruct_def Let_def)
  show "built (endNode b) = built b + 4" by (simp add: built_def endNode_def writeToken_def)
  obtain off b1 where o: "stringOffset name (writeToken propToken b\<lparr>structBuf := structBuf (writeToken propToken b) @ be_bytes 4 (of_nat (length val) :: u32)\<rparr>) = (off, b1)"
    by (rule prod.exhaust)
  have "length (structBuf b1) = length (structBuf b) + 8 \<and> length (stringTab b1) \<le> length (stringTab b) + length name + 1"
    using o by (auto simp: stringOffset_def writeToken_def Let_def split: option.splits)
  then show "built (property name val b) \<le> built b + length name + length val + 16"
    using o pad4_short [of "length (structBuf b1 @ be_bytes 4 off @ val)"] by (simp add: built_def property_def padStruct_def Let_def)
qed

lemma built_properties:
  "emit_properties ps b = Inr b' \<Longrightarrow> built b' \<le> built b + sum_list (map (\<lambda>(k, p). length k + length (property_data p) + 16) ps)"
proof (induction ps b rule: emit_properties.induct)
  case (2 name p ps b)
  then show ?case using built_steps(3) [of name "property_data p" b] by (auto simp: emitProperty_def split: sum.splits if_splits)
qed simp

lemma sorted_properties_sum:
  assumes "distinct (map fst ps)"
  shows "sum_list (map f (sorted_properties ps)) = (sum_list (map f ps) :: nat)"
proof -
  let ?g = "\<lambda>k. f (k, the (map_of ps k))"
  have "sum_list (map f (sorted_properties ps)) = sum_list (map ?g (sort (map fst ps)))" by (simp add: sorted_properties_def o_def)
  also have "\<dots> = sum_list (map ?g (map fst ps))"
    using assms sum_list_distinct_conv_sum_set [of "sort (map fst ps)" ?g] sum_list_distinct_conv_sum_set [of "map fst ps" ?g] by simp
  also have "map ?g (map fst ps) = map f ps" using assms by (auto simp: map_of_is_SomeI)
  finally show ?thesis .
qed

lemma built_node:
  "emitNode n b = Inr b' \<Longrightarrow> tree_ok n \<Longrightarrow> built b' \<le> built b + node_size n"
  "emitNodes ns b = Inr b' \<Longrightarrow> list_all tree_ok ns \<Longrightarrow> built b' \<le> built b + sum_list (map node_size ns)"
proof (induction n b and ns b arbitrary: b' and b' rule: emitNode_emitNodes.induct)
  case (1 name ps children b)
  then obtain b1 b2 where s: "emit_properties (sorted_properties ps) (beginNode name b) = Inr b1" "emitNodes children b1 = Inr b2" "b' = endNode b2"
    by (auto split: sum.splits)
  have "built b2 \<le> built b1 + sum_list (map node_size children)" using 1 s(1,2) by simp
  then show ?case using 1(3) built_properties [OF s(1)] built_steps(1) [of name b] built_steps(2) [of b2] s(3) by (simp add: sorted_properties_sum)
next
  case (3 n ns b)
  then obtain b1 where s: "emitNode n b = Inr b1" "emitNodes ns b1 = Inr b'" by (auto split: sum.splits)
  then have "built b1 \<le> built b + node_size n" "built b' \<le> built b1 + sum_list (map node_size ns)" using 3 by simp_all
  then show ?case by simp
qed simp

lemma blob_size: "fdt_Build root = Inr blob \<Longrightarrow> tree_ok root \<Longrightarrow> length blob \<le> node_size root + 63"
proof -
  assume a: "fdt_Build root = Inr blob" "tree_ok root"
  then obtain b where b: "emitNode root \<lparr>structBuf = [], stringTab = [], stringsOff = Map.empty\<rparr> = Inr b" "blob = finish b"
    by (auto simp: fdt_Build_def split: sum.splits)
  then show ?thesis using built_node(1) [OF b(1) a(2)] pad4_short [of "length (structBuf b) + 4"]
    by (simp add: built_def finish_def writeToken_def padStruct_def Let_def)
qed

text \<open>
  C23. The builder refuses a tree exactly when a property has no value or values of several kinds. Else
  its blob has the header of the format, and read by that header it gives back every node with its
  name, its children in order, and its properties in the order of their names with their values in
  big-endian form.
\<close>

theorem fdt_build_exact:
  assumes "tree_ok root"
  shows "((\<exists>blob. fdt_Build root = Inr blob) \<longleftrightarrow> values_ok root)
    \<and> (\<forall>blob. fdt_Build root = Inr blob \<and> length blob < 2 ^ 32 \<longrightarrow> read_tree blob = Some (dtree_of root))"
  using fdt_Build_succeeds [OF assms] read_tree_Build [OF _ assms] by blast

theorem fdt_build_exact_witness: "\<exists>blob. fdt_Build demo_tree = Inr blob \<and> read_tree blob = Some (dtree_of demo_tree)"
proof -
  have "case fdt_Build demo_tree of Inl _ \<Rightarrow> False | Inr blob \<Rightarrow> length blob < 1000" "tree_ok demo_tree" by code_simp+
  then obtain blob where "fdt_Build demo_tree = Inr blob" "length blob < 2 ^ 32" "tree_ok demo_tree" by (auto split: sum.splits)
  then show ?thesis using fdt_build_exact by blast
qed

end
