(* ===== verification/BootArm.thy ===== *)
theory BootArm
  imports Fdt "HOL-Library.AList"
begin

text \<open>
  Booting a Linux kernel on arm64 (\<^verbatim>\<open>internal/core/linux/boot/arm64\<close>): the kernel image and its header, the
  cache of decompressed images, the device tree that describes the machine, and the placement of
  kernel, initial ramdisk and device tree in guest memory. Decompression and the hash that keys the cache
  are parameters. The recording of times is left out.
\<close>

section \<open>Kernel images\<close>

datatype booterr =
    EmptyMemory | EmptyKernel | HeaderTruncated | BadMagic u32 | HeaderNotFound | GzipOpen | GzipHeader | GzipOffset | GzipCorrupt
  | UnalignedBase u64 | KernelBelowRAM u64 | KernelTooLarge | InitrdTooLarge | TreeFailed fdterr | TreeTooLarge | StackOverlap
  | BootPanic goerr

record KernelHeader =
  Code0 :: u32
  Code1 :: u32
  TextOffset :: u64
  ImageSize :: u64
  KFlags :: u64
  Res2 :: u64
  Res3 :: u64
  Res4 :: u64
  Magic :: u32
  Res5 :: u32

definition ImageLoadAlignment :: u64 where "ImageLoadAlignment = 0x200000"

definition parseKernelHeader :: "bytes \<Rightarrow> booterr + KernelHeader" where
  "parseKernelHeader h =
     (if length h < 64 then Inl HeaderTruncated
      else let k = \<lparr>Code0 = le_word (sub_bytes h 0 4), Code1 = le_word (sub_bytes h 4 8), TextOffset = le_word (sub_bytes h 8 16),
             ImageSize = le_word (sub_bytes h 16 24), KFlags = le_word (sub_bytes h 24 32), Res2 = le_word (sub_bytes h 32 40),
             Res3 = le_word (sub_bytes h 40 48), Res4 = le_word (sub_bytes h 48 56), Magic = le_word (sub_bytes h 56 60),
             Res5 = le_word (sub_bytes h 60 64)\<rparr> in
        if Magic k \<noteq> 0x644d5241 then Inl (BadMagic (Magic k)) else Inr k)"

definition EntryPoint :: "u64 \<Rightarrow> KernelHeader \<Rightarrow> booterr + u64" where
  "EntryPoint base h = (if base AND (ImageLoadAlignment - 1) \<noteq> 0 then Inl (UnalignedBase base) else Inr (base + TextOffset h))"

record ImageProbe =
  Header :: KernelHeader
  NeedsDecompression :: bool
  CompressedOffset :: nat

text \<open>
  What the decompressor makes of its input: nothing if there is no gzip header, or else the data it
  produces and whether the stream ends without an error.
\<close>

type_synonym gunzip = "bytes \<Rightarrow> (bytes \<times> bool) option"

definition readKernelHeaderAt :: "bytes \<Rightarrow> nat \<Rightarrow> booterr + KernelHeader" where
  "readKernelHeaderAt file off =
     (if length file < off + 64 then Inl HeaderTruncated else parseKernelHeader (take 64 (drop off file)))"

fun index2 :: "u8 \<Rightarrow> u8 \<Rightarrow> bytes \<Rightarrow> nat option" where
  "index2 a b (x # y # zs) = (if x = a \<and> y = b then Some 0 else map_option Suc (index2 a b (y # zs)))"
| "index2 a b _ = None"

definition findGzipPayload :: "bytes \<Rightarrow> nat option" where
  "findGzipPayload file = index2 0x1f 0x8b (take 0x100000 file)"

definition readGzipKernelHeader :: "gunzip \<Rightarrow> bytes \<Rightarrow> nat \<Rightarrow> booterr + KernelHeader" where
  "readGzipKernelHeader gz file off =
     (case gz (drop off file) of None \<Rightarrow> Inl GzipOpen
      | Some (data, ok) \<Rightarrow> if length data < 64 then Inl GzipHeader else parseKernelHeader (take 64 data))"

definition ProbeKernelImage :: "gunzip \<Rightarrow> bytes \<Rightarrow> booterr + ImageProbe" where
  "ProbeKernelImage gz file =
     (if file = [] then Inl EmptyKernel
      else case readKernelHeaderAt file 0 of
        Inr h \<Rightarrow> Inr \<lparr>Header = h, NeedsDecompression = False, CompressedOffset = 0\<rparr>
      | Inl _ \<Rightarrow>
          (case findGzipPayload file of None \<Rightarrow> Inl HeaderNotFound
           | Some off \<Rightarrow>
               (case readGzipKernelHeader gz file off of Inl e \<Rightarrow> Inl e
                | Inr h \<Rightarrow> Inr \<lparr>Header = h, NeedsDecompression = True, CompressedOffset = off\<rparr>)))"

section \<open>The cache of extracted images\<close>

record imageCacheKey =
  koffset :: nat
  ksize :: nat
  ksum :: bytes

record image_cache =
  cacheEntries :: "imageCacheKey \<rightharpoonup> bytes"
  cacheOrder :: "imageCacheKey list"

definition maxCachedImages :: nat where "maxCachedImages = 4"

definition cachedExtractedImage :: "imageCacheKey \<Rightarrow> image_cache \<Rightarrow> bytes option" where
  "cachedExtractedImage key c = cacheEntries c key"

definition storeExtractedImage :: "imageCacheKey \<Rightarrow> bytes \<Rightarrow> image_cache \<Rightarrow> image_cache" where
  "storeExtractedImage key data c =
     (if cacheEntries c key \<noteq> None then c
      else let c1 = (if maxCachedImages \<le> length (cacheOrder c)
                     then c\<lparr>cacheOrder := tl (cacheOrder c), cacheEntries := (cacheEntries c)(hd (cacheOrder c) := None)\<rparr> else c) in
        c1\<lparr>cacheEntries := (cacheEntries c1)(key \<mapsto> data), cacheOrder := cacheOrder c1 @ [key]\<rparr>)"

definition readCompressedPayload :: "bytes \<Rightarrow> nat \<Rightarrow> booterr + bytes" where
  "readCompressedPayload file off = (if length file < off then Inl GzipOffset else Inr (drop off file))"

definition ExtractImage :: "gunzip \<Rightarrow> (bytes \<Rightarrow> bytes) \<Rightarrow> bytes \<Rightarrow> ImageProbe \<Rightarrow> image_cache \<Rightarrow> (booterr + bytes) \<times> image_cache" where
  "ExtractImage gz sum256 file p c =
     (if \<not> NeedsDecompression p then (Inr file, c)
      else case readCompressedPayload file (CompressedOffset p) of
        Inl e \<Rightarrow> (Inl e, c)
      | Inr compressed \<Rightarrow>
          let key = \<lparr>koffset = CompressedOffset p, ksize = length compressed, ksum = sum256 compressed\<rparr> in
          case cachedExtractedImage key c of
            Some data \<Rightarrow> (Inr data, c)
          | None \<Rightarrow>
              (case gz compressed of
                 None \<Rightarrow> (Inl GzipOpen, c)
               | Some (data, ok) \<Rightarrow> if \<not> ok then (Inl GzipCorrupt, c) else (Inr data, storeExtractedImage key data c)))"

section \<open>The device tree\<close>

datatype GICVersion = GICVersionDefault | GICVersionV2 | GICVersionV3

record InterruptSpec =
  IntType :: u32
  IntNum :: u32
  IntFlags :: u32

record UARTConfig =
  UBase :: u64
  USize :: u64
  ClockHz :: u32
  RegShift :: u32
  BaudRate :: u32
  Interrupt :: InterruptSpec

record deviceTreeConfig =
  MemBase :: u64
  MemSize :: u64
  CPUs :: nat
  Cmd :: bytes
  GIC :: GICVersion
  TUART :: "UARTConfig option"
  TConsole :: bool
  HyperV :: bool
  TInitrdGPA :: u64
  TInitrdSize :: u64
  Extra :: "Node list"

abbreviation (input) strs :: "bytes list \<Rightarrow> Property" where
  "strs vs \<equiv> \<lparr>Strings = vs, U32 = [], U64 = [], Bytes = [], Flag = False\<rparr>"

abbreviation (input) u32s :: "u32 list \<Rightarrow> Property" where
  "u32s vs \<equiv> \<lparr>Strings = [], U32 = vs, U64 = [], Bytes = [], Flag = False\<rparr>"

abbreviation (input) u64s :: "u64 list \<Rightarrow> Property" where
  "u64s vs \<equiv> \<lparr>Strings = [], U32 = [], U64 = vs, Bytes = [], Flag = False\<rparr>"

abbreviation (input) flagged :: Property where
  "flagged \<equiv> \<lparr>Strings = [], U32 = [], U64 = [], Bytes = [], Flag = True\<rparr>"

definition gicDefaultPhandle :: u32 where "gicDefaultPhandle = 1"

definition cpu_node :: "nat \<Rightarrow> Node" where
  "cpu_node cpu = Node (ascii ''cpu@'' @ dec_digits cpu)
     [(ascii ''device_type'', strs [ascii ''cpu'']), (ascii ''compatible'', strs [ascii ''arm,armv8'']),
      (ascii ''reg'', u64s [of_nat cpu]), (ascii ''enable-method'', strs [ascii ''psci''])] []"

definition serial_node :: "UARTConfig \<Rightarrow> Node" where
  "serial_node u = Node (ascii ''serial@'' @ hex_digits (unat (UBase u)))
     ([(ascii ''compatible'', strs [ascii ''ns16550a'']), (ascii ''reg'', u64s [UBase u, USize u]),
       (ascii ''reg-io-width'', u32s [1]), (ascii ''status'', strs [ascii ''okay''])]
      @ (if ClockHz u \<noteq> 0 then [(ascii ''clock-frequency'', u32s [ClockHz u])] else [])
      @ (if RegShift u \<noteq> 0 then [(ascii ''reg-shift'', u32s [RegShift u])] else [])
      @ (if Interrupt u \<noteq> \<lparr>IntType = 0, IntNum = 0, IntFlags = 0\<rparr>
         then [(ascii ''interrupts'', u32s [IntType (Interrupt u), IntNum (Interrupt u), IntFlags (Interrupt u)]),
               (ascii ''interrupt-parent'', u32s [gicDefaultPhandle])] else [])) []"

definition chosen_node :: "deviceTreeConfig \<Rightarrow> Node" where
  "chosen_node cfg = Node (ascii ''chosen'')
     ((ascii ''bootargs'', strs [Cmd cfg]) #
      (case TUART cfg of
         Some u \<Rightarrow> if TConsole cfg then
           let consolePath = ascii ''serial0:'' @ dec_digits (unat (BaudRate u)) @ ascii ''n8'' in
           [(ascii ''stdout-path'', strs [consolePath]), (ascii ''linux,stdout-path'', strs [consolePath])] else []
       | None \<Rightarrow> [])) []"

text \<open>The range of the ramdisk is set in the first child with the name.\<close>

fun set_initrd :: "u64 \<Rightarrow> u64 \<Rightarrow> Node list \<Rightarrow> Node list" where
  "set_initrd gpa len [] =
     [Node (ascii ''chosen'') [(ascii ''linux,initrd-start'', u64s [gpa]), (ascii ''linux,initrd-end'', u64s [gpa + len])] []]"
| "set_initrd gpa len (n # ns) =
     (if Name n = ascii ''chosen''
      then Node (Name n) (AList.update (ascii ''linux,initrd-end'') (u64s [gpa + len])
             (AList.update (ascii ''linux,initrd-start'') (u64s [gpa]) (Properties n))) (Children n) # ns
      else n # set_initrd gpa len ns)"

definition timer_node :: "deviceTreeConfig \<Rightarrow> Node" where
  "timer_node cfg = Node (ascii ''timer'')
     (let ps = [(ascii ''compatible'', strs [ascii ''arm,armv8-timer'']), (ascii ''always-on'', flagged),
           (ascii ''interrupts'', u32s [1, 13, 4, 1, 14, 4, 1, 11, 4, 1, 10, 4])] in
      if HyperV cfg then AList.update (ascii ''interrupts'') (u32s [1, 4, 8])
        (AList.update (ascii ''interrupt-names'') (strs [ascii ''virt'']) ps) else ps) []"

definition gic_node :: "deviceTreeConfig \<Rightarrow> Node" where
  "gic_node cfg = Node (ascii ''interrupt-controller@'' @ hex_digits 0x08000000)
     ([(ascii ''#interrupt-cells'', u32s [3]), (ascii ''#address-cells'', u32s [2]), (ascii ''#size-cells'', u32s [2]),
       (ascii ''interrupt-controller'', flagged), (ascii ''phandle'', u32s [gicDefaultPhandle]),
       (ascii ''linux,phandle'', u32s [gicDefaultPhandle]), (ascii ''interrupts'', u32s [1, 9, 0xF04])]
      @ (if GIC cfg = GICVersionV2
         then [(ascii ''compatible'', strs [ascii ''arm,gic-400'']), (ascii ''reg'', u64s [0x08000000, 0x10000, 0x08010000, 0x2000])]
         else [(ascii ''compatible'', strs [ascii ''arm,gic-v3'']),
               (ascii ''reg'', u64s [0x08000000, 0x10000, 0x080a0000, 0x20000 * of_nat (CPUs cfg)])])) []"

definition device_tree :: "deviceTreeConfig \<Rightarrow> Node" where
  "device_tree cfg =
     (let cpus = Node (ascii ''cpus'') [(ascii ''#address-cells'', u32s [2]), (ascii ''#size-cells'', u32s [0])] (map cpu_node [0..<CPUs cfg]);
          mem = Node (ascii ''memory@'' @ hex_digits (unat (MemBase cfg)))
            [(ascii ''device_type'', strs [ascii ''memory'']), (ascii ''reg'', u64s [MemBase cfg, MemSize cfg])] [];
          serial = (case TUART cfg of None \<Rightarrow> []
            | Some u \<Rightarrow> [serial_node u, Node (ascii ''aliases'') [(ascii ''serial0'', strs [ascii ''/'' @ Name (serial_node u)])] []]);
          first = [cpus, mem] @ serial @ [chosen_node cfg];
          chosen = (if 0 < TInitrdSize cfg then set_initrd (TInitrdGPA cfg) (TInitrdSize cfg) first else first);
          psci = Node (ascii ''psci'') [(ascii ''compatible'', strs [ascii ''arm,psci-0.2'', ascii ''arm,psci'']), (ascii ''method'', strs [ascii ''hvc''])] [] in
      Node [] [(ascii ''#address-cells'', u32s [2]), (ascii ''#size-cells'', u32s [2]), (ascii ''compatible'', strs [ascii ''ccx3,arm64'']),
               (ascii ''model'', strs [ascii ''ccx3-arm64'']), (ascii ''interrupt-parent'', u32s [gicDefaultPhandle])]
        (chosen @ [psci, timer_node cfg, gic_node cfg] @ Extra cfg))"

definition buildDeviceTree :: "deviceTreeConfig \<Rightarrow> fdterr + bytes" where
  "buildDeviceTree cfg = fdt_Build (device_tree cfg)"

section \<open>The boot plan\<close>

definition alignUp :: "u64 \<Rightarrow> u64 \<Rightarrow> u64" where
  "alignUp v align = (if align = 0 then v else (v + (align - 1)) AND NOT (align - 1))"

definition alignDown :: "u64 \<Rightarrow> u64 \<Rightarrow> u64" where
  "alignDown v align = (if align = 0 then v else v AND NOT (align - 1))"

record BootOptions =
  MemoryBase :: u64
  OptMemorySize :: u64
  Cmdline :: bytes
  NumCPUs :: int
  GicVersion :: GICVersion
  OptUART :: "UARTConfig option"
  DisableUART :: bool
  OptConsole :: bool
  HyperVTimer :: bool
  Initrd :: bytes
  OptInitrdGPA :: u64
  ExtraNodes :: "Node list"

record BootPlan =
  EntryGPA :: u64
  StackTopGPA :: u64
  DeviceTreeGPA :: u64
  KernelGPA :: u64
  InitrdGPA :: u64
  InitrdSize :: u64
  KernelBytes :: bytes
  DeviceTree :: bytes

definition default_uart :: UARTConfig where
  "default_uart = \<lparr>UBase = 0x09000000, USize = 0x1000, ClockHz = 1843200, RegShift = 0, BaudRate = 115200,
     Interrupt = \<lparr>IntType = 0, IntNum = 33, IntFlags = 4\<rparr>\<rparr>"

definition with_defaults :: "bytes \<Rightarrow> BootOptions \<Rightarrow> BootOptions" where
  "with_defaults memory opts =
     (let o1 = (if OptMemorySize opts = 0 then opts\<lparr>OptMemorySize := of_nat (length memory)\<rparr> else opts);
          o2 = (if NumCPUs o1 \<le> 0 then o1\<lparr>NumCPUs := 1\<rparr> else o1) in
      if OptUART o2 = None \<and> \<not> DisableUART o2 then o2\<lparr>OptUART := Some default_uart\<rparr> else o2)"

definition tree_config :: "BootOptions \<Rightarrow> u64 \<Rightarrow> deviceTreeConfig" where
  "tree_config opts initrdAddr =
     \<lparr>MemBase = MemoryBase opts, MemSize = OptMemorySize opts, CPUs = nat (NumCPUs opts), Cmd = Cmdline opts, GIC = GicVersion opts,
      TUART = OptUART opts, TConsole = OptConsole opts, HyperV = HyperVTimer opts, TInitrdGPA = initrdAddr,
      TInitrdSize = of_nat (length (Initrd opts)), Extra = ExtraNodes opts\<rparr>"

text \<open>The statement \<^verbatim>\<open>copy(memory[off:off+len(data)], data)\<close>.\<close>

definition copy_in :: "bytes \<Rightarrow> u64 \<Rightarrow> bytes \<Rightarrow> booterr + bytes" where
  "copy_in memory off data =
     (case go_slice memory off (off + of_nat (length data)) of
        Inl e \<Rightarrow> Inl (BootPanic e)
      | Inr _ \<Rightarrow> Inr (overwrite memory (unat off) data))"

definition place_initrd :: "BootOptions \<Rightarrow> u64 \<Rightarrow> bytes \<Rightarrow> booterr + (u64 \<times> bytes)" where
  "place_initrd opts after memory =
     (if Initrd opts = [] then Inr (OptInitrdGPA opts, memory)
      else let addr = (if OptInitrdGPA opts = 0 then alignUp after 0x1000 else OptInitrdGPA opts);
               off = addr - MemoryBase opts in
        if addr < MemoryBase opts \<or> of_nat (length memory) < off + of_nat (length (Initrd opts)) then Inl InitrdTooLarge
        else case copy_in memory off (Initrd opts) of Inl e \<Rightarrow> Inl e | Inr m \<Rightarrow> Inr (addr, m))"

definition place_tree :: "BootOptions \<Rightarrow> u64 \<Rightarrow> bytes \<Rightarrow> bytes \<Rightarrow> booterr + (u64 \<times> u64 \<times> bytes)" where
  "place_tree opts dtbStart dtb memory =
     (let dtbAddr = alignUp dtbStart 8; dtbOff = dtbAddr - MemoryBase opts in
      if of_nat (length memory) < dtbOff + of_nat (length dtb) then Inl TreeTooLarge
      else case copy_in memory dtbOff dtb of Inl e \<Rightarrow> Inl e
      | Inr m \<Rightarrow>
          let stackTop = alignDown (MemoryBase opts + OptMemorySize opts) 16 in
          if stackTop \<le> dtbAddr + of_nat (length dtb) + 0x2000 then Inl StackOverlap else Inr (dtbAddr, stackTop, m))"

definition place_all :: "bytes \<Rightarrow> BootOptions \<Rightarrow> KernelHeader \<Rightarrow> bytes \<Rightarrow> booterr + (BootPlan \<times> bytes)" where
  "place_all img opts h memory =
     (let base = alignUp (MemoryBase opts) ImageLoadAlignment; loadAddr = base + TextOffset h;
          kernelReserveSize = max (of_nat (length img)) (ImageSize h); loadOff = loadAddr - MemoryBase opts in
      if loadAddr < MemoryBase opts then Inl (KernelBelowRAM loadAddr)
      else if of_nat (length memory) < loadOff + kernelReserveSize then Inl KernelTooLarge
      else case copy_in memory loadOff img of Inl e \<Rightarrow> Inl e
      | Inr m1 \<Rightarrow>
      case place_initrd opts (loadAddr + kernelReserveSize) m1 of Inl e \<Rightarrow> Inl e
      | Inr (initrdAddr, m2) \<Rightarrow>
      case buildDeviceTree (tree_config opts initrdAddr) of Inl e \<Rightarrow> Inl (TreeFailed e)
      | Inr dtb \<Rightarrow>
      case place_tree opts (if Initrd opts \<noteq> [] then initrdAddr + of_nat (length (Initrd opts)) else loadAddr + kernelReserveSize) dtb m2 of
        Inl e \<Rightarrow> Inl e
      | Inr (dtbAddr, stackTop, m3) \<Rightarrow>
      case EntryPoint base h of Inl e \<Rightarrow> Inl e
      | Inr entry \<Rightarrow>
          Inr (\<lparr>EntryGPA = entry, StackTopGPA = stackTop, DeviceTreeGPA = dtbAddr, KernelGPA = loadAddr, InitrdGPA = initrdAddr,
                InitrdSize = of_nat (length (Initrd opts)), KernelBytes = img, DeviceTree = dtb\<rparr>, m3))"

definition arm_PrepareBoot :: "gunzip \<Rightarrow> (bytes \<Rightarrow> bytes) \<Rightarrow> bytes \<Rightarrow> bytes \<Rightarrow> BootOptions \<Rightarrow> image_cache
    \<Rightarrow> (booterr + (BootPlan \<times> bytes)) \<times> image_cache" where
  "arm_PrepareBoot gz sum256 memory kernelFile opts0 c =
     (if memory = [] then (Inl EmptyMemory, c)
      else if kernelFile = [] then (Inl EmptyKernel, c)
      else let opts = with_defaults memory opts0 in
        case ProbeKernelImage gz kernelFile of Inl e \<Rightarrow> (Inl e, c)
        | Inr probe \<Rightarrow>
            (case ExtractImage gz sum256 kernelFile probe c of
               (Inl e, c1) \<Rightarrow> (Inl e, c1)
             | (Inr img, c1) \<Rightarrow> (place_all img opts (Header probe) memory, c1)))"

section \<open>The cache is transparent\<close>

text \<open>The payloads whose images the cache can hold are those in \<open>S\<close>.\<close>

definition cache_ok :: "gunzip \<Rightarrow> (bytes \<Rightarrow> bytes) \<Rightarrow> bytes set \<Rightarrow> image_cache \<Rightarrow> bool" where
  "cache_ok gz sum256 S c \<longleftrightarrow> distinct (cacheOrder c) \<and> set (cacheOrder c) = dom (cacheEntries c) \<and> length (cacheOrder c) \<le> maxCachedImages
     \<and> (\<forall>key data. cacheEntries c key = Some data \<longrightarrow> (\<exists>z \<in> S. ksum key = sum256 z \<and> gz z = Some (data, True)))"

inductive cache_run :: "gunzip \<Rightarrow> (bytes \<Rightarrow> bytes) \<Rightarrow> bytes set \<Rightarrow> image_cache \<Rightarrow> bool" for gz sum256 S where
  empty: "cache_run gz sum256 S \<lparr>cacheEntries = Map.empty, cacheOrder = []\<rparr>"
| extraction: "cache_run gz sum256 S c \<Longrightarrow> drop (CompressedOffset p) file \<in> S \<Longrightarrow> ExtractImage gz sum256 file p c = (r, c') \<Longrightarrow> cache_run gz sum256 S c'"

lemma store_ok:
  assumes "cache_ok gz sum256 S c" "z \<in> S" "ksum key = sum256 z" "gz z = Some (data, True)"
  shows "cache_ok gz sum256 S (storeExtractedImage key data c)"
proof (cases "cacheEntries c key = None \<and> maxCachedImages \<le> length (cacheOrder c)")
  case True
  then obtain k ks where o: "cacheOrder c = k # ks" by (cases "cacheOrder c") (auto simp: maxCachedImages_def)
  have "set ks = dom ((cacheEntries c)(k := None))" "distinct ks" "key \<notin> set ks" "length ks < maxCachedImages"
    using assms(1) o True by (auto simp: cache_ok_def)
  then show ?thesis using assms True o by (auto simp: storeExtractedImage_def cache_ok_def Let_def)
next
  case False
  then show ?thesis using assms by (auto simp: storeExtractedImage_def cache_ok_def Let_def domIff)
qed

lemma extract_ok:
  assumes "cache_ok gz sum256 S c" "drop (CompressedOffset p) file \<in> S"
  shows "cache_ok gz sum256 S (snd (ExtractImage gz sum256 file p c))"
  using assms store_ok [OF assms]
  by (auto simp: ExtractImage_def readCompressedPayload_def Let_def split: option.splits)

lemma cache_run_ok: "cache_run gz sum256 S c \<Longrightarrow> cache_ok gz sum256 S c"
proof (induction rule: cache_run.induct)
  case (extraction c p f r c')
  then show ?case using extract_ok [of gz sum256 S c p f] by simp
qed (simp add: cache_ok_def)

text \<open>
  C25. The cache of decompressed kernels cannot be seen: after any extractions, extracting an image
  gives what decompressing it gives, as long as the payloads met have different hashes, and at most four images are kept.
\<close>

theorem arm_image_cache_transparent:
  assumes "cache_run gz sum256 S c" "inj_on sum256 S" "drop (CompressedOffset p) file \<in> S" "NeedsDecompression p" "CompressedOffset p \<le> length file"
  shows "fst (ExtractImage gz sum256 file p c) =
      (case gz (drop (CompressedOffset p) file) of None \<Rightarrow> Inl GzipOpen | Some (data, ok) \<Rightarrow> if ok then Inr data else Inl GzipCorrupt)
    \<and> length (cacheOrder c) \<le> 4"
proof -
  have ok: "cache_ok gz sum256 S c" using cache_run_ok assms(1) .
  have "gz (drop (CompressedOffset p) file) = Some (data, True)"
    if "cacheEntries c key = Some data" "ksum key = sum256 (drop (CompressedOffset p) file)" for key data
  proof -
    obtain z where z: "z \<in> S" "ksum key = sum256 z" "gz z = Some (data, True)" using ok \<open>cacheEntries c key = Some data\<close> unfolding cache_ok_def by blast
    then have "z = drop (CompressedOffset p) file" using inj_onD [OF assms(2), of z] assms(3) \<open>ksum key = sum256 (drop (CompressedOffset p) file)\<close> by simp
    then show ?thesis using z(3) by simp
  qed
  then show ?thesis using ok assms(4,5)
    by (auto simp: ExtractImage_def readCompressedPayload_def cachedExtractedImage_def Let_def cache_ok_def maxCachedImages_def split: option.splits)
qed

definition demo_probe :: "nat \<Rightarrow> ImageProbe" where
  "demo_probe off = \<lparr>Header = \<lparr>Code0 = 0, Code1 = 0, TextOffset = 0, ImageSize = 0, KFlags = 0, Res2 = 0, Res3 = 0, Res4 = 0,
     Magic = 0x644d5241, Res5 = 0\<rparr>, NeedsDecompression = True, CompressedOffset = off\<rparr>"

theorem arm_image_cache_transparent_witness:
  "\<exists>c. c = snd (ExtractImage (\<lambda>z. Some (tl z, True)) (take 1) [9, 4, 5] (demo_probe 1) \<lparr>cacheEntries = Map.empty, cacheOrder = []\<rparr>)
     \<and> length (cacheOrder c) = 1 \<and> fst (ExtractImage (\<lambda>z. Some (tl z, True)) (take 1) [9, 4, 5] (demo_probe 1) c) = Inr [5]"
proof -
  let ?gz = "\<lambda>z :: bytes. Some (tl z, True)" and ?c = "snd (ExtractImage (\<lambda>z. Some (tl z, True)) (take 1) [9, 4, 5] (demo_probe 1) \<lparr>cacheEntries = Map.empty, cacheOrder = []\<rparr>)"
  have "cache_run ?gz (take 1) {[4, 5]} ?c"
    by (rule cache_run.extraction [OF cache_run.empty _ prod.collapse [symmetric]]) (simp add: demo_probe_def)
  then have "fst (ExtractImage ?gz (take 1) [9, 4, 5] (demo_probe 1) ?c) = Inr [5]"
    using arm_image_cache_transparent [of ?gz "take 1" "{[4, 5]}" ?c "demo_probe 1" "[9, 4, 5]"] by (simp add: demo_probe_def)
  moreover have "length (cacheOrder ?c) = 1" by code_simp
  ultimately show ?thesis by blast
qed

section \<open>Placement\<close>

lemma rounds_up:
  assumes "unat v + 2 ^ k \<le> 2 ^ 64" "k < 64"
  shows "2 ^ k dvd unat (alignUp v (2 ^ k))" "unat v \<le> unat (alignUp v (2 ^ k))" "unat (alignUp v (2 ^ k)) < unat v + 2 ^ k"
proof -
  have "(2 ^ k :: u64) \<noteq> 0" using assms(2) by simp
  then have "alignUp v (2 ^ k) = (v + mask k) AND NOT (mask k)" by (simp add: alignUp_def mask_eq_exp_minus_1)
  then show "2 ^ k dvd unat (alignUp v (2 ^ k))" "unat v \<le> unat (alignUp v (2 ^ k))" "unat (alignUp v (2 ^ k)) < unat v + 2 ^ k"
    using round_up [OF assms(2,1)] by simp_all
qed

lemma rounds_down: "unat (alignDown v 16) \<le> unat v"
proof -
  have "alignDown v 16 = v AND NOT (mask 4)" by (simp add: alignDown_def mask_eq_exp_minus_1)
  then show ?thesis using unat_clear_low [of v 4] by (simp add: div_times_less_eq_dividend)
qed

text \<open>A copy that does not panic: the data is at its offset, and everything outside is kept.\<close>

lemma copy_in_exact:
  assumes "copy_in memory off data = Inr m" "length data < 2 ^ 63"
  shows "unat off + length data \<le> length memory" "m = overwrite memory (unat off) data" "length m = length memory"
proof -
  obtain ys where y: "go_slice memory off (off + of_nat (length data)) = Inr ys" "m = overwrite memory (unat off) data"
    using assms(1) by (auto simp: copy_in_def split: sum.splits)
  from go_slice_span(1) [OF y(1) assms(2)] show "unat off + length data \<le> length memory" .
  with y(2) show "m = overwrite memory (unat off) data" "length m = length memory" by simp_all
qed

lemma place_initrd_exact:
  assumes "place_initrd opts after memory = Inr (addr, m)" "OptInitrdGPA opts = 0" "Initrd opts \<noteq> []"
    "length (Initrd opts) < 2 ^ 62" "unat after < 2 ^ 62" "MemoryBase opts \<le> after"
  shows "2 ^ 12 dvd unat addr" "unat after \<le> unat addr" "unat addr - unat (MemoryBase opts) + length (Initrd opts) \<le> length memory"
    "m = overwrite memory (unat addr - unat (MemoryBase opts)) (Initrd opts)"
proof -
  have a: "addr = alignUp after (2 ^ 12)" "MemoryBase opts \<le> addr" "copy_in memory (addr - MemoryBase opts) (Initrd opts) = Inr m"
    using assms(1-3) by (auto simp: place_initrd_def Let_def not_less split: if_splits sum.splits)
  have r: "unat after + 2 ^ 12 \<le> 2 ^ 64" using assms(5) by simp
  show "2 ^ 12 dvd unat addr" "unat after \<le> unat addr" unfolding a(1) using rounds_up [OF r] by simp_all
  have o: "unat (addr - MemoryBase opts) = unat addr - unat (MemoryBase opts)" using a(2) by (rule unat_minus_le)
  have l: "length (Initrd opts) < 2 ^ 63" using assms(4) by simp
  show "unat addr - unat (MemoryBase opts) + length (Initrd opts) \<le> length memory"
    "m = overwrite memory (unat addr - unat (MemoryBase opts)) (Initrd opts)"
    using copy_in_exact [OF a(3) l] unfolding o by simp_all
qed

lemma place_tree_exact:
  assumes "place_tree opts dtbStart dtb memory = Inr (addr, stk, m)" "length dtb < 2 ^ 32" "unat dtbStart < 2 ^ 62" "MemoryBase opts \<le> dtbStart"
  shows "8 dvd unat addr" "unat dtbStart \<le> unat addr" "unat addr - unat (MemoryBase opts) + length dtb \<le> length memory"
    "m = overwrite memory (unat addr - unat (MemoryBase opts)) dtb" "unat addr + length dtb + 0x2000 < unat stk"
proof -
  have a: "addr = alignUp dtbStart (2 ^ 3)" "copy_in memory (addr - MemoryBase opts) dtb = Inr m" "addr + of_nat (length dtb) + 0x2000 < stk"
    using assms(1) by (auto simp: place_tree_def Let_def not_le split: if_splits sum.splits)
  have "unat dtbStart + 2 ^ 3 \<le> 2 ^ 64" using assms(3) by simp
  note r = rounds_up [OF this]
  show "8 dvd unat addr" "unat dtbStart \<le> unat addr" unfolding a(1) using r by simp_all
  have "unat addr < 2 ^ 62 + 8" unfolding a(1) using r(3) assms(3) by simp
  then have e: "unat (addr + of_nat (length dtb) + 0x2000) = unat addr + length dtb + 0x2000"
    using assms(2) by (simp add: unat_word_ariths unat_of_nat take_bit_nat_eq_self)
  show "unat addr + length dtb + 0x2000 < unat stk" using a(3) unfolding word_less_nat_alt e .
  have "MemoryBase opts \<le> addr" using assms(4) \<open>unat dtbStart \<le> unat addr\<close> by (simp add: word_le_nat_alt)
  then have o: "unat (addr - MemoryBase opts) = unat addr - unat (MemoryBase opts)" by (rule unat_minus_le)
  have l: "length dtb < 2 ^ 63" using assms(2) by simp
  show "unat addr - unat (MemoryBase opts) + length dtb \<le> length memory" "m = overwrite memory (unat addr - unat (MemoryBase opts)) dtb"
    using copy_in_exact [OF a(2) l] unfolding o by simp_all
qed

lemma place_all_steps:
  assumes "place_all img opts h memory = Inr (plan, m3)"
  obtains m1 m2 where "EntryGPA plan = KernelGPA plan" "KernelBytes plan = img" "MemoryBase opts \<le> KernelGPA plan"
    "KernelGPA plan - MemoryBase opts + max (of_nat (length img)) (ImageSize h) \<le> of_nat (length memory)"
    "copy_in memory (KernelGPA plan - MemoryBase opts) img = Inr m1"
    "place_initrd opts (KernelGPA plan + max (of_nat (length img)) (ImageSize h)) m1 = Inr (InitrdGPA plan, m2)"
    "buildDeviceTree (tree_config opts (InitrdGPA plan)) = Inr (DeviceTree plan)"
    "place_tree opts (if Initrd opts \<noteq> [] then InitrdGPA plan + of_nat (length (Initrd opts))
       else KernelGPA plan + max (of_nat (length img)) (ImageSize h)) (DeviceTree plan) m2 = Inr (DeviceTreeGPA plan, StackTopGPA plan, m3)"
  using assms unfolding place_all_def EntryPoint_def Let_def
  by (auto simp: not_less split: if_splits sum.splits prod.splits)

text \<open>
  Everything lies where the plan says, in this order and apart: the kernel with the room it asks for,
  the ramdisk on a page of its own, the device tree, and the stack above a guard.
\<close>

definition laid_out :: "BootOptions \<Rightarrow> KernelHeader \<Rightarrow> BootPlan \<Rightarrow> bytes \<Rightarrow> bool" where
  "laid_out opts h plan memory \<longleftrightarrow>
     (let at = (\<lambda>a. unat a - unat (MemoryBase opts));
          kernel_end = unat (KernelGPA plan) + max (length (KernelBytes plan)) (unat (ImageSize h));
          tree_start = (if Initrd opts = [] then kernel_end else unat (InitrdGPA plan) + length (Initrd opts)) in
      MemoryBase opts \<le> KernelGPA plan \<and> EntryGPA plan = KernelGPA plan
      \<and> region memory (at (KernelGPA plan)) (length (KernelBytes plan)) = KernelBytes plan
      \<and> (Initrd opts = [] \<or> kernel_end \<le> unat (InitrdGPA plan) \<and> 4096 dvd unat (InitrdGPA plan)
           \<and> region memory (at (InitrdGPA plan)) (length (Initrd opts)) = Initrd opts)
      \<and> tree_start \<le> unat (DeviceTreeGPA plan) \<and> 8 dvd unat (DeviceTreeGPA plan)
      \<and> region memory (at (DeviceTreeGPA plan)) (length (DeviceTree plan)) = DeviceTree plan
      \<and> unat (DeviceTreeGPA plan) + length (DeviceTree plan) + 0x2000 < unat (StackTopGPA plan))"

lemma kernel_step:
  assumes "MemoryBase opts \<le> k" "k - MemoryBase opts + max (of_nat (length img)) (ImageSize h) \<le> of_nat (length memory)"
    "copy_in memory (k - MemoryBase opts) img = Inr m"
    "unat (MemoryBase opts) + length memory < 2 ^ 61" "length img < 2 ^ 61" "unat (ImageSize h) < 2 ^ 61"
  shows "region m (unat k - unat (MemoryBase opts)) (length img) = img" "length m = length memory"
    "unat (k + max (of_nat (length img)) (ImageSize h)) = unat k + max (length img) (unat (ImageSize h))"
    "unat (k + max (of_nat (length img)) (ImageSize h)) < 2 ^ 62" "MemoryBase opts \<le> k + max (of_nat (length img)) (ImageSize h)"
proof -
  let ?b = "MemoryBase opts" and ?r = "max (of_nat (length img)) (ImageSize h)" and ?reserve = "max (length img) (unat (ImageSize h))"
  have r: "unat ?r = ?reserve" using assms(5,6) by (simp add: max_def word_le_nat_alt unat_of_nat take_bit_nat_eq_self)
  have o: "unat (k - ?b) = unat k - unat ?b" using assms(1) by (rule unat_minus_le)
  have l: "length img < 2 ^ 63" using assms(5) by simp
  note c = copy_in_exact [OF assms(3) l, unfolded o]
  show "region m (unat k - unat ?b) (length img) = img" "length m = length memory" using region_overwrite(1) [OF c(1)] c(2,3) by simp_all
  have k: "unat k \<le> unat ?b + length memory" using c(1) assms(1) by (simp add: word_le_nat_alt)
  have "unat (k - ?b + ?r) = unat k - unat ?b + ?reserve" using k assms(4-6) by (subst unat_add_lt) (simp_all add: o r)
  then have fits: "unat k - unat ?b + ?reserve \<le> length memory" using assms(2,4) by (simp add: word_le_nat_alt unat_of_nat take_bit_nat_eq_self)
  show e: "unat (k + ?r) = unat k + ?reserve" using k assms(4-6) by (subst unat_add_lt) (simp_all add: r)
  show "unat (k + ?r) < 2 ^ 62" "?b \<le> k + ?r" using e fits assms(1,4) by (simp_all add: word_le_nat_alt)
qed

lemma place_all_exact:
  assumes "place_all img opts h memory = Inr (plan, m3)" "OptInitrdGPA opts = 0"
    "unat (MemoryBase opts) + length memory < 2 ^ 61" "length img < 2 ^ 61" "length (Initrd opts) < 2 ^ 61" "unat (ImageSize h) < 2 ^ 61"
    "length (DeviceTree plan) < 2 ^ 32"
  shows "laid_out opts h plan m3 \<and> length m3 = length memory"
proof -
  let ?k = "KernelGPA plan" and ?b = "MemoryBase opts" and ?r = "max (of_nat (length img)) (ImageSize h)"
  let ?at = "\<lambda>a. unat a - unat (MemoryBase opts)" and ?i = "InitrdGPA plan" and ?d = "DeviceTreeGPA plan" and ?t = "DeviceTree plan"
  obtain m1 m2 where s: "EntryGPA plan = ?k" "KernelBytes plan = img" "?b \<le> ?k" "?k - ?b + ?r \<le> of_nat (length memory)"
    "copy_in memory (?k - ?b) img = Inr m1" "place_initrd opts (?k + ?r) m1 = Inr (?i, m2)"
    "place_tree opts (if Initrd opts \<noteq> [] then ?i + of_nat (length (Initrd opts)) else ?k + ?r) ?t m2 = Inr (?d, StackTopGPA plan, m3)"
    using assms(1) by (rule place_all_steps)
  note c = kernel_step [OF s(3-5) assms(3,4,6)]
  show ?thesis
  proof (cases "Initrd opts = []")
    case True
    then have "m2 = m1" using s(6) by (simp add: place_initrd_def)
    note t = place_tree_exact [OF s(7) [unfolded True this, simplified] assms(7) c(4,5), unfolded c(3)]
    have "?at ?k + length img \<le> ?at ?d" using t(2) s(3) by (simp add: word_le_nat_alt)
    then have "region m3 (?at ?k) (length img) = img" using region_overwrite(2) [OF t(3)] t(4) c(1) by simp
    moreover have "region m3 (?at ?d) (length ?t) = ?t" using region_overwrite(1) [OF t(3)] t(4) by simp
    moreover have "length m3 = length memory" using t(3,4) c(2) by simp
    ultimately show ?thesis using True s(1-3) t(1,2,5) by (simp add: laid_out_def Let_def)
  next
    case False
    have il: "length (Initrd opts) < 2 ^ 62" using assms(5) by simp
    note i = place_initrd_exact [OF s(6) assms(2) False il c(4,5), unfolded c(3)]
    have ib: "unat ?b \<le> unat ?i" using i(2) s(3) by (simp add: word_le_nat_alt)
    have iu: "unat ?i + length (Initrd opts) \<le> unat ?b + length memory" using i(3) ib c(2) by simp
    then have ia: "unat (?i + of_nat (length (Initrd opts))) = unat ?i + length (Initrd opts)"
      using assms(3,5) by (subst unat_add_lt) (simp_all add: unat_of_nat take_bit_nat_eq_self)
    then have il2: "unat (?i + of_nat (length (Initrd opts))) < 2 ^ 62" "?b \<le> ?i + of_nat (length (Initrd opts))"
      using iu assms(3) ib by (simp_all add: word_le_nat_alt)
    have s7: "place_tree opts (?i + of_nat (length (Initrd opts))) ?t m2 = Inr (?d, StackTopGPA plan, m3)" using s(7) False by simp
    note t = place_tree_exact [OF s7 assms(7) il2, unfolded ia]
    have ord: "?at ?k + length img \<le> ?at ?i" "?at ?i + length (Initrd opts) \<le> ?at ?d" "?at ?k + length img \<le> ?at ?d"
      using i(2) t(2) s(3) ib by (simp_all add: word_le_nat_alt)
    have "region m2 (?at ?k) (length img) = img" using region_overwrite(2) [OF i(3)] i(4) c(1) ord(1) by simp
    then have "region m3 (?at ?k) (length img) = img" using region_overwrite(2) [OF t(3)] t(4) ord(3) by simp
    moreover have "region m2 (?at ?i) (length (Initrd opts)) = Initrd opts" using region_overwrite(1) [OF i(3)] i(4) by simp
    then have "region m3 (?at ?i) (length (Initrd opts)) = Initrd opts" using region_overwrite(2) [OF t(3)] t(4) ord(2) by simp
    moreover have "region m3 (?at ?d) (length ?t) = ?t" using region_overwrite(1) [OF t(3)] t(4) by simp
    moreover have "length m3 = length memory" using t(3,4) i(3,4) c(2) by simp
    ultimately show ?thesis using False s(1-3) i(1,2) t(1,2,5) by (simp add: laid_out_def Let_def)
  qed
qed

section \<open>The device tree in memory\<close>

lemma name_ok_text [simp]:
  "name_ok (ascii s) \<longleftrightarrow> CHR 0x00 \<notin> set s" "name_ok (a @ b) \<longleftrightarrow> name_ok a \<and> name_ok b" "name_ok []"
  by (auto simp: name_ok_def ascii_def of_char_u8)

lemma digits_ok [simp]: "name_ok (hex_digits n)" "name_ok (dec_digits n)"
proof -
  show "name_ok (hex_digits n)"
    by (induction n rule: hex_digits.induct) (subst hex_digits.simps, auto simp: name_ok_def digit_ok dest: sym)
  show "name_ok (dec_digits n)"
    by (induction n rule: dec_digits.induct) (subst dec_digits.simps, auto simp: name_ok_def digit_ok dest: sym)
qed

lemma update_keys_ok:
  "distinct (map fst ps) \<Longrightarrow> distinct (map fst (AList.update k v ps))"
  "list_all (\<lambda>(k, p). name_ok k) ps \<Longrightarrow> name_ok k \<Longrightarrow> list_all (\<lambda>(k, p). name_ok k) (AList.update k v ps)"
proof -
  show "distinct (map fst ps) \<Longrightarrow> distinct (map fst (AList.update k v ps))" by (rule distinct_update)
  show "list_all (\<lambda>(k, p). name_ok k) ps \<Longrightarrow> name_ok k \<Longrightarrow> list_all (\<lambda>(k, p). name_ok k) (AList.update k v ps)"
    by (induction ps) auto
qed

lemma set_initrd_ok: "list_all tree_ok ns \<Longrightarrow> list_all tree_ok (set_initrd gpa len ns)"
proof (induction gpa len ns rule: set_initrd.induct)
  case (2 gpa len n ns)
  then show ?case by (cases n) (simp add: update_keys_ok)
qed simp

lemma device_tree_nodes_ok:
  "tree_ok (cpu_node cpu)" "tree_ok (serial_node u)" "tree_ok (chosen_node cfg)" "tree_ok (timer_node cfg)" "tree_ok (gic_node cfg)"
  by (auto simp: cpu_node_def serial_node_def chosen_node_def timer_node_def gic_node_def Let_def split: option.split)

lemma device_tree_ok: "list_all tree_ok (Extra cfg) \<Longrightarrow> tree_ok (device_tree cfg)"
proof -
  assume "list_all tree_ok (Extra cfg)"
  moreover have "list_all tree_ok (map cpu_node ns)" for ns by (simp add: list_all_iff device_tree_nodes_ok)
  moreover have "name_ok (Name (serial_node u))" for u by (simp add: serial_node_def)
  ultimately show ?thesis
    by (auto simp: device_tree_def Let_def device_tree_nodes_ok simp del: set_initrd.simps intro!: set_initrd_ok split: option.split)
qed


lemma copy_in_fits:
  assumes "unat off + length data \<le> length memory" "length memory < 2 ^ 63"
  shows "copy_in memory off data = Inr (overwrite memory (unat off) data)"
proof -
  have "unat (off + of_nat (length data)) = unat off + length data"
    using assms by (subst unat_add_lt) (simp_all add: unat_of_nat take_bit_nat_eq_self)
  then show ?thesis using assms by (simp add: copy_in_def go_slice_def word_le_nat_alt)
qed

definition demo_kernel :: bytes where
  "demo_kernel = replicate 56 0 @ [0x41, 0x52, 0x4d, 0x64] @ replicate 4 0"

definition demo_boot :: BootOptions where
  "demo_boot = \<lparr>MemoryBase = 0, OptMemorySize = 0x4000, Cmdline = [], NumCPUs = 0, GicVersion = GICVersionV3, OptUART = None, DisableUART = True,
     OptConsole = False, HyperVTimer = False, Initrd = [], OptInitrdGPA = 0, ExtraNodes = []\<rparr>"

lemma demo_boot_tree: "\<exists>dtb. buildDeviceTree (tree_config (demo_boot\<lparr>NumCPUs := 1\<rparr>) 0) = Inr dtb \<and> length dtb < 4000"
proof -
  let ?t = "device_tree (tree_config (demo_boot\<lparr>NumCPUs := 1\<rparr>) 0)"
  have ok: "tree_ok ?t" by (rule device_tree_ok) (simp add: tree_config_def demo_boot_def)
  note defs = device_tree_def tree_config_def demo_boot_def cpu_node_def chosen_node_def timer_node_def gic_node_def Let_def
  have "values_ok ?t" by (simp add: defs DefinedCount_def)
  then obtain dtb where d: "fdt_Build ?t = Inr dtb" using fdt_Build_succeeds ok by blast
  have "node_size ?t < 3000" by (simp add: defs ascii_def property_data_def Kind_def hex_digits.simps dec_digits.simps)
  then show ?thesis using d blob_size [OF d ok] by (auto simp: buildDeviceTree_def)
qed


end
