(* ===== verification/BootAmd.thy ===== *)
theory BootAmd
  imports Prelude
begin

text \<open>
  Booting a Linux kernel on amd64 (\<^verbatim>\<open>internal/core/linux/boot/amd64\<close>): the setup header of a bzImage, the
  ACPI tables and the multiprocessor table, the zero page, and the placement of everything in guest
  memory. Offsets into the zero page are those of \<^verbatim>\<open>offsets.go\<close>.
\<close>

datatype bzerr =
    BzEmptyMemory | BzEmptyKernel | TooSmall | NoSignature | HeaderPastEnd | HeaderLength | No64BitEntry | PayloadPastEnd
  | BelowBase u64 | OutsideMemory u64 nat | NoInitrdSpace u64 | HeaderLarge | CmdlineLong nat | NoE820 | TooManyE820 nat | NoStackSpace
  | BzPanic goerr

section \<open>bzImage\<close>

record SetupHeader =
  ProtocolVersion :: u16
  SetupSectors :: u8
  LoadFlags :: u8
  InitrdAddrMax :: u32
  KernelAlignment :: u32
  RelocatableKernel :: u8
  MinAlignment :: u8
  XLoadFlags :: u16
  CmdlineSize :: u32
  PrefAddress :: u64
  InitSize :: u32

record KernelImage =
  Data :: bytes
  SHeader :: SetupHeader
  HeaderBytes :: bytes
  PayloadOffset :: nat

definition setupHeaderOffset :: nat where "setupHeaderOffset = 497"

abbreviation (input) rd :: "nat \<Rightarrow> nat \<Rightarrow> bytes \<Rightarrow> 'a::len word" where
  "rd n off data \<equiv> le_word (take n (drop off data))"

text \<open>The last field read is at 608 to 611; an image that ends before it makes the reads panic.\<close>

definition parseHeader :: "bytes \<Rightarrow> bzerr + KernelImage" where
  "parseHeader data =
     (if length data < 0x202 + 4 then Inl TooSmall
      else if take 4 (drop 0x202 data) \<noteq> ascii ''HdrS'' then Inl NoSignature
      else let headerEnd = 0x202 + unat (data ! 0x201) in
        if length data < headerEnd then Inl HeaderPastEnd
        else if headerEnd \<le> setupHeaderOffset then Inl HeaderLength
        else if length data < 612 then Inl (BzPanic (Panic IndexRange))
        else
          let hdr = \<lparr>ProtocolVersion = rd 2 518 data, SetupSectors = (if data ! 497 = 0 then 4 else data ! 497), LoadFlags = data ! 529,
                InitrdAddrMax = rd 4 556 data, KernelAlignment = rd 4 560 data, RelocatableKernel = data ! 564, MinAlignment = data ! 565,
                XLoadFlags = rd 2 566 data, CmdlineSize = rd 4 568 data, PrefAddress = rd 8 600 data, InitSize = rd 4 608 data\<rparr>;
              payloadOffset = 512 * (1 + unat (SetupSectors hdr)) in
          if XLoadFlags hdr AND 1 = 0 then Inl No64BitEntry
          else if length data < payloadOffset then Inl PayloadPastEnd
          else Inr \<lparr>Data = data, SHeader = hdr, HeaderBytes = take (headerEnd - setupHeaderOffset) (drop setupHeaderOffset data),
                 PayloadOffset = payloadOffset\<rparr>)"

definition LoadBzImage :: "bytes \<Rightarrow> bzerr + KernelImage" where
  "LoadBzImage file = (if file = [] then Inl BzEmptyKernel else parseHeader file)"

definition Payload :: "KernelImage \<Rightarrow> bytes" where
  "Payload k = (if length (Data k) < PayloadOffset k then [] else drop (PayloadOffset k) (Data k))"

definition DefaultLoadAddress :: "KernelImage \<Rightarrow> u64" where
  "DefaultLoadAddress k =
     (if PrefAddress (SHeader k) \<noteq> 0 then PrefAddress (SHeader k)
      else if LoadFlags (SHeader k) AND 1 \<noteq> 0 then 0x00100000 else 0x00010000)"

definition bz_EntryPoint :: "u64 \<Rightarrow> u64" where
  "bz_EntryPoint loadAddr = loadAddr + 0x200"

section \<open>Memory\<close>

definition bz_alignUp :: "u64 \<Rightarrow> u64 \<Rightarrow> u64" where
  "bz_alignUp v align = (if align = 0 then v else (v + align - 1) AND NOT (align - 1))"

definition bz_alignDown :: "u64 \<Rightarrow> u64 \<Rightarrow> u64" where
  "bz_alignDown v align = (if align = 0 then v else v AND NOT (align - 1))"

definition writeAt :: "bytes \<Rightarrow> u64 \<Rightarrow> u64 \<Rightarrow> bytes \<Rightarrow> bzerr + bytes" where
  "writeAt memory memStart gpa data =
     (if gpa < memStart then Inl (BelowBase gpa)
      else let off = gpa - memStart in
        if of_nat (length memory) < off + of_nat (length data) then Inl (OutsideMemory gpa (length data))
        else case go_slice memory off (off + of_nat (length data)) of
          Inl e \<Rightarrow> Inl (BzPanic e)
        | Inr _ \<Rightarrow> Inr (overwrite memory (unat off) data))"

definition clearAndWrite :: "bytes \<Rightarrow> u64 \<Rightarrow> u64 \<Rightarrow> nat \<Rightarrow> bytes \<Rightarrow> bzerr + bytes" where
  "clearAndWrite memory memStart gpa clearLen data =
     (if 0 < clearLen
      then case writeAt memory memStart gpa (replicate clearLen 0) of Inl e \<Rightarrow> Inl e | Inr m \<Rightarrow> writeAt m memStart gpa data
      else writeAt memory memStart gpa data)"

definition checksum8 :: "bytes \<Rightarrow> u8" where
  "checksum8 buf = - foldl (+) 0 buf"

section \<open>ACPI tables\<close>

definition acpiFixedString :: "bytes \<Rightarrow> nat \<Rightarrow> bytes" where
  "acpiFixedString v n = take n v @ replicate (n - length v) 32"

definition buildACPITable :: "string \<Rightarrow> u8 \<Rightarrow> string \<Rightarrow> bytes \<Rightarrow> bytes" where
  "buildACPITable signature revision tableID body =
     (let table = acpiFixedString (ascii signature) 4 @ le_bytes 4 (of_nat (36 + length body) :: u32) @ [revision, 0]
            @ acpiFixedString (ascii ''CCKVM '') 6 @ acpiFixedString (ascii tableID) 8 @ le_bytes 4 (1 :: u32)
            @ acpiFixedString (ascii ''CC  '') 4 @ le_bytes 4 (1 :: u32) @ body in
      table[9 := checksum8 table])"

definition pad16 :: "bytes \<Rightarrow> bytes" where
  "pad16 data = data @ replicate ((16 - length data mod 16) mod 16) 0"

text \<open>The writer's data so far; its base is \<open>0xe1000\<close>.\<close>

definition appendRaw :: "bytes \<Rightarrow> bytes \<Rightarrow> u64 \<times> bytes" where
  "appendRaw table data = (0xe1000 + of_nat (length data), pad16 (data @ table))"

definition acpi_append :: "string \<Rightarrow> u8 \<Rightarrow> string \<Rightarrow> bytes \<Rightarrow> bytes \<Rightarrow> u64 \<times> bytes" where
  "acpi_append signature revision tableID body data =
     (0xe1000 + of_nat (length data), pad16 (data @ buildACPITable signature revision tableID body))"

definition buildBootDSDT :: bytes where
  "buildBootDSDT = [0x08, 0x5f, 0x53, 0x35, 0x5f, 0x12, 0x08, 0x04, 0x0a, 0x05, 0x0a, 0x05, 0x00, 0x00]"

definition buildBootXSDT :: "u64 list \<Rightarrow> bytes" where
  "buildBootXSDT entries = concat (map (le_bytes 8) entries)"

definition appendMADTInterruptOverride :: "bytes \<Rightarrow> u8 \<Rightarrow> u32 \<Rightarrow> u16 \<Rightarrow> bytes" where
  "appendMADTInterruptOverride body irq gsi flags = body @ [2, 10, 0, irq] @ le_bytes 4 gsi @ le_bytes 2 flags"

definition appendMADTLocalAPICNMI :: "bytes \<Rightarrow> bytes" where
  "appendMADTLocalAPICNMI body = body @ [4, 6, 0xff] @ le_bytes 2 (0 :: u16) @ [1]"

definition buildBootMADT :: "nat \<Rightarrow> bytes" where
  "buildBootMADT numCPUs =
     (let cpus = concat (map (\<lambda>cpu. [0, 8, of_nat cpu, of_nat cpu] @ le_bytes 4 (1 :: u32)) [0..<min numCPUs 255]);
          body = le_bytes 4 (0xfee00000 :: u32) @ le_bytes 4 (1 :: u32) @ cpus
            @ [1, 12, 0, 0] @ le_bytes 4 (0xfec00000 :: u32) @ le_bytes 4 (0 :: u32) in
      appendMADTLocalAPICNMI (appendMADTInterruptOverride body 0 2 0))"

definition buildBootHPET :: bytes where
  "buildBootHPET =
     le_bytes 4 (((1 OR push_bit 8 2) OR push_bit 13 1) OR push_bit 16 0x8086 :: u32) @ [0, 64, 0, 0] @ le_bytes 8 (0xfed00000 :: u64)
     @ [0] @ le_bytes 2 (0x0080 :: u16) @ [0]"

definition buildBootFACS :: bytes where
  "buildBootFACS = ascii ''FACS'' @ le_bytes 4 (64 :: u32) @ le_bytes 4 (1 :: u32) @ replicate 52 0"

definition buildBootFADT :: "u64 \<Rightarrow> u64 \<Rightarrow> bytes" where
  "buildBootFADT facs dsdt =
     le_bytes 4 (ucast facs :: u32) @ le_bytes 4 (ucast dsdt :: u32) @ [0, 0] @ le_bytes 2 (9 :: u16) @ replicate 8 0
     @ le_bytes 4 (0x400 :: u32) @ replicate 4 0 @ le_bytes 4 (0x404 :: u32) @ replicate 20 0 @ [4, 2] @ replicate 22 0
     @ le_bytes 4 (1 :: u32) @ replicate 16 0 @ le_bytes 8 facs @ le_bytes 8 dsdt @ replicate 128 0"

definition buildBootRSDP :: "u64 \<Rightarrow> bytes" where
  "buildBootRSDP xsdt =
     (let rsdp = ascii ''RSD PTR '' @ [0] @ ascii ''CCKVM '' @ [2] @ replicate 4 0 @ le_bytes 4 (36 :: u32) @ le_bytes 8 xsdt @ replicate 4 0;
          rsdp1 = rsdp[8 := checksum8 (take 20 rsdp)] in
      rsdp1[32 := checksum8 rsdp1])"

definition acpi_tables :: "nat \<Rightarrow> u64 \<times> bytes" where
  "acpi_tables numCPUs =
     (case appendRaw buildBootFACS [] of (facs, d1) \<Rightarrow>
      case acpi_append ''DSDT'' 2 ''CCKVMDSD'' buildBootDSDT d1 of (dsdt, d2) \<Rightarrow>
      case acpi_append ''FACP'' 6 ''CCKVMFAD'' (buildBootFADT facs dsdt) d2 of (fadt, d3) \<Rightarrow>
      case acpi_append ''APIC'' 3 ''CCKVMAPC'' (buildBootMADT numCPUs) d3 of (madt, d4) \<Rightarrow>
      case acpi_append ''HPET'' 1 ''CCKVMHPT'' buildBootHPET d4 of (hpet, d5) \<Rightarrow>
      acpi_append ''XSDT'' 1 ''CCKVMXSD'' (buildBootXSDT [fadt, madt, hpet]) d5)"

definition installBootACPI :: "bytes \<Rightarrow> u64 \<Rightarrow> nat \<Rightarrow> bzerr + (u64 \<times> bytes)" where
  "installBootACPI memory memStart numCPUs0 =
     (let numCPUs = max numCPUs0 1 in
      case acpi_tables numCPUs of (xsdt, data) \<Rightarrow>
        (case writeAt memory memStart 0xe1000 data of Inl e \<Rightarrow> Inl e
         | Inr m1 \<Rightarrow>
             (case writeAt m1 memStart 0xe0000 (buildBootRSDP xsdt) of Inl e \<Rightarrow> Inl e | Inr m2 \<Rightarrow> Inr (0xe0000, m2))))"

section \<open>The multiprocessor table\<close>

definition mp_table :: "nat \<Rightarrow> bytes" where
  "mp_table n =
     (let flags = (if 1 < n then 0x201 OR push_bit 28 1 else 0x201 :: u32);
          cpus = concat (map (\<lambda>cpu. [0, of_nat cpu, 0x14, if cpu = 0 then 3 else 1] @ le_bytes 4 (0x600 :: u32) @ le_bytes 4 flags
            @ replicate 8 0) [0..<n]);
          table = ascii ''PCMP'' @ le_bytes 2 (of_nat (44 + n * 20 + 8 + 8 + 16 * 8 + 2 * 8) :: u16) @ [4, 0] @ ascii ''CC      '' @ ascii ''CC SMP      ''
            @ replicate 6 0 @ le_bytes 2 (of_nat (n + 1 + 1 + 16 + 2) :: u16) @ le_bytes 4 (0xfee00000 :: u32) @ replicate 4 0
            @ cpus @ [1, 0] @ ascii ''ISA   '' @ [2, of_nat n, 0x11, 1] @ le_bytes 4 (0xfec00000 :: u32)
            @ concat (map (\<lambda>irq. [3, 0, 0, 0, 0, of_nat irq, of_nat n, of_nat irq]) [0..<16])
            @ concat (map (\<lambda>lint. [4, of_nat lint, 0, 0, 0, 0, 0xff, of_nat lint]) [0..<2]) in
      table[7 := checksum8 table])"

definition mp_pointer :: bytes where
  "mp_pointer = (let fp = ascii ''_MP_'' @ le_bytes 4 (0xf0100 :: u32) @ [1, 4, 0] @ replicate 5 0 in fp[10 := checksum8 fp])"

definition writeMPTable :: "bytes \<Rightarrow> u64 \<Rightarrow> nat \<Rightarrow> bzerr + bytes" where
  "writeMPTable memory memStart numCPUs =
     (case writeAt memory memStart 0xf0100 (mp_table (min (max numCPUs 1) 255)) of Inl e \<Rightarrow> Inl e
      | Inr m \<Rightarrow> writeAt m memStart 0xf0000 mp_pointer)"

section \<open>The zero page\<close>

record E820Entry =
  EAddr :: u64
  ESize :: u64
  EType :: u32

definition DefaultE820Map :: "u64 \<Rightarrow> u64 \<Rightarrow> E820Entry list" where
  "DefaultE820Map memStart memEnd =
     (if memEnd \<le> memStart then []
      else let lowEnd = min memEnd 0x9f000; resEnd = min memEnd 0x100000 in
        (if memStart < lowEnd then [\<lparr>EAddr = memStart, ESize = lowEnd - memStart, EType = 1\<rparr>] else [])
        @ (if 0x9f000 < memEnd \<and> 0x9f000 < resEnd then [\<lparr>EAddr = 0x9f000, ESize = resEnd - 0x9f000, EType = 2\<rparr>] else [])
        @ (if 0x100000 < memEnd then [\<lparr>EAddr = 0x100000, ESize = memEnd - 0x100000, EType = 1\<rparr>] else []))"

definition trim_zeros :: "bytes \<Rightarrow> bytes" where
  "trim_zeros cmdline = rev (dropWhile (\<lambda>c. c = 0) (rev cmdline))"

text \<open>The fields set before the memory map, as pairs of an offset and the bytes stored there, in the order of the stores.\<close>

definition zero_page_fields :: "KernelImage \<Rightarrow> u64 \<Rightarrow> u64 \<Rightarrow> u64 \<Rightarrow> u32 \<Rightarrow> u64 \<Rightarrow> (nat \<times> bytes) list" where
  "zero_page_fields k loadAddr cmdlineGPA initrdGPA initrdSize acpiRSDP =
     (let h = SHeader k in
      [(497, HeaderBytes k), (510, le_bytes 2 (0xaa55 :: u16)), (514, ascii ''HdrS''), (518, le_bytes 2 (ProtocolVersion h)), (528, [0xff]),
       (529, [LoadFlags h OR 0x80]), (548, le_bytes 2 (0xe000 - 0x200 :: u16)), (532, le_bytes 4 (ucast loadAddr :: u32)),
       (552, le_bytes 4 (ucast cmdlineGPA :: u32)), (200, le_bytes 4 (ucast (drop_bit 32 cmdlineGPA) :: u32)), (112, le_bytes 8 acpiRSDP),
       (556, le_bytes 4 (InitrdAddrMax h)), (560, le_bytes 4 (KernelAlignment h)), (564, [RelocatableKernel h]), (565, [MinAlignment h]),
       (566, le_bytes 2 (XLoadFlags h)), (568, le_bytes 4 (CmdlineSize h)), (600, le_bytes 8 (PrefAddress h)), (608, le_bytes 4 (InitSize h))]
      @ (if 0 < initrdSize
         then [(536, le_bytes 4 (ucast initrdGPA :: u32)), (540, le_bytes 4 initrdSize), (192, le_bytes 4 (ucast (drop_bit 32 initrdGPA) :: u32))]
         else []))"

definition store_all :: "(nat \<times> bytes) list \<Rightarrow> bytes \<Rightarrow> bytes" where
  "store_all stores page = fold (\<lambda>(off, data) p. overwrite p off data) stores page"

definition e820_fields :: "E820Entry list \<Rightarrow> (nat \<times> bytes) list" where
  "e820_fields es =
     (488, [of_nat (length es)]) # map (\<lambda>(i, e). (720 + i * 20, le_bytes 8 (EAddr e) @ le_bytes 8 (ESize e) @ le_bytes 4 (EType e)))
       (zip [0..<length es] es)"

definition buildZeroPage :: "KernelImage \<Rightarrow> bytes \<Rightarrow> u64 \<Rightarrow> u64 \<Rightarrow> bytes \<Rightarrow> u64 \<Rightarrow> u64 \<Rightarrow> u32 \<Rightarrow> u64 \<Rightarrow> u64 \<Rightarrow> E820Entry list \<Rightarrow> bzerr + bytes" where
  "buildZeroPage k memory memStart loadAddr cmdline cmdlineGPA initrdGPA initrdSize zeroPageGPA acpiRSDP e820 =
     (if 4096 - setupHeaderOffset < length (HeaderBytes k) then Inl HeaderLarge
      else let zp = store_all (zero_page_fields k loadAddr cmdlineGPA initrdGPA initrdSize acpiRSDP) (replicate 4096 0) in
        if CmdlineSize (SHeader k) \<noteq> 0 \<and> unat (CmdlineSize (SHeader k)) < length cmdline then Inl (CmdlineLong (length cmdline))
        else case writeAt memory memStart cmdlineGPA (trim_zeros cmdline @ [0]) of Inl e \<Rightarrow> Inl e
        | Inr m \<Rightarrow>
            if e820 = [] then Inl NoE820
            else if 128 < length e820 then Inl (TooManyE820 (length e820))
            else writeAt m memStart zeroPageGPA (store_all (e820_fields e820) zp))"

section \<open>The boot plan\<close>

record BzOptions =
  BzMemoryBase :: u64
  BzMemorySize :: u64
  BzNumCPUs :: int
  BzCmdline :: bytes
  BzLoadAddr :: u64
  BzInitrd :: bytes
  BzInitrdGPA :: u64
  BzZeroPageGPA :: u64
  BzCmdlineGPA :: u64
  BzStackTopGPA :: u64
  BzPagingBase :: u64
  BzE820 :: "E820Entry list"

record BzPlan =
  LoadAddr :: u64
  PEntryGPA :: u64
  ZeroPageGPA :: u64
  PStackTopGPA :: u64
  PagingBase :: u64

definition bz_defaults :: "bytes \<Rightarrow> BzOptions \<Rightarrow> BzOptions" where
  "bz_defaults memory opts =
     (let o1 = (if BzMemorySize opts = 0 then opts\<lparr>BzMemorySize := of_nat (length memory)\<rparr> else opts);
          o2 = (if BzNumCPUs o1 \<le> 0 then o1\<lparr>BzNumCPUs := 1\<rparr> else o1);
          o3 = (if BzZeroPageGPA o2 = 0 then o2\<lparr>BzZeroPageGPA := 0x90000\<rparr> else o2);
          o4 = (if BzCmdlineGPA o3 = 0 then o3\<lparr>BzCmdlineGPA := BzZeroPageGPA o3 + 4096\<rparr> else o3) in
      if BzPagingBase o4 = 0 then o4\<lparr>BzPagingBase := 0x20000\<rparr> else o4)"

definition load_address :: "KernelImage \<Rightarrow> BzOptions \<Rightarrow> u64" where
  "load_address k opts =
     (let a = (if BzLoadAddr opts = 0 then DefaultLoadAddress k else BzLoadAddr opts) in
      if RelocatableKernel (SHeader k) \<noteq> 0
      then bz_alignUp a (if KernelAlignment (SHeader k) = 0 then 0x200000 else ucast (KernelAlignment (SHeader k)))
      else a)"

definition initrd_address :: "KernelImage \<Rightarrow> BzOptions \<Rightarrow> bzerr + u64" where
  "initrd_address k opts =
     (if BzInitrdGPA opts \<noteq> 0 then Inr (BzInitrdGPA opts)
      else
        let memEnd = BzMemoryBase opts + BzMemorySize opts; mx = ucast (InitrdAddrMax (SHeader k)) :: u64;
            top0 = (if mx \<noteq> 0 \<and> mx + 1 < memEnd then mx + 1 else memEnd) in
        if top0 \<le> BzMemoryBase opts + of_nat (length (BzInitrd opts)) then Inl (NoInitrdSpace top0)
        else Inr (bz_alignDown (top0 - of_nat (length (BzInitrd opts))) 0x1000))"

definition bz_initrd :: "KernelImage \<Rightarrow> BzOptions \<Rightarrow> bytes \<Rightarrow> bzerr + (u64 \<times> bytes)" where
  "bz_initrd k opts memory =
     (if BzInitrd opts = [] then Inr (0, memory)
      else case initrd_address k opts of Inl e \<Rightarrow> Inl e
      | Inr a \<Rightarrow> (case writeAt memory (BzMemoryBase opts) a (BzInitrd opts) of Inl e \<Rightarrow> Inl e | Inr m \<Rightarrow> Inr (a, m)))"

definition bz_stack :: "BzOptions \<Rightarrow> u64 \<Rightarrow> bzerr + u64" where
  "bz_stack opts initrdAddr =
     (if BzStackTopGPA opts \<noteq> 0 then Inr (BzStackTopGPA opts)
      else let top0 = (if initrdAddr \<noteq> 0 then initrdAddr else BzMemoryBase opts + BzMemorySize opts) in
        if top0 \<le> BzMemoryBase opts + 0x2000 then Inl NoStackSpace else Inr (bz_alignDown (top0 - 0x1000) 0x10))"

definition memory_map :: "BzOptions \<Rightarrow> E820Entry list" where
  "memory_map opts =
     (if BzE820 opts = [] then DefaultE820Map (BzMemoryBase opts) (BzMemoryBase opts + BzMemorySize opts) else BzE820 opts)"

definition bz_multiprocessor :: "BzOptions \<Rightarrow> bytes \<Rightarrow> bzerr + bytes" where
  "bz_multiprocessor opts memory =
     (if 1 < BzNumCPUs opts then writeMPTable memory (BzMemoryBase opts) (nat (BzNumCPUs opts)) else Inr memory)"

definition amd_PrepareBoot :: "bytes \<Rightarrow> bytes \<Rightarrow> BzOptions \<Rightarrow> bzerr + (BzPlan \<times> bytes)" where
  "amd_PrepareBoot memory kernelFile opts0 =
     (if memory = [] then Inl BzEmptyMemory
      else if kernelFile = [] then Inl BzEmptyKernel
      else let opts = bz_defaults memory opts0; memStart = BzMemoryBase opts in
        case LoadBzImage kernelFile of Inl e \<Rightarrow> Inl e
        | Inr k \<Rightarrow>
        let loadAddr = load_address k opts; payload = Payload k in
        case clearAndWrite memory memStart loadAddr (max (length payload) (unat (InitSize (SHeader k)))) payload of Inl e \<Rightarrow> Inl e
        | Inr m1 \<Rightarrow>
        case bz_initrd k opts m1 of Inl e \<Rightarrow> Inl e
        | Inr (initrdAddr, m2) \<Rightarrow>
        case installBootACPI m2 memStart (nat (BzNumCPUs opts)) of Inl e \<Rightarrow> Inl e
        | Inr (acpiRSDP, m3) \<Rightarrow>
        case buildZeroPage k m3 memStart loadAddr (BzCmdline opts) (BzCmdlineGPA opts) initrdAddr (of_nat (length (BzInitrd opts)))
               (BzZeroPageGPA opts) acpiRSDP
               (memory_map opts) of Inl e \<Rightarrow> Inl e
        | Inr m4 \<Rightarrow>
        case bz_multiprocessor opts m4 of Inl e \<Rightarrow> Inl e
        | Inr m5 \<Rightarrow>
        case bz_stack opts initrdAddr of Inl e \<Rightarrow> Inl e
        | Inr stack \<Rightarrow>
            Inr (\<lparr>LoadAddr = loadAddr, PEntryGPA = bz_EntryPoint loadAddr, ZeroPageGPA = BzZeroPageGPA opts, PStackTopGPA = stack,
                  PagingBase = BzPagingBase opts\<rparr>, m5))"

section \<open>Checksums\<close>

lemma checksum8_eq: "checksum8 buf = - sum_list buf"
proof -
  have "foldl (+) a buf = a + sum_list buf" for a :: u8 by (induction buf arbitrary: a) (simp_all add: add.assoc)
  then show ?thesis by (simp add: checksum8_def)
qed

lemma sum_list_set:
  assumes "i < length (t :: bytes)" "t ! i = 0"
  shows "sum_list (t[i := v]) = sum_list t + v"
proof -
  have "sum_list t = sum_list (take i t @ t ! i # drop (Suc i) t)" using id_take_nth_drop [OF assms(1)] by simp
  then show ?thesis using assms by (simp add: upd_conv_take_nth_drop)
qed

lemma checksum_set: "i < length t \<Longrightarrow> t ! i = 0 \<Longrightarrow> sum_list (t[i := checksum8 t]) = 0"
  by (simp add: checksum8_eq sum_list_set)

section \<open>The tables that firmware would have left\<close>

text \<open>A table with its signature, its length, its checksum and its body at an address.\<close>

definition table_at :: "bytes \<Rightarrow> nat \<Rightarrow> string \<Rightarrow> bytes \<Rightarrow> bool" where
  "table_at memory a signature body \<longleftrightarrow>
     (let t = region memory a (36 + length body) in
      length t = 36 + length body \<and> take 4 t = ascii signature \<and> rd 4 4 t = (of_nat (36 + length body) :: u32)
      \<and> sum_list t = 0 \<and> drop 36 t = body)"

definition rsdp_at :: "bytes \<Rightarrow> nat \<Rightarrow> u64 \<Rightarrow> bool" where
  "rsdp_at memory a xsdt \<longleftrightarrow>
     (let t = region memory a 36 in
      length t = 36 \<and> take 8 t = ascii ''RSD PTR '' \<and> t ! 15 = 2 \<and> sum_list (take 20 t) = 0 \<and> sum_list t = 0 \<and> rd 8 24 t = xsdt)"

lemma fixed_string: "length v = n \<Longrightarrow> acpiFixedString v n = v"
  by (simp add: acpiFixedString_def)

lemma table_shape:
  assumes "length signature = 4" "length tableID = 8"
  shows "length (buildACPITable signature rv tableID body) = 36 + length body"
    "take 4 (buildACPITable signature rv tableID body) = ascii signature"
    "rd 4 4 (buildACPITable signature rv tableID body) = (of_nat (36 + length body) :: u32)"
    "sum_list (buildACPITable signature rv tableID body) = 0"
    "drop 36 (buildACPITable signature rv tableID body) = body"
proof -
  let ?h = "ascii signature @ le_bytes 4 (of_nat (36 + length body) :: u32) @ [rv]"
  let ?r = "ascii ''CCKVM '' @ ascii tableID @ le_bytes 4 (1 :: u32) @ ascii ''CC  '' @ le_bytes 4 (1 :: u32) @ body"
  have l: "length (ascii s) = length s" for s by (simp add: ascii_def)
  have t: "buildACPITable signature rv tableID body = (?h @ 0 # ?r)[9 := checksum8 (?h @ 0 # ?r)]"
    using assms by (simp add: buildACPITable_def fixed_string l Let_def)
  have h: "length ?h = 9" "length ?r = 26 + length body" using assms by (simp_all add: l)
  show "sum_list (buildACPITable signature rv tableID body) = 0"
    unfolding t by (rule checksum_set) (use h in \<open>simp_all add: nth_append del: append_assoc\<close>)
  have u: "buildACPITable signature rv tableID body = ?h @ checksum8 (?h @ 0 # ?r) # ?r"
    unfolding t using h(1) by (metis list_update_length)
  show "length (buildACPITable signature rv tableID body) = 36 + length body" unfolding u using h by simp
  show "take 4 (buildACPITable signature rv tableID body) = ascii signature" unfolding u using assms by (simp add: l)
  show "rd 4 4 (buildACPITable signature rv tableID body) = (of_nat (36 + length body) :: u32)"
    unfolding u using assms by (simp add: l le_word_le_bytes)
  show "drop 36 (buildACPITable signature rv tableID body) = body"
    unfolding u using assms by (simp add: l)
qed

lemma rsdp_shape:
  "length (buildBootRSDP xsdt) = 36" "take 8 (buildBootRSDP xsdt) = ascii ''RSD PTR ''" "buildBootRSDP xsdt ! 15 = 2"
  "sum_list (take 20 (buildBootRSDP xsdt)) = 0" "sum_list (buildBootRSDP xsdt) = 0" "rd 8 24 (buildBootRSDP xsdt) = xsdt"
proof -
  let ?a = "ascii ''RSD PTR ''" and ?b = "ascii ''CCKVM '' @ [2] @ replicate 4 0" and ?c = "le_bytes 4 (36 :: u32) @ le_bytes 8 xsdt"
  let ?s = "checksum8 (?a @ 0 # ?b)"
  have l: "length ?a = 8" "length ?b = 11" by (simp_all add: ascii_def)
  define r where "r = ?a @ [0] @ ascii ''CCKVM '' @ [2] @ replicate 4 0 @ le_bytes 4 (36 :: u32) @ le_bytes 8 xsdt @ replicate 4 (0 :: u8)"
  have r: "r = (?a @ 0 # ?b) @ ?c @ replicate 4 0" "r = ?a @ 0 # (?b @ ?c @ replicate 4 0)" by (simp_all add: r_def)
  have t: "take 20 r = ?a @ 0 # ?b" unfolding r(1) using l by simp
  have s1: "r[8 := checksum8 (take 20 r)] = ?a @ ?s # (?b @ ?c @ replicate 4 0)" unfolding t by (subst r(2)) (metis l(1) list_update_length)
  let ?p = "?a @ ?s # ?b" and ?q = "(?a @ ?s # ?b) @ ?c"
  have s2: "r[8 := checksum8 (take 20 r)] = ?q @ 0 # replicate 3 0" unfolding s1 by (simp add: numeral_eq_Suc)
  have q: "length ?q = 32" using l by simp
  have R: "buildBootRSDP xsdt = (?q @ 0 # replicate 3 0)[32 := checksum8 (?q @ 0 # replicate 3 0)]"
    unfolding s2 [symmetric] by (simp add: buildBootRSDP_def Let_def r_def)
  show "sum_list (buildBootRSDP xsdt) = 0" unfolding R by (rule checksum_set) (use q in \<open>simp_all add: nth_append del: append_assoc\<close>)
  have R2: "buildBootRSDP xsdt = ?q @ checksum8 (?q @ 0 # replicate 3 0) # replicate 3 0" unfolding R by (metis q list_update_length)
  show "length (buildBootRSDP xsdt) = 36" unfolding R2 using q by simp
  show "take 8 (buildBootRSDP xsdt) = ascii ''RSD PTR ''" unfolding R2 using l by simp
  show "buildBootRSDP xsdt ! 15 = 2" unfolding R2 using l by (simp add: nth_append ascii_def)
  have "take 20 (buildBootRSDP xsdt) = (?a @ 0 # ?b)[8 := ?s]" unfolding R2 using l by (simp add: list_update_append)
  then show "sum_list (take 20 (buildBootRSDP xsdt)) = 0" using checksum_set [of 8 "?a @ 0 # ?b"] l by (simp add: nth_append)
  show "rd 8 24 (buildBootRSDP xsdt) = xsdt" unfolding R2 using l by (simp add: le_word_le_bytes)
qed

lemma region_append: "a + k \<le> length d \<Longrightarrow> region (d @ x) a k = region d a k"
  by (simp add: region_def)

lemma region_within: "region memory base (length d) = d \<Longrightarrow> a + k \<le> length d \<Longrightarrow> region memory (base + a) k = region d a k"
proof -
  assume d: "region memory base (length d) = d" and a: "a + k \<le> length d"
  have "region d a k = take k (drop a (take (length d) (drop base memory)))" using d by (simp add: region_def)
  also have "\<dots> = region memory (base + a) k" using a by (simp add: region_def drop_take min_def add.commute)
  finally show ?thesis by simp
qed

lemma table_at_append: "table_at d a s body \<Longrightarrow> table_at (d @ x) a s body"
proof -
  assume t: "table_at d a s body"
  then have "length (region d a (36 + length body)) = 36 + length body" by (simp add: table_at_def Let_def)
  then have "a + (36 + length body) \<le> length d" unfolding region_def by (cases "a \<le> length d") auto
  then show ?thesis using t by (simp add: table_at_def region_append)
qed

lemma table_at_within: "region memory base (length d) = d \<Longrightarrow> table_at d a s body \<Longrightarrow> table_at memory (base + a) s body"
proof -
  assume d: "region memory base (length d) = d" and t: "table_at d a s body"
  then have "length (region d a (36 + length body)) = 36 + length body" by (simp add: table_at_def Let_def)
  then have "a + (36 + length body) \<le> length d" unfolding region_def by (cases "a \<le> length d") auto
  from region_within [OF d this] show ?thesis using t by (simp add: table_at_def)
qed

lemma acpi_append_exact:
  assumes "acpi_append s rv tid body d = (a, d')" "length s = 4" "length tid = 8"
  shows "a = 0xe1000 + of_nat (length d)" "table_at d' (length d) s body" "\<exists>x. d' = d @ x"
    "length d' \<le> length d + length body + 51"
proof -
  let ?t = "buildACPITable s rv tid body"
  have e: "a = 0xe1000 + of_nat (length d)" "d' = pad16 (d @ ?t)" using assms(1) by (auto simp: acpi_append_def)
  then obtain x where x: "d' = d @ ?t @ x" "length x \<le> 15"
  proof -
    have "(16 - length (d @ ?t) mod 16) mod 16 < 16" by (rule mod_less_divisor) simp
    then have "length (replicate ((16 - length (d @ ?t) mod 16) mod 16) (0 :: u8)) \<le> 15" unfolding length_replicate by linarith
    then show ?thesis using that [of "replicate ((16 - length (d @ ?t) mod 16) mod 16) 0"] e(2) by (simp add: pad16_def)
  qed
  note sh = table_shape [OF assms(2,3), of rv body]
  show "a = 0xe1000 + of_nat (length d)" by (rule e(1))
  have "region d' (length d) (36 + length body) = ?t" unfolding x(1) region_def using sh(1) by simp
  then show "table_at d' (length d) s body" using sh by (simp add: table_at_def)
  show "\<exists>x. d' = d @ x" using x(1) by blast
  show "length d' \<le> length d + length body + 51" using x sh(1) by simp
qed

definition acpi_ok :: "bytes \<Rightarrow> nat \<Rightarrow> bool" where
  "acpi_ok m n \<longleftrightarrow> (\<exists>facs dsdt fadt madt hpet xsdt :: nat.
     rsdp_at m 0xe0000 (of_nat xsdt) \<and> table_at m xsdt ''XSDT'' (buildBootXSDT [of_nat fadt, of_nat madt, of_nat hpet])
     \<and> table_at m fadt ''FACP'' (buildBootFADT (of_nat facs) (of_nat dsdt)) \<and> region m facs 64 = buildBootFACS
     \<and> table_at m dsdt ''DSDT'' buildBootDSDT \<and> table_at m madt ''APIC'' (buildBootMADT n) \<and> table_at m hpet ''HPET'' buildBootHPET)"

lemma body_lengths:
  "length buildBootFACS = 64" "length buildBootDSDT = 14" "length (buildBootFADT f d) = 240" "length buildBootHPET = 20"
  "length (buildBootXSDT [a, b, c]) = 24" "length (buildBootMADT n) \<le> 2076"
proof -
  show "length buildBootFACS = 64" "length buildBootDSDT = 14" "length (buildBootFADT f d) = 240" "length buildBootHPET = 20"
    "length (buildBootXSDT [a, b, c]) = 24"
    by (simp_all add: buildBootFACS_def buildBootDSDT_def buildBootFADT_def buildBootHPET_def buildBootXSDT_def ascii_def)
  have "length (concat (map (\<lambda>cpu. [0, 8, of_nat cpu, of_nat cpu] @ le_bytes 4 (1 :: u32)) [0..<min n 255])) = 8 * min n 255"
    by (subst length_chunks [where w = 8]) simp_all
  then show "length (buildBootMADT n) \<le> 2076"
    by (simp add: buildBootMADT_def appendMADTLocalAPICNMI_def appendMADTInterruptOverride_def Let_def)
qed

lemma acpi_tables_exact:
  assumes "acpi_tables n = (xsdt, data)"
  shows "length data \<le> 0x1000"
    "region m 0xe1000 (length data) = data \<Longrightarrow> region m 0xe0000 36 = buildBootRSDP xsdt \<Longrightarrow> acpi_ok m n"
proof -
  obtain facs d1 where 1: "appendRaw buildBootFACS [] = (facs, d1)" by (rule prod.exhaust)
  obtain dsdt d2 where 2: "acpi_append ''DSDT'' 2 ''CCKVMDSD'' buildBootDSDT d1 = (dsdt, d2)" by (rule prod.exhaust)
  obtain fadt d3 where 3: "acpi_append ''FACP'' 6 ''CCKVMFAD'' (buildBootFADT facs dsdt) d2 = (fadt, d3)" by (rule prod.exhaust)
  obtain madt d4 where 4: "acpi_append ''APIC'' 3 ''CCKVMAPC'' (buildBootMADT n) d3 = (madt, d4)" by (rule prod.exhaust)
  obtain hpet d5 where 5: "acpi_append ''HPET'' 1 ''CCKVMHPT'' buildBootHPET d4 = (hpet, d5)" by (rule prod.exhaust)
  have 6: "acpi_append ''XSDT'' 1 ''CCKVMXSD'' (buildBootXSDT [fadt, madt, hpet]) d5 = (xsdt, data)"
    using assms 1 2 3 4 5 by (simp add: acpi_tables_def)
  have d1: "facs = 0xe1000" "d1 = buildBootFACS" using 1 by (simp_all add: appendRaw_def pad16_def body_lengths)
  note e2 = acpi_append_exact [OF 2, simplified] and e3 = acpi_append_exact [OF 3, simplified] and e4 = acpi_append_exact [OF 4, simplified]
    and e5 = acpi_append_exact [OF 5, simplified] and e6 = acpi_append_exact [OF 6, simplified]
  show "length data \<le> 0x1000" using e2(4) e3(4) e4(4) e5(4) e6(4) body_lengths(6) [of n] d1(2) by (simp add: body_lengths(1-5))
  obtain x2 x3 x4 x5 x6 where x: "d2 = d1 @ x2" "d3 = d2 @ x3" "d4 = d3 @ x4" "d5 = d4 @ x5" "data = d5 @ x6"
    using e2(3) e3(3) e4(3) e5(3) e6(3) by blast
  assume m: "region m 0xe1000 (length data) = data" "region m 0xe0000 36 = buildBootRSDP xsdt"
  have t: "table_at m (0xe1000 + a) s body" if "table_at data a s body" for a s body using table_at_within [OF m(1) that] .
  have w: "0xe1000 + of_nat k = (of_nat (0xe1000 + k) :: u64)" for k by simp
  have "table_at data (length d1) ''DSDT'' buildBootDSDT" "table_at data (length d2) ''FACP'' (buildBootFADT facs dsdt)"
    "table_at data (length d3) ''APIC'' (buildBootMADT n)" "table_at data (length d4) ''HPET'' buildBootHPET"
    "table_at data (length d5) ''XSDT'' (buildBootXSDT [fadt, madt, hpet])"
    using e2(2) e3(2) e4(2) e5(2) e6(2) unfolding x(2-5) by (auto intro!: table_at_append simp del: append_assoc)
  note tables = this [THEN t]
  have f: "region m 0xe1000 64 = buildBootFACS"
    using region_within [OF m(1), of 0 64] x d1(2) by (simp add: body_lengths region_def)
  have r: "rsdp_at m 0xe0000 xsdt" using m(2) rsdp_shape by (simp add: rsdp_at_def)
  show "acpi_ok m n" unfolding acpi_ok_def
  proof (intro exI conjI)
    show "rsdp_at m 0xe0000 (of_nat (0xe1000 + length d5))" using r e6(1) by simp
    show "region m 0xe1000 64 = buildBootFACS" by (rule f)
    show "table_at m (0xe1000 + length d5) ''XSDT'' (buildBootXSDT [of_nat (0xe1000 + length d2), of_nat (0xe1000 + length d3), of_nat (0xe1000 + length d4)])"
      using tables(5) e3(1) e4(1) e5(1) by simp
    show "table_at m (0xe1000 + length d2) ''FACP'' (buildBootFADT (of_nat 0xe1000) (of_nat (0xe1000 + length d1)))"
      using tables(2) d1(1) e2(1) by simp
  qed (use tables in simp_all)
qed

section \<open>Writes\<close>

lemma writeAt_exact:
  assumes "writeAt memory 0 gpa data = Inr m" "length data < 2 ^ 63"
  shows "unat gpa + length data \<le> length memory" "m = overwrite memory (unat gpa) data" "length m = length memory"
proof -
  obtain ys where y: "go_slice memory gpa (gpa + of_nat (length data)) = Inr ys" "m = overwrite memory (unat gpa) data"
    using assms(1) by (auto simp: writeAt_def Let_def split: if_splits sum.splits)
  from go_slice_span(1) [OF y(1) assms(2)] show "unat gpa + length data \<le> length memory" .
  with y(2) show "m = overwrite memory (unat gpa) data" "length m = length memory" by simp_all
qed

lemma writeAt_fits:
  assumes "unat gpa + length data \<le> length memory" "length memory < 2 ^ 63"
  shows "writeAt memory 0 gpa data = Inr (overwrite memory (unat gpa) data)"
proof -
  have "unat (gpa + of_nat (length data)) = unat gpa + length data"
    using assms by (subst unat_add_lt) (simp_all add: unat_of_nat take_bit_nat_eq_self)
  then show ?thesis using assms by (simp add: writeAt_def go_slice_def word_le_nat_alt word_less_nat_alt unat_of_nat take_bit_nat_eq_self)
qed

text \<open>What a write does to ranges: its own has the data, and those apart from it are kept.\<close>

lemma writeAt_region:
  assumes "writeAt memory 0 gpa data = Inr m" "length data < 2 ^ 63"
  shows "region m (unat gpa) (length data) = data"
    "a + n \<le> unat gpa \<or> unat gpa + length data \<le> a \<Longrightarrow> region m a n = region memory a n" "length m = length memory"
  using writeAt_exact [OF assms] region_overwrite(1) [of "unat gpa" data memory] region_overwrite(2) [of "unat gpa" data memory a n] by simp_all

section \<open>The zero page\<close>

lemma store_all_simps:
  "store_all [] page = page" "store_all ((off, d) # ss) page = store_all ss (overwrite page off d)" "store_all (ss @ ts) page = store_all ts (store_all ss page)"
  by (simp_all add: store_all_def)

definition stores_fit :: "(nat \<times> bytes) list \<Rightarrow> nat \<Rightarrow> bool" where
  "stores_fit ss n \<longleftrightarrow> list_all (\<lambda>(off, d). off + length d \<le> n) ss"

definition stores_apart :: "(nat \<times> bytes) list \<Rightarrow> nat \<Rightarrow> nat \<Rightarrow> bool" where
  "stores_apart ss a n \<longleftrightarrow> list_all (\<lambda>(off, d). a + n \<le> off \<or> off + length d \<le> a) ss"

lemma store_all_keeps:
  "stores_fit ss (length page) \<Longrightarrow> length (store_all ss page) = length page"
  "stores_fit ss (length page) \<Longrightarrow> stores_apart ss a n \<Longrightarrow> region (store_all ss page) a n = region page a n"
  by (induction ss arbitrary: page) (auto simp: store_all_simps stores_fit_def stores_apart_def region_overwrite)

lemma store_all_nth:
  assumes "stores_fit ss (length page)" "i < length ss" "ss ! i = (off, d)" "stores_apart (drop (Suc i) ss) off (length d)"
  shows "region (store_all ss page) off (length d) = d"
proof -
  let ?p = "store_all (take i ss) page"
  have s: "ss = take i ss @ (off, d) # drop (Suc i) ss" using id_take_nth_drop [OF assms(2)] assms(3) by simp
  have f: "stores_fit (take i ss) (length page)" "off + length d \<le> length page" "stores_fit (drop (Suc i) ss) (length page)"
    using assms(1) by (subst (asm) s, simp add: stores_fit_def)+
  have l: "length ?p = length page" using store_all_keeps(1) [OF f(1)] .
  have "store_all ss page = store_all (drop (Suc i) ss) (overwrite ?p off d)" by (subst s) (simp add: store_all_simps)
  moreover have "region (store_all (drop (Suc i) ss) (overwrite ?p off d)) off (length d) = region (overwrite ?p off d) off (length d)"
    using store_all_keeps(2) [of "drop (Suc i) ss" "overwrite ?p off d" off "length d"] f l assms(4) by simp
  ultimately show ?thesis using region_overwrite(1) [of off d ?p] f(2) l by simp
qed

definition e820_bytes :: "E820Entry \<Rightarrow> bytes" where
  "e820_bytes e = le_bytes 8 (EAddr e) @ le_bytes 8 (ESize e) @ le_bytes 4 (EType e)"

lemma e820_fields_eq: "e820_fields es = (488, [of_nat (length es)]) # map (\<lambda>i. (720 + i * 20, e820_bytes (es ! i))) [0..<length es]"
proof -
  have "map (\<lambda>(i, e). (720 + i * 20, le_bytes 8 (EAddr e) @ le_bytes 8 (ESize e) @ le_bytes 4 (EType e))) (zip [0..<length es] es) =
      map (\<lambda>i. (720 + i * 20, e820_bytes (es ! i))) [0..<length es]"
    by (rule nth_equalityI) (simp_all add: e820_bytes_def)
  then show ?thesis by (simp add: e820_fields_def)
qed

lemma e820_stores:
  "length es \<le> 128 \<Longrightarrow> stores_fit (e820_fields es) 4096" "a + n \<le> 488 \<or> 489 \<le> a \<and> a + n \<le> 720 \<Longrightarrow> stores_apart (e820_fields es) a n"
  by (auto simp: e820_fields_eq stores_fit_def stores_apart_def list_all_iff e820_bytes_def)

definition zero_page :: "KernelImage \<Rightarrow> u64 \<Rightarrow> u64 \<Rightarrow> u64 \<Rightarrow> u32 \<Rightarrow> u64 \<Rightarrow> E820Entry list \<Rightarrow> bytes" where
  "zero_page k loadAddr cmdlineGPA initrdGPA initrdSize acpiRSDP es =
     store_all (zero_page_fields k loadAddr cmdlineGPA initrdGPA initrdSize acpiRSDP @ e820_fields es) (replicate 4096 0)"

lemma zero_page_exact:
  assumes "length (HeaderBytes k) \<le> 3599" "length es \<le> 128" "page = zero_page k loadAddr cmdlineGPA initrdGPA initrdSize acpiRSDP es"
  shows "length page = 4096" "rd 4 532 page = (ucast loadAddr :: u32)" "rd 4 552 page = (ucast cmdlineGPA :: u32)" "rd 8 112 page = acpiRSDP"
    "0 < initrdSize \<Longrightarrow> rd 4 536 page = (ucast initrdGPA :: u32) \<and> rd 4 540 page = initrdSize"
    "unat (page ! 488) = length es" "i < length es \<Longrightarrow> region page (720 + i * 20) 20 = e820_bytes (es ! i)"
proof -
  let ?z = "zero_page_fields k loadAddr cmdlineGPA initrdGPA initrdSize acpiRSDP" and ?p = "replicate 4096 (0 :: u8)"
  have z: "stores_fit ?z 4096" using assms(1) by (simp add: zero_page_fields_def stores_fit_def ascii_def Let_def)
  then have fit: "stores_fit (?z @ e820_fields es) (length ?p)" using e820_stores(1) [OF assms(2)] by (simp add: stores_fit_def)
  show len: "length page = 4096" unfolding assms(3) zero_page_def using store_all_keeps(1) [OF fit] by simp
  have low: "region page off (length d) = d"
    if "i < length ?z" "?z ! i = (off, d)" "stores_apart (drop (Suc i) ?z) off (length d)" "off + length d \<le> 488 \<or> 489 \<le> off \<and> off + length d \<le> 720" for i off d
  proof -
    have "stores_apart (drop (Suc i) (?z @ e820_fields es)) off (length d)"
      using that(1,3) e820_stores(2) [OF that(4), of es] by (simp add: stores_apart_def)
    then show ?thesis unfolding assms(3) zero_page_def using store_all_nth [OF fit, of i off d] that(1,2) by (simp add: nth_append)
  qed
  note defs = zero_page_fields_def stores_apart_def Let_def ascii_def nth_Cons'
  have "region page 532 4 = le_bytes 4 (ucast loadAddr :: u32)" using low [of 7 532 "le_bytes 4 (ucast loadAddr :: u32)"] by (simp add: defs)
  then show "rd 4 532 page = (ucast loadAddr :: u32)" by (simp add: region_def le_word_le_bytes)
  have "region page 552 4 = le_bytes 4 (ucast cmdlineGPA :: u32)" using low [of 8 552 "le_bytes 4 (ucast cmdlineGPA :: u32)"] by (simp add: defs)
  then show "rd 4 552 page = (ucast cmdlineGPA :: u32)" by (simp add: region_def le_word_le_bytes)
  have "region page 112 8 = le_bytes 8 acpiRSDP" using low [of 10 112 "le_bytes 8 acpiRSDP"] by (simp add: defs)
  then show "rd 8 112 page = acpiRSDP" by (simp add: region_def le_word_le_bytes)
  show "0 < initrdSize \<Longrightarrow> rd 4 536 page = (ucast initrdGPA :: u32) \<and> rd 4 540 page = initrdSize"
  proof -
    assume i: "0 < initrdSize"
    have "region page 536 4 = le_bytes 4 (ucast initrdGPA :: u32)" using low [of 19 536 "le_bytes 4 (ucast initrdGPA :: u32)"] i by (simp add: defs)
    moreover have "region page 540 4 = le_bytes 4 initrdSize" using low [of 20 540 "le_bytes 4 initrdSize"] i by (simp add: defs)
    ultimately show ?thesis by (simp add: region_def le_word_le_bytes)
  qed
  let ?n = "length ?z"
  have "stores_apart (map (\<lambda>i. (720 + i * 20, e820_bytes (es ! i))) [0..<length es]) 488 1" by (auto simp: stores_apart_def list_all_iff)
  then have "region page 488 1 = [of_nat (length es)]" unfolding assms(3) zero_page_def
    using store_all_nth [OF fit, of ?n 488 "[of_nat (length es)]"] by (simp add: nth_append e820_fields_eq)
  then have "page ! 488 = of_nat (length es)" using len by (simp add: region_def take_Suc_conv_app_nth take_Suc hd_drop_conv_nth)
  then show "unat (page ! 488) = length es" using assms(2) by (simp add: unat_of_nat take_bit_nat_eq_self)
  show "i < length es \<Longrightarrow> region page (720 + i * 20) 20 = e820_bytes (es ! i)"
  proof -
    assume i: "i < length es"
    have "stores_apart (drop (Suc i) (map (\<lambda>i. (720 + i * 20, e820_bytes (es ! i))) [0..<length es])) (720 + i * 20) 20"
      by (auto simp: stores_apart_def list_all_iff drop_map)
    moreover have "length (e820_bytes (es ! i)) = 20" by (simp add: e820_bytes_def)
    ultimately show ?thesis unfolding assms(3) zero_page_def
      using store_all_nth [OF fit, of "?n + Suc i" "720 + i * 20" "e820_bytes (es ! i)"] i by (simp add: nth_append e820_fields_eq)
  qed
qed

section \<open>Plans\<close>

lemma buildZeroPage_steps:
  assumes "buildZeroPage k memory 0 loadAddr cmdline cmdlineGPA initrdGPA initrdSize zeroPageGPA acpiRSDP es = Inr m"
  obtains m1 where "length (HeaderBytes k) \<le> 3599" "es \<noteq> []" "length es \<le> 128" "writeAt memory 0 cmdlineGPA (trim_zeros cmdline @ [0]) = Inr m1"
    "writeAt m1 0 zeroPageGPA (zero_page k loadAddr cmdlineGPA initrdGPA initrdSize acpiRSDP es) = Inr m"
  using assms by (auto simp: buildZeroPage_def zero_page_def store_all_simps setupHeaderOffset_def Let_def not_less split: if_splits sum.splits)

lemma amd_PrepareBoot_steps:
  assumes "amd_PrepareBoot memory kernelFile opts0 = Inr (plan, m5)" "LoadBzImage kernelFile = Inr k" "opts = bz_defaults memory opts0" "BzMemoryBase opts = 0"
  obtains m1 m2 m3 m4 initrdAddr where
    "clearAndWrite memory 0 (LoadAddr plan) (max (length (Payload k)) (unat (InitSize (SHeader k)))) (Payload k) = Inr m1"
    "bz_initrd k opts m1 = Inr (initrdAddr, m2)" "installBootACPI m2 0 (nat (BzNumCPUs opts)) = Inr (0xe0000, m3)"
    "buildZeroPage k m3 0 (LoadAddr plan) (BzCmdline opts) (BzCmdlineGPA opts) initrdAddr (of_nat (length (BzInitrd opts))) (BzZeroPageGPA opts) 0xe0000
       (memory_map opts) = Inr m4"
    "bz_multiprocessor opts m4 = Inr m5"
    "LoadAddr plan = load_address k opts" "PEntryGPA plan = LoadAddr plan + 0x200" "ZeroPageGPA plan = BzZeroPageGPA opts"
proof -
  have r: "installBootACPI m s c = Inr (r, m') \<Longrightarrow> r = 0xe0000" for m s c r m' by (auto simp: installBootACPI_def Let_def split: prod.splits sum.splits)
  have "\<exists>m1 initrdAddr m2 rsdp m3 m4 stk.
      clearAndWrite memory 0 (load_address k opts) (max (length (Payload k)) (unat (InitSize (SHeader k)))) (Payload k) = Inr m1
    \<and> bz_initrd k opts m1 = Inr (initrdAddr, m2) \<and> installBootACPI m2 0 (nat (BzNumCPUs opts)) = Inr (rsdp, m3)
    \<and> buildZeroPage k m3 0 (load_address k opts) (BzCmdline opts) (BzCmdlineGPA opts) initrdAddr (of_nat (length (BzInitrd opts))) (BzZeroPageGPA opts) rsdp
       (memory_map opts) = Inr m4
    \<and> bz_multiprocessor opts m4 = Inr m5 \<and> bz_stack opts initrdAddr = Inr stk
    \<and> plan = \<lparr>LoadAddr = load_address k opts, PEntryGPA = bz_EntryPoint (load_address k opts), ZeroPageGPA = BzZeroPageGPA opts, PStackTopGPA = stk,
        PagingBase = BzPagingBase opts\<rparr>"
    using assms(1) unfolding amd_PrepareBoot_def Let_def assms(3) [symmetric] assms(2,4)
    by (simp add: sum_case_Inr split: if_split_asm) blast
  then show ?thesis using r by (auto simp: bz_EntryPoint_def intro: that)
qed

lemma mp_lengths: "length (mp_table n) = 204 + n * 20" "length mp_pointer = 16"
proof -
  have c: "length (concat (map (\<lambda>cpu. [0, of_nat cpu, 0x14, if cpu = 0 then 3 else 1] @ le_bytes 4 (0x600 :: u32) @ le_bytes 4 (f :: u32) @ replicate 8 0) [0..<n])) = 20 * n" for f
    by (subst length_chunks [where w = 20]) simp_all
  have i: "length (concat (map (\<lambda>irq. [3, 0, 0, 0, 0, of_nat irq, of_nat n, of_nat irq] :: bytes) [0..<16])) = 8 * 16" by (subst length_chunks [where w = 8]) simp_all
  have l: "length (concat (map (\<lambda>lint. [4, of_nat lint, 0, 0, 0, 0, 0xff, of_nat lint] :: bytes) [0..<2])) = 8 * 2" by (subst length_chunks [where w = 8]) simp_all
  show "length (mp_table n) = 204 + n * 20" unfolding mp_table_def Let_def length_list_update length_append c i l by (simp add: ascii_def)
  show "length mp_pointer = 16" by (simp add: mp_pointer_def Let_def ascii_def)
qed

lemma multiprocessor_keeps:
  assumes "bz_multiprocessor opts m = Inr m'" "BzMemoryBase opts = 0" "a + n \<le> 0xf0000 \<or> 0x100000 \<le> a"
  shows "region m' a n = region m a n"
proof (cases "1 < BzNumCPUs opts")
  case True
  let ?n = "min (max (nat (BzNumCPUs opts)) 1) 255"
  obtain m1 where w: "writeAt m 0 0xf0100 (mp_table ?n) = Inr m1" "writeAt m1 0 0xf0000 mp_pointer = Inr m'"
    using assms(1,2) True by (auto simp: bz_multiprocessor_def writeMPTable_def split: sum.splits)
  have l: "length (mp_table ?n) \<le> 5304" by (simp add: mp_lengths)
  have "region m1 a n = region m a n" using writeAt_region(2) [OF w(1), of a n] l assms(3) by auto
  moreover have "region m' a n = region m1 a n" using writeAt_region(2) [OF w(2), of a n] assms(3) by (auto simp: mp_lengths)
  ultimately show ?thesis by simp
qed (use assms in \<open>simp add: bz_multiprocessor_def\<close>)

lemma installBootACPI_exact:
  assumes "installBootACPI m 0 c = Inr (r, m')" "0 < c"
  obtains xsdt data where "acpi_tables c = (xsdt, data)" "length data \<le> 0x1000" "region m' 0xe1000 (length data) = data" "region m' 0xe0000 36 = buildBootRSDP xsdt"
    "\<And>a n. a + n \<le> 0xe0000 \<or> 0xf0000 \<le> a \<Longrightarrow> region m' a n = region m a n"
proof -
  have "max c 1 = c" using assms(2) by simp
  then obtain xsdt data m1 where t: "acpi_tables c = (xsdt, data)" "writeAt m 0 0xe1000 data = Inr m1" "writeAt m1 0 0xe0000 (buildBootRSDP xsdt) = Inr m'"
    using assms(1) by (auto simp: installBootACPI_def Let_def split: prod.splits sum.splits)
  have l: "length data \<le> 0x1000" using acpi_tables_exact(1) [OF t(1)] .
  then have "length data < 2 ^ 63" by simp
  note w1 = writeAt_region [OF t(2) this]
  have "length (buildBootRSDP xsdt) < 2 ^ 63" by (simp add: rsdp_shape(1))
  note w2 = writeAt_region [OF t(3) this]
  have "region m' 0xe1000 (length data) = data" using w1(1) w2(2) [of "0xe1000" "length data"] by (simp add: rsdp_shape(1))
  moreover have "region m' 0xe0000 36 = buildBootRSDP xsdt" using w2(1) by (simp add: rsdp_shape(1))
  moreover have "region m' a n = region m a n" if "a + n \<le> 0xe0000 \<or> 0xf0000 \<le> a" for a n
    using w1(2) [of a n] w2(2) [of a n] l that by (auto simp: rsdp_shape(1))
  ultimately show ?thesis using that t(1) l by blast
qed

lemma clearAndWrite_exact:
  assumes "clearAndWrite memory 0 gpa c data = Inr m" "length data < 2 ^ 62"
  shows "region m (unat gpa) (length data) = data"
  using assms writeAt_region(1) [of _ gpa data m] by (auto simp: clearAndWrite_def split: if_splits sum.splits)

text \<open>
  What the kernel finds: its own bytes, the ramdisk, the command line, and a zero page that leads to
  them, to the memory map and to the ACPI tables.
\<close>

definition amd_laid_out :: "BzOptions \<Rightarrow> KernelImage \<Rightarrow> BzPlan \<Rightarrow> u64 \<Rightarrow> bytes \<Rightarrow> bool" where
  "amd_laid_out opts k plan initrd m \<longleftrightarrow>
     (let page = region m (unat (ZeroPageGPA plan)) 4096; cmdline = trim_zeros (BzCmdline opts) @ [0]; es = memory_map opts in
      region m (unat (LoadAddr plan)) (length (Payload k)) = Payload k \<and> PEntryGPA plan = LoadAddr plan + 0x200
      \<and> rd 4 532 page = (ucast (LoadAddr plan) :: u32)
      \<and> (BzInitrd opts = [] \<or> region m (unat initrd) (length (BzInitrd opts)) = BzInitrd opts
           \<and> rd 4 536 page = (ucast initrd :: u32) \<and> rd 4 540 page = (of_nat (length (BzInitrd opts)) :: u32))
      \<and> region m (unat (BzCmdlineGPA opts)) (length cmdline) = cmdline \<and> rd 4 552 page = (ucast (BzCmdlineGPA opts) :: u32)
      \<and> unat (page ! 488) = length es \<and> (\<forall>i < length es. region page (720 + i * 20) 20 = e820_bytes (es ! i))
      \<and> rd 8 112 page = (0xe0000 :: u64) \<and> acpi_ok m (nat (BzNumCPUs opts)))"

lemma trim_zeros_length: "length (trim_zeros c) \<le> length c"
  using length_dropWhile_le [of "\<lambda>c. c = 0" "rev c"] by (simp add: trim_zeros_def)

lemma Payload_length: "LoadBzImage f = Inr k \<Longrightarrow> length (Payload k) \<le> length f"
  by (auto simp: LoadBzImage_def parseHeader_def Payload_def Let_def split: if_splits)

lemma bz_defaults_simps:
  "BzMemoryBase (bz_defaults m o0) = BzMemoryBase o0" "BzInitrd (bz_defaults m o0) = BzInitrd o0" "BzCmdline (bz_defaults m o0) = BzCmdline o0"
  "0 < BzNumCPUs (bz_defaults m o0)"
  "BzZeroPageGPA o0 = 0 \<Longrightarrow> BzZeroPageGPA (bz_defaults m o0) = 0x90000"
  "BzZeroPageGPA o0 = 0 \<Longrightarrow> BzCmdlineGPA o0 = 0 \<Longrightarrow> BzCmdlineGPA (bz_defaults m o0) = 0x91000"
  by (simp_all add: bz_defaults_def Let_def)

text \<open>The writes after the ramdisk stay in the first megabyte, and each keeps what the others wrote.\<close>

lemma low_memory_exact:
  assumes "installBootACPI m2 0 (nat (BzNumCPUs opts)) = Inr (0xe0000, m3)"
    "buildZeroPage k m3 0 loadAddr (BzCmdline opts) 0x91000 i (of_nat (length (BzInitrd opts))) 0x90000 0xe0000 (memory_map opts) = Inr m4"
    "bz_multiprocessor opts m4 = Inr m5" "BzMemoryBase opts = 0" "0 < BzNumCPUs opts" "length (BzCmdline opts) < 0x4f000"
    "page = zero_page k loadAddr 0x91000 i (of_nat (length (BzInitrd opts))) 0xe0000 (memory_map opts)" "cmd = trim_zeros (BzCmdline opts) @ [0]"
  shows "length (HeaderBytes k) \<le> 3599" "length (memory_map opts) \<le> 128" "region m5 0x90000 4096 = page" "region m5 0x91000 (length cmd) = cmd"
    "acpi_ok m5 (nat (BzNumCPUs opts))" "0x100000 \<le> b \<Longrightarrow> region m5 b n = region m2 b n"
proof -
  obtain xsdt data where acpi: "acpi_tables (nat (BzNumCPUs opts)) = (xsdt, data)" "length data \<le> 0x1000" "region m3 0xe1000 (length data) = data"
    "region m3 0xe0000 36 = buildBootRSDP xsdt" "\<And>a n. a + n \<le> 0xe0000 \<or> 0xf0000 \<le> a \<Longrightarrow> region m3 a n = region m2 a n"
    using installBootACPI_exact [OF assms(1)] assms(5) by auto
  obtain mc where z: "length (HeaderBytes k) \<le> 3599" "length (memory_map opts) \<le> 128" "writeAt m3 0 0x91000 cmd = Inr mc" "writeAt mc 0 0x90000 page = Inr m4"
    unfolding assms(7,8) by (rule buildZeroPage_steps [OF assms(2)])
  show "length (HeaderBytes k) \<le> 3599" "length (memory_map opts) \<le> 128" by (rule z)+
  note pl = zero_page_exact(1) [OF z(1,2) assms(7)]
  have cl: "length cmd \<le> 0x4f000" using trim_zeros_length [of "BzCmdline opts"] assms(6,8) by simp
  then have "length cmd < 2 ^ 63" by simp
  note wc = writeAt_region [OF z(3) this]
  have "length page < 2 ^ 63" by (simp add: pl)
  note wz = writeAt_region [OF z(4) this, unfolded pl]
  show "0x100000 \<le> b \<Longrightarrow> region m5 b n = region m2 b n"
    using multiprocessor_keeps [OF assms(3,4), of b n] wz(2) [of b n] wc(2) [of b n] acpi(5) [of b n] cl by simp
  have low: "region m5 a n = region m4 a n" if "a + n \<le> 0xf0000" for a n using multiprocessor_keeps [OF assms(3,4), of a n] that by simp
  show "region m5 0x90000 4096 = page" using low [of "0x90000" 4096] wz(1) by simp
  show "region m5 0x91000 (length cmd) = cmd" using low [of "0x91000" "length cmd"] wz(2) [of "0x91000" "length cmd"] wc(1) cl by simp
  have "region m5 0xe1000 (length data) = data" "region m5 0xe0000 36 = buildBootRSDP xsdt"
    using low [of "0xe1000" "length data"] low [of "0xe0000" 36] wz(2) [of "0xe1000" "length data"] wz(2) [of "0xe0000" 36]
      wc(2) [of "0xe1000" "length data"] wc(2) [of "0xe0000" 36] acpi(2-4) cl by simp_all
  then show "acpi_ok m5 (nat (BzNumCPUs opts))" using acpi_tables_exact(2) [OF acpi(1)] by blast
qed


section \<open>When a plan is made\<close>

text \<open>Every part lies in a memory of at least a megabyte; nothing is said of the parts among each other.\<close>

definition boot_fits :: "bytes \<Rightarrow> KernelImage \<Rightarrow> BzOptions \<Rightarrow> bool" where
  "boot_fits memory k opts \<longleftrightarrow>
     0x100000 \<le> length memory \<and> length memory < 2 ^ 62 \<and> BzMemoryBase opts = 0 \<and> unat (BzMemorySize opts) = length memory
     \<and> BzZeroPageGPA opts = 0x90000 \<and> BzCmdlineGPA opts = 0x91000 \<and> BzE820 opts = []
     \<and> length (HeaderBytes k) \<le> 3599 \<and> length (BzCmdline opts) < 0x4f000
     \<and> (CmdlineSize (SHeader k) = 0 \<or> length (BzCmdline opts) \<le> unat (CmdlineSize (SHeader k)))
     \<and> unat (load_address k opts) + max (length (Payload k)) (unat (InitSize (SHeader k))) \<le> length memory
     \<and> (BzInitrd opts = [] \<or> (\<exists>a. initrd_address k opts = Inr a \<and> 0x2000 < unat a \<and> unat a + length (BzInitrd opts) \<le> length memory))"

lemma clearAndWrite_fits:
  assumes "unat gpa + max (length data) c \<le> length memory" "length memory < 2 ^ 62"
  shows "\<exists>m. clearAndWrite memory 0 gpa c data = Inr m \<and> length m = length memory"
proof -
  have "writeAt memory 0 gpa (replicate c 0) = Inr (overwrite memory (unat gpa) (replicate c 0))" using assms by (intro writeAt_fits) simp_all
  moreover have "writeAt m 0 gpa data = Inr (overwrite m (unat gpa) data)" if "length m = length memory" for m
    using assms that by (intro writeAt_fits) simp_all
  ultimately show ?thesis using assms by (simp add: clearAndWrite_def)
qed

lemma installBootACPI_fits:
  assumes "0x100000 \<le> length memory" "length memory < 2 ^ 62"
  shows "\<exists>m. installBootACPI memory 0 c = Inr (0xe0000, m) \<and> length m = length memory"
proof -
  obtain xsdt data where t: "acpi_tables (max c 1) = (xsdt, data)" by (rule prod.exhaust)
  have l: "length data \<le> 0x1000" using acpi_tables_exact(1) [OF t] .
  let ?m1 = "overwrite memory 0xe1000 data"
  have "writeAt memory 0 0xe1000 data = Inr ?m1" using writeAt_fits [of "0xe1000" data memory] assms l by simp
  moreover have "writeAt ?m1 0 0xe0000 (buildBootRSDP xsdt) = Inr (overwrite ?m1 0xe0000 (buildBootRSDP xsdt))"
    using writeAt_fits [of "0xe0000" "buildBootRSDP xsdt" ?m1] assms l by (simp add: rsdp_shape(1))
  ultimately show ?thesis using t assms l by (simp add: installBootACPI_def rsdp_shape(1))
qed

lemma buildZeroPage_fits:
  assumes "length (HeaderBytes k) \<le> 3599" "length cmdline < 0x4f000" "CmdlineSize (SHeader k) = 0 \<or> length cmdline \<le> unat (CmdlineSize (SHeader k))"
    "es \<noteq> []" "length es \<le> 128" "0x100000 \<le> length memory" "length memory < 2 ^ 62"
  shows "\<exists>m. buildZeroPage k memory 0 loadAddr cmdline 0x91000 i sz 0x90000 r es = Inr m \<and> length m = length memory"
proof -
  let ?cmd = "trim_zeros cmdline @ [0]" and ?page = "zero_page k loadAddr 0x91000 i sz r es"
  have c: "length ?cmd \<le> 0x4f000" using trim_zeros_length [of cmdline] assms(2) by simp
  let ?m1 = "overwrite memory 0x91000 ?cmd"
  have w1: "writeAt memory 0 0x91000 ?cmd = Inr ?m1" using writeAt_fits [of "0x91000" ?cmd memory] c assms(6,7) by simp
  have l1: "length ?m1 = length memory" using c assms(6) by simp
  have p: "length ?page = 4096" using zero_page_exact(1) [OF assms(1,5) refl] .
  have w2: "writeAt ?m1 0 0x90000 ?page = Inr (overwrite ?m1 0x90000 ?page)" using writeAt_fits [of "0x90000" ?page ?m1] l1 p assms(6,7) by simp
  have "buildZeroPage k memory 0 loadAddr cmdline 0x91000 i sz 0x90000 r es = Inr (overwrite ?m1 0x90000 ?page)"
    using assms(1,3-5) w1 w2 by (auto simp: buildZeroPage_def zero_page_def store_all_simps setupHeaderOffset_def Let_def)
  then show ?thesis using l1 p assms(6) by simp
qed

lemma multiprocessor_fits:
  assumes "BzMemoryBase opts = 0" "0x100000 \<le> length memory" "length memory < 2 ^ 62"
  shows "\<exists>m. bz_multiprocessor opts memory = Inr m"
proof -
  let ?t = "mp_table (min (max (nat (BzNumCPUs opts)) 1) 255)"
  have l: "length ?t \<le> 5304" by (simp add: mp_lengths)
  let ?m1 = "overwrite memory 0xf0100 ?t"
  have "writeAt memory 0 0xf0100 ?t = Inr ?m1" using writeAt_fits [of "0xf0100" ?t memory] l assms by simp
  moreover have "writeAt ?m1 0 0xf0000 mp_pointer = Inr (overwrite ?m1 0xf0000 mp_pointer)"
    using writeAt_fits [of "0xf0000" mp_pointer ?m1] l assms by (simp add: mp_lengths(2))
  ultimately have "writeMPTable memory 0 (nat (BzNumCPUs opts)) = Inr (overwrite ?m1 0xf0000 mp_pointer)" by (simp only: writeMPTable_def sum.case)
  then show ?thesis using assms(1) by (simp add: bz_multiprocessor_def)
qed

lemma default_map: "unat e \<ge> 0x100000 \<Longrightarrow> DefaultE820Map 0 e \<noteq> [] \<and> length (DefaultE820Map 0 e) \<le> 128"
proof -
  assume "unat e \<ge> 0x100000"
  then have "0 < e" "0 < min e 0x9f000" by (simp_all add: word_less_nat_alt min_def)
  then show ?thesis by (simp add: DefaultE820Map_def Let_def)
qed

lemma amd_PrepareBoot_succeeds:
  assumes "LoadBzImage kernelFile = Inr k" "boot_fits memory k (bz_defaults memory opts0)"
  shows "\<exists>plan m. amd_PrepareBoot memory kernelFile opts0 = Inr (plan, m)"
proof -
  let ?o = "bz_defaults memory opts0" and ?load = "load_address k (bz_defaults memory opts0)"
  have f: "0x100000 \<le> length memory" "length memory < 2 ^ 62" "BzMemoryBase ?o = 0" "unat (BzMemorySize ?o) = length memory" "BzZeroPageGPA ?o = 0x90000"
    "BzCmdlineGPA ?o = 0x91000" "BzE820 ?o = []" "length (HeaderBytes k) \<le> 3599" "length (BzCmdline ?o) < 0x4f000"
    "CmdlineSize (SHeader k) = 0 \<or> length (BzCmdline ?o) \<le> unat (CmdlineSize (SHeader k))"
    "unat ?load + max (length (Payload k)) (unat (InitSize (SHeader k))) \<le> length memory"
    "BzInitrd ?o = [] \<or> (\<exists>a. initrd_address k ?o = Inr a \<and> 0x2000 < unat a \<and> unat a + length (BzInitrd ?o) \<le> length memory)"
    using assms(2) unfolding boot_fits_def by blast+
  obtain m1 where m1: "clearAndWrite memory 0 ?load (max (length (Payload k)) (unat (InitSize (SHeader k)))) (Payload k) = Inr m1" "length m1 = length memory"
    using clearAndWrite_fits [of ?load "Payload k" "max (length (Payload k)) (unat (InitSize (SHeader k)))" memory] f(2,11) by auto
  obtain i m2 where m2: "bz_initrd k ?o m1 = Inr (i, m2)" "length m2 = length memory" "i = 0 \<or> 0x2000 < unat i"
  proof (cases "BzInitrd ?o = []")
    case True
    then show ?thesis using that [of 0 m1] m1(2) by (simp add: bz_initrd_def)
  next
    case False
    then obtain a where a: "initrd_address k ?o = Inr a" "0x2000 < unat a" "unat a + length (BzInitrd ?o) \<le> length m1" using f(12) m1(2) by auto
    have "writeAt m1 0 a (BzInitrd ?o) = Inr (overwrite m1 (unat a) (BzInitrd ?o))" using a(3) f(2) m1(2) by (intro writeAt_fits) simp_all
    then show ?thesis using that [of a "overwrite m1 (unat a) (BzInitrd ?o)"] a m1(2) False f(3) by (simp add: bz_initrd_def)
  qed
  obtain m3 where m3: "installBootACPI m2 0 (nat (BzNumCPUs ?o)) = Inr (0xe0000, m3)" "length m3 = length memory"
    using installBootACPI_fits [of m2] f(1,2) m2(2) by auto
  have es: "memory_map ?o \<noteq> []" "length (memory_map ?o) \<le> 128" using default_map [of "BzMemorySize ?o"] f(1,3,4,7) by (simp_all add: memory_map_def)
  obtain m4 where m4: "buildZeroPage k m3 0 ?load (BzCmdline ?o) 0x91000 i (of_nat (length (BzInitrd ?o))) 0x90000 0xe0000 (memory_map ?o) = Inr m4"
    "length m4 = length memory" using buildZeroPage_fits [OF f(8-10) es, of m3 ?load i "of_nat (length (BzInitrd ?o))" "0xe0000"] f(1,2) m3(2) by auto
  obtain m5 where m5: "bz_multiprocessor ?o m4 = Inr m5" using multiprocessor_fits [OF f(3), of m4] f(1,2) m4(2) by auto
  have "0x2000 < unat (BzMemorySize ?o)" using f(1,4) by simp
  then have "\<exists>stk. bz_stack ?o i = Inr stk"
    using m2(3) f(3) by (auto simp: bz_stack_def Let_def word_le_nat_alt)
  then obtain stk where stk: "bz_stack ?o i = Inr stk" ..
  have ne: "memory \<noteq> []" "kernelFile \<noteq> []" using f(1) assms(1) by (auto simp: LoadBzImage_def)
  show ?thesis using ne m1(1) m2(1) m3(1) m4(1) m5 stk assms(1) by (simp add: amd_PrepareBoot_def Let_def f(3,5,6))
qed

section \<open>A small kernel\<close>

text \<open>An image of one setup sector whose payload is one byte, in a memory of zeros just above the first megabyte.\<close>

definition sample_image :: bytes where
  "sample_image = replicate 497 0 @ [1] @ replicate 15 0 @ [98] @ ascii ''HdrS'' @ replicate 48 0 @ [1, 0] @ replicate 32 0
     @ le_bytes 8 (0x100000 :: u64) @ replicate 416 0 @ [7]"

definition sample_kernel :: KernelImage where
  "sample_kernel = \<lparr>Data = sample_image,
     SHeader = \<lparr>ProtocolVersion = 0, SetupSectors = 1, LoadFlags = 0, InitrdAddrMax = 0, KernelAlignment = 0, RelocatableKernel = 0, MinAlignment = 0,
       XLoadFlags = 1, CmdlineSize = 0, PrefAddress = 0x100000, InitSize = 0\<rparr>,
     HeaderBytes = take 115 (drop 497 sample_image), PayloadOffset = 1024\<rparr>"

definition sample_options :: BzOptions where
  "sample_options = \<lparr>BzMemoryBase = 0, BzMemorySize = 0, BzNumCPUs = 2, BzCmdline = ascii ''quiet'', BzLoadAddr = 0, BzInitrd = [9], BzInitrdGPA = 0,
     BzZeroPageGPA = 0, BzCmdlineGPA = 0, BzStackTopGPA = 0, BzPagingBase = 0, BzE820 = []\<rparr>"

lemma sample_length: "length sample_image = 1025"
  by (simp add: sample_image_def ascii_def)

lemma sample_loads: "LoadBzImage sample_image = Inr sample_kernel"
proof -
  note img = sample_image_def ascii_def nth_append
  have b: "sample_image ! 497 = 1" "sample_image ! 0x201 = 98" "sample_image ! 529 = 0" "sample_image ! 564 = 0" "sample_image ! 565 = 0"
    by (simp_all add: img)
  have s: "take 4 (drop 0x202 sample_image) = ascii ''HdrS''" by (simp add: img)
  have w: "rd 2 518 sample_image = (0 :: u16)" "rd 4 556 sample_image = (0 :: u32)" "rd 4 560 sample_image = (0 :: u32)"
    "rd 2 566 sample_image = (1 :: u16)" "rd 4 568 sample_image = (0 :: u32)" "rd 4 608 sample_image = (0 :: u32)"
    by (simp_all add: img numeral_eq_Suc)
  have p: "rd 8 600 sample_image = (0x100000 :: u64)" by (simp add: img le_word_le_bytes)
  have ne: "sample_image \<noteq> []" using sample_length by auto
  show ?thesis using ne sample_length b s w p
    by (simp add: LoadBzImage_def parseHeader_def sample_kernel_def setupHeaderOffset_def Let_def)
qed

lemma sample_kernel_facts: "Payload sample_kernel = [7]" "load_address sample_kernel (bz_defaults m sample_options) = 0x100000"
proof -
  have "drop 1024 sample_image = [7]" by (simp add: sample_image_def ascii_def)
  then show "Payload sample_kernel = [7]" by (simp add: Payload_def sample_kernel_def sample_length)
  show "load_address sample_kernel (bz_defaults m sample_options) = 0x100000"
    by (simp add: load_address_def bz_defaults_def sample_kernel_def sample_options_def DefaultLoadAddress_def)
qed

lemma sample_initrd:
  assumes "length m = n" "n = 0x101000 \<or> n = 0x103000"
  shows "initrd_address sample_kernel (bz_defaults m sample_options) = Inr (of_nat n - 0x1000)"
  using assms by (auto simp: initrd_address_def bz_defaults_def sample_kernel_def sample_options_def bz_alignDown_def word_le_nat_alt)

lemma sample_fits:
  assumes "length m = n" "n = 0x101000 \<or> n = 0x103000"
  shows "boot_fits m sample_kernel (bz_defaults m sample_options)"
proof -
  let ?o = "bz_defaults m sample_options"
  have o: "BzMemoryBase ?o = 0" "unat (BzMemorySize ?o) = n" "BzZeroPageGPA ?o = 0x90000" "BzCmdlineGPA ?o = 0x91000" "BzE820 ?o = []"
    "length (BzCmdline ?o) = 5" "BzInitrd ?o = [9]" using assms by (auto simp: bz_defaults_def sample_options_def ascii_def)
  have k: "length (HeaderBytes sample_kernel) = 115" "CmdlineSize (SHeader sample_kernel) = 0" "InitSize (SHeader sample_kernel) = 0"
    by (simp_all add: sample_kernel_def sample_length)
  have "unat (of_nat n - 0x1000 :: u64) + 0x1000 = n" using assms(2) by auto
  then show ?thesis using assms o k sample_initrd [OF assms] by (auto simp: boot_fits_def sample_kernel_facts)
qed


text \<open>
  C40. Nothing keeps the ramdisk off the kernel: when memory ends so low that the ramdisk, which is put as
  high as it fits, reaches down into the kernel, a plan is still made, and the kernel in memory is not the one that was loaded.
\<close>

theorem amd_initrd_overwrites_kernel:
  assumes "LoadBzImage kernelFile = Inr k" "opts = bz_defaults memory opts0" "boot_fits memory k opts" "length kernelFile < 2 ^ 62"
    "initrd_address k opts = Inr a" "BzInitrd opts \<noteq> []" "0x100000 \<le> unat (load_address k opts)" "unat (load_address k opts) \<le> unat a"
    "unat a < unat (load_address k opts) + length (Payload k)" "Payload k ! (unat a - unat (load_address k opts)) \<noteq> hd (BzInitrd opts)"
  shows "\<exists>plan m. amd_PrepareBoot memory kernelFile opts0 = Inr (plan, m) \<and> region m (unat (LoadAddr plan)) (length (Payload k)) \<noteq> Payload k"
proof -
  obtain plan m5 where b: "amd_PrepareBoot memory kernelFile opts0 = Inr (plan, m5)" using amd_PrepareBoot_succeeds assms(1-3) by blast
  have d: "BzMemoryBase opts = 0" "0 < BzNumCPUs opts" "BzZeroPageGPA opts = 0x90000" "BzCmdlineGPA opts = 0x91000" "length (BzCmdline opts) < 0x4f000"
    "length memory < 2 ^ 62" "unat a + length (BzInitrd opts) \<le> length memory"
    using assms(2,3,5,6) by (auto simp: boot_fits_def bz_defaults_simps)
  obtain m1 m2 m3 m4 i where s:
    "clearAndWrite memory 0 (LoadAddr plan) (max (length (Payload k)) (unat (InitSize (SHeader k)))) (Payload k) = Inr m1"
    "bz_initrd k opts m1 = Inr (i, m2)" "installBootACPI m2 0 (nat (BzNumCPUs opts)) = Inr (0xe0000, m3)"
    "buildZeroPage k m3 0 (LoadAddr plan) (BzCmdline opts) (BzCmdlineGPA opts) i (of_nat (length (BzInitrd opts))) (BzZeroPageGPA opts) 0xe0000
       (memory_map opts) = Inr m4" "bz_multiprocessor opts m4 = Inr m5" and p: "LoadAddr plan = load_address k opts"
    by (rule amd_PrepareBoot_steps [OF b assms(1,2) d(1)])
  note low = low_memory_exact(6) [OF s(3) s(4) [unfolded d(3,4)] s(5) d(1,2,5) refl refl]
  have w: "writeAt m1 0 a (BzInitrd opts) = Inr m2" using s(2) assms(5,6) d(1) by (auto simp: bz_initrd_def split: sum.splits)
  have "length (BzInitrd opts) < 2 ^ 63" using d(6,7) by simp
  then have r: "region m5 (unat a) (length (BzInitrd opts)) = BzInitrd opts" using writeAt_region(1) [OF w] low assms(7,8) by simp
  then have "hd (region m5 (unat a) (length (BzInitrd opts))) = hd (BzInitrd opts)" by simp
  then have h: "m5 ! unat a = hd (BzInitrd opts)" using assms(6) r by (metis hd_drop_conv_nth hd_take length_greater_0_conv region_def drop_all nat_le_linear not_le take_Nil)
  have "region m5 (unat (LoadAddr plan)) (length (Payload k)) \<noteq> Payload k"
  proof
    assume e: "region m5 (unat (LoadAddr plan)) (length (Payload k)) = Payload k"
    have "length (region m5 (unat (LoadAddr plan)) (length (Payload k))) = length (Payload k)" using e by simp
    then have "unat (load_address k opts) \<le> length m5" using assms(8,9) p by (simp add: region_def)
    then have "Payload k ! (unat a - unat (load_address k opts)) = m5 ! unat a"
      by (subst e [symmetric]) (use assms(8,9) p in \<open>simp add: region_def\<close>)
    then show False using h assms(10) by simp
  qed
  then show ?thesis using b by blast
qed

theorem amd_initrd_overwrites_kernel_witness:
  "\<exists>plan m. amd_PrepareBoot (replicate 0x101000 0) sample_image sample_options = Inr (plan, m)
     \<and> region m (unat (LoadAddr plan)) (length (Payload sample_kernel)) \<noteq> Payload sample_kernel"
proof -
  define mem :: bytes where "mem = replicate 0x101000 0"
  then have l: "length mem = 0x101000" by simp
  have a: "initrd_address sample_kernel (bz_defaults mem sample_options) = Inr 0x100000" using sample_initrd [OF l] by simp
  have i: "BzInitrd (bz_defaults mem sample_options) = [9]" by (simp add: bz_defaults_simps sample_options_def)
  have "\<exists>plan m. amd_PrepareBoot mem sample_image sample_options = Inr (plan, m)
      \<and> region m (unat (LoadAddr plan)) (length (Payload sample_kernel)) \<noteq> Payload sample_kernel"
    by (rule amd_initrd_overwrites_kernel [OF sample_loads refl sample_fits [OF l] _ a]) (simp_all add: sample_kernel_facts sample_length i)
  then show ?thesis unfolding mem_def .
qed

end
