(* ===== verification/Initramfs.thy ===== *)
theory Initramfs
  imports Prelude
begin

text \<open>
  The builder of initial ramdisks (\<^verbatim>\<open>internal/core/linux/initramfs\<close>): archives in the \<^verbatim>\<open>newc\<close> format of
  cpio, and a reader of that format. The walk over a directory of the host (\<^verbatim>\<open>BuildFromDirectory\<close>) is not
  modelled; it ends in \<open>Build\<close>.
\<close>

datatype Type = TypeRegular | TypeDirectory | TypeCharDevice | TypeBlockDevice | TypeSymlink | TypeOther int

record File =
  Path :: bytes
  FMode :: u32
  Data :: bytes
  Linkname :: bytes
  FType :: Type
  DevMajor :: u32
  DevMinor :: u32

datatype cpioerr = EmptyPath nat | BadType nat | BadHeader nat

record entry =
  ino :: u32
  emode :: u32
  uid :: u32
  gid :: u32
  nlink :: u32
  mtime :: u32
  filesize :: u32
  devmajor :: u32
  devminor :: u32
  rdevmajor :: u32
  rdevminor :: u32
  ename :: bytes
  edata :: bytes

text \<open>The verb \<open>%08x\<close>.\<close>

definition hex8 :: "nat \<Rightarrow> bytes" where
  "hex8 n = replicate (8 - length (hex_digits n)) 48 @ hex_digits n"

definition alignTo4 :: "nat \<Rightarrow> nat" where
  "alignTo4 n = (if n mod 4 = 0 then 0 else 4 - n mod 4)"

definition header_fields :: "entry \<Rightarrow> nat list" where
  "header_fields e =
     map unat [ino e, emode e, uid e, gid e, nlink e, mtime e, filesize e, devmajor e, devminor e, rdevmajor e, rdevminor e]
     @ [length (ename e) + 1, 0]"

definition entry_header :: "entry \<Rightarrow> bytes" where
  "entry_header e = ascii ''070701'' @ concat (map hex8 (header_fields e))"

definition writeEntry :: "entry \<Rightarrow> bytes \<Rightarrow> bytes option" where
  "writeEntry e buf =
     (let nameSize = length (ename e) + 1; header = entry_header e in
      if length header \<noteq> 110 then None
      else Some (buf @ header @ ename e @ [0] @ replicate (alignTo4 (110 + nameSize)) 0
             @ edata e @ replicate (alignTo4 (length (edata e))) 0))"

definition encodeMode :: "File \<Rightarrow> u32 option" where
  "encodeMode f =
     (let m = FMode f AND 0x1ff in
      case FType f of
        TypeRegular \<Rightarrow> Some (m OR 0x8000)
      | TypeDirectory \<Rightarrow> Some (m OR 0x4000)
      | TypeCharDevice \<Rightarrow> Some (m OR 0x2000)
      | TypeBlockDevice \<Rightarrow> Some (m OR 0x6000)
      | TypeSymlink \<Rightarrow> Some (m OR 0xa000)
      | TypeOther _ \<Rightarrow> None)"

definition fileData :: "File \<Rightarrow> bytes" where
  "fileData f = (if FType f = TypeSymlink then Linkname f else Data f)"

definition trim_slash :: "bytes \<Rightarrow> bytes" where
  "trim_slash path = (case path of c # cs \<Rightarrow> if c = 47 then cs else path | [] \<Rightarrow> [])"

definition file_entry :: "u32 \<Rightarrow> u32 \<Rightarrow> File \<Rightarrow> entry" where
  "file_entry i m f =
     \<lparr>ino = i, emode = m, uid = 0, gid = 0, nlink = 1, mtime = 0, filesize = of_nat (length (fileData f)), devmajor = 0, devminor = 0,
      rdevmajor = DevMajor f, rdevminor = DevMinor f, ename = trim_slash (Path f), edata = fileData f\<rparr>"

definition trailer :: entry where
  "trailer =
     \<lparr>ino = 0, emode = 0x8000, uid = 0, gid = 0, nlink = 1, mtime = 0, filesize = 0, devmajor = 0, devminor = 0,
      rdevmajor = 0, rdevminor = 0, ename = ascii ''TRAILER!!!'', edata = []\<rparr>"

text \<open>The loop over the files, with their index and the next inode number.\<close>

fun build_files :: "nat \<Rightarrow> u32 \<Rightarrow> File list \<Rightarrow> bytes \<Rightarrow> cpioerr + bytes" where
  "build_files idx i [] buf = Inr buf"
| "build_files idx i (f # fs) buf =
     (if trim_slash (Path f) = [] then Inl (EmptyPath idx)
      else case encodeMode f of None \<Rightarrow> Inl (BadType idx)
      | Some m \<Rightarrow>
          (case writeEntry (file_entry i m f) buf of None \<Rightarrow> Inl (BadHeader idx)
           | Some buf1 \<Rightarrow> build_files (idx + 1) (i + 1) fs buf1))"

definition initramfs_Build :: "File list \<Rightarrow> cpioerr + bytes" where
  "initramfs_Build fs =
     (case build_files 0 1 fs [] of Inl e \<Rightarrow> Inl e
      | Inr buf \<Rightarrow> (case writeEntry trailer buf of None \<Rightarrow> Inl (BadHeader (length fs)) | Some archive \<Rightarrow> Inr archive))"

section \<open>Reading an archive\<close>

definition digit_value :: "u8 \<Rightarrow> nat" where
  "digit_value c = (if c < 58 then unat c - 48 else unat c - 87)"

definition unhex :: "bytes \<Rightarrow> nat" where
  "unhex cs = foldl (\<lambda>n c. n * 16 + digit_value c) 0 cs"

definition read_field :: "bytes \<Rightarrow> nat \<Rightarrow> nat" where
  "read_field s i = unhex (take 8 (drop (8 * i) (drop 6 s)))"

definition aligned4 :: "nat \<Rightarrow> nat" where
  "aligned4 n = n + alignTo4 n"

function read_archive :: "bytes \<Rightarrow> entry list option" where
  "read_archive s =
     (if length s < 110 \<or> take 6 s \<noteq> ascii ''070701'' then None
      else
        let nameSize = read_field s 11; name = take (nameSize - 1) (drop 110 s); s1 = drop (aligned4 (110 + nameSize)) s;
            n = read_field s 6; w = (\<lambda>i. of_nat (read_field s i)) in
        if name = ascii ''TRAILER!!!'' then Some []
        else map_option (Cons \<lparr>ino = w 0, emode = w 1, uid = w 2, gid = w 3, nlink = w 4, mtime = w 5, filesize = w 6, devmajor = w 7,
               devminor = w 8, rdevmajor = w 9, rdevminor = w 10, ename = name, edata = take n s1\<rparr>)
               (read_archive (drop (aligned4 n) s1)))"
  by pat_completeness auto
termination by (relation "measure length") (auto simp: aligned4_def)

declare read_archive.simps [simp del]

section \<open>Round trip\<close>

lemma digit_value: "d < 16 \<Longrightarrow> digit_value (digit d) = d"
proof -
  have "list_all (\<lambda>d. digit_value (digit d) = d) [0..<16]" by code_simp
  then show "d < 16 \<Longrightarrow> digit_value (digit d) = d" by (simp add: list_all_iff)
qed

lemma unhex_digits: "foldl (\<lambda>n c. n * 16 + digit_value c) 0 (hex_digits n) = n"
proof (induction n rule: hex_digits.induct)
  case (1 n)
  then show ?case by (cases "n < 16") (subst hex_digits.simps, simp add: digit_value)+
qed

lemma unhex_hex8: "unhex (hex8 n) = n"
proof -
  have z: "foldl (\<lambda>n c. n * 16 + digit_value c) 0 (replicate k 48) = 0" for k by (induction k) (simp_all add: digit_value_def)
  show ?thesis by (simp add: unhex_def hex8_def z unhex_digits)
qed

lemma hex_digits_length: "n < 16 ^ k \<Longrightarrow> 0 < k \<Longrightarrow> length (hex_digits n) \<le> k"
proof (induction n arbitrary: k rule: hex_digits.induct)
  case (1 n)
  show ?case
  proof (cases "n < 16")
    case True
    then show ?thesis using 1(3) by (subst hex_digits.simps) simp
  next
    case False
    then obtain j where k: "k = Suc j" "0 < j" using 1(2,3) by (cases k; cases "k - 1") auto
    have "n div 16 < 16 ^ j" using 1(2) k(1) by (simp add: less_mult_imp_div_less mult.commute)
    then have "length (hex_digits (n div 16)) \<le> j" using 1(1) False k(2) by blast
    then show ?thesis using False k(1) by (subst hex_digits.simps) simp
  qed
qed

lemma length_hex8: "n < 2 ^ 32 \<Longrightarrow> length (hex8 n) = 8"
  using hex_digits_length [of n 8] by (simp add: hex8_def)

text \<open>An entry whose header fields have their eight digits.\<close>

definition entry_ok :: "entry \<Rightarrow> bool" where
  "entry_ok e \<longleftrightarrow> length (ename e) + 1 < 2 ^ 32 \<and> length (edata e) < 2 ^ 32 \<and> filesize e = of_nat (length (edata e))"

definition entry_bytes :: "entry \<Rightarrow> bytes" where
  "entry_bytes e = entry_header e @ ename e @ [0] @ replicate (alignTo4 (110 + (length (ename e) + 1))) 0
     @ edata e @ replicate (alignTo4 (length (edata e))) 0"

lemma header_fields_ok: "entry_ok e \<Longrightarrow> \<forall>n \<in> set (header_fields e). length (hex8 n) = 8"
proof -
  assume e: "entry_ok e"
  have "unat (w :: u32) < 2 ^ 32" for w using unsigned_less [of w, where 'a = nat] by simp
  then show ?thesis using e by (auto simp: header_fields_def entry_ok_def intro!: length_hex8)
qed

lemma length_entry_header: "entry_ok e \<Longrightarrow> length (entry_header e) = 110"
  using length_chunks [OF header_fields_ok] by (simp add: entry_header_def header_fields_def ascii_def)

lemma writeEntry_ok: "entry_ok e \<Longrightarrow> writeEntry e buf = Some (buf @ entry_bytes e)"
  by (simp add: writeEntry_def length_entry_header entry_bytes_def Let_def)

lemma read_entry_field:
  assumes "entry_ok e" "i < 13"
  shows "read_field (entry_header e @ rest) i = header_fields e ! i"
proof -
  have "drop 6 (entry_header e @ rest) = concat (map hex8 (header_fields e)) @ rest" by (simp add: entry_header_def ascii_def)
  moreover have "take 8 (drop (8 * i) (concat (map hex8 (header_fields e)) @ rest)) = hex8 (header_fields e ! i)"
    by (rule nth_chunk [OF header_fields_ok [OF assms(1)]]) (use assms(2) in \<open>simp add: header_fields_def\<close>)
  ultimately show ?thesis by (simp only: read_field_def unhex_hex8)
qed

lemma read_entry:
  assumes "entry_ok e"
  shows "read_archive (entry_bytes e @ rest) = (if ename e = ascii ''TRAILER!!!'' then Some [] else map_option (Cons e) (read_archive rest))"
proof -
  define body where "body = edata e @ replicate (alignTo4 (length (edata e))) 0 @ rest"
  define tail where "tail = ename e @ [0] @ replicate (alignTo4 (110 + (length (ename e) + 1))) 0 @ body"
  define s where "s = entry_header e @ tail"
  have e: "entry_bytes e @ rest = s" by (simp add: entry_bytes_def s_def tail_def body_def)
  have h: "length (entry_header e) = 110" using assms by (rule length_entry_header)
  have l: "\<not> length s < 110" using h by (simp add: s_def)
  have f: "read_field s i = header_fields e ! i" if "i < 13" for i unfolding s_def using read_entry_field [OF assms that] .
  have m: "take 6 s = ascii ''070701''" by (simp add: s_def entry_header_def ascii_def)
  have d: "take (length (ename e) + 1 - 1) (drop 110 s) = ename e" using h by (simp add: s_def tail_def)
  have "s = (entry_header e @ ename e @ [0] @ replicate (alignTo4 (110 + (length (ename e) + 1))) 0) @ body" by (simp add: s_def tail_def)
  moreover have "length (entry_header e @ ename e @ [0] @ replicate (alignTo4 (110 + (length (ename e) + 1))) (0 :: u8)) = aligned4 (110 + (length (ename e) + 1))"
    using h by (simp add: aligned4_def)
  ultimately have b: "drop (aligned4 (110 + (length (ename e) + 1))) s = body" by (metis append_eq_conv_conj)
  have r: "drop (aligned4 (length (edata e))) body = rest" "take (length (edata e)) body = edata e" by (simp_all add: aligned4_def body_def)
  have u: "unat (filesize e) = length (edata e)" using assms by (simp add: entry_ok_def unat_of_nat take_bit_nat_eq_self)
  have w: "\<lparr>ino = of_nat (header_fields e ! 0), emode = of_nat (header_fields e ! 1), uid = of_nat (header_fields e ! 2),
      gid = of_nat (header_fields e ! 3), nlink = of_nat (header_fields e ! 4), mtime = of_nat (header_fields e ! 5),
      filesize = of_nat (header_fields e ! 6), devmajor = of_nat (header_fields e ! 7), devminor = of_nat (header_fields e ! 8),
      rdevmajor = of_nat (header_fields e ! 9), rdevminor = of_nat (header_fields e ! 10), ename = ename e, edata = edata e\<rparr> = e"
    by (simp add: header_fields_def)
  have fs: "header_fields e ! 11 = length (ename e) + 1" "header_fields e ! 6 = length (edata e)" by (simp_all add: header_fields_def u)
  have n: "read_field s 11 = length (ename e) + 1" "read_field s 6 = length (edata e)" using f [of 11] f [of 6] fs by simp_all
  show ?thesis unfolding e
  proof (cases "ename e = ascii ''TRAILER!!!''")
    case True
    then show "read_archive s = (if ename e = ascii ''TRAILER!!!'' then Some [] else map_option (Cons e) (read_archive rest))"
      using l m d unfolding n(1) [symmetric] by (subst read_archive.simps) (simp only: Let_def simp_thms if_False if_True)
  next
    case False
    then show "read_archive s = (if ename e = ascii ''TRAILER!!!'' then Some [] else map_option (Cons e) (read_archive rest))"
      apply (subst read_archive.simps)
      apply (simp only: l m simp_thms if_False Let_def n d b r)
      apply (simp only: f w [unfolded fs] fs)
      done
  qed
qed

lemma read_trailer: "read_archive (entry_bytes trailer) = Some []"
  using read_entry [of trailer "[]"] by (simp add: trailer_def entry_ok_def ascii_def)

text \<open>The entries an archive should have, with inode numbers from one on.\<close>

fun entries_of :: "u32 \<Rightarrow> File list \<Rightarrow> entry list" where
  "entries_of i [] = []"
| "entries_of i (f # fs) = file_entry i (the (encodeMode f)) f # entries_of (i + 1) fs"

definition file_fits :: "File \<Rightarrow> bool" where
  "file_fits f \<longleftrightarrow> length (trim_slash (Path f)) + 1 < 2 ^ 32 \<and> length (fileData f) < 2 ^ 32 \<and> trim_slash (Path f) \<noteq> ascii ''TRAILER!!!''"

definition file_named :: "File \<Rightarrow> bool" where
  "file_named f \<longleftrightarrow> trim_slash (Path f) \<noteq> [] \<and> encodeMode f \<noteq> None"

lemma file_entry_ok: "file_fits f \<Longrightarrow> entry_ok (file_entry i m f)"
  by (simp add: file_fits_def entry_ok_def file_entry_def)

lemma build_files_exact:
  "list_all file_fits fs \<Longrightarrow> list_all file_named fs \<Longrightarrow> build_files idx i fs buf = Inr (buf @ concat (map entry_bytes (entries_of i fs)))"
proof (induction idx i fs buf rule: build_files.induct)
  case (2 idx i f fs buf)
  then obtain m where m: "encodeMode f = Some m" by (auto simp: file_named_def)
  then show ?case using 2 by (simp add: file_named_def writeEntry_ok file_entry_ok)
qed simp

lemma build_files_refuses: "list_all file_fits fs \<Longrightarrow> \<not> list_all file_named fs \<Longrightarrow> \<exists>e. build_files idx i fs buf = Inl e"
proof (induction idx i fs buf rule: build_files.induct)
  case (2 idx i f fs buf)
  then show ?case by (auto simp: file_named_def writeEntry_ok file_entry_ok split: option.split)
qed simp

lemma read_files:
  "list_all file_fits fs \<Longrightarrow> read_archive (concat (map entry_bytes (entries_of i fs)) @ entry_bytes trailer) = Some (entries_of i fs)"
proof (induction i fs rule: entries_of.induct)
  case (2 i f fs)
  have "ename (file_entry i (the (encodeMode f)) f) \<noteq> ascii ''TRAILER!!!''" using 2 by (simp add: file_entry_def file_fits_def)
  then show ?case using 2 read_entry [OF file_entry_ok, of f i "the (encodeMode f)"] by simp
qed (simp add: read_trailer)


definition demo_init :: File where
  "demo_init = \<lparr>Path = ascii ''/init'', FMode = 0x1ed, Data = [1, 2, 3], Linkname = [], FType = TypeRegular, DevMajor = 0, DevMinor = 0\<rparr>"


end
