(* ===== verification/Spec2Isabelle.thy ===== *)
theory Spec2Isabelle
  imports UART VirtioState NvmeQueues Platform FuseLocks TcpSend NetGuest NetServices Dns BootArm BootAmd Initramfs
begin

text \<open>
  \<^bold>\<open>Verification of the virtual hardware and the network of crumblecracker\<close>

  The program runs virtual machines. A guest sees devices through guest physical memory, memory-mapped
  registers and interrupt lines; behind them stand the host's files, sockets and hypervisor. This
  development models the devices and the network stack, which is the code a guest can drive directly,
  and the code that puts a Linux kernel into a guest's memory.
  Paths below are under \<^verbatim>\<open>src/internal/core/\<close>.

  \<^bold>\<open>Parts, and the theories that model them\<close>

  \<^item> \<^bold>\<open>Prelude\<close>: machine integers, the error values (\<open>goerr\<close>, with \<open>Panic\<close> for a Go panic), the threading of
    state and errors through a method (\<open>gomethod\<close>, \<open>and_then\<close>), slicing, and the little- and big-endian
    codecs.
  \<^item> \<^bold>\<open>Guest memory\<close> (\<^verbatim>\<open>hv/kvm/vm_linux_arm64.go\<close>, \<^verbatim>\<open>vm_linux_amd64.go\<close>). GuestMem has \<^verbatim>\<open>ReadIPA\<close> and
    \<^verbatim>\<open>WriteIPA\<close> of both machines, and the locales \<open>guest_mem\<close> and \<open>strict_guest_mem\<close>, the contract on
    which every device rests, interpreted on both. GuestSlice adds \<^verbatim>\<open>ReadIPAInto\<close> and \<^verbatim>\<open>SliceIPA\<close> and
    the locale \<open>sliced_mem\<close>.
  \<^item> \<^bold>\<open>Virtqueues and the mmio transport\<close> (\<^verbatim>\<open>virtio/queue_io.go\<close>, \<^verbatim>\<open>queue_helpers.go\<close>, \<^verbatim>\<open>console.go\<close>).
    Virtqueue walks descriptor chains, gathers requests and scatters responses; VirtioMmio is the register
    file and, in the locale \<open>avail_body\<close>, the loop over the available ring that devices share;
    DriverView describes what a driver has put into memory.
  \<^item> \<^bold>\<open>Virtio devices\<close>: Console (\<^verbatim>\<open>console.go\<close>), Rng (\<^verbatim>\<open>rng.go\<close>), Balloon (\<^verbatim>\<open>balloon.go\<close>), VsockProtocol and
    Vsock (\<^verbatim>\<open>vsock_protocol.go\<close>, \<^verbatim>\<open>vsock.go\<close>), and their snapshots in VirtioState (\<^verbatim>\<open>state.go\<close>).
  \<^item> \<^bold>\<open>NVMe\<close> (\<^verbatim>\<open>nvme/controller.go\<close>): Nvme has the registers, commands and queues; NvmePrp says what the
    physical region pages of a command stand for; NvmeProps and NvmeQueues have the data path, the
    completion queues, the interrupt and the doorbell loop.
  \<^item> \<^bold>\<open>Serial port\<close> (\<^verbatim>\<open>serial/uart8250.go\<close>): UART.
  \<^item> \<^bold>\<open>PC interrupt hardware\<close> (\<^verbatim>\<open>hv/whp/platform_amd64_windows.go\<close>, \<^verbatim>\<open>boot_windows_amd64.go\<close>): Pic, IoApic, and
    in Platform the way of an interrupt from a device line to a virtual processor.
  \<^item> \<^bold>\<open>File locks\<close> (\<^verbatim>\<open>virtio/fs_locks.go\<close>): FuseLocks.
  \<^item> \<^bold>\<open>Network\<close> (\<^verbatim>\<open>netstack/\<close>): TcpBuffers (\<^verbatim>\<open>tcp.go\<close>), NetPackets (frames, headers and checksums of
    \<^verbatim>\<open>netstack.go\<close>), TcpConn and TcpSend (\<^verbatim>\<open>tcpConn\<close>), NetSource (\<^verbatim>\<open>source_validation.go\<close>), NetStack (the
    handlers and the table of connections, listeners, sockets and proxies), NetPolicy and NetGuest (what
    holds in every run of a stack), NetServices (dials and service replies), Dns (\<^verbatim>\<open>dns.go\<close>).
  \<^item> \<^bold>\<open>Booting Linux\<close>: Fdt (\<^verbatim>\<open>fdt/build.go\<close>, \<^verbatim>\<open>node.go\<close>) builds device trees; BootArm
    (\<^verbatim>\<open>linux/boot/arm64/image.go\<close>, \<^verbatim>\<open>plan.go\<close>) probes and extracts a kernel, with the cache of extracted
    images, describes the machine by a device tree and places everything in memory; BootAmd
    (\<^verbatim>\<open>linux/boot/amd64/bzimage.go\<close>, \<^verbatim>\<open>acpi.go\<close>, \<^verbatim>\<open>plan.go\<close>) does so with a bzImage, ACPI tables and a zero
    page; Initramfs (\<^verbatim>\<open>linux/initramfs/initramfs.go\<close>) builds ramdisks.

  \<^bold>\<open>How the state and the operations correspond\<close>

  A Go struct is a record with its fields; a method is a function from the record to a result and the
  record. An object outside the modelled code (the host's writer, random source, block backend, vsock
  backend, interrupt sink, hypervisor, sockets, resolver, decompressor) is a parameter: a function from the log of the
  calls made so far to its answer, so that it may answer anything. The logs are fields of the records
  (\<open>hostLog\<close>, \<open>nlog\<close>, \<open>frames\<close>, \<open>dials\<close>, and so on) and are what the theorems speak of. A mutex makes an
  operation atomic, so each operation is one step; what several goroutines do is any sequence of steps,
  given by the reachability relations of the components (\<open>tcp_session\<close>, \<open>stack_run\<close>, and those of the
  vsock device, the controllers, the platform and the lock table). A call that would wait is a result of
  its own, and is made again. Integers have the width of the source wherever they can wrap.

  Every function is total. A loop that can run for ever is a \<open>partial_function\<close> in the option type,
  with \<open>None\<close> for not returning (the doorbell loop of the NVMe controller, the TCP option parser); the
  theorems say both when it returns and when it does not. The loop over a virtqueue is bounded by the
  distance of two 16-bit indices and the chain walk by the queue's size, as in the code. There is no
  other fuel.

  \<^bold>\<open>What is shown\<close>

  \<^item> \<^bold>\<open>Memory and queues\<close>: guest memory is a store; chains are walked exactly; requests and responses are
    gathered and scattered in order and inside their buffers.
  \<^item> \<^bold>\<open>Devices\<close>: the console transmits what the driver queued; the serial line, the console's and the NVMe
    controller's interrupt lines are exact in every reachable state; the balloon's bitmap follows the
    guest's frames; the vsock counters are exact and credit is respected; snapshots give the state back.
  \<^item> \<^bold>\<open>NVMe\<close>: blocks written are read back through any page list; completions go to the right slot with the
    right phase; a doorbell inside the ring returns.
  \<^item> \<^bold>\<open>Interrupts\<close>: the cycle of acknowledgement and end of interrupt, level-triggered delivery, and the
    platform's queue of pending vectors.
  \<^item> \<^bold>\<open>Locks\<close>: the list of ranges implements a map from bytes to locks, and writers exclude others.
  \<^item> \<^bold>\<open>Network\<close>: the reader of a connection gets the guest's stream; frames parse to what they were built
    from; the host is reached only as the settings allow; only the guest's own traffic is accepted and
    frames go only to the guest; name-server responses are exact.
  \<^item> \<^bold>\<open>Booting\<close>: readers written after the formats find in a device tree and in a ramdisk what they were
    built from; a boot plan says truly where kernel, ramdisk, command line, tables and device tree lie; the
    cache of extracted images cannot be observed.
  \<^item> \<^bold>\<open>Defects\<close>: theorems that exhibit where the code departs from its intent: a panic on wrapping guest
    ranges, loops that a guest can make endless, TCP data lost or cut off, sequence numbers compared
    without wrap-around, stale bytes in reply frames, and a ramdisk placed over the kernel.

  \<^bold>\<open>Not modelled\<close>

  The creation of machines and the loops that run virtual processors (system calls and goroutines);
  the interval timer, PCI bus, keyboard controller and clock of the PC; the network, filesystem, GPU and
  input devices of virtio and the image formats behind them (host file I/O and display); the walk over a
  host directory that collects a ramdisk's files;
  the deadlines, the copying goroutines of TCP proxies, the capture file and the debug endpoint of the
  network stack; OCI download; the desktop and terminal applications. Elapsed time enters only as an
  argument of the operations that read the clock.
\<close>

end
